(* ===== verification/Logger_Prelude.thy ===== *)
theory Logger_Prelude
  imports Main "HOL-Library.Word" "HOL-Library.Monad_Syntax"
begin

text \<open>
  Shared vocabulary of the development: the machine integer types of the C++ code, the
  fact collections the component theories add to, arithmetic on 64-bit positions as long
  as they do not wrap, power-of-two masking, decimal numerals, little-endian byte
  images and overwriting a range of a buffer.
\<close>

unbundle bit_operations_syntax

section \<open>Machine integers\<close>

type_synonym u8 = "8 word"
type_synonym u16 = "16 word"
type_synonym u32 = "32 word"
type_synonym u64 = "64 word"

text \<open>Bytes of a buffer are C++ \<open>char\<close>s; a \<open>bytes\<close> value is the contents of a char array.\<close>

type_synonym bytes = "char list"

named_theorems pos_simps \<open>reading 64-bit ring positions as natural numbers\<close>
named_theorems decimal_simps \<open>evaluating numerals\<close>
named_theorems buffer_simps \<open>stores and loads that stay inside a buffer\<close>

section \<open>Positions that do not wrap\<close>

lemma unat_succ_pos [pos_simps]:
  assumes "unat (h :: u64) < 2 ^ 64 - 1"
  shows "unat (h + 1) = unat h + 1"
  using assms by (simp add: unat_word_ariths)

lemma unat_add_pos [pos_simps]:
  assumes "unat (a :: u64) + unat b < 2 ^ 64"
  shows "unat (a + b) = unat a + unat b"
  using assms by (simp add: unat_word_ariths)

lemma pos_le_iff [pos_simps]: "(a :: u64) \<le> b \<longleftrightarrow> unat a \<le> unat b"
  by (rule word_le_nat_alt)

lemma pos_less_iff [pos_simps]: "(a :: u64) < b \<longleftrightarrow> unat a < unat b"
  by (rule word_less_nat_alt)

lemma pos_eq_iff: "(a :: u64) = b \<longleftrightarrow> unat a = unat b"
  by (rule word_unat_eq_iff)

lemma unat_min [pos_simps]: "unat (min (a :: u64) b) = min (unat a) (unat b)"
  by (simp add: min_def word_le_nat_alt)

lemma unat_bound64 [simp]: "unat (a :: u64) < 18446744073709551616"
  using unsigned_less [of a, where 'a = nat] by simp

lemma unat_of_nat64: "p < 2 ^ 64 \<Longrightarrow> unat (of_nat p :: u64) = p"
  by (simp add: unat_of_nat take_bit_nat_eq_self)

section \<open>Masking with a power of two minus one\<close>

lemma unat_and_mask [pos_simps]:
  assumes "n = 2 ^ k" and "k < 64"
  shows "unat ((p :: u64) AND (of_nat n - 1)) = unat p mod n"
proof -
  have "of_nat n - 1 = (mask k :: u64)"
    using assms by (simp add: mask_eq_exp_minus_1)
  then have "p AND (of_nat n - 1) = take_bit k p"
    by (simp add: take_bit_eq_mask)
  moreover have "unat (take_bit k p) = take_bit k (unat p)"
    by (simp only: unsigned_take_bit_eq)
  ultimately show ?thesis
    using assms by (simp only: take_bit_eq_mod)
qed

text \<open>Two positions less than one lap apart lie in different slots.\<close>

lemma mod_apart:
  assumes "(a :: nat) < b" and "b < a + n"
  shows "a mod n \<noteq> b mod n"
proof
  assume "a mod n = b mod n"
  then have "n dvd b - a"
    using assms(1) by (metis less_imp_le mod_eq_dvd_iff_nat)
  then show False
    using assms by (auto dest!: dvd_imp_le)
qed

lemma mod_lap_eq:
  assumes "(a :: nat) mod n = b mod n" and "a \<le> b" and "b < a + n"
  shows "a = b"
  using mod_apart [of a b n] assms by fastforce

lemma mod_lap_eq_sym:
  assumes "(a :: nat) mod n = b mod n" and "h \<le> a + n" and "h \<le> b + n" and "a < h" and "b < h"
  shows "a = b"
proof (cases "a \<le> b")
  case True
  then show ?thesis using assms mod_lap_eq [of a n b] by simp
next
  case False
  then show ?thesis using assms mod_lap_eq [of b n a] by simp
qed

section \<open>Stores and loads inside a buffer\<close>

text \<open>
  A store or load outside the buffer is undefined behaviour in C++; here it is \<open>None\<close>, so
  a result \<open>Some\<close> says that every access was in bounds.
\<close>

definition overwrite :: "nat \<Rightarrow> 'a list \<Rightarrow> 'a list \<Rightarrow> 'a list" where
  "overwrite off ys xs = take off xs @ ys @ drop (off + length ys) xs"

definition store_at :: "bytes \<Rightarrow> nat \<Rightarrow> bytes \<Rightarrow> bytes option" where
  "store_at buf off ys =
     (if off + length ys \<le> length buf then Some (overwrite off ys buf) else None)"

definition load_at :: "bytes \<Rightarrow> nat \<Rightarrow> nat \<Rightarrow> bytes option" where
  "load_at buf off n = (if off + n \<le> length buf then Some (take n (drop off buf)) else None)"

text \<open>\<open>memcpy(dst + d, src + s, n)\<close> between two buffers.\<close>

definition memcpy :: "bytes \<Rightarrow> nat \<Rightarrow> bytes \<Rightarrow> nat \<Rightarrow> nat \<Rightarrow> bytes option" where
  "memcpy dst d src s n = do { ys \<leftarrow> load_at src s n; store_at dst d ys }"

lemma length_overwrite [simp]:
  "off + length ys \<le> length xs \<Longrightarrow> length (overwrite off ys xs) = length xs"
  by (simp add: overwrite_def)

lemma overwrite_Nil [simp]: "overwrite off [] xs = xs"
  by (simp add: overwrite_def)

lemma overwrite_append [buffer_simps]:
  "off = length pre \<Longrightarrow> overwrite off ys (pre @ rest) = pre @ ys @ drop (length ys) rest"
  by (simp add: overwrite_def)

lemma overwrite_overwrite:
  assumes "off + length ys \<le> length xs"
  shows "overwrite (off + length ys) zs (overwrite off ys xs) = overwrite off (ys @ zs) xs"
  using assms by (simp add: overwrite_def ac_simps)

lemma store_at_in [buffer_simps]:
  "off + length ys \<le> length buf \<Longrightarrow> store_at buf off ys = Some (overwrite off ys buf)"
  by (simp add: store_at_def)

lemma store_at_append [buffer_simps]:
  "off = length pre \<Longrightarrow> length ys \<le> length rest \<Longrightarrow>
    store_at (pre @ rest) off ys = Some (pre @ ys @ drop (length ys) rest)"
  by (simp add: store_at_def overwrite_append)

lemma load_at_in [buffer_simps]:
  "off + n \<le> length buf \<Longrightarrow> load_at buf off n = Some (take n (drop off buf))"
  by (simp add: load_at_def)

lemma memcpy_in [buffer_simps]:
  "s + n \<le> length src \<Longrightarrow> d + n \<le> length dst \<Longrightarrow>
    memcpy dst d src s n = Some (overwrite d (take n (drop s src)) dst)"
  by (simp add: memcpy_def buffer_simps)

section \<open>Little-endian images of integers\<close>

fun le_image :: "nat \<Rightarrow> nat \<Rightarrow> bytes" where
  "le_image 0 n = []"
| "le_image (Suc k) n = char_of (n mod 256) # le_image k (n div 256)"

fun le_value :: "bytes \<Rightarrow> nat" where
  "le_value [] = 0"
| "le_value (c # cs) = of_char c + 256 * le_value cs"

lemma length_le_image [simp]: "length (le_image k n) = k"
  by (induction k arbitrary: n) simp_all

lemma char_byte: "(of_char c :: nat) < 256"
proof (cases c)
  case (Char b0 b1 b2 b3 b4 b5 b6 b7)
  have "(of_char c :: nat) = horner_sum of_bool 2 [b0, b1, b2, b3, b4, b5, b6, b7]"
    unfolding Char by (simp only: of_char_Char)
  also have "\<dots> < 2 ^ length [b0, b1, b2, b3, b4, b5, b6, b7]"
    by (rule horner_sum_of_bool_2_less)
  finally show ?thesis by simp
qed

lemma le_value_image: "n < 256 ^ k \<Longrightarrow> le_value (le_image k n) = n"
proof (induction k arbitrary: n)
  case (Suc k)
  then have "n div 256 < 256 ^ k" by (simp add: less_mult_imp_div_less mult.commute)
  then show ?case using Suc.IH [of "n div 256"] by simp
qed simp

lemma le_image_value: "le_image (length cs) (le_value cs) = cs"
proof (induction cs)
  case (Cons c cs)
  have "(of_char c :: nat) < 256" by (rule char_byte)
  then have "(of_char c + 256 * le_value cs) mod 256 = (of_char c :: nat)"
    "(of_char c + 256 * le_value cs) div 256 = le_value cs" by simp_all
  then show ?case using Cons.IH by simp
qed simp

lemma digit_bound: "a < b \<Longrightarrow> x < (256 :: nat) \<Longrightarrow> x + 256 * a < 256 * b"
  by linarith

lemma le_value_zeros [simp]: "le_value (replicate k (CHR 0x00)) = 0"
  by (induction k) simp_all

lemma le_value_bound: "le_value cs < 256 ^ length cs"
proof (induction cs)
  case (Cons c cs)
  show ?case
    unfolding le_value.simps length_Cons power_Suc by (rule digit_bound [OF Cons.IH char_byte])
qed simp

section \<open>Decimal numerals\<close>

definition digit_char :: "nat \<Rightarrow> char" where
  "digit_char d = char_of (48 + d)"

definition digit_value :: "char \<Rightarrow> nat" where
  "digit_value c = of_char c - 48"

fun decimal_value :: "bytes \<Rightarrow> nat \<Rightarrow> nat" where
  "decimal_value [] a = a"
| "decimal_value (c # cs) a = decimal_value cs (10 * a + digit_value c)"

text \<open>The numeral without leading zeros, and the numeral of fixed width \<open>k\<close>.\<close>

fun dec_numeral :: "nat \<Rightarrow> bytes" where
  "dec_numeral n = (if n < 10 then [digit_char n] else dec_numeral (n div 10) @ [digit_char (n mod 10)])"

declare dec_numeral.simps [simp del]

fun dec_padded :: "nat \<Rightarrow> nat \<Rightarrow> bytes" where
  "dec_padded 0 n = []"
| "dec_padded (Suc k) n = dec_padded k (n div 10) @ [digit_char (n mod 10)]"

lemma length_dec_padded [simp]: "length (dec_padded k n) = k"
  by (induction k arbitrary: n) simp_all

lemma digit_value_char [simp]: "d < 10 \<Longrightarrow> digit_value (digit_char d) = d"
  by (simp add: digit_value_def digit_char_def)

lemma decimal_value_append: "decimal_value (xs @ ys) a = decimal_value ys (decimal_value xs a)"
  by (induction xs arbitrary: a) simp_all

lemma decimal_value_numeral: "decimal_value (dec_numeral n) 0 = n"
proof (induction n rule: dec_numeral.induct)
  case (1 n)
  then show ?case
    by (cases "n < 10") (simp_all add: dec_numeral.simps [of n] decimal_value_append)
qed

lemma decimal_value_padded: "n < 10 ^ k \<Longrightarrow> decimal_value (dec_padded k n) 0 = n"
proof (induction k arbitrary: n)
  case (Suc k)
  then have "n div 10 < 10 ^ k" by (simp add: less_mult_imp_div_less mult.commute)
  then show ?case using Suc.IH [of "n div 10"] by (simp add: decimal_value_append)
qed simp

lemma length_dec_numeral: "n < 10 ^ k \<Longrightarrow> 0 < k \<Longrightarrow> length (dec_numeral n) \<le> k"
proof (induction k arbitrary: n)
  case (Suc k)
  show ?case
  proof (cases "n < 10")
    case True
    then show ?thesis by (simp add: dec_numeral.simps [of n])
  next
    case False
    then have "n div 10 < 10 ^ k" "0 < k"
      using Suc.prems by (auto simp: less_mult_imp_div_less mult.commute intro!: gr0I)
    then show ?thesis using Suc.IH [of "n div 10"] False by (simp add: dec_numeral.simps [of n])
  qed
qed simp

lemma dec_numeral_nonempty: "dec_numeral n \<noteq> []"
  by (simp add: dec_numeral.simps [of n])

lemma dec_numeral_inject: "dec_numeral m = dec_numeral n \<longleftrightarrow> m = n"
  by (metis decimal_value_numeral)

text \<open>Evaluating numerals digit by digit.\<close>

lemma digit_chars [decimal_simps]:
  "digit_char 0 = CHR ''0''" "digit_char 1 = CHR ''1''" "digit_char 2 = CHR ''2''"
  "digit_char 3 = CHR ''3''" "digit_char 4 = CHR ''4''" "digit_char 5 = CHR ''5''"
  "digit_char 6 = CHR ''6''" "digit_char 7 = CHR ''7''" "digit_char 8 = CHR ''8''"
  "digit_char 9 = CHR ''9''" "digit_char (Suc 0) = CHR ''1''"
  by code_simp+

lemma dec_padded_step [decimal_simps]:
  "dec_padded (numeral k) n = dec_padded (pred_numeral k) (n div 10) @ [digit_char (n mod 10)]"
  using dec_padded.simps(2) [of "pred_numeral k" n] by (simp only: numeral_eq_Suc [of k, symmetric])

lemma dec_numeral_digit: "n < 10 \<Longrightarrow> dec_numeral n = [digit_char n]"
  by (simp add: dec_numeral.simps [of n])

lemma dec_numeral_step [decimal_simps]:
  "dec_numeral (numeral k) = (if (numeral k :: nat) < 10 then [digit_char (numeral k)]
     else dec_numeral (numeral k div 10) @ [digit_char (numeral k mod 10)])"
  by (rule dec_numeral.simps)

lemma dec_numeral_small [decimal_simps]:
  "dec_numeral 0 = [digit_char 0]" "dec_numeral (Suc 0) = [digit_char (Suc 0)]"
  by (rule dec_numeral_digit; simp)+

end
