(* ===== verification/Queue_Contract.thy ===== *)
theory Queue_Contract
  imports Logger_Prelude
begin

text \<open>
  What the logger relies on when it uses a ring buffer: a bounded broadcast queue. Every
  registered consumer has its own backlog, an accepted push appends to all of them, a pop
  takes the oldest entry of one backlog, and a push is refused exactly when some backlog
  is at capacity. The contract is a locale; the three ring buffers of the repository are
  interpretations of it (\<open>Mpmc_Queue\<close>, \<open>Legacy_Queue\<close>, \<open>Original_Queue\<close>). The budget
  argument of the invariant counts the pushes that can still be accepted before 64-bit positions wrap.
\<close>

section \<open>Runs of queue operations\<close>

datatype 'a qop = Push 'a | Pop u32

text \<open>
  A run performs a list of calls one after the other and records the accepted items, in
  order, and the items received, each with the consumer that received it.
\<close>

fun run_ops ::
  "('a \<Rightarrow> 'q \<Rightarrow> bool \<times> 'q) \<Rightarrow> (u32 \<Rightarrow> 'q \<Rightarrow> 'a option \<times> 'q) \<Rightarrow> 'a qop list \<Rightarrow> 'q
    \<Rightarrow> 'a list \<times> (u32 \<times> 'a) list \<times> 'q" where
  "run_ops push pop [] q = ([], [], q)"
| "run_ops push pop (Push x # ops) q =
     (let (ok, q1) = push x q; (acc, rcv, q2) = run_ops push pop ops q1
      in ((if ok then x # acc else acc), rcv, q2))"
| "run_ops push pop (Pop c # ops) q =
     (let (r, q1) = pop c q; (acc, rcv, q2) = run_ops push pop ops q1
      in (acc, (case r of None \<Rightarrow> rcv | Some x \<Rightarrow> (c, x) # rcv), q2))"

definition received_by :: "u32 \<Rightarrow> (u32 \<times> 'a) list \<Rightarrow> 'a list" where
  "received_by c rcv = map snd (filter (\<lambda>e. fst e = c) rcv)"

lemma received_by_simps [simp]:
  "received_by c [] = []"
  "received_by c ((d, x) # rcv) = (if d = c then x # received_by c rcv else received_by c rcv)"
  by (simp_all add: received_by_def)

text \<open>Popping one consumer until it reports an empty queue, at most \<open>n\<close> times.\<close>

fun pop_upto :: "('q \<Rightarrow> 'a option \<times> 'q) \<Rightarrow> nat \<Rightarrow> 'q \<Rightarrow> 'a list \<times> 'q" where
  "pop_upto pop1 0 q = ([], q)"
| "pop_upto pop1 (Suc n) q =
     (case pop1 q of
        (None, q1) \<Rightarrow> ([], q1)
      | (Some x, q1) \<Rightarrow> (let (xs, q2) = pop_upto pop1 n q1 in (x # xs, q2)))"

section \<open>The contract\<close>

locale broadcast_queue =
  fixes inv :: "nat \<Rightarrow> 'q \<Rightarrow> bool"
    and push :: "'a \<Rightarrow> 'q \<Rightarrow> bool \<times> 'q"
    and pop :: "u32 \<Rightarrow> 'q \<Rightarrow> 'a option \<times> 'q"
    and live :: "'q \<Rightarrow> u32 \<Rightarrow> bool"
    and pending :: "'q \<Rightarrow> u32 \<Rightarrow> 'a list"
    and cap :: "'q \<Rightarrow> nat"
  assumes inv_mono: "inv (Suc b) q \<Longrightarrow> inv b q"
    and push_true: "\<lbrakk>inv (Suc b) q; push x q = (True, q')\<rbrakk> \<Longrightarrow>
      inv b q' \<and> live q' = live q \<and> cap q' = cap q
      \<and> (\<forall>c. live q c \<longrightarrow> pending q' c = pending q c @ [x])"
    and push_false: "\<lbrakk>inv b q; push x q = (False, q')\<rbrakk> \<Longrightarrow>
      inv b q' \<and> live q' = live q \<and> cap q' = cap q \<and> pending q' = pending q"
    and push_room: "\<lbrakk>inv b q; live q c\<rbrakk> \<Longrightarrow>
      fst (push x q) \<longleftrightarrow> (\<forall>d. live q d \<longrightarrow> length (pending q d) < cap q)"
    and pop_live: "\<lbrakk>inv b q; live q c; pop c q = (r, q')\<rbrakk> \<Longrightarrow>
      inv b q' \<and> live q' = live q \<and> cap q' = cap q
      \<and> r = (case pending q c of [] \<Rightarrow> None | x # _ \<Rightarrow> Some x)
      \<and> pending q' c = tl (pending q c) \<and> (\<forall>d. d \<noteq> c \<longrightarrow> pending q' d = pending q d)"
    and pop_dead: "\<lbrakk>inv b q; \<not> live q c; unat c < 32\<rbrakk> \<Longrightarrow> pop c q = (None, q)"
    and backlog_bound: "\<lbrakk>inv b q; live q c\<rbrakk> \<Longrightarrow> length (pending q c) \<le> cap q"
begin

lemma inv_mono_add: "inv (b + k) q \<Longrightarrow> inv b q"
  by (induction k) (auto dest: inv_mono)

lemma inv_mono_le: "inv b q \<Longrightarrow> a \<le> b \<Longrightarrow> inv a q"
  using inv_mono_add [of a "b - a" q] by simp

lemma push_any:
  assumes "inv (Suc b) q" and "push x q = (ok, q')" and "live q c"
  shows "inv b q' \<and> live q' = live q \<and> cap q' = cap q
    \<and> pending q' c = pending q c @ (if ok then [x] else [])"
  using assms push_true [of b q x q'] push_false [of b q x q'] inv_mono [of b q]
  by (cases ok) auto

text \<open>
  Conservation: over any run of pushes and pops, what a consumer had pending followed by
  what was accepted is what it received followed by what it still has pending.
\<close>

lemma run_conserves:
  assumes "inv (length ops) q" and "live q c" and "\<forall>d. Pop d \<in> set ops \<longrightarrow> unat d < 32"
    and "run_ops push pop ops q = (acc, rcv, q')"
  shows "pending q c @ acc = received_by c rcv @ pending q' c
    \<and> live q' c \<and> inv 0 q' \<and> cap q' = cap q"
  using assms
proof (induction ops arbitrary: q acc rcv q')
  case Nil
  then show ?case by simp
next
  case (Cons p ops)
  show ?case
  proof (cases p)
    case (Push x)
    obtain ok q1 where p1: "push x q = (ok, q1)" by fastforce
    obtain acc' rcv' where r1: "run_ops push pop ops q1 = (acc', rcv', q')"
      and eqs: "acc = (if ok then x # acc' else acc')" "rcv = rcv'"
      using Cons.prems(4) Push p1 by (auto split: prod.splits)
    have s: "inv (length ops) q1 \<and> live q1 = live q \<and> cap q1 = cap q
        \<and> pending q1 c = pending q c @ (if ok then [x] else [])"
      using push_any [of "length ops" q x ok q1 c] Cons.prems p1 by simp
    have "pending q1 c @ acc' = received_by c rcv' @ pending q' c
        \<and> live q' c \<and> inv 0 q' \<and> cap q' = cap q1"
      using Cons.IH [OF _ _ _ r1] s Cons.prems(2,3) by simp
    then show ?thesis using s eqs by (auto split: if_splits)
  next
    case (Pop d)
    obtain r q1 where p1: "pop d q = (r, q1)" by fastforce
    obtain acc' rcv' where r1: "run_ops push pop ops q1 = (acc', rcv', q')"
      and eqs: "acc = acc'" "rcv = (case r of None \<Rightarrow> rcv' | Some x \<Rightarrow> (d, x) # rcv')"
      using Cons.prems(4) Pop p1 by (auto split: prod.splits)
    have b: "inv (length ops) q" using Cons.prems(1) inv_mono by simp
    have s: "inv (length ops) q1 \<and> live q1 c \<and> cap q1 = cap q
        \<and> pending q c = (case r of Some x \<Rightarrow> if d = c then [x] else [] | None \<Rightarrow> []) @ pending q1 c"
    proof (cases "live q d")
      case True
      then show ?thesis
        using pop_live [OF b True p1] Cons.prems(2)
        by (cases "d = c") (auto split: list.splits)
    next
      case False
      then show ?thesis
        using pop_dead [OF b False] p1 Cons.prems(2,3) b Pop by auto
    qed
    have "pending q1 c @ acc' = received_by c rcv' @ pending q' c
        \<and> live q' c \<and> inv 0 q' \<and> cap q' = cap q1"
      using Cons.IH [OF _ _ _ r1] s Cons.prems(3) by simp
    then show ?thesis using s eqs by (auto split: option.splits)
  qed
qed

text \<open>Draining one consumer returns its backlog in order.\<close>

lemma drain_takes:
  assumes "inv b q" and "live q c"
  shows "\<exists>q'. pop_upto (pop c) n q = (take n (pending q c), q') \<and> inv b q' \<and> live q' = live q
    \<and> cap q' = cap q \<and> pending q' c = drop n (pending q c)
    \<and> (\<forall>d. d \<noteq> c \<longrightarrow> pending q' d = pending q d)"
  using assms
proof (induction n arbitrary: q)
  case 0
  then show ?case by simp
next
  case (Suc n)
  obtain r q1 where p1: "pop c q = (r, q1)" by fastforce
  note s = pop_live [OF Suc.prems p1]
  show ?case
  proof (cases "pending q c")
    case Nil
    then show ?thesis using s p1 by auto
  next
    case (Cons x xs)
    then have "\<exists>q'. pop_upto (pop c) n q1 = (take n xs, q') \<and> inv b q' \<and> live q' = live q1
        \<and> cap q' = cap q1 \<and> pending q' c = drop n xs
        \<and> (\<forall>d. d \<noteq> c \<longrightarrow> pending q' d = pending q1 d)"
      using Suc.IH [of q1] Suc.prems s by auto
    then show ?thesis using s p1 Cons by auto
  qed
qed

end

end
