(* ===== verification/Mpmc_Queue.thy ===== *)
theory Mpmc_Queue
  imports Queue_Contract
begin

text \<open>
  The ring buffer \<open>MPMCQueue\<close> of include/mpmc_logger/mpmc_queue.hpp, one call at a time:
  its structs as records, each atomic load or store as a field read or update, the calls
  \<open>push\<close>, \<open>pop\<close>, \<open>register_consumer\<close>, \<open>unregister_consumer\<close> and the minimum-tail scan.
  The template parameter \<open>SIZE\<close> is the length of the slot array. The theory proves the
  ring invariant, the equality of the four-accumulator scan with a plain minimum, and
  that the queue implements the contract of \<open>Queue_Contract\<close>. The same calls split into
  their single memory accesses, interleaved between threads, are in \<open>Mpmc_Concurrent\<close>.
\<close>

section \<open>Data\<close>

definition MAX_CONSUMERS :: u32 where
  "MAX_CONSUMERS = 32"

definition INVALID_POS :: u64 where
  "INVALID_POS = - 1"

record 'a Slot =
  sequence :: u64
  data :: 'a

record ConsumerInfo =
  tail :: u64
  active :: bool

record ProducerInfo =
  head :: u64

record MetaInfo =
  num_consumers :: u32
  min_tail :: u64

record 'a MPMCQueue =
  consumers :: "ConsumerInfo list"
  producer :: ProducerInfo
  meta :: MetaInfo
  slots :: "'a Slot list"

text \<open>The two \<open>static_assert\<close>s on the template parameter, on a 64-bit \<open>size_t\<close>.\<close>

definition valid_size :: "nat \<Rightarrow> bool" where
  "valid_size n \<longleftrightarrow> n < 2 ^ 64 \<and> (of_nat n :: u64) AND (of_nat n - 1) = 0 \<and> 16 \<le> n"

definition SIZE :: "'a MPMCQueue \<Rightarrow> u64" where
  "SIZE q = of_nat (length (slots q))"

definition INDEX_MASK :: "'a MPMCQueue \<Rightarrow> u64" where
  "INDEX_MASK q = SIZE q - 1"

text \<open>The accessors of the class and the single stores the operations are made of.\<close>

definition queue_head :: "'a MPMCQueue \<Rightarrow> u64" where
  "queue_head q = head (producer q)"

definition queue_tail :: "'a MPMCQueue \<Rightarrow> u32 \<Rightarrow> u64" where
  "queue_tail q c = tail (consumers q ! unat c)"

definition queue_num_consumers :: "'a MPMCQueue \<Rightarrow> u32" where
  "queue_num_consumers q = num_consumers (meta q)"

definition capacity :: "'a MPMCQueue \<Rightarrow> u64" where
  "capacity q = SIZE q"

definition is_active :: "'a MPMCQueue \<Rightarrow> u32 \<Rightarrow> bool" where
  "is_active q c = active (consumers q ! unat c)"

definition cached_min :: "'a MPMCQueue \<Rightarrow> u64" where
  "cached_min q = min_tail (meta q)"

definition slot_index :: "'a MPMCQueue \<Rightarrow> u64 \<Rightarrow> nat" where
  "slot_index q p = unat (p AND INDEX_MASK q)"

definition store_head :: "u64 \<Rightarrow> 'a MPMCQueue \<Rightarrow> 'a MPMCQueue" where
  "store_head h q = q\<lparr>producer := (producer q)\<lparr>head := h\<rparr>\<rparr>"

definition store_min_tail :: "u64 \<Rightarrow> 'a MPMCQueue \<Rightarrow> 'a MPMCQueue" where
  "store_min_tail m q = q\<lparr>meta := (meta q)\<lparr>min_tail := m\<rparr>\<rparr>"

definition store_num_consumers :: "u32 \<Rightarrow> 'a MPMCQueue \<Rightarrow> 'a MPMCQueue" where
  "store_num_consumers n q = q\<lparr>meta := (meta q)\<lparr>num_consumers := n\<rparr>\<rparr>"

definition store_tail :: "u32 \<Rightarrow> u64 \<Rightarrow> 'a MPMCQueue \<Rightarrow> 'a MPMCQueue" where
  "store_tail c t q =
     q\<lparr>consumers := (consumers q)[unat c := (consumers q ! unat c)\<lparr>tail := t\<rparr>]\<rparr>"

definition store_active :: "u32 \<Rightarrow> bool \<Rightarrow> 'a MPMCQueue \<Rightarrow> 'a MPMCQueue" where
  "store_active c a q =
     q\<lparr>consumers := (consumers q)[unat c := (consumers q ! unat c)\<lparr>active := a\<rparr>]\<rparr>"

definition store_data :: "nat \<Rightarrow> 'a \<Rightarrow> 'a MPMCQueue \<Rightarrow> 'a MPMCQueue" where
  "store_data i x q = q\<lparr>slots := (slots q)[i := (slots q ! i)\<lparr>data := x\<rparr>]\<rparr>"

definition store_sequence :: "nat \<Rightarrow> u64 \<Rightarrow> 'a MPMCQueue \<Rightarrow> 'a MPMCQueue" where
  "store_sequence i p q = q\<lparr>slots := (slots q)[i := (slots q ! i)\<lparr>sequence := p\<rparr>]\<rparr>"

lemmas accessor_defs = SIZE_def INDEX_MASK_def queue_head_def queue_tail_def cached_min_def
  queue_num_consumers_def is_active_def slot_index_def

lemmas store_defs = store_head_def store_min_tail_def store_num_consumers_def store_tail_def
  store_active_def store_data_def store_sequence_def

section \<open>Operations\<close>

text \<open>
  The constructor. The payload of a fresh slot is whatever \<open>T\<close>'s default constructor
  leaves there (\<open>d\<close>).
\<close>

definition MPMCQueue_new :: "nat \<Rightarrow> 'a \<Rightarrow> 'a MPMCQueue" where
  "MPMCQueue_new n d =
     \<lparr>consumers = replicate (unat MAX_CONSUMERS) \<lparr>tail = 0, active = False\<rparr>,
      producer = \<lparr>head = 0\<rparr>,
      meta = \<lparr>num_consumers = 0, min_tail = 0\<rparr>,
      slots = replicate n \<lparr>sequence = INVALID_POS, data = d\<rparr>\<rparr>"

datatype queue_error = Too_many_consumers

text \<open>
  \<open>register_consumer\<close> claims an id (the \<open>fetch_add\<close> happens before the check, so the
  counter grows also when the call throws), then publishes the consumer at the head.
\<close>

definition publish_consumer :: "u32 \<Rightarrow> u64 \<Rightarrow> 'a MPMCQueue \<Rightarrow> 'a MPMCQueue" where
  "publish_consumer c h q = store_active c True (store_tail c h q)"

definition register_consumer :: "'a MPMCQueue \<Rightarrow> (queue_error + u32) \<times> 'a MPMCQueue" where
  "register_consumer q =
     (let c = queue_num_consumers q; q1 = store_num_consumers (c + 1) q
      in if c \<ge> MAX_CONSUMERS then (Inl Too_many_consumers, q1)
         else (Inr c, publish_consumer c (queue_head q1) q1))"

definition unregister_consumer :: "u32 \<Rightarrow> 'a MPMCQueue \<Rightarrow> 'a MPMCQueue" where
  "unregister_consumer c q = store_active c False q"

text \<open>The minimum-tail scan, four consumers per iteration, each with its own accumulator.\<close>

definition acc_min :: "u64 \<Rightarrow> ConsumerInfo \<Rightarrow> u64" where
  "acc_min m c = (if active c then min m (tail c) else m)"

function min_tail_loop ::
  "ConsumerInfo list \<Rightarrow> nat \<Rightarrow> u64 \<times> u64 \<times> u64 \<times> u64 \<Rightarrow> u64 \<times> u64 \<times> u64 \<times> u64" where
  "min_tail_loop cs i (m0, m1, m2, m3) =
     (if i < unat MAX_CONSUMERS
      then min_tail_loop cs (i + 4)
             (acc_min m0 (cs ! i), acc_min m1 (cs ! (i + 1)),
              acc_min m2 (cs ! (i + 2)), acc_min m3 (cs ! (i + 3)))
      else (m0, m1, m2, m3))"
  by pat_completeness auto
termination
  by (relation "measure (\<lambda>(cs, i, m). unat MAX_CONSUMERS - i)") auto

declare min_tail_loop.simps [simp del]

definition merge_mins :: "u64 \<times> u64 \<times> u64 \<times> u64 \<Rightarrow> u64" where
  "merge_mins m =
     (case m of (m0, m1, m2, m3) \<Rightarrow>
        let result = min (min m0 m1) (min m2 m3)
        in if result = INVALID_POS then 0 else result)"

definition compute_min_tail :: "'a MPMCQueue \<Rightarrow> u64" where
  "compute_min_tail q =
     merge_mins (min_tail_loop (consumers q) 0 (INVALID_POS, INVALID_POS, INVALID_POS, INVALID_POS))"

definition recompute_and_store_min_tail :: "'a MPMCQueue \<Rightarrow> 'a MPMCQueue" where
  "recompute_and_store_min_tail q = store_min_tail (compute_min_tail q) q"

text \<open>
  The full check of one iteration of \<open>push\<close>: against the cached minimum first, and only
  when that says full against a recomputed one, which is cached when it differs.
\<close>

definition full_check :: "u64 \<Rightarrow> 'a MPMCQueue \<Rightarrow> bool \<times> 'a MPMCQueue" where
  "full_check h q =
     (let mt = cached_min q
      in if h \<ge> mt + SIZE q
         then let new_min = compute_min_tail q;
                  q1 = (if new_min \<noteq> mt then store_min_tail new_min q else q);
                  mt1 = (if new_min \<noteq> mt then new_min else mt)
              in (h \<ge> mt1 + SIZE q, q1)
         else (False, q))"

text \<open>After the claim: copy the item into the slot, then store its sequence number.\<close>

definition publish_slot :: "u64 \<Rightarrow> 'a \<Rightarrow> 'a MPMCQueue \<Rightarrow> 'a MPMCQueue" where
  "publish_slot h x q =
     (let index = slot_index q h in store_sequence index h (store_data index x q))"

text \<open>
  \<open>push\<close> of a thread running alone. The list says for each compare-exchange whether the
  weak form fails spuriously; after the list it succeeds. A failed exchange starts the
  loop again, as in the code.
\<close>

fun push :: "bool list \<Rightarrow> 'a \<Rightarrow> 'a MPMCQueue \<Rightarrow> bool \<times> 'a MPMCQueue" where
  "push [] x q =
     (let h = queue_head q; (full, q1) = full_check h q
      in if full then (False, q1) else (True, publish_slot h x (store_head (h + 1) q1)))"
| "push (spurious # fs) x q =
     (let h = queue_head q; (full, q1) = full_check h q
      in if full then (False, q1)
         else if spurious then push fs x q1
         else (True, publish_slot h x (store_head (h + 1) q1)))"

definition pop :: "u32 \<Rightarrow> 'a MPMCQueue \<Rightarrow> 'a option \<times> 'a MPMCQueue" where
  "pop c q =
     (if \<not> is_active q c then (None, q)
      else let t = queue_tail q c; index = slot_index q t; seq = sequence (slots q ! index)
           in if seq \<noteq> t then (None, q)
              else (Some (data (slots q ! index)), store_tail c (t + 1) q))"


section \<open>Field reads after stores\<close>

lemma MAX_CONSUMERS_unat [simp]: "unat MAX_CONSUMERS = 32"
  by (simp add: MAX_CONSUMERS_def)

lemma store_frame [simp]:
  "consumers (store_head h q) = consumers q" "slots (store_head h q) = slots q"
  "meta (store_head h q) = meta q" "producer (store_head h q) = \<lparr>head = h\<rparr>"
  "consumers (store_min_tail m q) = consumers q" "slots (store_min_tail m q) = slots q"
  "producer (store_min_tail m q) = producer q"
  "meta (store_min_tail m q) = (meta q)\<lparr>min_tail := m\<rparr>"
  "consumers (store_num_consumers n q) = consumers q" "slots (store_num_consumers n q) = slots q"
  "producer (store_num_consumers n q) = producer q"
  "meta (store_num_consumers n q) = (meta q)\<lparr>num_consumers := n\<rparr>"
  "consumers (store_tail c t q) = (consumers q)[unat c := (consumers q ! unat c)\<lparr>tail := t\<rparr>]"
  "slots (store_tail c t q) = slots q" "producer (store_tail c t q) = producer q"
  "meta (store_tail c t q) = meta q"
  "consumers (store_active c a q) = (consumers q)[unat c := (consumers q ! unat c)\<lparr>active := a\<rparr>]"
  "slots (store_active c a q) = slots q" "producer (store_active c a q) = producer q"
  "meta (store_active c a q) = meta q"
  "consumers (store_data i x q) = consumers q" "producer (store_data i x q) = producer q"
  "meta (store_data i x q) = meta q"
  "slots (store_data i x q) = (slots q)[i := (slots q ! i)\<lparr>data := x\<rparr>]"
  "consumers (store_sequence i p q) = consumers q" "producer (store_sequence i p q) = producer q"
  "meta (store_sequence i p q) = meta q"
  "slots (store_sequence i p q) = (slots q)[i := (slots q ! i)\<lparr>sequence := p\<rparr>]"
  by (simp_all add: store_defs)

lemma head_reads [simp]:
  "queue_head (store_head h q) = h" "queue_head (store_min_tail m q) = queue_head q"
  "queue_head (store_num_consumers n q) = queue_head q"
  "queue_head (store_tail c t q) = queue_head q" "queue_head (store_active c a q) = queue_head q"
  "queue_head (store_data i x q) = queue_head q" "queue_head (store_sequence i p q) = queue_head q"
  by (simp_all add: queue_head_def)

lemma cached_min_reads [simp]:
  "cached_min (store_head h q) = cached_min q" "cached_min (store_min_tail m q) = m"
  "cached_min (store_num_consumers n q) = cached_min q"
  "cached_min (store_tail c t q) = cached_min q" "cached_min (store_active c a q) = cached_min q"
  "cached_min (store_data i x q) = cached_min q" "cached_min (store_sequence i p q) = cached_min q"
  by (simp_all add: cached_min_def)

section \<open>The sizes the template accepts are the powers of two\<close>

lemma and_pred_zero_power2:
  "0 < n \<Longrightarrow> (n :: nat) AND (n - 1) = 0 \<Longrightarrow> \<exists>k. n = 2 ^ k"
proof (induction n rule: less_induct)
  case (less n)
  show ?case
  proof (cases "even n")
    case True
    then obtain m where m: "n = 2 * m" by (elim evenE)
    have "m > 0" using less.prems m by simp
    then have "n - 1 = 1 + 2 * (m - 1)" using m by simp
    then have "n AND (n - 1) = 2 * (m AND (m - 1))"
      using m by (simp add: and_rec [of "2 * m"])
    then obtain k where "m = 2 ^ k"
      using less.IH [of m] less.prems m \<open>m > 0\<close> by auto
    then have "n = 2 ^ Suc k" using m by simp
    then show ?thesis by blast
  next
    case False
    then obtain m where m: "n = 2 * m + 1" by (elim oddE)
    then have "n AND (n - 1) = 2 * m"
      by (simp add: and_rec [of "Suc (2 * m)"])
    then have "n = 2 ^ 0" using less.prems m by simp
    then show ?thesis by blast
  qed
qed

lemma valid_size_power2: "valid_size n \<Longrightarrow> \<exists>k. n = 2 ^ k \<and> 4 \<le> k \<and> k < 64"
proof -
  assume v: "valid_size n"
  have b: "n < 2 ^ 64" "16 \<le> n" using v by (simp_all add: valid_size_def)
  have "unat ((of_nat n :: u64) - 1) = n - 1"
    using b by (simp add: unat_sub word_le_nat_alt unat_of_nat take_bit_nat_eq_self)
  then have "unat ((of_nat n :: u64) AND (of_nat n - 1)) = n AND (n - 1)"
    using b by (simp add: unsigned_and_eq unat_of_nat take_bit_nat_eq_self)
  then have "n AND (n - 1) = 0"
    using v by (simp add: valid_size_def)
  then obtain k where k: "n = 2 ^ k"
    using and_pred_zero_power2 [of n] b by auto
  have "(2 :: nat) ^ 4 \<le> 2 ^ k" and "(2 :: nat) ^ k < 2 ^ 64"
    using b k by simp_all
  then show ?thesis using k by (simp only: power_increasing_iff power_strict_increasing_iff) auto
qed

lemma slot_index_mod:
  assumes "valid_size (length (slots q))"
  shows "slot_index q p = unat p mod length (slots q)"
proof -
  obtain k where "length (slots q) = 2 ^ k" "k < 64"
    using valid_size_power2 [OF assms] by blast
  then show ?thesis
    unfolding slot_index_def INDEX_MASK_def SIZE_def by (rule unat_and_mask)
qed

lemma unat_SIZE: "valid_size (length (slots q)) \<Longrightarrow> unat (SIZE q) = length (slots q)"
  by (simp add: SIZE_def valid_size_def unat_of_nat take_bit_nat_eq_self)

section \<open>The unrolled scan computes the minimum of the active tails\<close>

definition plain_min :: "ConsumerInfo list \<Rightarrow> u64 \<Rightarrow> u64" where
  "plain_min cs m = fold (\<lambda>c m. acc_min m c) cs m"

lemma plain_min_simps [simp]:
  "plain_min [] m = m" "plain_min (c # cs) m = plain_min cs (acc_min m c)"
  by (simp_all add: plain_min_def)

lemma INVALID_POS_max: "m \<le> INVALID_POS"
  by (simp add: INVALID_POS_def)

lemma acc_min_alt: "acc_min m c = min m (if active c then tail c else INVALID_POS)"
  using INVALID_POS_max [of m] by (simp add: acc_min_def min_absorb1)

lemma acc_min_merge:
  "min (min (acc_min m0 c0) (acc_min m1 c1)) (min (acc_min m2 c2) (acc_min m3 c3))
    = acc_min (acc_min (acc_min (acc_min (min (min m0 m1) (min m2 m3)) c0) c1) c2) c3"
  unfolding acc_min_alt by (simp only: min.assoc min.commute min.left_commute)

lemma drop_four:
  assumes "i + 3 < length cs"
  shows "drop i cs = cs ! i # cs ! (i + 1) # cs ! (i + 2) # cs ! (i + 3) # drop (i + 4) cs"
  using assms Cons_nth_drop_Suc [of i cs] Cons_nth_drop_Suc [of "i + 1" cs]
    Cons_nth_drop_Suc [of "i + 2" cs] Cons_nth_drop_Suc [of "i + 3" cs]
  by (simp add: numeral_eq_Suc)

lemma min_tail_loop_plain:
  assumes "length cs = 32" and "4 dvd i" and "i \<le> 32"
    and "min_tail_loop cs i (m0, m1, m2, m3) = (r0, r1, r2, r3)"
  shows "min (min r0 r1) (min r2 r3) = plain_min (drop i cs) (min (min m0 m1) (min m2 m3))"
  using assms
proof (induction cs i "(m0, m1, m2, m3)" arbitrary: m0 m1 m2 m3 rule: min_tail_loop.induct)
  case (1 cs i m0 m1 m2 m3)
  show ?case
  proof (cases "i < 32")
    case True
    then have "i + 4 \<le> 32" using "1.prems"(2) by (auto elim!: dvdE)
    have "min (min r0 r1) (min r2 r3) = plain_min (drop (i + 4) cs)
        (min (min (acc_min m0 (cs ! i)) (acc_min m1 (cs ! (i + 1))))
             (min (acc_min m2 (cs ! (i + 2))) (acc_min m3 (cs ! (i + 3)))))"
      using "1.hyps" [OF _ "1.prems"(1) _ \<open>i + 4 \<le> 32\<close>] True "1.prems"(2,4)
      by (simp add: min_tail_loop.simps [of cs i])
    then show ?thesis
      using drop_four [of i cs] \<open>i + 4 \<le> 32\<close> "1.prems"(1) by (simp add: acc_min_merge)
  next
    case False
    then have "(r0, r1, r2, r3) = (m0, m1, m2, m3)"
      using "1.prems"(4) by (subst (asm) min_tail_loop.simps) simp
    then show ?thesis using False "1.prems"(1) by simp
  qed
qed

lemma compute_min_tail_plain:
  assumes "length (consumers q) = 32"
  shows "compute_min_tail q =
    (let m = plain_min (consumers q) INVALID_POS in if m = INVALID_POS then 0 else m)"
proof -
  obtain r0 r1 r2 r3 where r: "min_tail_loop (consumers q) 0
      (INVALID_POS, INVALID_POS, INVALID_POS, INVALID_POS) = (r0, r1, r2, r3)"
    by (metis prod_cases4)
  show ?thesis
    using min_tail_loop_plain [OF assms _ _ r] by (simp add: compute_min_tail_def merge_mins_def r)
qed

lemma plain_min_le: "plain_min cs m \<le> m"
proof (induction cs arbitrary: m)
  case (Cons c cs)
  have "acc_min m c \<le> m" by (simp add: acc_min_def)
  then show ?case using Cons.IH [of "acc_min m c"] by (simp add: order_trans)
qed simp

lemma plain_min_lower: "c \<in> set cs \<Longrightarrow> active c \<Longrightarrow> plain_min cs m \<le> tail c"
proof (induction cs arbitrary: m)
  case Nil
  then show ?case by simp
next
  case (Cons d cs)
  have "c = d \<Longrightarrow> plain_min cs (acc_min m d) \<le> tail c"
    using plain_min_le [of cs "acc_min m d"] Cons.prems(2) by (auto simp: acc_min_def)
  then show ?case using Cons by auto
qed

lemma plain_min_attained:
  "plain_min cs m = m \<or> (\<exists>c \<in> set cs. active c \<and> plain_min cs m = tail c)"
proof (induction cs arbitrary: m)
  case Nil
  then show ?case by simp
next
  case (Cons c cs)
  show ?case
    using Cons.IH [of "acc_min m c"] by (auto simp: acc_min_def min_def split: if_splits)
qed

lemma compute_min_tail_lower:
  assumes "length (consumers q) = 32" and "c \<in> set (consumers q)" and "active c"
  shows "compute_min_tail q \<le> tail c"
  using plain_min_lower [OF assms(2,3)] compute_min_tail_plain [OF assms(1)]
  by (simp add: Let_def)

lemma compute_min_tail_attained:
  assumes "length (consumers q) = 32"
  shows "compute_min_tail q = 0 \<or> (\<exists>c \<in> set (consumers q). active c \<and> compute_min_tail q = tail c)"
  using plain_min_attained [of "consumers q" INVALID_POS] compute_min_tail_plain [OF assms]
  by (auto simp: Let_def)

section \<open>The ring invariant\<close>

text \<open>
  With \<open>b\<close> pushes of budget left: positions stay below the reserved sequence number; the
  cached minimum and every active tail are at most the head, and the head is at most one
  lap ahead of every active tail; the slot of each of the last \<open>SIZE\<close> positions carries
  that position's sequence number; slots not yet reached carry \<open>INVALID_POS\<close>.
\<close>

definition queue_inv :: "nat \<Rightarrow> 'a MPMCQueue \<Rightarrow> bool" where
  "queue_inv b q \<longleftrightarrow>
     (let n = length (slots q); h = unat (queue_head q)
      in valid_size n \<and> length (consumers q) = 32 \<and> h + n + b < 2 ^ 64 - 1
       \<and> unat (cached_min q) \<le> h
       \<and> (\<forall>c \<in> set (consumers q). active c \<longrightarrow>
            unat (cached_min q) \<le> unat (tail c) \<and> unat (tail c) \<le> h \<and> h \<le> unat (tail c) + n)
       \<and> (\<forall>p < h. h \<le> p + n \<longrightarrow> sequence (slots q ! (p mod n)) = of_nat p)
       \<and> (\<forall>i < n. h \<le> i \<longrightarrow> sequence (slots q ! i) = INVALID_POS))"

definition live :: "'a MPMCQueue \<Rightarrow> u32 \<Rightarrow> bool" where
  "live q c \<longleftrightarrow> unat c < length (consumers q) \<and> is_active q c"

text \<open>What consumer \<open>c\<close> has still to read, oldest first.\<close>

definition pending :: "'a MPMCQueue \<Rightarrow> u32 \<Rightarrow> 'a list" where
  "pending q c = map (\<lambda>p. data (slots q ! (p mod length (slots q))))
                   [unat (queue_tail q c) ..< unat (queue_head q)]"

definition ring_capacity :: "'a MPMCQueue \<Rightarrow> nat" where
  "ring_capacity q = length (slots q)"

lemma queue_invD:
  assumes "queue_inv b q"
  shows "valid_size (length (slots q))" "length (consumers q) = 32"
    "unat (queue_head q) + length (slots q) + b < 2 ^ 64 - 1"
    "unat (cached_min q) \<le> unat (queue_head q)"
    "0 < length (slots q)"
  using assms by (auto simp: queue_inv_def Let_def valid_size_def)

lemma queue_inv_active:
  assumes "queue_inv b q" and "c \<in> set (consumers q)" and "active c"
  shows "unat (cached_min q) \<le> unat (tail c)" "unat (tail c) \<le> unat (queue_head q)"
    "unat (queue_head q) \<le> unat (tail c) + length (slots q)"
  using assms by (auto simp: queue_inv_def Let_def)

lemma queue_inv_seq:
  assumes "queue_inv b q" and "p < unat (queue_head q)"
    and "unat (queue_head q) \<le> p + length (slots q)"
  shows "sequence (slots q ! (p mod length (slots q))) = of_nat p"
  using assms by (auto simp: queue_inv_def Let_def)

lemma queue_inv_unused:
  assumes "queue_inv b q" and "i < length (slots q)" and "unat (queue_head q) \<le> i"
  shows "sequence (slots q ! i) = INVALID_POS"
  using assms by (auto simp: queue_inv_def Let_def)

lemma live_consumer:
  assumes "queue_inv b q" and "live q c"
  shows "consumers q ! unat c \<in> set (consumers q)" "active (consumers q ! unat c)"
    "unat c < 32" "queue_tail q c = tail (consumers q ! unat c)"
  using assms queue_invD(2) [OF assms(1)]
  by (auto simp: live_def is_active_def queue_tail_def)

lemma live_bounds:
  assumes "queue_inv b q" and "live q c"
  shows "unat (queue_tail q c) \<le> unat (queue_head q)"
    "unat (queue_head q) \<le> unat (queue_tail q c) + length (slots q)"
    "unat (cached_min q) \<le> unat (queue_tail q c)"
  using queue_inv_active [OF assms(1) live_consumer(1,2) [OF assms]] live_consumer(4) [OF assms]
  by simp_all

lemma active_live:
  assumes "queue_inv b q" and "c \<in> set (consumers q)" and "active c"
  shows "\<exists>d. live q d \<and> queue_tail q d = tail c"
proof -
  obtain i where i: "i < 32" "c = consumers q ! i"
    using assms(2) queue_invD(2) [OF assms(1)] by (metis in_set_conv_nth)
  then have "unat (of_nat i :: u32) = i" by (simp add: unat_of_nat take_bit_nat_eq_self)
  then show ?thesis
    using i assms queue_invD(2) [OF assms(1)]
    by (intro exI [of _ "of_nat i"]) (simp add: live_def is_active_def queue_tail_def)
qed

lemma queue_inv_mono: "queue_inv (Suc b) q \<Longrightarrow> queue_inv b q"
  by (auto simp: queue_inv_def Let_def)

lemma queue_inv_new:
  assumes "valid_size n" and "n + b < 2 ^ 64 - 1"
  shows "queue_inv b (MPMCQueue_new n d)"
  using assms by (simp add: queue_inv_def MPMCQueue_new_def queue_head_def cached_min_def)

lemma live_stores [simp]:
  "live (store_head h q) = live q" "live (store_min_tail m q) = live q"
  "live (store_num_consumers n q) = live q" "live (store_data i x q) = live q"
  "live (store_sequence i p q) = live q"
  by (simp_all add: live_def is_active_def fun_eq_iff)

lemma tail_stores [simp]:
  "queue_tail (store_head h q) = queue_tail q" "queue_tail (store_min_tail m q) = queue_tail q"
  "queue_tail (store_num_consumers n q) = queue_tail q"
  "queue_tail (store_data i x q) = queue_tail q" "queue_tail (store_sequence i p q) = queue_tail q"
  by (simp_all add: queue_tail_def fun_eq_iff)

lemma consumer_after_update [simp]:
  "active (cs[i := (cs ! i)\<lparr>tail := t\<rparr>] ! j) = active (cs ! j)"
  "tail (cs[i := (cs ! i)\<lparr>active := a\<rparr>] ! j) = tail (cs ! j)"
  by (cases "i < length cs"; cases "i = j"; simp add: list_update_beyond)+

lemma live_store_tail [simp]: "live (store_tail c t q) = live q"
  by (simp add: live_def is_active_def fun_eq_iff)

lemma queue_tail_store_tail:
  "unat c < length (consumers q) \<Longrightarrow>
    queue_tail (store_tail c t q) d = (if d = c then t else queue_tail q d)"
  by (simp add: queue_tail_def nth_list_update word_unat_eq_iff)

lemma live_store_active:
  "live (store_active c a q) d
    = (if d = c then unat c < length (consumers q) \<and> a else live q d)"
  by (cases "d = c") (auto simp: live_def is_active_def word_unat_eq_iff)

lemma queue_tail_store_active [simp]: "queue_tail (store_active c a q) = queue_tail q"
  by (simp add: queue_tail_def fun_eq_iff)

section \<open>Push\<close>

lemma unat_cached_plus_size:
  assumes "queue_inv b q" and "unat m \<le> unat (queue_head q)"
  shows "unat (m + SIZE q) = unat m + length (slots q)"
  using assms queue_invD [OF assms(1)]
  by (simp add: unat_add_pos unat_SIZE)

lemma queue_inv_store_min:
  assumes "queue_inv b q" and "unat m \<le> unat (queue_head q)"
    and "\<And>c. c \<in> set (consumers q) \<Longrightarrow> active c \<Longrightarrow> unat m \<le> unat (tail c)"
  shows "queue_inv b (store_min_tail m q)"
  using assms by (auto simp: queue_inv_def Let_def)

lemma compute_min_tail_inv:
  assumes "queue_inv b q"
  shows "unat (compute_min_tail q) \<le> unat (queue_head q)"
    "\<And>c. c \<in> set (consumers q) \<Longrightarrow> active c \<Longrightarrow> unat (compute_min_tail q) \<le> unat (tail c)"
  using compute_min_tail_attained [of q] compute_min_tail_lower [of q] queue_invD [OF assms]
    queue_inv_active [OF assms]
  by (auto simp: word_le_nat_alt)

lemma full_check_spec:
  assumes inv: "queue_inv b q" and fc: "full_check (queue_head q) q = (full, q1)"
  shows "queue_inv b q1 \<and> consumers q1 = consumers q \<and> slots q1 = slots q
    \<and> queue_head q1 = queue_head q
    \<and> full = (unat (queue_head q) \<ge> unat (cached_min q1) + length (slots q))
    \<and> (full \<longrightarrow> cached_min q1 = compute_min_tail q)"
proof -
  let ?h = "unat (queue_head q)" and ?n = "length (slots q)" and ?m = "compute_min_tail q"
  have c0: "queue_head q \<ge> cached_min q + SIZE q \<longleftrightarrow> ?h \<ge> unat (cached_min q) + ?n"
    using unat_cached_plus_size [OF inv queue_invD(4) [OF inv]] by (simp add: word_le_nat_alt)
  have c1: "queue_head q \<ge> ?m + SIZE q \<longleftrightarrow> ?h \<ge> unat ?m + ?n"
    using unat_cached_plus_size [OF inv compute_min_tail_inv(1) [OF inv]]
    by (simp add: word_le_nat_alt)
  have st: "queue_inv b (store_min_tail ?m q)"
    using queue_inv_store_min [OF inv] compute_min_tail_inv [OF inv] by blast
  show ?thesis
    using fc inv c0 c1 st by (auto simp: full_check_def Let_def split: if_splits)
qed

text \<open>The full check refuses exactly when an active consumer is a whole lap behind.\<close>

lemma full_iff_lap:
  assumes inv: "queue_inv b q" and lv: "live q c" and fc: "full_check (queue_head q) q = (full, q1)"
  shows "full \<longleftrightarrow> (\<exists>d. live q d \<and> unat (queue_head q) = unat (queue_tail q d) + length (slots q))"
proof -
  note s = full_check_spec [OF inv fc]
  let ?h = "unat (queue_head q)" and ?n = "length (slots q)"
  show ?thesis
  proof
    assume f: full
    then have m: "?h \<ge> unat (compute_min_tail q) + ?n" using s by simp
    have "\<exists>e \<in> set (consumers q). active e \<and> unat (tail e) + ?n \<le> ?h"
    proof (cases "compute_min_tail q = 0")
      case True
      \<comment> \<open>the scan returned zero: some active consumer has tail zero, or none is lower\<close>
      then have zero: "?n \<le> ?h" using m by simp
      have "plain_min (consumers q) INVALID_POS = 0 \<or> plain_min (consumers q) INVALID_POS = INVALID_POS"
        using True compute_min_tail_plain [OF queue_invD(2) [OF inv]]
        by (auto simp: Let_def split: if_splits)
      moreover have "plain_min (consumers q) INVALID_POS \<noteq> INVALID_POS"
      proof
        assume "plain_min (consumers q) INVALID_POS = INVALID_POS"
        then have "INVALID_POS \<le> tail (consumers q ! unat c)"
          using plain_min_lower [OF live_consumer(1,2) [OF inv lv], of INVALID_POS] by simp
        then have "unat (tail (consumers q ! unat c)) \<ge> 2 ^ 64 - 1"
          by (simp add: INVALID_POS_def word_le_nat_alt unsigned_minus_1_eq_mask mask_eq_exp_minus_1)
        then show False
          using live_bounds(1) [OF inv lv] live_consumer(4) [OF inv lv] queue_invD(3) [OF inv]
          by simp
      qed
      ultimately have "plain_min (consumers q) INVALID_POS = 0"
        by blast
      then show ?thesis
        using plain_min_attained [of "consumers q" INVALID_POS] zero
        by (auto simp: INVALID_POS_def)
    next
      case False
      then show ?thesis
        using compute_min_tail_attained [OF queue_invD(2) [OF inv]] m by auto
    qed
    then obtain e where e: "e \<in> set (consumers q)" "active e" "unat (tail e) + ?n \<le> ?h" by blast
    then have "?h = unat (tail e) + ?n" using queue_inv_active(3) [OF inv e(1,2)] by simp
    then show "\<exists>d. live q d \<and> ?h = unat (queue_tail q d) + ?n"
      using active_live [OF inv e(1,2)] by auto
  next
    assume "\<exists>d. live q d \<and> ?h = unat (queue_tail q d) + ?n"
    then obtain d where d: "live q d" "?h = unat (queue_tail q d) + ?n" by blast
    have "live q1 d \<and> queue_tail q1 d = queue_tail q d"
      using d(1) s by (simp add: live_def is_active_def queue_tail_def)
    then show full
      using live_bounds(3) [of b q1 d] s d(2) by simp
  qed
qed

text \<open>The slot written by a claim, as one update of the slot array.\<close>

lemma slot_fields: "(s :: 'a Slot)\<lparr>data := x, sequence := p\<rparr> = \<lparr>sequence = p, data = x\<rparr>"
  by (cases s) simp

lemma slots_publish:
  assumes "valid_size (length (slots q))"
  shows "slots (publish_slot h x (store_head g q))
    = (slots q)[unat h mod length (slots q) := \<lparr>sequence = h, data = x\<rparr>]"
proof -
  have "slot_index (store_head g q) h = unat h mod length (slots q)"
    using slot_index_mod [of "store_head g q" h] assms by simp
  moreover have "unat h mod length (slots q) < length (slots q)"
    using assms by (intro mod_less_divisor) (auto simp: valid_size_def)
  ultimately show ?thesis
    by (simp add: publish_slot_def Let_def slot_fields)
qed

lemma publish_frame [simp]:
  "consumers (publish_slot h x q) = consumers q" "queue_head (publish_slot h x q) = queue_head q"
  "cached_min (publish_slot h x q) = cached_min q"
  by (simp_all add: publish_slot_def Let_def)

lemma publish_inv:
  fixes q :: "'a MPMCQueue" and x :: 'a
  assumes inv: "queue_inv (Suc b) q"
    and room: "unat (queue_head q) < unat (cached_min q) + length (slots q)"
  defines "q1 \<equiv> publish_slot (queue_head q) x (store_head (queue_head q + 1) q)"
  shows "queue_inv b q1"
proof -
  let ?h = "unat (queue_head q)" and ?n = "length (slots q)"
  note d = queue_invD [OF inv]
  have hd: "unat (queue_head q1) = ?h + 1"
    using d(3) by (simp add: q1_def unat_succ_pos)
  have sl: "slots q1 = (slots q)[?h mod ?n := \<lparr>sequence = queue_head q, data = x\<rparr>]"
    using slots_publish [OF d(1)] by (simp add: q1_def)
  have cs: "consumers q1 = consumers q" and cm: "cached_min q1 = cached_min q"
    by (simp_all add: q1_def)
  have ix: "?h mod ?n < ?n" using d(5) by simp
  have act: "unat (tail c) \<le> ?h + 1 \<and> ?h + 1 \<le> unat (tail c) + ?n"
    if "c \<in> set (consumers q)" "active c" for c
    using queue_inv_active [OF inv that] room by simp
  have seqs: "sequence (slots q1 ! (p mod ?n)) = of_nat p"
    if p: "p < ?h + 1" "?h + 1 \<le> p + ?n" for p
  proof (cases "p = ?h")
    case True
    then show ?thesis using ix by (simp add: sl)
  next
    case False
    then have "p mod ?n \<noteq> ?h mod ?n" using p mod_apart [of p ?h ?n] by simp
    then show ?thesis using queue_inv_seq [OF inv, of p] p False by (simp add: sl)
  qed
  have un: "sequence (slots q1 ! i) = INVALID_POS" if "i < ?n" "?h + 1 \<le> i" for i
    using queue_inv_unused [OF inv, of i] that by (simp add: sl)
  show ?thesis
    unfolding queue_inv_def Let_def hd cs cm
    using d seqs un act queue_inv_active(1) [OF inv] by (simp add: sl)
qed

lemma publish_pending:
  assumes inv: "queue_inv (Suc b) q" and lv: "live q c"
    and room: "unat (queue_head q) < unat (cached_min q) + length (slots q)"
  shows "pending (publish_slot (queue_head q) x (store_head (queue_head q + 1) q)) c
    = pending q c @ [x]"
proof -
  let ?h = "unat (queue_head q)" and ?n = "length (slots q)"
  let ?q1 = "publish_slot (queue_head q) x (store_head (queue_head q + 1) q)"
  note d = queue_invD [OF inv] and lb = live_bounds [OF inv lv]
  have hd: "unat (queue_head ?q1) = ?h + 1" using d(3) by (simp add: unat_succ_pos)
  have tl: "queue_tail ?q1 c = queue_tail q c" by (simp add: queue_tail_def)
  have "data (slots ?q1 ! (p mod ?n)) = data (slots q ! (p mod ?n))"
    if "p \<in> set [unat (queue_tail q c) ..< ?h]" for p
  proof -
    have "p mod ?n \<noteq> ?h mod ?n" using that lb room mod_apart [of p ?h ?n] by simp
    then show ?thesis by (simp add: slots_publish [OF d(1)])
  qed
  then have old: "map (\<lambda>p. data (slots ?q1 ! (p mod ?n))) [unat (queue_tail q c) ..< ?h]
      = pending q c"
    by (simp add: pending_def)
  have new: "data (slots ?q1 ! (?h mod ?n)) = x"
    using d(5) by (simp add: slots_publish [OF d(1)])
  have "pending ?q1 c = map (\<lambda>p. data (slots ?q1 ! (p mod ?n))) ([unat (queue_tail q c) ..< ?h] @ [?h])"
    unfolding pending_def hd tl using lb(1) by (simp add: slots_publish [OF d(1)])
  then show ?thesis using old new by simp
qed

lemma push_Nil_cases:
  assumes inv: "queue_inv b q" and p: "push [] x q = (ok, q')"
  obtains q1 where "full_check (queue_head q) q = (\<not> ok, q1)"
    "ok \<Longrightarrow> q' = publish_slot (queue_head q1) x (store_head (queue_head q1 + 1) q1)"
    "\<not> ok \<Longrightarrow> q' = q1"
proof -
  obtain full q1 where fc: "full_check (queue_head q) q = (full, q1)" by fastforce
  show thesis
    using that [of q1] p full_check_spec [OF inv fc] fc by (auto simp: Let_def split: if_splits)
qed

lemma full_check_live:
  assumes "queue_inv b q" and "full_check (queue_head q) q = (full, q1)"
  shows "live q1 = live q" "pending q1 = pending q" "ring_capacity q1 = ring_capacity q"
  using full_check_spec [OF assms]
  by (auto simp: live_def is_active_def pending_def queue_tail_def ring_capacity_def fun_eq_iff)

lemma push_true_spec:
  assumes inv: "queue_inv (Suc b) q" and p: "push [] x q = (True, q')"
  shows "queue_inv b q' \<and> live q' = live q \<and> ring_capacity q' = ring_capacity q
    \<and> (\<forall>c. live q c \<longrightarrow> pending q' c = pending q c @ [x])"
proof -
  obtain q1 where fc: "full_check (queue_head q) q = (False, q1)"
    and q': "q' = publish_slot (queue_head q1) x (store_head (queue_head q1 + 1) q1)"
    using push_Nil_cases [OF inv p] by auto
  note s = full_check_spec [OF inv fc] and fr = full_check_live [OF inv fc]
  have inv1: "queue_inv (Suc b) q1" and room: "unat (queue_head q1) < unat (cached_min q1) + length (slots q1)"
    using s by auto
  have "queue_inv b q'"
    unfolding q' using publish_inv [OF inv1 room] .
  moreover have "live q' = live q" and "ring_capacity q' = ring_capacity q"
    using fr s slots_publish [OF queue_invD(1) [OF inv1]]
    by (auto simp: q' live_def is_active_def ring_capacity_def fun_eq_iff)
  moreover have "pending q' c = pending q c @ [x]" if "live q c" for c
    using publish_pending [OF inv1 _ room, of c x] that fr by (simp add: q')
  ultimately show ?thesis by blast
qed

lemma push_false_spec:
  assumes inv: "queue_inv b q" and p: "push [] x q = (False, q')"
  shows "queue_inv b q' \<and> live q' = live q \<and> ring_capacity q' = ring_capacity q
    \<and> pending q' = pending q"
proof -
  obtain q1 where fc: "full_check (queue_head q) q = (True, q1)" and q': "q' = q1"
    using push_Nil_cases [OF inv p] by auto
  show ?thesis using full_check_spec [OF inv fc] full_check_live [OF inv fc] q' by simp
qed

lemma length_pending: "length (pending q c) = unat (queue_head q) - unat (queue_tail q c)"
  by (simp add: pending_def)

lemma push_room_spec:
  assumes inv: "queue_inv b q" and lv: "live q c"
  shows "fst (push [] x q) \<longleftrightarrow> (\<forall>d. live q d \<longrightarrow> length (pending q d) < ring_capacity q)"
proof -
  obtain ok q' where p: "push [] x q = (ok, q')" by fastforce
  obtain q1 where fc: "full_check (queue_head q) q = (\<not> ok, q1)"
    using push_Nil_cases [OF inv p] by auto
  have "length (pending q d) < ring_capacity q
      \<longleftrightarrow> unat (queue_head q) \<noteq> unat (queue_tail q d) + length (slots q)" if "live q d" for d
    using live_bounds [OF inv that] queue_invD(5) [OF inv]
    by (auto simp: length_pending ring_capacity_def)
  then show ?thesis using full_iff_lap [OF inv lv fc] p by auto
qed

section \<open>Pop\<close>

text \<open>A live consumer finds its slot ready exactly when its backlog is not empty.\<close>

lemma slot_ready_iff:
  assumes inv: "queue_inv b q" and lv: "live q c"
  shows "sequence (slots q ! slot_index q (queue_tail q c)) = queue_tail q c
    \<longleftrightarrow> unat (queue_tail q c) < unat (queue_head q)"
proof -
  let ?h = "unat (queue_head q)" and ?n = "length (slots q)" and ?t = "unat (queue_tail q c)"
  note d = queue_invD [OF inv] and lb = live_bounds [OF inv lv]
  have ix: "slot_index q (queue_tail q c) = ?t mod ?n" by (rule slot_index_mod [OF d(1)])
  have "sequence (slots q ! (?t mod ?n)) \<noteq> queue_tail q c" if eq: "?t = ?h"
  proof (cases "?n \<le> ?h")
    case True
    then have "sequence (slots q ! ((?h - ?n) mod ?n)) = of_nat (?h - ?n)"
      using queue_inv_seq [OF inv, of "?h - ?n"] d(5) True
      by (metis diff_less le_add_diff_inverse2 le_refl order_less_le_trans)
    moreover have "(?h - ?n) mod ?n = ?t mod ?n" using True eq by (simp add: le_mod_geq)
    ultimately have "unat (sequence (slots q ! (?t mod ?n))) = unat (of_nat (?h - ?n) :: u64)"
      by metis
    also have "\<dots> = ?h - ?n"
      using d(3) by (simp only: unat_of_nat) (simp add: take_bit_nat_eq_self)
    finally have "unat (sequence (slots q ! (?t mod ?n))) < ?h" using d(5) True by linarith
    then show ?thesis using eq by auto
  next
    case False
    then have "sequence (slots q ! (?t mod ?n)) = INVALID_POS"
      using queue_inv_unused [OF inv, of ?t] eq by simp
    moreover have "unat INVALID_POS \<noteq> ?h"
      using d(3) by (simp add: INVALID_POS_def unsigned_minus_1_eq_mask mask_eq_exp_minus_1)
    ultimately show ?thesis using eq by auto
  qed
  moreover have "sequence (slots q ! (?t mod ?n)) = queue_tail q c" if "?t < ?h"
    using queue_inv_seq [OF inv that] lb by simp
  ultimately show ?thesis using lb(1) by (fastforce simp: ix)
qed

lemma pop_live_spec:
  assumes inv: "queue_inv b q" and lv: "live q c" and p: "pop c q = (r, q')"
  shows "queue_inv b q' \<and> live q' = live q \<and> ring_capacity q' = ring_capacity q
    \<and> r = (case pending q c of [] \<Rightarrow> None | x # _ \<Rightarrow> Some x)
    \<and> pending q' c = tl (pending q c) \<and> (\<forall>d. d \<noteq> c \<longrightarrow> pending q' d = pending q d)"
proof (cases "unat (queue_tail q c) < unat (queue_head q)")
  case False
  then have "pending q c = []" by (simp add: pending_def)
  moreover have "r = None \<and> q' = q"
    using p slot_ready_iff [OF inv lv] False lv by (simp add: pop_def Let_def live_def)
  ultimately show ?thesis using inv by simp
next
  case True
  let ?h = "unat (queue_head q)" and ?n = "length (slots q)" and ?t = "unat (queue_tail q c)"
  note d = queue_invD [OF inv] and lb = live_bounds [OF inv lv] and lc = live_consumer [OF inv lv]
  have q': "q' = store_tail c (queue_tail q c + 1) q" and r: "r = Some (data (slots q ! (?t mod ?n)))"
    using p slot_ready_iff [OF inv lv] True lv slot_index_mod [OF d(1)]
    by (simp_all add: pop_def Let_def live_def)
  have t1: "unat (queue_tail q c + 1) = ?t + 1"
    using lb(1) d(3) by (simp add: unat_succ_pos)
  have tails: "queue_tail q' e = (if e = c then queue_tail q c + 1 else queue_tail q e)" for e
    using lc(3) d(2) by (simp add: q' queue_tail_def nth_list_update word_unat_eq_iff)
  have hd: "queue_head q' = queue_head q" and sl: "slots q' = slots q" by (simp_all add: q')
  have "queue_inv b q'"
  proof -
    have "\<forall>e \<in> set (consumers q'). active e \<longrightarrow>
        unat (cached_min q) \<le> unat (tail e) \<and> unat (tail e) \<le> ?h \<and> ?h \<le> unat (tail e) + ?n"
    proof (intro ballI impI)
      fix e assume e: "e \<in> set (consumers q')" "active e"
      have "e = (consumers q ! unat c)\<lparr>tail := queue_tail q c + 1\<rparr> \<or> e \<in> set (consumers q)"
        using e(1) set_update_subset_insert by (fastforce simp: q')
      then show "unat (cached_min q) \<le> unat (tail e) \<and> unat (tail e) \<le> ?h
          \<and> ?h \<le> unat (tail e) + ?n"
        using queue_inv_active [OF inv _ e(2)] lb True t1 by auto
    qed
    then show ?thesis using inv by (simp add: queue_inv_def Let_def q')
  qed
  moreover have "live q' = live q"
    using lc(2) lc(3) d(2)
    by (auto simp: live_def is_active_def q' fun_eq_iff nth_list_update split: if_splits)
  moreover have "pending q' c = tl (pending q c)"
    using t1 by (simp add: pending_def tails hd sl map_tl [symmetric] tl_upt)
  moreover have "pending q' e = pending q e" if "e \<noteq> c" for e
    using that by (simp add: pending_def tails hd sl)
  moreover have "r = (case pending q c of [] \<Rightarrow> None | x # _ \<Rightarrow> Some x)"
    using True r by (simp add: pending_def upt_conv_Cons)
  ultimately show ?thesis by (simp add: q' ring_capacity_def)
qed

lemma pop_dead_spec: "\<not> live q c \<Longrightarrow> queue_inv b q \<Longrightarrow> unat c < 32 \<Longrightarrow> pop c q = (None, q)"
  using queue_invD(2) [of b q] by (simp add: pop_def live_def)

section \<open>The queue is a bounded broadcast queue\<close>

interpretation mpmc: broadcast_queue queue_inv "push []" pop live pending ring_capacity
proof
  fix b :: nat and q q' :: "'a MPMCQueue" and x :: 'a and c :: u32 and r :: "'a option"
  show "queue_inv (Suc b) q \<Longrightarrow> queue_inv b q" by (rule queue_inv_mono)
  show "\<lbrakk>queue_inv (Suc b) q; push [] x q = (True, q')\<rbrakk> \<Longrightarrow>
      queue_inv b q' \<and> live q' = live q \<and> ring_capacity q' = ring_capacity q
      \<and> (\<forall>c. live q c \<longrightarrow> pending q' c = pending q c @ [x])"
    by (rule push_true_spec)
  show "\<lbrakk>queue_inv b q; push [] x q = (False, q')\<rbrakk> \<Longrightarrow>
      queue_inv b q' \<and> live q' = live q \<and> ring_capacity q' = ring_capacity q
      \<and> pending q' = pending q"
    by (rule push_false_spec)
  show "\<lbrakk>queue_inv b q; live q c\<rbrakk> \<Longrightarrow>
      fst (push [] x q) \<longleftrightarrow> (\<forall>d. live q d \<longrightarrow> length (pending q d) < ring_capacity q)"
    by (rule push_room_spec)
  show "\<lbrakk>queue_inv b q; live q c; pop c q = (r, q')\<rbrakk> \<Longrightarrow>
      queue_inv b q' \<and> live q' = live q \<and> ring_capacity q' = ring_capacity q
      \<and> r = (case pending q c of [] \<Rightarrow> None | x # _ \<Rightarrow> Some x)
      \<and> pending q' c = tl (pending q c)
      \<and> (\<forall>d. d \<noteq> c \<longrightarrow> pending q' d = pending q d)"
    by (rule pop_live_spec)
  show "\<lbrakk>queue_inv b q; \<not> live q c; unat c < 32\<rbrakk> \<Longrightarrow> pop c q = (None, q)"
    by (rule pop_dead_spec)
  show "\<lbrakk>queue_inv b q; live q c\<rbrakk> \<Longrightarrow> length (pending q c) \<le> ring_capacity q"
    using live_bounds(2) [of b q c] by (simp add: length_pending ring_capacity_def)
qed

end
