(* ===== verification/Mpmc_Concurrent.thy ===== *)
theory Mpmc_Concurrent
  imports Mpmc_Queue
begin

text \<open>
  \<open>push\<close>, \<open>pop\<close> and \<open>recompute_and_store_min_tail\<close> of include/mpmc_logger/mpmc_queue.hpp as the
  sequences of single memory accesses they perform, run by any number of producer threads and by one thread
  per consumer id, in any interleaving (sequentially consistent: each atomic access is one
  step, and the copy of an item is one step of its own). A program counter value names the
  access a thread performs next and carries its local variables. Consumers are registered
  before the threads start, as \<open>Logger::init\<close> and the benchmarks do; a consumer may
  unregister itself between calls, and any number of threads may recompute the cached
  minimum. \<open>Late_Registration\<close> treats a registration that races
  with producers, \<open>Weak_Memory\<close> the memory orders of the accesses.
\<close>

section \<open>Program counters and single steps\<close>

datatype 'a ppc =
    P_idle
  | P_load_head 'a
  | P_load_min 'a u64
  | P_scan_active 'a u64 u64 nat "u64 list"
  | P_scan_tail 'a u64 u64 nat "u64 list"
  | P_store_min 'a u64 u64 u64
  | P_cas 'a u64
  | P_copy 'a u64
  | P_publish 'a u64
  | P_done bool

text \<open>The four accumulators after a complete scan.\<close>

definition merge_accs :: "u64 list \<Rightarrow> u64" where
  "merge_accs accs = merge_mins (accs ! 0, accs ! 1, accs ! 2, accs ! 3)"

text \<open>
  One access of a producer inside \<open>push\<close>: the head load, the load of the cached minimum
  with the first full check, the two loads per consumer of the scan (accumulator
  \<open>i mod 4\<close>), the store of the new minimum with the second full check, the weak
  compare-exchange (which may fail spuriously), the copy and the publishing store.
\<close>

fun prod_step :: "bool \<Rightarrow> 'a MPMCQueue \<Rightarrow> 'a ppc \<Rightarrow> 'a ppc \<times> 'a MPMCQueue" where
  "prod_step spurious q P_idle = (P_idle, q)"
| "prod_step spurious q (P_load_head x) = (P_load_min x (queue_head q), q)"
| "prod_step spurious q (P_load_min x h) =
     (let mt = cached_min q
      in if h \<ge> mt + SIZE q
         then (P_scan_active x h mt 0 [INVALID_POS, INVALID_POS, INVALID_POS, INVALID_POS], q)
         else (P_cas x h, q))"
| "prod_step spurious q (P_scan_active x h mt i accs) =
     (if i < unat MAX_CONSUMERS
      then if active (consumers q ! i) then (P_scan_tail x h mt i accs, q)
           else (P_scan_active x h mt (i + 1) accs, q)
      else (P_store_min x h mt (merge_accs accs), q))"
| "prod_step spurious q (P_scan_tail x h mt i accs) =
     (P_scan_active x h mt (i + 1)
        (accs[i mod 4 := min (accs ! (i mod 4)) (tail (consumers q ! i))]), q)"
| "prod_step spurious q (P_store_min x h mt new_min) =
     (let q1 = (if new_min \<noteq> mt then store_min_tail new_min q else q);
          mt1 = (if new_min \<noteq> mt then new_min else mt)
      in (if h \<ge> mt1 + SIZE q then P_done False else P_cas x h, q1))"
| "prod_step spurious q (P_cas x h) =
     (if spurious \<or> queue_head q \<noteq> h then (P_load_head x, q)
      else (P_copy x h, store_head (h + 1) q))"
| "prod_step spurious q (P_copy x h) = (P_publish x h, store_data (slot_index q h) x q)"
| "prod_step spurious q (P_publish x h) = (P_done True, store_sequence (slot_index q h) h q)"
| "prod_step spurious q (P_done r) = (P_done r, q)"

datatype 'a cpc =
    C_idle
  | C_load_active
  | C_load_tail
  | C_load_seq u64
  | C_copy u64
  | C_advance u64 'a
  | C_done "'a option"

text \<open>One access of the thread of consumer \<open>c\<close> inside \<open>pop\<close>.\<close>

fun cons_step :: "u32 \<Rightarrow> 'a MPMCQueue \<Rightarrow> 'a cpc \<Rightarrow> 'a cpc \<times> 'a MPMCQueue" where
  "cons_step c q C_idle = (C_idle, q)"
| "cons_step c q C_load_active = ((if is_active q c then C_load_tail else C_done None), q)"
| "cons_step c q C_load_tail = (C_load_seq (queue_tail q c), q)"
| "cons_step c q (C_load_seq t) =
     ((if sequence (slots q ! slot_index q t) \<noteq> t then C_done None else C_copy t), q)"
| "cons_step c q (C_copy t) = (C_advance t (data (slots q ! slot_index q t)), q)"
| "cons_step c q (C_advance t x) = (C_done (Some x), store_tail c (t + 1) q)"
| "cons_step c q (C_done r) = (C_done r, q)"

datatype hpc =
    H_idle
  | H_scan_active nat "u64 list"
  | H_scan_tail nat "u64 list"
  | H_store u64

text \<open>
  One access of a thread inside \<open>recompute_and_store_min_tail\<close>, which the benchmarks call from
  their consumer and helper threads while producers run: the same scan, then a store of the
  minimum whatever the cached one is.
\<close>

fun help_step :: "'a MPMCQueue \<Rightarrow> hpc \<Rightarrow> hpc \<times> 'a MPMCQueue" where
  "help_step q H_idle = (H_idle, q)"
| "help_step q (H_scan_active i accs) =
     (if i < unat MAX_CONSUMERS
      then if active (consumers q ! i) then (H_scan_tail i accs, q) else (H_scan_active (i + 1) accs, q)
      else (H_store (merge_accs accs), q))"
| "help_step q (H_scan_tail i accs) =
     (H_scan_active (i + 1) (accs[i mod 4 := min (accs ! (i mod 4)) (tail (consumers q ! i))]), q)"
| "help_step q (H_store m) = (H_idle, store_min_tail m q)"

section \<open>The system\<close>

text \<open>
  The shared queue, the threads, and two history variables: the items in the order their
  positions were claimed, and what each consumer has received.
\<close>

record 'a csys =
  mem :: "'a MPMCQueue"
  prods :: "nat \<Rightarrow> 'a ppc"
  conss :: "u32 \<Rightarrow> 'a cpc"
  helps :: "nat \<Rightarrow> hpc"
  hist :: "'a list"
  got :: "u32 \<Rightarrow> 'a list"

definition prod_resting :: "'a ppc \<Rightarrow> bool" where
  "prod_resting pc \<longleftrightarrow> (case pc of P_idle \<Rightarrow> True | P_done _ \<Rightarrow> True | _ \<Rightarrow> False)"

definition cons_resting :: "'a cpc \<Rightarrow> bool" where
  "cons_resting pc \<longleftrightarrow> (case pc of C_idle \<Rightarrow> True | C_done _ \<Rightarrow> True | _ \<Rightarrow> False)"

definition claimed_item :: "'a ppc \<Rightarrow> 'a ppc \<Rightarrow> 'a list" where
  "claimed_item pc pc' = (case (pc, pc') of (P_cas x _, P_copy _ _) \<Rightarrow> [x] | _ \<Rightarrow> [])"

definition received_item :: "'a cpc \<Rightarrow> 'a list" where
  "received_item pc = (case pc of C_advance _ x \<Rightarrow> [x] | _ \<Rightarrow> [])"

definition do_prod :: "nat \<Rightarrow> bool \<Rightarrow> 'a csys \<Rightarrow> 'a csys" where
  "do_prod i spurious s =
     (let (pc', q') = prod_step spurious (mem s) (prods s i)
      in s\<lparr>mem := q', prods := (prods s)(i := pc'),
           hist := hist s @ claimed_item (prods s i) pc'\<rparr>)"

definition do_cons :: "u32 \<Rightarrow> 'a csys \<Rightarrow> 'a csys" where
  "do_cons c s =
     (let (pc', q') = cons_step c (mem s) (conss s c)
      in s\<lparr>mem := q', conss := (conss s)(c := pc'),
           got := (got s)(c := got s c @ received_item (conss s c))\<rparr>)"

definition do_help :: "nat \<Rightarrow> 'a csys \<Rightarrow> 'a csys" where
  "do_help j s = (let (pc', q') = help_step (mem s) (helps s j)
     in s\<lparr>mem := q', helps := (helps s)(j := pc')\<rparr>)"

inductive csys_step :: "'a csys \<Rightarrow> 'a csys \<Rightarrow> bool" where
  call_push: "prod_resting (prods s i) \<Longrightarrow>
     csys_step s (s\<lparr>prods := (prods s)(i := P_load_head x)\<rparr>)"
| run_push: "csys_step s (do_prod i spurious s)"
| call_pop: "cons_resting (conss s c) \<Longrightarrow> unat c < 32 \<Longrightarrow>
     csys_step s (s\<lparr>conss := (conss s)(c := C_load_active)\<rparr>)"
| run_pop: "unat c < 32 \<Longrightarrow> csys_step s (do_cons c s)"
| unregister: "cons_resting (conss s c) \<Longrightarrow> unat c < 32 \<Longrightarrow>
     csys_step s (s\<lparr>mem := unregister_consumer c (mem s)\<rparr>)"
| call_recompute: "helps s j = H_idle \<Longrightarrow> csys_step s (s\<lparr>helps := (helps s)(j :=
     H_scan_active 0 [INVALID_POS, INVALID_POS, INVALID_POS, INVALID_POS])\<rparr>)"
| run_recompute: "csys_step s (do_help j s)"

inductive_cases csys_stepE: "csys_step s t"

text \<open>The start: a fresh queue with \<open>k\<close> consumers registered and no thread inside a call.\<close>

fun register_many :: "nat \<Rightarrow> 'a MPMCQueue \<Rightarrow> 'a MPMCQueue" where
  "register_many 0 q = q"
| "register_many (Suc k) q = register_many k (snd (register_consumer q))"

definition init_csys :: "nat \<Rightarrow> 'a \<Rightarrow> nat \<Rightarrow> 'a csys" where
  "init_csys n d k =
     \<lparr>mem = register_many k (MPMCQueue_new n d), prods = (\<lambda>_. P_idle), conss = (\<lambda>_. C_idle),
      helps = (\<lambda>_. H_idle), hist = [], got = (\<lambda>_. [])\<rparr>"

inductive reachable :: "nat \<Rightarrow> 'a \<Rightarrow> nat \<Rightarrow> 'a csys \<Rightarrow> bool" for n d k where
  start: "reachable n d k (init_csys n d k)"
| step: "reachable n d k s \<Longrightarrow> csys_step s t \<Longrightarrow> reachable n d k t"

section \<open>The invariant\<close>

text \<open>The position a producer has claimed and not yet published.\<close>

fun claim_of :: "'a ppc \<Rightarrow> nat option" where
  "claim_of (P_copy x h) = Some (unat h)"
| "claim_of (P_publish x h) = Some (unat h)"
| "claim_of _ = None"

definition unpublished :: "(nat \<Rightarrow> 'a ppc) \<Rightarrow> nat set" where
  "unpublished ps = {p. \<exists>i. claim_of (ps i) = Some p}"

text \<open>
  The low marks: positions no lower bound on the ring may pass, namely the head, the
  unpublished positions and the tails of the active consumers.
\<close>

definition low_marks :: "'a MPMCQueue \<Rightarrow> nat set \<Rightarrow> nat set" where
  "low_marks q U = insert (unat (queue_head q)) (U \<union> {unat (queue_tail q c) | c. live q c})"

definition below_marks :: "'a MPMCQueue \<Rightarrow> nat set \<Rightarrow> nat \<Rightarrow> bool" where
  "below_marks q U v \<longleftrightarrow> (\<forall>l \<in> low_marks q U. v \<le> l)"

definition shared_inv :: "'a MPMCQueue \<Rightarrow> 'a list \<Rightarrow> nat set \<Rightarrow> bool" where
  "shared_inv q hs U \<longleftrightarrow>
     (let n = length (slots q); h = unat (queue_head q)
      in valid_size n \<and> length (consumers q) = 32 \<and> h = length hs \<and> h + n < 2 ^ 64 - 1
       \<and> below_marks q U (unat (cached_min q))
       \<and> (\<forall>c. unat c < 32 \<longrightarrow> unat (queue_tail q c) \<le> h \<and> (\<forall>u \<in> U. unat (queue_tail q c) \<le> u))
       \<and> (\<forall>c. live q c \<longrightarrow> h \<le> unat (queue_tail q c) + n)
       \<and> (\<forall>u \<in> U. u < h \<and> h \<le> u + n \<and> sequence (slots q ! (u mod n)) \<noteq> of_nat u)
       \<and> (\<forall>p < h. h \<le> p + n \<and> p \<notin> U \<longrightarrow>
            slots q ! (p mod n) = \<lparr>sequence = of_nat p, data = hs ! p\<rparr>)
       \<and> (\<forall>i < n. sequence (slots q ! i) = INVALID_POS \<or> unat (sequence (slots q ! i)) < h))"

text \<open>What a scan in progress knows: its accumulators, and the consumers already seen.\<close>

definition scan_inv :: "'a MPMCQueue \<Rightarrow> nat set \<Rightarrow> nat \<Rightarrow> u64 list \<Rightarrow> bool" where
  "scan_inv q U i accs \<longleftrightarrow> length accs = 4 \<and> i \<le> 32
     \<and> (\<forall>a \<in> set accs. a = INVALID_POS \<or> (\<forall>u \<in> insert (unat (queue_head q)) U. unat a \<le> u))
     \<and> (\<forall>c. live q c \<and> unat c < i \<longrightarrow> (\<exists>a \<in> set accs. unat a \<le> unat (queue_tail q c)))"

fun prod_inv :: "'a MPMCQueue \<Rightarrow> 'a list \<Rightarrow> nat set \<Rightarrow> 'a ppc \<Rightarrow> bool" where
  "prod_inv q hs U (P_load_min x h) = (unat h \<le> unat (queue_head q))"
| "prod_inv q hs U (P_scan_active x h mt i accs) =
     (unat h \<le> unat (queue_head q) \<and> below_marks q U (unat mt) \<and> scan_inv q U i accs)"
| "prod_inv q hs U (P_scan_tail x h mt i accs) =
     (unat h \<le> unat (queue_head q) \<and> below_marks q U (unat mt) \<and> scan_inv q U i accs \<and> i < 32)"
| "prod_inv q hs U (P_store_min x h mt m) =
     (unat h \<le> unat (queue_head q) \<and> below_marks q U (unat mt) \<and> below_marks q U (unat m))"
| "prod_inv q hs U (P_cas x h) =
     (unat h \<le> unat (queue_head q) \<and> (\<forall>l \<in> low_marks q U. unat h < l + length (slots q)))"
| "prod_inv q hs U (P_copy x h) = (unat h \<in> U \<and> hs ! unat h = x)"
| "prod_inv q hs U (P_publish x h) =
     (unat h \<in> U \<and> hs ! unat h = x \<and> data (slots q ! (unat h mod length (slots q))) = x)"
| "prod_inv q hs U _ = True"

text \<open>A consumer inside \<open>pop\<close> past the active check, and what it has received so far.\<close>

definition readable :: "'a MPMCQueue \<Rightarrow> nat set \<Rightarrow> u32 \<Rightarrow> u64 \<Rightarrow> bool" where
  "readable q U c t \<longleftrightarrow> live q c \<and> queue_tail q c = t \<and> unat t < unat (queue_head q) \<and> unat t \<notin> U"

fun cons_inv :: "'a MPMCQueue \<Rightarrow> 'a list \<Rightarrow> nat set \<Rightarrow> u32 \<Rightarrow> 'a cpc \<Rightarrow> bool" where
  "cons_inv q hs U c C_load_tail = live q c"
| "cons_inv q hs U c (C_load_seq t) = (live q c \<and> queue_tail q c = t)"
| "cons_inv q hs U c (C_copy t) = readable q U c t"
| "cons_inv q hs U c (C_advance t x) = (readable q U c t \<and> x = hs ! unat t)"
| "cons_inv q hs U c _ = True"

fun help_inv :: "'a MPMCQueue \<Rightarrow> nat set \<Rightarrow> hpc \<Rightarrow> bool" where
  "help_inv q U H_idle = True"
| "help_inv q U (H_scan_active i accs) = scan_inv q U i accs"
| "help_inv q U (H_scan_tail i accs) = (scan_inv q U i accs \<and> i < 32)"
| "help_inv q U (H_store m) = below_marks q U (unat m)"

definition received_ok :: "'a MPMCQueue \<Rightarrow> 'a list \<Rightarrow> u32 \<Rightarrow> 'a list \<Rightarrow> bool" where
  "received_ok q hs c xs \<longleftrightarrow>
     unat (queue_tail q c) \<le> length hs \<and> xs = take (unat (queue_tail q c)) hs"

definition csys_inv :: "'a csys \<Rightarrow> bool" where
  "csys_inv s \<longleftrightarrow>
     (let q = mem s; hs = hist s; U = unpublished (prods s)
      in shared_inv q hs U
       \<and> (\<forall>i. prod_inv q hs U (prods s i))
       \<and> (\<forall>i j p. claim_of (prods s i) = Some p \<and> claim_of (prods s j) = Some p \<longrightarrow> i = j)
       \<and> (\<forall>j. help_inv q U (helps s j))
       \<and> (\<forall>c. unat c < 32 \<longrightarrow> cons_inv q hs U c (conss s c) \<and> received_ok q hs c (got s c)))"

section \<open>How the bounds move\<close>

lemma low_marks_cases:
  assumes "l \<in> low_marks q U"
  obtains "l \<in> insert (unat (queue_head q)) U"
  | c where "live q c" "l = unat (queue_tail q c)"
  using assms by (auto simp: low_marks_def)

lemma low_marksI:
  "unat (queue_head q) \<in> low_marks q U" "u \<in> U \<Longrightarrow> u \<in> low_marks q U"
  "live q c \<Longrightarrow> unat (queue_tail q c) \<in> low_marks q U"
  by (auto simp: low_marks_def)

text \<open>
  \<open>advances\<close>: the change another thread may see. The head and the tails do not go back,
  no consumer becomes active, the claimed positions only gain the old head, and the
  history only grows.
\<close>

definition advances ::
  "'a MPMCQueue \<Rightarrow> 'a list \<Rightarrow> nat set \<Rightarrow> 'a MPMCQueue \<Rightarrow> 'a list \<Rightarrow> nat set \<Rightarrow> bool" where
  "advances q hs U q' hs' U' \<longleftrightarrow>
     unat (queue_head q) \<le> unat (queue_head q') \<and> length (slots q') = length (slots q)
     \<and> (\<forall>c. live q' c \<longrightarrow> live q c \<and> unat (queue_tail q c) \<le> unat (queue_tail q' c))
     \<and> U' \<subseteq> insert (unat (queue_head q)) U \<and> (\<forall>p < length hs. hs' ! p = hs ! p)"

lemma advances_refl: "advances q hs U q hs U"
  by (auto simp: advances_def)

lemma advances_claims:
  assumes "advances q hs U q' hs' U'" and "u' \<in> insert (unat (queue_head q')) U'"
  shows "\<exists>u \<in> insert (unat (queue_head q)) U. u \<le> u'"
  using assms by (auto simp: advances_def)

lemma advances_marks:
  assumes "advances q hs U q' hs' U'" and "l' \<in> low_marks q' U'"
  shows "\<exists>l \<in> low_marks q U. l \<le> l'"
  using assms(2)
proof (cases rule: low_marks_cases)
  case 1
  then show ?thesis
    using advances_claims [OF assms(1)] by (fastforce simp: low_marks_def)
next
  case (2 c)
  then show ?thesis
    using assms(1) low_marksI(3) [of q c U] by (auto simp: advances_def)
qed

lemma below_marks_advances:
  assumes "advances q hs U q' hs' U'" and "below_marks q U v"
  shows "below_marks q' U' v"
  using advances_marks [OF assms(1)] assms(2) unfolding below_marks_def by (meson order_trans)

lemma scan_inv_advances:
  assumes adv: "advances q hs U q' hs' U'" and sc: "scan_inv q U i accs"
  shows "scan_inv q' U' i accs"
proof -
  have "a = INVALID_POS \<or> (\<forall>u \<in> insert (unat (queue_head q')) U'. unat a \<le> u)"
    if "a \<in> set accs" for a
    using sc that advances_claims [OF adv] order_trans unfolding scan_inv_def by meson
  moreover have "\<exists>a \<in> set accs. unat a \<le> unat (queue_tail q' c)" if "live q' c" "unat c < i" for c
  proof -
    have "live q c" and le: "unat (queue_tail q c) \<le> unat (queue_tail q' c)"
      using adv that by (auto simp: advances_def)
    then obtain a where "a \<in> set accs" "unat a \<le> unat (queue_tail q c)"
      using sc \<open>unat c < i\<close> by (auto simp: scan_inv_def)
    then show ?thesis using le order_trans by blast
  qed
  ultimately show ?thesis using sc by (simp add: scan_inv_def)
qed

text \<open>A producer keeps its assertion while others move, as long as its slot is left alone.\<close>

lemma prod_inv_advances:
  assumes adv: "advances q hs U q' hs' U'" and inv: "prod_inv q hs U pc" and U: "\<forall>u \<in> U. u < length hs"
    and own: "\<And>p. claim_of pc = Some p \<Longrightarrow> p \<in> U' \<and>
      data (slots q' ! (p mod length (slots q))) = data (slots q ! (p mod length (slots q)))"
  shows "prod_inv q' hs' U' pc"
proof (cases pc)
  case (P_cas x h)
  have "unat h < l' + length (slots q')" if "l' \<in> low_marks q' U'" for l'
    using advances_marks [OF adv that] inv P_cas adv by (fastforce simp: advances_def)
  then show ?thesis using inv adv P_cas by (auto simp: advances_def)
next
  case (P_copy x h)
  then show ?thesis using inv own U adv by (auto simp: advances_def)
next
  case (P_publish x h)
  then show ?thesis using inv own U adv by (auto simp: advances_def)
next
  case (P_load_min x h)
  then show ?thesis using inv adv by (auto simp: advances_def)
next
  case (P_scan_active x h mt i accs)
  then show ?thesis
    using inv adv scan_inv_advances [OF adv] below_marks_advances [OF adv]
    by (auto simp: advances_def)
next
  case (P_scan_tail x h mt i accs)
  then show ?thesis
    using inv adv scan_inv_advances [OF adv] below_marks_advances [OF adv]
    by (auto simp: advances_def)
next
  case (P_store_min x h mt m)
  then show ?thesis
    using inv adv below_marks_advances [OF adv] by (auto simp: advances_def)
qed simp_all

lemma help_inv_advances:
  assumes "advances q hs U q' hs' U'" and "help_inv q U pc"
  shows "help_inv q' U' pc"
  using assms(2) scan_inv_advances [OF assms(1)] below_marks_advances [OF assms(1)]
  by (cases pc) auto

lemma cons_inv_advances:
  assumes adv: "advances q hs U q' hs' U'" and inv: "cons_inv q hs U c pc"
    and h: "unat (queue_head q) = length hs"
    and own: "queue_tail q' c = queue_tail q c" and lv: "cons_resting pc \<or> live q' c = live q c"
  shows "cons_inv q' hs' U' c pc"
proof -
  have rd: "readable q' U' c t \<and> hs' ! unat t = hs ! unat t" if "readable q U c t" "live q' c" for t
    using that adv own h by (auto simp: readable_def advances_def)
  show ?thesis
    using inv own lv rd by (cases pc) (auto simp: cons_resting_def readable_def)
qed

section \<open>Every memory access keeps the shared invariant\<close>

lemma shared_invD:
  assumes "shared_inv q hs U"
  shows "valid_size (length (slots q))" "length (consumers q) = 32"
    "unat (queue_head q) = length hs" "length hs + length (slots q) < 2 ^ 64 - 1"
    "below_marks q U (unat (cached_min q))" "0 < length (slots q)"
  using assms by (auto simp: shared_inv_def Let_def valid_size_def)

lemma shared_inv_tail:
  assumes "shared_inv q hs U" and "unat c < 32"
  shows "unat (queue_tail q c) \<le> length hs" "u \<in> U \<Longrightarrow> unat (queue_tail q c) \<le> u"
  using assms by (auto simp: shared_inv_def Let_def)

lemma shared_inv_live:
  assumes "shared_inv q hs U" and "live q c"
  shows "unat (queue_tail q c) \<le> length hs" "length hs \<le> unat (queue_tail q c) + length (slots q)"
    "u \<in> U \<Longrightarrow> unat (queue_tail q c) \<le> u" "unat c < 32"
proof -
  show c: "unat c < 32" using assms shared_invD(2) [OF assms(1)] by (simp add: live_def)
  show "length hs \<le> unat (queue_tail q c) + length (slots q)"
    using assms by (auto simp: shared_inv_def Let_def)
qed (use assms shared_inv_tail [OF assms(1), of c] shared_invD(2) [OF assms(1)] in
      \<open>simp_all add: live_def\<close>)

lemma shared_inv_claimed:
  assumes "shared_inv q hs U" and "u \<in> U"
  shows "u < length hs" "length hs \<le> u + length (slots q)"
    "sequence (slots q ! (u mod length (slots q))) \<noteq> of_nat u"
  using assms by (auto simp: shared_inv_def Let_def)

lemma shared_inv_published:
  assumes "shared_inv q hs U" and "p < length hs" and "length hs \<le> p + length (slots q)" and "p \<notin> U"
  shows "slots q ! (p mod length (slots q)) = \<lparr>sequence = of_nat p, data = hs ! p\<rparr>"
  using assms by (auto simp: shared_inv_def Let_def)

lemma shared_inv_seq:
  assumes "shared_inv q hs U" and "i < length (slots q)"
  shows "sequence (slots q ! i) = INVALID_POS \<or> unat (sequence (slots q ! i)) < length hs"
  using assms by (auto simp: shared_inv_def Let_def)

text \<open>Two positions in the current lap share a slot only when they are equal.\<close>

lemma same_slot:
  assumes "a mod n = b mod n" and "a < m" and "b < m" and "m \<le> a + n" and "m \<le> b + (n :: nat)"
  shows "a = b"
  using mod_lap_eq_sym [OF assms(1) assms(4,5,2,3)] .

lemma unat_INVALID_POS: "unat INVALID_POS = 2 ^ 64 - 1"
  by (simp add: INVALID_POS_def unsigned_minus_1_eq_mask mask_eq_exp_minus_1)

lemma shared_inv_store_min:
  assumes "shared_inv q hs U" and "below_marks q U (unat m)"
  shows "shared_inv (store_min_tail m q) hs U"
  using assms by (auto simp: shared_inv_def Let_def below_marks_def low_marks_def)

lemma advances_store_min: "advances q hs U (store_min_tail m q) hs U"
  by (auto simp: advances_def)

lemma shared_inv_claim:
  fixes q :: "'a MPMCQueue" and x :: 'a
  assumes inv: "shared_inv q hs U" and room: "prod_inv q hs U (P_cas x (queue_head q))"
    and bound: "length hs + 1 + length (slots q) < 2 ^ 64 - 1"
  defines "q' \<equiv> store_head (queue_head q + 1) q" and "U' \<equiv> insert (length hs) U"
  shows "shared_inv q' (hs @ [x]) U'" "advances q hs U q' (hs @ [x]) U'"
proof -
  let ?n = "length (slots q)" and ?h = "length hs"
  note d = shared_invD [OF inv] and cl = shared_inv_claimed [OF inv]
  have hd: "unat (queue_head q') = ?h + 1"
    using d(3) bound by (simp add: q'_def unat_succ_pos)
  have mark: "?h < l + ?n" if "l \<in> low_marks q U" for l
    using room that d(3) by simp
  show adv: "advances q hs U q' (hs @ [x]) U'"
    using hd d(3) by (auto simp: advances_def q'_def U'_def nth_append)
  have fresh: "sequence (slots q ! (?h mod ?n)) \<noteq> of_nat ?h"
    using shared_inv_seq [OF inv, of "?h mod ?n"] d(4,6) unat_of_nat64 [of ?h] unat_INVALID_POS
    by auto
  have live': "?h + 1 \<le> unat (queue_tail q c) + ?n" if "live q c" for c
    using mark [OF low_marksI(3) [OF that]] by simp
  have tails: "unat (queue_tail q c) \<le> ?h + 1 \<and> (\<forall>u \<in> U'. unat (queue_tail q c) \<le> u)"
    if "unat c < 32" for c
    using shared_inv_tail [OF inv that] by (auto simp: U'_def)
  have claims: "u < ?h + 1 \<and> ?h + 1 \<le> u + ?n \<and> sequence (slots q ! (u mod ?n)) \<noteq> of_nat u"
    if "u \<in> U'" for u
    using that cl [of u] mark [OF low_marksI(2), of u] fresh d(6)
    by (auto simp: U'_def Suc_le_eq)
  have publ: "slots q ! (p mod ?n) = \<lparr>sequence = of_nat p, data = (hs @ [x]) ! p\<rparr>"
    if "p < ?h + 1" "?h + 1 \<le> p + ?n" "p \<notin> U'" for p
    using shared_inv_published [OF inv, of p] that by (auto simp: U'_def nth_append)
  have seqs: "sequence (slots q ! i) = INVALID_POS \<or> unat (sequence (slots q ! i)) < ?h + 1"
    if "i < ?n" for i
    using shared_inv_seq [OF inv that] by auto
  have sl: "slots q' = slots q" "consumers q' = consumers q" "cached_min q' = cached_min q"
    "live q' = live q" "queue_tail q' = queue_tail q" by (simp_all add: q'_def)
  show "shared_inv q' (hs @ [x]) U'"
    unfolding shared_inv_def Let_def hd sl
    using d(1,2) bound below_marks_advances [OF adv d(5)] live' tails claims publ seqs by simp
qed

lemma copied_slots:
  assumes "shared_inv q hs U"
  shows "slots (store_data (slot_index q h) x q)
    = (slots q)[unat h mod length (slots q) := (slots q ! (unat h mod length (slots q)))\<lparr>data := x\<rparr>]"
  using slot_index_mod [OF shared_invD(1) [OF assms]] by simp

lemma copied_seq [simp]: "sequence ((ss[i := (ss ! i)\<lparr>data := x\<rparr>]) ! j) = sequence (ss ! j)"
  by (cases "i < length ss"; cases "i = j"; simp add: list_update_beyond)

lemma shared_inv_copy:
  fixes q :: "'a MPMCQueue" and x :: 'a
  assumes inv: "shared_inv q hs U" and u: "unat h \<in> U"
  defines "q' \<equiv> store_data (slot_index q h) x q"
  shows "shared_inv q' hs U" "advances q hs U q' hs U"
    "p \<in> U - {unat h} \<Longrightarrow> slots q' ! (p mod length (slots q)) = slots q ! (p mod length (slots q))"
    "data (slots q' ! (unat h mod length (slots q))) = x"
proof -
  let ?n = "length (slots q)" and ?i = "unat h mod length (slots q)"
  note d = shared_invD [OF inv] and cl = shared_inv_claimed [OF inv]
  have sl: "slots q' = (slots q)[?i := (slots q ! ?i)\<lparr>data := x\<rparr>]"
    using copied_slots [OF inv] by (simp add: q'_def)
  have rest: "consumers q' = consumers q" "cached_min q' = cached_min q" "live q' = live q"
    "queue_tail q' = queue_tail q" "queue_head q' = queue_head q" by (simp_all add: q'_def)
  have other: "slots q' ! (p mod ?n) = slots q ! (p mod ?n)"
    if "p < length hs" "length hs \<le> p + ?n" "p \<noteq> unat h" for p
    using same_slot [of p ?n "unat h" "length hs"] that cl(1,2) [OF u] sl by (metis nth_list_update_neq)
  show "p \<in> U - {unat h} \<Longrightarrow> slots q' ! (p mod ?n) = slots q ! (p mod ?n)"
    using other [of p] cl by auto
  show "data (slots q' ! ?i) = x" using sl d(6) by simp
  show "advances q hs U q' hs U" using rest by (auto simp: advances_def sl)
  have "slots q' ! (p mod ?n) = \<lparr>sequence = of_nat p, data = hs ! p\<rparr>"
    if "p < length hs" "length hs \<le> p + ?n" "p \<notin> U" for p
    using other [of p] shared_inv_published [OF inv that] that u by auto
  then show "shared_inv q' hs U"
    using inv d(3) rest unfolding shared_inv_def Let_def below_marks_def low_marks_def
    by (simp add: sl)
qed

lemma shared_inv_publish:
  assumes inv: "shared_inv q hs U" and u: "unat h \<in> U"
    and dat: "data (slots q ! (unat h mod length (slots q))) = hs ! unat h"
  defines "q' \<equiv> store_sequence (slot_index q h) h q" and "U' \<equiv> U - {unat h}"
  shows "shared_inv q' hs U'" "advances q hs U q' hs U'"
    "p \<in> U' \<Longrightarrow> slots q' ! (p mod length (slots q)) = slots q ! (p mod length (slots q))"
proof -
  let ?n = "length (slots q)" and ?i = "unat h mod length (slots q)"
  note d = shared_invD [OF inv] and cl = shared_inv_claimed [OF inv]
  have sl: "slots q' = (slots q)[?i := (slots q ! ?i)\<lparr>sequence := h\<rparr>]"
    using slot_index_mod [OF d(1)] by (simp add: q'_def)
  have rest: "consumers q' = consumers q" "cached_min q' = cached_min q" "live q' = live q"
    "queue_tail q' = queue_tail q" "queue_head q' = queue_head q" by (simp_all add: q'_def)
  have other: "slots q' ! (p mod ?n) = slots q ! (p mod ?n)"
    if "p < length hs" "length hs \<le> p + ?n" "p \<noteq> unat h" for p
    using same_slot [of p ?n "unat h" "length hs"] that cl(1,2) [OF u] sl by (metis nth_list_update_neq)
  show ot: "p \<in> U' \<Longrightarrow> slots q' ! (p mod ?n) = slots q ! (p mod ?n)" for p
    using other [of p] cl by (auto simp: U'_def)
  show adv: "advances q hs U q' hs U'" using rest by (auto simp: advances_def sl U'_def)
  have here: "slots q' ! ?i = \<lparr>sequence = h, data = hs ! unat h\<rparr>"
    using dat d(6) by (cases "slots q ! ?i") (simp add: sl)
  have publ: "slots q' ! (p mod ?n) = \<lparr>sequence = of_nat p, data = hs ! p\<rparr>"
    if "p < length hs" "length hs \<le> p + ?n" "p \<notin> U'" for p
    using other [of p] here shared_inv_published [OF inv, of p] that
    by (cases "p = unat h") (auto simp: U'_def)
  have seqs: "sequence (slots q' ! i) = INVALID_POS \<or> unat (sequence (slots q' ! i)) < length hs"
    if "i < ?n" for i
    using shared_inv_seq [OF inv that] cl(1) [OF u] that
    by (cases "i = ?i") (auto simp: sl)
  have claims: "sequence (slots q' ! (p mod ?n)) \<noteq> of_nat p" if "p \<in> U'" for p
    using ot [OF that] cl(3) [of p] that by (simp add: U'_def)
  have ln: "length (slots q') = ?n" by (simp add: sl)
  show "shared_inv q' hs U'"
    unfolding shared_inv_def Let_def rest ln
    using d(1-4) below_marks_advances [OF adv d(5)] shared_inv_live(2) [OF inv] shared_inv_tail [OF inv]
      cl claims publ seqs
    by (auto simp: U'_def)
qed

lemma shared_inv_advance:
  assumes inv: "shared_inv q hs U" and rd: "readable q U c t"
  defines "q' \<equiv> store_tail c (t + 1) q"
  shows "shared_inv q' hs U" "advances q hs U q' hs U" "unat (t + 1) = unat t + 1"
    "queue_tail q' e = (if e = c then t + 1 else queue_tail q e)"
proof -
  note d = shared_invD [OF inv] and cl = shared_inv_claimed [OF inv]
  have lv: "live q c" and t: "queue_tail q c = t" "unat t < length hs" "unat t \<notin> U"
    using rd d(3) by (auto simp: readable_def)
  have c: "unat c < length (consumers q)" using lv by (simp add: live_def)
  show t1: "unat (t + 1) = unat t + 1" using t(2) d(4) by (simp add: unat_succ_pos)
  show tl: "queue_tail q' e = (if e = c then t + 1 else queue_tail q e)" for e
    using queue_tail_store_tail [OF c] by (simp add: q'_def)
  have rest: "slots q' = slots q" "cached_min q' = cached_min q" "live q' = live q"
    "queue_head q' = queue_head q" "length (consumers q') = length (consumers q)"
    by (simp_all add: q'_def)
  show adv: "advances q hs U q' hs U"
    using rest t1 t(1) by (auto simp: advances_def tl)
  have c32: "unat c < 32" using shared_inv_live(4) [OF inv lv] .
  have up: "unat t + 1 \<le> u" if "u \<in> U" for u
    using shared_inv_tail(2) [OF inv c32 that] t that
    by (metis Suc_eq_plus1 le_neq_implies_less less_eq_Suc_le)
  have "unat (queue_tail q' e) \<le> length hs \<and> (\<forall>u \<in> U. unat (queue_tail q' e) \<le> u)"
    if "unat e < 32" for e
    using shared_inv_tail [OF inv that] t t1 up by (simp add: tl)
  moreover have "length hs \<le> unat (queue_tail q' e) + length (slots q)" if "live q e" for e
    using shared_inv_live(2) [OF inv that] shared_inv_live(2) [OF inv lv] t t1 by (simp add: tl)
  ultimately show "shared_inv q' hs U"
    using inv below_marks_advances [OF adv d(5)] unfolding shared_inv_def Let_def rest by auto
qed

lemma shared_inv_unregister:
  assumes inv: "shared_inv q hs U" and c: "unat c < 32"
  shows "shared_inv (unregister_consumer c q) hs U" "advances q hs U (unregister_consumer c q) hs U"
proof -
  let ?q' = "unregister_consumer c q"
  have lv: "live ?q' e \<longleftrightarrow> e \<noteq> c \<and> live q e" for e
    by (simp add: unregister_consumer_def live_store_active)
  have rest: "slots ?q' = slots q" "cached_min ?q' = cached_min q" "queue_tail ?q' = queue_tail q"
    "queue_head ?q' = queue_head q" "length (consumers ?q') = length (consumers q)"
    "length (slots ?q') = length (slots q)"
    by (simp_all add: unregister_consumer_def cached_min_def queue_head_def)
  show adv: "advances q hs U ?q' hs U" by (auto simp: advances_def rest lv)
  show "shared_inv ?q' hs U"
    using inv below_marks_advances [OF adv shared_invD(5) [OF inv]]
    unfolding shared_inv_def Let_def rest by (auto simp: lv)
qed

section \<open>Every step of the system keeps the invariant\<close>

lemma csys_invD:
  assumes "csys_inv s"
  shows "shared_inv (mem s) (hist s) (unpublished (prods s))"
    "prod_inv (mem s) (hist s) (unpublished (prods s)) (prods s i)"
    "claim_of (prods s i) = Some p \<Longrightarrow> claim_of (prods s j) = Some p \<Longrightarrow> i = j"
    "unat c < 32 \<Longrightarrow> cons_inv (mem s) (hist s) (unpublished (prods s)) c (conss s c)"
    "unat c < 32 \<Longrightarrow> received_ok (mem s) (hist s) c (got s c)"
    "help_inv (mem s) (unpublished (prods s)) (helps s j)"
  using assms by (auto simp: csys_inv_def Let_def)

lemma unpublishedI: "claim_of (ps i) = Some p \<Longrightarrow> p \<in> unpublished ps"
  by (auto simp: unpublished_def)

lemma unpublished_update:
  assumes "\<And>i j p. claim_of (ps i) = Some p \<Longrightarrow> claim_of (ps j) = Some p \<Longrightarrow> i = j"
  shows "unpublished (ps(i := pc)) =
    (unpublished ps - set_option (claim_of (ps i))) \<union> set_option (claim_of pc)"
proof (rule set_eqI)
  fix p
  have "p \<in> unpublished (ps(i := pc))
      \<longleftrightarrow> claim_of pc = Some p \<or> (\<exists>j. j \<noteq> i \<and> claim_of (ps j) = Some p)"
    by (auto simp: unpublished_def split: if_splits)
  also have "(\<exists>j. j \<noteq> i \<and> claim_of (ps j) = Some p)
      \<longleftrightarrow> p \<in> unpublished ps \<and> claim_of (ps i) \<noteq> Some p"
    unfolding unpublished_def mem_Collect_eq using assms [of i p] by metis
  finally show "p \<in> unpublished (ps(i := pc))
      \<longleftrightarrow> p \<in> (unpublished ps - set_option (claim_of (ps i))) \<union> set_option (claim_of pc)"
    by (simp only: Un_iff Diff_iff elem_set) blast
qed

lemma csys_invI:
  assumes "mem s = q" and "hist s = hs" and "unpublished (prods s) = U"
    and "shared_inv q hs U"
    and "\<And>i. prod_inv q hs U (prods s i)"
    and "\<And>i j p. claim_of (prods s i) = Some p \<Longrightarrow> claim_of (prods s j) = Some p \<Longrightarrow> i = j"
    and "\<And>c. unat c < 32 \<Longrightarrow> cons_inv q hs U c (conss s c)"
    and "\<And>c. unat c < 32 \<Longrightarrow> received_ok q hs c (got s c)"
    and "\<And>j. help_inv q U (helps s j)"
  shows "csys_inv s"
  unfolding csys_inv_def Let_def using assms by blast

lemma received_ok_hist:
  assumes "received_ok q hs c xs" and "queue_tail q' c = queue_tail q c"
  shows "received_ok q' (hs @ ys) c xs"
  using assms by (simp add: received_ok_def)

text \<open>
  The frame of a producer step: what has to be shown of the moving thread and the memory
  for the whole system to keep the invariant.
\<close>

lemma csys_inv_prodI:
  assumes inv: "csys_inv s"
    and U': "U' = unpublished ((prods s)(i := pc'))"
    and sh: "shared_inv q' (hist s @ xs) U'"
    and adv: "advances (mem s) (hist s) (unpublished (prods s)) q' (hist s @ xs) U'"
    and mine: "prod_inv q' (hist s @ xs) U' pc'"
    and fresh: "\<And>p. claim_of pc' = Some p \<Longrightarrow>
      claim_of (prods s i) = Some p \<or> p \<notin> unpublished (prods s)"
    and same: "live q' = live (mem s)" "queue_tail q' = queue_tail (mem s)"
    and own: "\<And>p. p \<in> unpublished (prods s) \<Longrightarrow> claim_of (prods s i) \<noteq> Some p \<Longrightarrow>
      data (slots q' ! (p mod length (slots (mem s)))) = data (slots (mem s) ! (p mod length (slots (mem s))))"
  shows "csys_inv (s\<lparr>mem := q', prods := (prods s)(i := pc'), hist := hist s @ xs\<rparr>)"
proof -
  let ?U = "unpublished (prods s)"
  note d = csys_invD [OF inv]
  have others: "prod_inv q' (hist s @ xs) U' (prods s j)" if "j \<noteq> i" for j
  proof (rule prod_inv_advances [OF adv d(2)])
    show "\<forall>u \<in> ?U. u < length (hist s)" using shared_inv_claimed(1) [OF d(1)] by blast
  next
    fix p assume p: "claim_of (prods s j) = Some p"
    then have "claim_of (prods s i) \<noteq> Some p" using d(3) that by blast
    moreover have "p \<in> U'" unfolding U' using p that by (auto simp: unpublished_def)
    ultimately show "p \<in> U' \<and> data (slots q' ! (p mod length (slots (mem s))))
        = data (slots (mem s) ! (p mod length (slots (mem s))))"
      using own unpublishedI [of "prods s" j p] p by blast
  qed
  have inj: "j = k" if "claim_of (((prods s)(i := pc')) j) = Some p"
    "claim_of (((prods s)(i := pc')) k) = Some p" for j k p
  proof -
    have mine: "claim_of pc' = Some p \<Longrightarrow>
        claim_of (prods s i) = Some p \<or> p \<notin> unpublished (prods s)"
      using fresh by blast
    consider "j = i" "k = i" | "j = i" "k \<noteq> i" | "j \<noteq> i" "k = i" | "j \<noteq> i" "k \<noteq> i" by blast
    then show ?thesis
    proof cases
      case 2
      then show ?thesis using that mine d(3) [of i p k] unpublishedI [of "prods s" k p] by auto
    next
      case 3
      then show ?thesis using that mine d(3) [of j p i] unpublishedI [of "prods s" j p] by auto
    next
      case 4
      then show ?thesis using that d(3) [of j p k] by auto
    qed simp
  qed
  have cons: "cons_inv q' (hist s @ xs) U' c (conss s c)" if "unat c < 32" for c
    using cons_inv_advances [OF adv d(4) [OF that]] shared_invD(3) [OF d(1)] same by simp
  show ?thesis
  proof (rule csys_invI [of _ q' "hist s @ xs" U'])
    show "shared_inv q' (hist s @ xs) U'" by (rule sh)
  next
    fix j
    show "prod_inv q' (hist s @ xs) U'
        (prods (s\<lparr>mem := q', prods := (prods s)(i := pc'), hist := hist s @ xs\<rparr>) j)"
      using others [of j] mine by simp
  next
    fix j k p
    show "\<lbrakk>claim_of (prods (s\<lparr>mem := q', prods := (prods s)(i := pc'), hist := hist s @ xs\<rparr>) j) = Some p;
        claim_of (prods (s\<lparr>mem := q', prods := (prods s)(i := pc'), hist := hist s @ xs\<rparr>) k) = Some p\<rbrakk>
        \<Longrightarrow> j = k"
      using inj [of j p k] by simp
  next
    fix c :: u32
    assume c: "unat c < 32"
    show "cons_inv q' (hist s @ xs) U' c
        (conss (s\<lparr>mem := q', prods := (prods s)(i := pc'), hist := hist s @ xs\<rparr>) c)"
      using cons [OF c] by simp
    show "received_ok q' (hist s @ xs) c
        (got (s\<lparr>mem := q', prods := (prods s)(i := pc'), hist := hist s @ xs\<rparr>) c)"
      using received_ok_hist [OF d(5) [OF c]] same(2) by simp
  next
    fix j
    show "help_inv q' U' (helps (s\<lparr>mem := q', prods := (prods s)(i := pc'), hist := hist s @ xs\<rparr>) j)"
      using help_inv_advances [OF adv d(6)] by simp
  qed (simp_all add: U')
qed

text \<open>Steps that touch neither memory nor claims only have to establish the new assertion.\<close>

lemma csys_inv_prod_localI:
  assumes "csys_inv s" and "claim_of pc' = claim_of (prods s i)"
    and "prod_inv (mem s) (hist s) (unpublished (prods s)) pc'"
  shows "csys_inv (s\<lparr>prods := (prods s)(i := pc')\<rparr>)"
proof -
  have U: "unpublished ((prods s)(i := pc')) = unpublished (prods s)"
    using assms(2) by (auto simp: unpublished_def)
  show ?thesis
    using csys_inv_prodI [OF assms(1) U [symmetric], of "mem s" "[]"] assms csys_invD(1) [OF assms(1)]
    by (simp add: advances_refl)
qed

lemma claim_of_resting: "prod_resting pc \<Longrightarrow> claim_of pc = None"
  by (cases pc) (simp_all add: prod_resting_def)

section \<open>The producer steps\<close>

lemma unat_size_guard:
  assumes "shared_inv q hs U" and "unat m \<le> unat (queue_head q)"
  shows "h \<ge> m + SIZE q \<longleftrightarrow> unat h \<ge> unat m + length (slots q)"
  using shared_invD [OF assms(1)] assms(2)
  by (simp add: word_le_nat_alt unat_add_pos unat_SIZE)

lemma below_marks_head: "below_marks q U v \<Longrightarrow> v \<le> unat (queue_head q)"
  by (auto simp: below_marks_def low_marks_def)

lemma scan_inv_start:
  "scan_inv q U 0 [INVALID_POS, INVALID_POS, INVALID_POS, INVALID_POS]"
  by (auto simp: scan_inv_def)

lemma scan_inv_skip:
  assumes sc: "scan_inv q U i accs" and i: "i < 32" and na: "\<not> active (consumers q ! i)"
  shows "scan_inv q U (i + 1) accs"
proof -
  have "\<exists>a \<in> set accs. unat a \<le> unat (queue_tail q c)" if "live q c" "unat c < i + 1" for c
  proof -
    have "unat c \<noteq> i" using na that by (auto simp: live_def is_active_def)
    then show ?thesis using sc that by (simp add: scan_inv_def)
  qed
  then show ?thesis using sc i by (simp add: scan_inv_def)
qed

lemma scan_inv_take:
  assumes inv: "shared_inv q hs U" and sc: "scan_inv q U i accs" and i: "i < 32"
    and act: "\<And>c. unat c = i \<Longrightarrow> live q c \<Longrightarrow> unat t \<le> unat (queue_tail q c)"
    and low: "\<forall>u \<in> insert (unat (queue_head q)) U. unat t \<le> u"
  shows "scan_inv q U (i + 1) (accs[i mod 4 := min (accs ! (i mod 4)) t])"
proof -
  let ?k = "i mod 4" and ?acc = "min (accs ! (i mod 4)) t"
  have k: "?k < length accs" using sc by (simp add: scan_inv_def)
  have acc_le: "unat ?acc \<le> unat t" "unat ?acc \<le> unat (accs ! ?k)"
    by (simp_all only: word_le_nat_alt [symmetric] min.cobounded1 min.cobounded2)
  have old: "\<exists>b \<in> set (accs[?k := ?acc]). unat b \<le> unat a" if a: "a \<in> set accs" for a
  proof -
    obtain j where j: "j < length accs" "a = accs ! j" using a by (auto simp: in_set_conv_nth)
    show ?thesis
    proof (cases "j = ?k")
      case True
      then show ?thesis using acc_le(2) j set_update_memI [OF k] by blast
    next
      case False
      then have "a \<in> set (accs[?k := ?acc])" using j by (metis length_list_update nth_list_update_neq nth_mem)
      then show ?thesis by blast
    qed
  qed
  have "b = INVALID_POS \<or> (\<forall>u \<in> insert (unat (queue_head q)) U. unat b \<le> u)"
    if "b \<in> set (accs[?k := ?acc])" for b
  proof -
    have "b = ?acc \<or> b \<in> set accs" using that set_update_subset_insert by fastforce
    moreover have "\<forall>u \<in> insert (unat (queue_head q)) U. unat ?acc \<le> u"
      using low acc_le(1) order_trans by blast
    ultimately show ?thesis using sc unfolding scan_inv_def by blast
  qed
  moreover have "\<exists>b \<in> set (accs[?k := ?acc]). unat b \<le> unat (queue_tail q c)"
    if c: "live q c" "unat c < i + 1" for c
  proof (cases "unat c = i")
    case True
    then have "unat t \<le> unat (queue_tail q c)"
      using act c(1) by simp
    then show ?thesis using acc_le(1) set_update_memI [OF k] order_trans by blast
  next
    case False
    then obtain a where "a \<in> set accs" "unat a \<le> unat (queue_tail q c)"
      using sc c by (auto simp: scan_inv_def)
    then show ?thesis using old order_trans by blast
  qed
  ultimately show ?thesis using sc i by (simp add: scan_inv_def)
qed

lemma merge_accs_min:
  assumes "length accs = 4"
  shows "merge_accs accs = 0 \<or> merge_accs accs \<in> set accs"
    "a \<in> set accs \<Longrightarrow> a \<noteq> INVALID_POS \<Longrightarrow> merge_accs accs \<le> a"
proof -
  obtain a b c e where accs: "accs = [a, b, c, e]"
    using assms by (auto simp: length_Suc_conv numeral_eq_Suc)
  show "merge_accs accs = 0 \<or> merge_accs accs \<in> set accs"
    by (auto simp: accs merge_accs_def merge_mins_def Let_def min_def numeral_eq_Suc)
  show "x \<in> set accs \<Longrightarrow> x \<noteq> INVALID_POS \<Longrightarrow> merge_accs accs \<le> x" for x
    by (auto simp: accs merge_accs_def merge_mins_def Let_def numeral_eq_Suc min_le_iff_disj)
qed

lemma scan_inv_finish:
  assumes inv: "shared_inv q hs U" and sc: "scan_inv q U 32 accs"
  shows "below_marks q U (unat (merge_accs accs))"
proof -
  have len: "length accs = 4" using sc by (simp add: scan_inv_def)
  have le: "unat (merge_accs accs) \<le> unat a" if "a \<in> set accs" "a \<noteq> INVALID_POS" for a
    using merge_accs_min(2) [OF len that] by (simp add: word_le_nat_alt)
  have "unat (merge_accs accs) \<le> unat (queue_tail q c)" if c: "live q c" for c
  proof -
    have "unat c < 32" using c shared_invD(2) [OF inv] by (simp add: live_def)
    then obtain a where a: "a \<in> set accs" "unat a \<le> unat (queue_tail q c)"
      using sc c by (auto simp: scan_inv_def)
    moreover have "a \<noteq> INVALID_POS"
      using a(2) shared_inv_live(1) [OF inv c] shared_invD(4) [OF inv] unat_INVALID_POS by auto
    ultimately show ?thesis using le by fastforce
  qed
  moreover have "unat (merge_accs accs) \<le> u" if "u \<in> insert (unat (queue_head q)) U" for u
  proof (cases "merge_accs accs = INVALID_POS")
    case True
    then show ?thesis
      by (auto simp: merge_accs_def merge_mins_def Let_def INVALID_POS_def split: if_splits)
  next
    case False
    then show ?thesis
      using merge_accs_min(1) [OF len] sc that by (auto simp: scan_inv_def)
  qed
  ultimately show ?thesis by (auto simp: below_marks_def low_marks_def)
qed

lemma csys_inv_claim:
  assumes inv: "csys_inv s" and pc: "prods s i = P_cas x (queue_head (mem s))"
    and bound: "length (hist s) + 1 + length (slots (mem s)) < 2 ^ 64 - 1"
  shows "csys_inv (s\<lparr>mem := store_head (queue_head (mem s) + 1) (mem s),
    prods := (prods s)(i := P_copy x (queue_head (mem s))), hist := hist s @ [x]\<rparr>)"
proof -
  let ?U = "unpublished (prods s)" and ?q = "mem s"
  note d = csys_invD [OF inv]
  have hd: "unat (queue_head ?q) = length (hist s)" by (rule shared_invD(3) [OF d(1)])
  have room: "prod_inv ?q (hist s) ?U (P_cas x (queue_head ?q))" using d(2) [of i] pc by simp
  note cl = shared_inv_claim [OF d(1) room bound]
  have U': "unpublished ((prods s)(i := P_copy x (queue_head ?q))) = insert (length (hist s)) ?U"
    using unpublished_update [of "prods s" i] d(3) by (simp add: pc hd)
  show ?thesis
    by (rule csys_inv_prodI [OF inv U' [symmetric] cl])
      (use hd shared_inv_claimed(1) [OF d(1)] in \<open>auto simp: nth_append\<close>)
qed

lemma csys_inv_copy:
  assumes inv: "csys_inv s" and pc: "prods s i = P_copy x h"
  shows "csys_inv (s\<lparr>mem := store_data (slot_index (mem s) h) x (mem s),
    prods := (prods s)(i := P_publish x h)\<rparr>)"
proof -
  let ?U = "unpublished (prods s)" and ?q = "mem s"
  note d = csys_invD [OF inv]
  have u: "unat h \<in> ?U" and x: "hist s ! unat h = x" using d(2) [of i] pc by auto
  note cp = shared_inv_copy [OF d(1) u, where x = x]
  have U': "unpublished ((prods s)(i := P_publish x h)) = ?U"
    using unpublished_update [of "prods s" i] d(3) u by (auto simp: pc)
  have "csys_inv (s\<lparr>mem := store_data (slot_index ?q h) x ?q,
      prods := (prods s)(i := P_publish x h), hist := hist s @ []\<rparr>)"
    by (rule csys_inv_prodI [OF inv U' [symmetric]])
      (use cp u x pc in auto)
  then show ?thesis by simp
qed

lemma csys_inv_publish:
  assumes inv: "csys_inv s" and pc: "prods s i = P_publish x h"
  shows "csys_inv (s\<lparr>mem := store_sequence (slot_index (mem s) h) h (mem s),
    prods := (prods s)(i := P_done True)\<rparr>)"
proof -
  let ?U = "unpublished (prods s)" and ?q = "mem s"
  note d = csys_invD [OF inv]
  have u: "unat h \<in> ?U" and x: "data (slots ?q ! (unat h mod length (slots ?q))) = hist s ! unat h"
    using d(2) [of i] pc by auto
  note pb = shared_inv_publish [OF d(1) u x]
  have U': "unpublished ((prods s)(i := P_done True)) = ?U - {unat h}"
    using unpublished_update [of "prods s" i] d(3) u by (auto simp: pc)
  have "csys_inv (s\<lparr>mem := store_sequence (slot_index ?q h) h ?q,
      prods := (prods s)(i := P_done True), hist := hist s @ []\<rparr>)"
    by (rule csys_inv_prodI [OF inv U' [symmetric]]) (use pb pc in auto)
  then show ?thesis by simp
qed

lemma csys_inv_store_min:
  assumes inv: "csys_inv s" and m: "below_marks (mem s) (unpublished (prods s)) (unat m)"
    and cl: "claim_of pc' = claim_of (prods s i)"
    and mine: "prod_inv (mem s) (hist s) (unpublished (prods s)) pc'" and scan: "claim_of pc' = None"
  shows "csys_inv (s\<lparr>mem := store_min_tail m (mem s), prods := (prods s)(i := pc')\<rparr>)"
proof -
  let ?U = "unpublished (prods s)" and ?q = "mem s"
  note d = csys_invD [OF inv]
  have U': "unpublished ((prods s)(i := pc')) = ?U" using cl by (auto simp: unpublished_def)
  have mine': "prod_inv (store_min_tail m ?q) (hist s) ?U pc'"
  proof (rule prod_inv_advances [OF advances_store_min mine])
    show "\<forall>u \<in> ?U. u < length (hist s)" using shared_inv_claimed(1) [OF d(1)] by blast
  qed (simp add: scan)
  have "csys_inv (s\<lparr>mem := store_min_tail m ?q, prods := (prods s)(i := pc'), hist := hist s @ []\<rparr>)"
    by (rule csys_inv_prodI [OF inv U' [symmetric]])
      (use shared_inv_store_min [OF d(1) m] advances_store_min mine' scan in auto)
  then show ?thesis by simp
qed

text \<open>The two full checks of \<open>push\<close>, and what passing them establishes.\<close>

lemma cas_guard:
  assumes inv: "shared_inv q hs U" and m: "below_marks q U (unat m)" and h: "unat h \<le> unat (queue_head q)"
    and g: "\<not> h \<ge> m + SIZE q"
  shows "prod_inv q hs U (P_cas x h)"
proof -
  have "unat h < unat m + length (slots q)"
    using g unat_size_guard [OF inv below_marks_head [OF m]] by simp
  then show ?thesis using m h by (fastforce simp: below_marks_def)
qed

lemma scan_tail_step:
  assumes sh: "shared_inv q hs U" and sc: "scan_inv q U k accs" and k: "k < 32"
  shows "scan_inv q U (k + 1) (accs[k mod 4 := min (accs ! (k mod 4)) (tail (consumers q ! k))])"
proof (rule scan_inv_take [OF sh sc k])
  show "\<And>c. \<lbrakk>unat c = k; live q c\<rbrakk> \<Longrightarrow> unat (tail (consumers q ! k)) \<le> unat (queue_tail q c)"
    by (simp add: queue_tail_def)
  have "unat (of_nat k :: u32) = k" using k by (simp add: unat_of_nat take_bit_nat_eq_self)
  then show "\<forall>u \<in> insert (unat (queue_head q)) U. unat (tail (consumers q ! k)) \<le> u"
    using shared_inv_tail [OF sh, of "of_nat k"] k shared_invD(3) [OF sh] by (simp add: queue_tail_def)
qed

lemma do_prod_local:
  assumes "prod_step spurious (mem s) (prods s i) = (pc', mem s)"
    and "claimed_item (prods s i) pc' = []"
  shows "do_prod i spurious s = s\<lparr>prods := (prods s)(i := pc')\<rparr>"
  using assms by (simp add: do_prod_def)

lemma csys_inv_local_step:
  assumes "csys_inv s" and "prod_step spurious (mem s) (prods s i) = (pc', mem s)"
    and "claimed_item (prods s i) pc' = []" and "claim_of pc' = claim_of (prods s i)"
    and "prod_inv (mem s) (hist s) (unpublished (prods s)) pc'"
  shows "csys_inv (do_prod i spurious s)"
  using csys_inv_prod_localI [OF assms(1,4,5)] do_prod_local [OF assms(2,3)] by simp

lemma csys_inv_do_prod:
  assumes inv: "csys_inv s"
    and bound: "length (hist (do_prod i sp s)) + length (slots (mem s)) < 2 ^ 64 - 1"
  shows "csys_inv (do_prod i sp s)"
proof -
  let ?q = "mem s" and ?U = "unpublished (prods s)"
  note d = csys_invD [OF inv] and loc = csys_inv_local_step [OF inv, of sp i]
  have P: "prod_inv ?q (hist s) ?U (prods s i)" by (rule d(2))
  show ?thesis
  proof (cases "prods s i")
    case P_idle
    then show ?thesis using loc [of P_idle] by (simp add: claimed_item_def)
  next
    case (P_done r)
    then show ?thesis using loc [of "P_done r"] by (simp add: claimed_item_def)
  next
    case (P_load_head x)
    then show ?thesis
      using loc [of "P_load_min x (queue_head ?q)"] by (simp add: claimed_item_def)
  next
    case (P_load_min x h)
    have h: "unat h \<le> unat (queue_head ?q)" using P P_load_min by simp
    have m: "below_marks ?q ?U (unat (cached_min ?q))" by (rule shared_invD(5) [OF d(1)])
    show ?thesis
    proof (cases "h \<ge> cached_min ?q + SIZE ?q")
      case True
      then show ?thesis
        using loc [of "P_scan_active x h (cached_min ?q) 0 [INVALID_POS, INVALID_POS, INVALID_POS, INVALID_POS]"]
          P_load_min h m by (simp add: claimed_item_def Let_def scan_inv_start)
    next
      case False
      then show ?thesis
        using loc [of "P_cas x h"] P_load_min cas_guard [OF d(1) m h False]
        by (simp add: claimed_item_def Let_def)
    qed
  next
    case (P_scan_active x h mt k accs)
    have h: "unat h \<le> unat (queue_head ?q)" and m: "below_marks ?q ?U (unat mt)"
      and sc: "scan_inv ?q ?U k accs" using P P_scan_active by simp_all
    consider "k < 32" "active (consumers ?q ! k)" | "k < 32" "\<not> active (consumers ?q ! k)" | "k = 32"
      using sc by (fastforce simp: scan_inv_def)
    then show ?thesis
    proof cases
      case 1
      then show ?thesis
        using loc [of "P_scan_tail x h mt k accs"] P_scan_active h m sc by (simp add: claimed_item_def)
    next
      case 2
      then show ?thesis
        using loc [of "P_scan_active x h mt (k + 1) accs"] P_scan_active h m scan_inv_skip [OF sc 2]
        by (simp add: claimed_item_def)
    next
      case 3
      then show ?thesis
        using loc [of "P_store_min x h mt (merge_accs accs)"] P_scan_active h m
          scan_inv_finish [OF d(1), of accs] sc by (simp add: claimed_item_def)
    qed
  next
    case (P_scan_tail x h mt k accs)
    then show ?thesis
      using loc [of "P_scan_active x h mt (k + 1)
          (accs[k mod 4 := min (accs ! (k mod 4)) (tail (consumers ?q ! k))])"]
        P scan_tail_step [OF d(1)] by (simp add: claimed_item_def)
  next
    case (P_store_min x h mt m)
    have h: "unat h \<le> unat (queue_head ?q)" and bm: "below_marks ?q ?U (unat m)"
      and bmt: "below_marks ?q ?U (unat mt)" using P P_store_min by simp_all
    define pc' where "pc' = (if h \<ge> m + SIZE ?q then P_done False else P_cas x h)"
    have mine: "prod_inv ?q (hist s) ?U pc'" and none: "claim_of pc' = None"
      using cas_guard [OF d(1) bm h] by (simp_all add: pc'_def)
    have step: "prod_step sp ?q (prods s i) = (pc', if m \<noteq> mt then store_min_tail m ?q else ?q)"
      using P_store_min by (auto simp: pc'_def Let_def)
    have ci: "claimed_item (prods s i) pc' = []" by (simp add: P_store_min claimed_item_def)
    show ?thesis
    proof (cases "m = mt")
      case True
      then show ?thesis using loc [of pc'] step ci none mine P_store_min by simp
    next
      case False
      then have "do_prod i sp s = s\<lparr>mem := store_min_tail m ?q, prods := (prods s)(i := pc')\<rparr>"
        using step ci by (simp add: do_prod_def)
      then show ?thesis using csys_inv_store_min [OF inv bm _ mine none] none P_store_min by simp
    qed
  next
    case (P_cas x h)
    show ?thesis
    proof (cases "sp \<or> queue_head ?q \<noteq> h")
      case True
      then show ?thesis using loc [of "P_load_head x"] P_cas by (simp add: claimed_item_def)
    next
      case False
      then have step: "do_prod i sp s = s\<lparr>mem := store_head (queue_head ?q + 1) ?q,
          prods := (prods s)(i := P_copy x (queue_head ?q)), hist := hist s @ [x]\<rparr>"
        using P_cas by (simp add: do_prod_def claimed_item_def)
      show ?thesis
        using csys_inv_claim [OF inv, of i x] P_cas False bound step by simp
    qed
  next
    case (P_copy x h)
    then have "do_prod i sp s = s\<lparr>mem := store_data (slot_index ?q h) x ?q,
        prods := (prods s)(i := P_publish x h)\<rparr>"
      by (simp add: do_prod_def claimed_item_def)
    then show ?thesis using csys_inv_copy [OF inv P_copy] by simp
  next
    case (P_publish x h)
    then have "do_prod i sp s = s\<lparr>mem := store_sequence (slot_index ?q h) h ?q,
        prods := (prods s)(i := P_done True)\<rparr>"
      by (simp add: do_prod_def claimed_item_def)
    then show ?thesis using csys_inv_publish [OF inv P_publish] by simp
  qed
qed

section \<open>The consumer steps\<close>

lemma csys_inv_consI:
  assumes inv: "csys_inv s"
    and sh: "shared_inv q' (hist s) (unpublished (prods s))"
    and adv: "advances (mem s) (hist s) (unpublished (prods s)) q' (hist s) (unpublished (prods s))"
    and slots: "slots q' = slots (mem s)"
    and others: "\<And>e. e \<noteq> c \<Longrightarrow> queue_tail q' e = queue_tail (mem s) e \<and> live q' e = live (mem s) e"
    and mine: "unat c < 32 \<Longrightarrow> cons_inv q' (hist s) (unpublished (prods s)) c pc'"
    and rcv: "unat c < 32 \<Longrightarrow> received_ok q' (hist s) c (got s c @ xs)"
  shows "csys_inv (s\<lparr>mem := q', conss := (conss s)(c := pc'), got := (got s)(c := got s c @ xs)\<rparr>)"
proof (rule csys_invI [of _ q' "hist s" "unpublished (prods s)"])
  note d = csys_invD [OF inv]
  show "shared_inv q' (hist s) (unpublished (prods s))" by (rule sh)
  fix e :: u32 and i j p
  show "prod_inv q' (hist s) (unpublished (prods s))
      (prods (s\<lparr>mem := q', conss := (conss s)(c := pc'), got := (got s)(c := got s c @ xs)\<rparr>) i)"
    using prod_inv_advances [OF adv d(2) [of i]] shared_inv_claimed(1) [OF d(1)] slots
      unpublishedI [of "prods s" i] by simp
  show "\<lbrakk>claim_of (prods (s\<lparr>mem := q', conss := (conss s)(c := pc'), got := (got s)(c := got s c @ xs)\<rparr>) i) = Some p;
      claim_of (prods (s\<lparr>mem := q', conss := (conss s)(c := pc'), got := (got s)(c := got s c @ xs)\<rparr>) j) = Some p\<rbrakk>
      \<Longrightarrow> i = j"
    using d(3) [of i p j] by simp
  assume e: "unat e < 32"
  show "cons_inv q' (hist s) (unpublished (prods s)) e
      (conss (s\<lparr>mem := q', conss := (conss s)(c := pc'), got := (got s)(c := got s c @ xs)\<rparr>) e)"
    using mine e others [of e] cons_inv_advances [OF adv d(4) [OF e] shared_invD(3) [OF d(1)]]
    by (cases "e = c") simp_all
  show "received_ok q' (hist s) e
      (got (s\<lparr>mem := q', conss := (conss s)(c := pc'), got := (got s)(c := got s c @ xs)\<rparr>) e)"
    using rcv e others [of e] d(5) [OF e] by (cases "e = c") (simp_all add: received_ok_def)
next
  fix j
  show "help_inv q' (unpublished (prods s))
      (helps (s\<lparr>mem := q', conss := (conss s)(c := pc'), got := (got s)(c := got s c @ xs)\<rparr>) j)"
    using help_inv_advances [OF adv csys_invD(6) [OF inv]] by simp
qed simp_all

lemma readable_slot:
  assumes inv: "shared_inv q hs U" and lv: "live q c" and t: "queue_tail q c = t"
    and seq: "sequence (slots q ! slot_index q t) = t"
  shows "readable q U c t" "data (slots q ! slot_index q t) = hs ! unat t"
proof -
  note d = shared_invD [OF inv] and lb = shared_inv_live [OF inv lv]
  have ix: "slot_index q t = unat t mod length (slots q)" by (rule slot_index_mod [OF d(1)])
  have "unat t \<noteq> 2 ^ 64 - 1" using lb(1) t d(4) by auto
  then have "t \<noteq> INVALID_POS" using unat_INVALID_POS by auto
  then have lt: "unat t < length hs"
    using shared_inv_seq [OF inv, of "slot_index q t"] seq ix d(6) by auto
  have nu: "unat t \<notin> U"
    using shared_inv_claimed(3) [OF inv, of "unat t"] seq ix by auto
  show "readable q U c t" using lv t lt nu d(3) by (simp add: readable_def)
  show "data (slots q ! slot_index q t) = hs ! unat t"
    using shared_inv_published [OF inv lt _ nu] lb(2) t ix by simp
qed

lemma csys_inv_do_cons:
  assumes inv: "csys_inv s" and c: "unat c < 32"
  shows "csys_inv (do_cons c s)"
proof -
  let ?q = "mem s" and ?U = "unpublished (prods s)"
  note d = csys_invD [OF inv]
  have C: "cons_inv ?q (hist s) ?U c (conss s c)" and R: "received_ok ?q (hist s) c (got s c)"
    by (rule d(4) [OF c], rule d(5) [OF c])
  have len: "unat c < length (consumers ?q)" using c shared_invD(2) [OF d(1)] by simp
  have loc: "csys_inv (do_cons c s)"
    if "cons_step c ?q (conss s c) = (pc', ?q)" "received_item (conss s c) = []"
      "cons_inv ?q (hist s) ?U c pc'" for pc'
  proof -
    have "csys_inv (s\<lparr>mem := ?q, conss := (conss s)(c := pc'), got := (got s)(c := got s c @ [])\<rparr>)"
      by (rule csys_inv_consI [OF inv d(1) advances_refl]) (use that R in auto)
    then show ?thesis using that by (simp add: do_cons_def)
  qed
  show ?thesis
  proof (cases "conss s c")
    case C_load_active
    then show ?thesis
      using loc [of "if is_active ?q c then C_load_tail else C_done None"] len
      by (simp add: received_item_def live_def)
  next
    case C_load_tail
    then show ?thesis using loc [of "C_load_seq (queue_tail ?q c)"] C by (simp add: received_item_def)
  next
    case (C_load_seq t)
    then show ?thesis
      using loc [of "if sequence (slots ?q ! slot_index ?q t) \<noteq> t then C_done None else C_copy t"]
        C readable_slot(1) [OF d(1)] by (simp add: received_item_def)
  next
    case (C_copy t)
    have rd: "readable ?q ?U c t" using C C_copy by simp
    then have lv: "live ?q c" and t: "queue_tail ?q c = t" and lt: "unat t < length (hist s)"
      and nu: "unat t \<notin> ?U"
      using shared_invD(3) [OF d(1)] by (auto simp: readable_def)
    have "data (slots ?q ! slot_index ?q t) = hist s ! unat t"
      using shared_inv_published [OF d(1) lt _ nu] shared_inv_live(2) [OF d(1) lv] t
        slot_index_mod [OF shared_invD(1) [OF d(1)], of t] by simp
    then show ?thesis
      using loc [of "C_advance t (data (slots ?q ! slot_index ?q t))"] C_copy rd
      by (simp add: received_item_def)
  next
    case (C_advance t x)
    have rd: "readable ?q ?U c t" and x: "x = hist s ! unat t" using C C_advance by simp_all
    note av = shared_inv_advance [OF d(1) rd]
    have t: "queue_tail ?q c = t" "unat t < length (hist s)"
      using rd shared_invD(3) [OF d(1)] by (simp_all add: readable_def)
    have "csys_inv (s\<lparr>mem := store_tail c (t + 1) ?q, conss := (conss s)(c := C_done (Some x)),
        got := (got s)(c := got s c @ [x])\<rparr>)"
    proof (rule csys_inv_consI [OF inv av(1,2)])
      show "received_ok (store_tail c (t + 1) ?q) (hist s) c (got s c @ [x])"
        using R av(3) av(4) [of c] t x by (simp add: received_ok_def take_Suc_conv_app_nth)
    qed (use av(4) in auto)
    then show ?thesis using C_advance by (simp add: do_cons_def received_item_def)
  qed (use loc in \<open>auto simp: received_item_def\<close>)
qed

lemma csys_inv_unregister:
  assumes inv: "csys_inv s" and c: "unat c < 32" and rest: "cons_resting (conss s c)"
  shows "csys_inv (s\<lparr>mem := unregister_consumer c (mem s)\<rparr>)"
proof -
  note d = csys_invD [OF inv] and ur = shared_inv_unregister [OF csys_invD(1) [OF inv] c]
  have tl: "queue_tail (unregister_consumer c (mem s)) = queue_tail (mem s)"
    by (simp add: unregister_consumer_def)
  have "csys_inv (s\<lparr>mem := unregister_consumer c (mem s), conss := (conss s)(c := conss s c),
      got := (got s)(c := got s c @ [])\<rparr>)"
  proof (rule csys_inv_consI [OF inv ur])
    show "slots (unregister_consumer c (mem s)) = slots (mem s)"
      by (simp add: unregister_consumer_def)
    show "queue_tail (unregister_consumer c (mem s)) e = queue_tail (mem s) e
        \<and> live (unregister_consumer c (mem s)) e = live (mem s) e" if "e \<noteq> c" for e
      using that by (simp add: unregister_consumer_def live_store_active)
    show "cons_inv (unregister_consumer c (mem s)) (hist s) (unpublished (prods s)) c (conss s c)"
      using rest by (cases "conss s c") (simp_all add: cons_resting_def)
    show "received_ok (unregister_consumer c (mem s)) (hist s) c (got s c @ [])"
      using d(5) [OF c] tl by (simp add: received_ok_def)
  qed
  then show ?thesis by simp
qed

section \<open>The steps of a recomputation\<close>

lemma csys_inv_helpI:
  assumes inv: "csys_inv s" and sh: "shared_inv q' (hist s) (unpublished (prods s))"
    and q': "q' = mem s \<or> (\<exists>m. q' = store_min_tail m (mem s))"
    and mine: "help_inv (mem s) (unpublished (prods s)) pc'"
  shows "csys_inv (s\<lparr>mem := q', helps := (helps s)(j := pc')\<rparr>)"
proof -
  note d = csys_invD [OF inv]
  have adv: "advances (mem s) (hist s) (unpublished (prods s)) q' (hist s) (unpublished (prods s))"
    using q' advances_refl advances_store_min by blast
  have same: "live q' = live (mem s)" "queue_tail q' = queue_tail (mem s)" "slots q' = slots (mem s)"
    using q' by auto
  let ?t = "s\<lparr>mem := q', helps := (helps s)(j := pc')\<rparr>"
  show ?thesis
  proof (rule csys_invI [of _ q' "hist s" "unpublished (prods s)"])
    show "shared_inv q' (hist s) (unpublished (prods s))" by (rule sh)
  next
    fix i
    show "prod_inv q' (hist s) (unpublished (prods s)) (prods ?t i)"
      using prod_inv_advances [OF adv d(2) [of i]] shared_inv_claimed(1) [OF d(1)] same(3)
        unpublishedI [of "prods s" i] by simp
  next
    fix i k p
    show "\<lbrakk>claim_of (prods ?t i) = Some p; claim_of (prods ?t k) = Some p\<rbrakk> \<Longrightarrow> i = k"
      using d(3) [of i p k] by simp
  next
    fix c :: u32
    assume c: "unat c < 32"
    show "cons_inv q' (hist s) (unpublished (prods s)) c (conss ?t c)"
      using cons_inv_advances [OF adv d(4) [OF c] shared_invD(3) [OF d(1)]] same by simp
    show "received_ok q' (hist s) c (got ?t c)"
      using d(5) [OF c] same(2) by (simp add: received_ok_def)
  next
    fix i
    show "help_inv q' (unpublished (prods s)) (helps ?t i)"
      using help_inv_advances [OF adv mine] help_inv_advances [OF adv d(6) [of i]] by simp
  qed simp_all
qed

lemma csys_inv_do_help:
  assumes inv: "csys_inv s"
  shows "csys_inv (do_help j s)"
proof -
  let ?q = "mem s" and ?U = "unpublished (prods s)"
  note d = csys_invD [OF inv]
  note loc = csys_inv_helpI [OF inv d(1), where j = j, OF disjI1 [OF refl]]
  have H: "help_inv ?q ?U (helps s j)" by (rule d(6))
  show ?thesis
  proof (cases "helps s j")
    case H_idle
    then show ?thesis using loc [of H_idle] by (simp add: do_help_def)
  next
    case (H_scan_active k accs)
    have sc: "scan_inv ?q ?U k accs" using H H_scan_active by simp
    consider "k < 32" "active (consumers ?q ! k)" | "k < 32" "\<not> active (consumers ?q ! k)" | "k = 32"
      using sc by (fastforce simp: scan_inv_def)
    then show ?thesis
    proof cases
      case 1
      then show ?thesis using loc [of "H_scan_tail k accs"] H_scan_active sc by (simp add: do_help_def)
    next
      case 2
      then show ?thesis
        using loc [of "H_scan_active (k + 1) accs"] H_scan_active scan_inv_skip [OF sc 2]
        by (simp add: do_help_def)
    next
      case 3
      then show ?thesis
        using loc [of "H_store (merge_accs accs)"] H_scan_active scan_inv_finish [OF d(1), of accs] sc
        by (simp add: do_help_def)
    qed
  next
    case (H_scan_tail k accs)
    then show ?thesis
      using loc [of "H_scan_active (k + 1) (accs[k mod 4 := min (accs ! (k mod 4)) (tail (consumers ?q ! k))])"]
        H scan_tail_step [OF d(1)] by (simp add: do_help_def)
  next
    case (H_store m)
    then have "shared_inv (store_min_tail m ?q) (hist s) ?U" using H shared_inv_store_min [OF d(1)] by simp
    then show ?thesis
      using csys_inv_helpI [OF inv, of "store_min_tail m ?q" H_idle j] H_store by (auto simp: do_help_def)
  qed
qed

section \<open>Reachable states\<close>

text \<open>The starting memory: consumers are registered, tails and head are zero.\<close>

lemma register_consumer_fields:
  "queue_head (snd (register_consumer q)) = queue_head q"
  "slots (snd (register_consumer q)) = slots q"
  "cached_min (snd (register_consumer q)) = cached_min q"
  "length (consumers (snd (register_consumer q))) = length (consumers q)"
  by (simp_all add: register_consumer_def publish_consumer_def Let_def)

lemma register_tails_zero:
  assumes "queue_head q = 0" and "\<forall>x \<in> set (consumers q). tail x = 0"
  shows "\<forall>x \<in> set (consumers (snd (register_consumer q))). tail x = 0"
proof -
  let ?c = "unat (queue_num_consumers q)" and ?cs = "consumers q"
  have "set (consumers (snd (register_consumer q))) \<subseteq>
      set ?cs \<union> {x. tail x = 0}"
  proof (cases "queue_num_consumers q \<ge> MAX_CONSUMERS")
    case True
    then show ?thesis by (auto simp: register_consumer_def Let_def)
  next
    case False
    have "consumers (snd (register_consumer q))
        = ?cs[?c := (?cs ! ?c)\<lparr>tail := 0\<rparr>, ?c := (?cs[?c := (?cs ! ?c)\<lparr>tail := 0\<rparr>] ! ?c)\<lparr>active := True\<rparr>]"
      using False assms(1) by (simp add: register_consumer_def publish_consumer_def Let_def)
    moreover have "tail (?cs[?c := (?cs ! ?c)\<lparr>tail := 0\<rparr>] ! ?c) = 0 \<or> length ?cs \<le> ?c"
      by (cases "?c < length ?cs") auto
    ultimately show ?thesis
      using set_update_subset_insert by (fastforce simp: list_update_beyond)
  qed
  then show ?thesis using assms(2) by auto
qed

lemma register_many_start:
  assumes "queue_head q = 0" and "\<forall>x \<in> set (consumers q). tail x = 0"
  shows "queue_head (register_many k q) = 0 \<and> (\<forall>x \<in> set (consumers (register_many k q)). tail x = 0)
    \<and> slots (register_many k q) = slots q \<and> cached_min (register_many k q) = cached_min q
    \<and> length (consumers (register_many k q)) = length (consumers q)"
  using assms
proof (induction k arbitrary: q)
  case (Suc k)
  show ?case
    using Suc.IH [of "snd (register_consumer q)"] Suc.prems register_tails_zero [OF Suc.prems]
    by (simp add: register_consumer_fields)
qed simp

lemma fresh_registered:
  fixes d :: 'a and n k :: nat
  defines "q \<equiv> register_many k (MPMCQueue_new n d)"
  shows "queue_head q = 0" "\<forall>x \<in> set (consumers q). tail x = 0" "length (consumers q) = 32"
    "slots q = replicate n \<lparr>sequence = INVALID_POS, data = d\<rparr>" "cached_min q = 0"
proof -
  let ?q0 = "MPMCQueue_new n d"
  have "queue_head ?q0 = 0" and "\<forall>x \<in> set (consumers ?q0). tail x = 0"
    by (simp_all add: MPMCQueue_new_def queue_head_def)
  note z = register_many_start [OF this, of k]
  show "queue_head q = 0" "\<forall>x \<in> set (consumers q). tail x = 0" "length (consumers q) = 32"
    "slots q = replicate n \<lparr>sequence = INVALID_POS, data = d\<rparr>" "cached_min q = 0"
    using z by (simp_all add: q_def MPMCQueue_new_def cached_min_def)
qed

lemma csys_inv_init:
  assumes "valid_size n" and "n < 2 ^ 64 - 1"
  shows "csys_inv (init_csys n d k)"
proof (rule csys_invI [of _ "register_many k (MPMCQueue_new n d)" "[]" "{}"])
  let ?q = "register_many k (MPMCQueue_new n d)"
  note z = fresh_registered [of k n d]
  have tl: "queue_tail ?q c = 0" if "unat c < 32" for c
    using z(2,3) that by (simp add: queue_tail_def)
  show "unpublished (prods (init_csys n d k)) = {}"
    by (auto simp: init_csys_def unpublished_def)
  show "shared_inv ?q [] {}"
    using assms tl
    by (simp add: shared_inv_def Let_def below_marks_def low_marks_def z(1,3-5))
  show "received_ok ?q [] c (got (init_csys n d k) c)" if "unat c < 32" for c
    using tl [OF that] by (simp add: received_ok_def init_csys_def)
qed (simp_all add: init_csys_def)

lemma csys_step_grows:
  assumes "csys_step s t"
  shows "\<exists>xs. hist t = hist s @ xs" "length (slots (mem t)) = length (slots (mem s))"
proof -
  have pl: "length (slots q') = length (slots q)" if "prod_step sp q pc = (pc', q')"
    for sp q and pc pc' :: "'a ppc" and q'
    using that by (cases pc) (auto simp: Let_def split: if_splits)
  have cl: "length (slots q') = length (slots q)" if "cons_step c q pc = (pc', q')"
    for c q and pc pc' :: "'a cpc" and q'
    using that by (cases pc) auto
  have hl: "length (slots q') = length (slots q)" if "help_step q pc = (pc', q')"
    for q q' :: "'a MPMCQueue" and pc pc'
    using that by (cases pc) (auto split: if_splits)
  show "\<exists>xs. hist t = hist s @ xs" "length (slots (mem t)) = length (slots (mem s))"
    using assms by (auto elim!: csys_stepE simp: do_prod_def do_cons_def do_help_def unregister_consumer_def
        dest: pl cl hl split: prod.splits)
qed

lemma csys_inv_step:
  assumes "csys_inv s" and "csys_step s t"
    and bound: "length (hist t) + length (slots (mem t)) < 2 ^ 64 - 1"
  shows "csys_inv t"
  using assms(2)
proof cases
  case (call_push i x)
  then show ?thesis
    using csys_inv_prod_localI [OF assms(1), of "P_load_head x" i] claim_of_resting [of "prods s i"]
    by simp
next
  case (run_push i sp)
  then show ?thesis
    using csys_inv_do_prod [OF assms(1)] bound csys_step_grows(2) [OF assms(2)] by simp
next
  case (call_pop c)
  have "csys_inv (s\<lparr>mem := mem s, conss := (conss s)(c := C_load_active), got := (got s)(c := got s c @ [])\<rparr>)"
    using csys_invD [OF assms(1)] by (intro csys_inv_consI [OF assms(1) _ advances_refl]) auto
  then show ?thesis using call_pop by simp
next
  case (run_pop c)
  then show ?thesis using csys_inv_do_cons [OF assms(1)] by simp
next
  case (unregister c)
  then show ?thesis using csys_inv_unregister [OF assms(1)] by simp
next
  case (call_recompute j)
  have "help_inv (mem s) (unpublished (prods s)) (H_scan_active 0 [INVALID_POS, INVALID_POS, INVALID_POS, INVALID_POS])"
    by (simp add: scan_inv_start)
  then show ?thesis
    using csys_inv_helpI [OF assms(1) csys_invD(1) [OF assms(1)] disjI1 [OF refl], where j = j] call_recompute
    by simp
next
  case (run_recompute j)
  then show ?thesis using csys_inv_do_help [OF assms(1)] by simp
qed

lemma reachable_inv:
  assumes "reachable n d k s" and "valid_size n" and "length (hist s) + n < 2 ^ 64 - 1"
  shows "csys_inv s \<and> length (slots (mem s)) = n"
  using assms
proof (induction rule: reachable.induct)
  case start
  have "length (slots (mem (init_csys n d k))) = n"
    by (simp add: init_csys_def fresh_registered(4))
  then show ?case using csys_inv_init [of n d k] start by simp
next
  case (step s t)
  have "length (hist s) \<le> length (hist t)" using csys_step_grows(1) [OF step.hyps(2)] by auto
  then have s: "csys_inv s \<and> length (slots (mem s)) = n" using step by simp
  then have "length (slots (mem t)) = n" using csys_step_grows(2) [OF step.hyps(2)] by simp
  then show ?case using csys_inv_step [OF _ step.hyps(2)] s step.prems by simp
qed

end
