(* ===== verification/Mpmc_Correct.thy ===== *)
theory Mpmc_Correct
  imports Mpmc_Concurrent
begin

text \<open>
  What the interleaved executions of \<open>Mpmc_Concurrent\<close> guarantee: an executable scheduler
  whose runs are exactly the reachable states, the safety theorems (ordered exactly-once
  delivery, no data race on a slot, no overwriting of unread items), and the agreement of
  the single accesses, run without interference, with the calls of \<open>Mpmc_Queue\<close>.
\<close>

section \<open>An executable scheduler\<close>

datatype 'a event =
    Call_push nat 'a
  | Run_push nat bool
  | Call_pop u32
  | Run_pop u32
  | Unregister u32
  | Call_recompute nat
  | Run_recompute nat

fun exec_event :: "'a event \<Rightarrow> 'a csys \<Rightarrow> 'a csys" where
  "exec_event (Call_push i x) s =
     (if prod_resting (prods s i) then s\<lparr>prods := (prods s)(i := P_load_head x)\<rparr> else s)"
| "exec_event (Run_push i spurious) s = do_prod i spurious s"
| "exec_event (Call_pop c) s =
     (if cons_resting (conss s c) \<and> unat c < 32
      then s\<lparr>conss := (conss s)(c := C_load_active)\<rparr> else s)"
| "exec_event (Run_pop c) s = (if unat c < 32 then do_cons c s else s)"
| "exec_event (Unregister c) s =
     (if cons_resting (conss s c) \<and> unat c < 32
      then s\<lparr>mem := unregister_consumer c (mem s)\<rparr> else s)"
| "exec_event (Call_recompute j) s =
     (if helps s j = H_idle
      then s\<lparr>helps := (helps s)(j := H_scan_active 0 [INVALID_POS, INVALID_POS, INVALID_POS, INVALID_POS])\<rparr>
      else s)"
| "exec_event (Run_recompute j) s = do_help j s"

fun run_events :: "'a event list \<Rightarrow> 'a csys \<Rightarrow> 'a csys" where
  "run_events [] s = s"
| "run_events (e # es) s = run_events es (exec_event e s)"

lemma exec_event_step: "exec_event e s = s \<or> csys_step s (exec_event e s)"
  by (cases e) (auto intro: csys_step.intros)

lemma csys_step_event: "csys_step s t \<Longrightarrow> \<exists>e. t = exec_event e s"
proof (induction rule: csys_step.induct)
  case (call_push s i x)
  then show ?case by (intro exI [of _ "Call_push i x"]) simp
next
  case (run_push s i spurious)
  then show ?case by (intro exI [of _ "Run_push i spurious"]) simp
next
  case (call_pop s c)
  then show ?case by (intro exI [of _ "Call_pop c"]) simp
next
  case (run_pop c s)
  then show ?case by (intro exI [of _ "Run_pop c"]) simp
next
  case (unregister s c)
  then show ?case by (intro exI [of _ "Unregister c"]) simp
next
  case (call_recompute s j)
  then show ?case by (intro exI [of _ "Call_recompute j"]) simp
next
  case (run_recompute s j)
  then show ?case by (intro exI [of _ "Run_recompute j"]) simp
qed

lemma run_events_append: "run_events (es @ fs) s = run_events fs (run_events es s)"
  by (induction es arbitrary: s) simp_all

lemma reachable_run: "reachable n d k s \<Longrightarrow> reachable n d k (run_events es s)"
proof (induction es arbitrary: s)
  case (Cons e es)
  have "reachable n d k (exec_event e s)"
    using Cons.prems exec_event_step [of e s] reachable.step by metis
  then show ?case using Cons.IH by simp
qed simp

lemma run_reachable: "reachable n d k (run_events es (init_csys n d k))"
  by (rule reachable_run [OF reachable.start])

lemma reachable_events:
  "reachable n d k s \<longleftrightarrow> (\<exists>es. s = run_events es (init_csys n d k))"
proof
  show "reachable n d k s \<Longrightarrow> \<exists>es. s = run_events es (init_csys n d k)"
  proof (induction rule: reachable.induct)
    case start
    show ?case by (intro exI [of _ "[]"]) simp
  next
    case (step s t)
    then obtain es e where "s = run_events es (init_csys n d k)" "t = exec_event e s"
      using csys_step_event by blast
    then show ?case by (intro exI [of _ "es @ [e]"]) (simp add: run_events_append)
  qed
next
  assume "\<exists>es. s = run_events es (init_csys n d k)"
  then show "reachable n d k s" using reachable_run [OF reachable.start] by auto
qed

section \<open>Producer threads running alone\<close>

text \<open>\<open>solo k q pc\<close>: the next \<open>k\<close> accesses of one producer, nobody interfering.\<close>

fun solo :: "nat \<Rightarrow> 'a MPMCQueue \<Rightarrow> 'a ppc \<Rightarrow> 'a ppc \<times> 'a MPMCQueue" where
  "solo 0 q pc = (pc, q)"
| "solo (Suc k) q pc = (let (pc', q') = prod_step False q pc in solo k q' pc')"

lemma solo_done [simp]: "solo k q (P_done r) = (P_done r, q)"
  by (induction k) simp_all

lemma solo_add: "solo (a + b) q pc = (let (pc', q') = solo a q pc in solo b q' pc')"
  by (induction a arbitrary: q pc) (simp_all split: prod.splits)

lemma solo_at_least:
  assumes "solo a q pc = (P_done r, q')" and "a \<le> b"
  shows "solo b q pc = (P_done r, q')"
  using assms solo_add [of a "b - a" q pc] by simp

definition min4 :: "u64 list \<Rightarrow> u64" where
  "min4 accs = min (min (accs ! 0) (accs ! 1)) (min (accs ! 2) (accs ! 3))"

lemma min4_update:
  assumes "length accs = 4" and "k < 4"
  shows "min4 (accs[k := min (accs ! k) t]) = min (min4 accs) t"
proof -
  obtain a b c e where "accs = [a, b, c, e]"
    using assms(1) by (auto simp: length_Suc_conv numeral_eq_Suc)
  moreover have "k = 0 \<or> k = 1 \<or> k = 2 \<or> k = 3" using assms(2) by auto
  ultimately show ?thesis
    by (auto simp: min4_def min.assoc min.commute min.left_commute)
qed

lemma solo_scan:
  assumes "length (consumers q) = 32" and "length accs = 4" and "i \<le> 32"
  shows "\<exists>k accs'. k \<le> 2 * (32 - i) + 1 \<and> min4 accs' = plain_min (drop i (consumers q)) (min4 accs)
    \<and> solo k q (P_scan_active x h mt i accs) = (P_store_min x h mt (merge_accs accs'), q)"
  using assms
proof (induction "32 - i" arbitrary: i accs)
  case 0
  then have "i = 32" by simp
  then show ?case
    using 0 by (intro exI [of _ 1] exI [of _ accs]) (simp add: drop_all)
next
  case (Suc m)
  then have i: "i < 32" and m: "m = 32 - (i + 1)" by simp_all
  let ?c = "consumers q ! i"
  have dr: "drop i (consumers q) = ?c # drop (i + 1) (consumers q)"
    using Suc.prems i by (simp add: Cons_nth_drop_Suc)
  show ?case
  proof (cases "active ?c")
    case True
    let ?accs = "accs[i mod 4 := min (accs ! (i mod 4)) (tail ?c)]"
    obtain k accs' where k: "k \<le> 2 * (32 - (i + 1)) + 1"
      "min4 accs' = plain_min (drop (i + 1) (consumers q)) (min4 ?accs)"
      "solo k q (P_scan_active x h mt (i + 1) ?accs) = (P_store_min x h mt (merge_accs accs'), q)"
      using Suc.hyps(1) [of "i + 1" ?accs] m Suc.prems i by auto
    have "min4 ?accs = acc_min (min4 accs) ?c"
      using True min4_update [of accs "i mod 4"] Suc.prems by (simp add: acc_min_def)
    then show ?thesis
      using k i True dr by (intro exI [of _ "Suc (Suc k)"] exI [of _ accs']) (simp add: Let_def)
  next
    case False
    obtain k accs' where k: "k \<le> 2 * (32 - (i + 1)) + 1"
      "min4 accs' = plain_min (drop (i + 1) (consumers q)) (min4 accs)"
      "solo k q (P_scan_active x h mt (i + 1) accs) = (P_store_min x h mt (merge_accs accs'), q)"
      using Suc.hyps(1) [of "i + 1" accs] m Suc.prems i by auto
    then show ?thesis
      using i False dr by (intro exI [of _ "Suc k"] exI [of _ accs']) (simp add: acc_min_def)
  qed
qed

lemma solo_scan_all:
  assumes "length (consumers q) = 32"
  obtains k where "k \<le> 65" "solo k q (P_scan_active x h mt 0
      [INVALID_POS, INVALID_POS, INVALID_POS, INVALID_POS])
    = (P_store_min x h mt (compute_min_tail q), q)"
proof -
  obtain k accs' where k: "k \<le> 65" "min4 accs' = plain_min (consumers q) INVALID_POS"
    "solo k q (P_scan_active x h mt 0 [INVALID_POS, INVALID_POS, INVALID_POS, INVALID_POS])
      = (P_store_min x h mt (merge_accs accs'), q)"
    using solo_scan [OF assms, of "[INVALID_POS, INVALID_POS, INVALID_POS, INVALID_POS]" 0 x h mt]
    by (auto simp: min4_def)
  moreover have "merge_accs accs' = compute_min_tail q"
    using k(2) compute_min_tail_plain [OF assms] by (simp add: merge_accs_def merge_mins_def min4_def)
  ultimately show thesis using that by metis
qed

lemma solo_after_check:
  "solo 3 q (P_cas x (queue_head q))
    = (P_done True, publish_slot (queue_head q) x (store_head (queue_head q + 1) q))"
  by (simp add: numeral_eq_Suc publish_slot_def slot_index_def INDEX_MASK_def SIZE_def Let_def)

lemma full_check_frame:
  "queue_head (snd (full_check h q)) = queue_head q"
  by (simp add: full_check_def Let_def)

lemma solo_push_cas:
  assumes "full_check (queue_head q) q = (False, q1)"
  shows "solo 3 q1 (P_cas x (queue_head q)) = (P_done True, snd (push [] x q))"
proof -
  have h: "queue_head q1 = queue_head q" using full_check_frame [of "queue_head q" q] assms by simp
  show ?thesis using solo_after_check [of q1 x] assms by (simp add: h Let_def)
qed

lemma solo_push_agrees:
  assumes "length (consumers q) = 32"
  shows "solo 71 q (P_load_head x) = (let (ok, q') = push [] x q in (P_done ok, q'))"
proof -
  let ?h = "queue_head q" and ?mt = "cached_min q"
  obtain full q1 where fc: "full_check ?h q = (full, q1)" by fastforce
  have "\<exists>k \<le> 71. solo k q (P_load_head x) = (P_done (\<not> full), snd (push [] x q))"
  proof (cases "?h \<ge> ?mt + SIZE q")
    case False
    then have "full_check ?h q = (False, q)" by (simp add: full_check_def)
    then have "\<not> full" "solo 5 q (P_load_head x) = (P_done True, snd (push [] x q))"
      using fc False solo_push_cas [of q q x] solo_add [of 2 3 q "P_load_head x"]
      by (simp_all add: numeral_eq_Suc)
    then show ?thesis by (intro exI [of _ 5]) simp
  next
    case True
    obtain k where k: "k \<le> 65" "solo k q (P_scan_active x ?h ?mt 0
        [INVALID_POS, INVALID_POS, INVALID_POS, INVALID_POS])
      = (P_store_min x ?h ?mt (compute_min_tail q), q)"
      using solo_scan_all [OF assms] by blast
    have start: "solo 2 q (P_load_head x) = (P_scan_active x ?h ?mt 0
        [INVALID_POS, INVALID_POS, INVALID_POS, INVALID_POS], q)"
      using True by (simp add: numeral_eq_Suc)
    have check: "prod_step False q (P_store_min x ?h ?mt (compute_min_tail q))
        = ((if full then P_done False else P_cas x ?h), q1)"
      using fc True by (auto simp: full_check_def Let_def split: if_splits)
    have upto: "solo (2 + k + 1) q (P_load_head x)
        = ((if full then P_done False else P_cas x ?h), q1)"
      using start k(2) check by (simp only: solo_add) (simp add: numeral_eq_Suc)
    show ?thesis
    proof (cases full)
      case True
      then show ?thesis using upto k(1) fc by (intro exI [of _ "2 + k + 1"]) simp
    next
      case False
      then have "solo (2 + k + 1 + 3) q (P_load_head x) = (P_done True, snd (push [] x q))"
        using upto solo_push_cas [of q q1 x] fc by (simp only: solo_add [of "2 + k + 1" 3]) simp
      then show ?thesis using k(1) False by (intro exI [of _ "2 + k + 1 + 3"]) simp
    qed
  qed
  then obtain k where "k \<le> 71" "solo k q (P_load_head x) = (P_done (\<not> full), snd (push [] x q))"
    by blast
  then have "solo 71 q (P_load_head x) = (P_done (\<not> full), snd (push [] x q))"
    using solo_at_least by blast
  moreover have "fst (push [] x q) = (\<not> full)" using fc by (simp add: Let_def)
  ultimately show ?thesis by (simp add: split_beta del: push.simps)
qed

text \<open>The same for a consumer: five accesses carry out one \<open>pop\<close>.\<close>

fun solo_pop :: "nat \<Rightarrow> u32 \<Rightarrow> 'a MPMCQueue \<Rightarrow> 'a cpc \<Rightarrow> 'a cpc \<times> 'a MPMCQueue" where
  "solo_pop 0 c q pc = (pc, q)"
| "solo_pop (Suc k) c q pc = (let (pc', q') = cons_step c q pc in solo_pop k c q' pc')"

lemma solo_pop_agrees:
  "solo_pop 5 c q C_load_active = (let (r, q') = pop c q in (C_done r, q'))"
  by (simp add: numeral_eq_Suc pop_def Let_def)

section \<open>Pop is wait-free\<close>

text \<open>The accesses a consumer has left before its \<open>pop\<close> returns, at most.\<close>

fun pop_rank :: "'a cpc \<Rightarrow> nat" where
  "pop_rank C_idle = 0"
| "pop_rank C_load_active = 5"
| "pop_rank C_load_tail = 4"
| "pop_rank (C_load_seq t) = 3"
| "pop_rank (C_copy t) = 2"
| "pop_rank (C_advance t x) = 1"
| "pop_rank (C_done r) = 0"

fun is_run_pop :: "u32 \<Rightarrow> 'a event \<Rightarrow> bool" where
  "is_run_pop c (Run_pop d) = (d = c)"
| "is_run_pop c _ = False"

fun is_call_pop :: "u32 \<Rightarrow> 'a event \<Rightarrow> bool" where
  "is_call_pop c (Call_pop d) = (d = c)"
| "is_call_pop c _ = False"

lemma cons_step_rank: "pop_rank (fst (cons_step c q pc)) \<le> pop_rank pc - 1"
  by (cases pc) simp_all

lemma cons_step_idle: "fst (cons_step c q pc) = C_idle \<longleftrightarrow> pc = C_idle"
  by (cases pc) simp_all

lemma conss_event:
  assumes "\<not> is_call_pop c e" and "unat c < 32"
  shows "conss (exec_event e s) c =
    (if is_run_pop c e then fst (cons_step c (mem s) (conss s c)) else conss s c)"
  using assms by (cases e) (auto simp: do_prod_def do_cons_def do_help_def split_beta)

lemma pop_rank_run:
  assumes "\<forall>e \<in> set es. \<not> is_call_pop c e" and "unat c < 32"
  shows "pop_rank (conss (run_events es s) c) \<le> pop_rank (conss s c) - length (filter (is_run_pop c) es)
    \<and> (conss (run_events es s) c = C_idle \<longleftrightarrow> conss s c = C_idle)"
  using assms
proof (induction es arbitrary: s)
  case (Cons e es)
  have "pop_rank (conss (exec_event e s) c) \<le> pop_rank (conss s c) - (if is_run_pop c e then 1 else 0)
      \<and> (conss (exec_event e s) c = C_idle \<longleftrightarrow> conss s c = C_idle)"
    using conss_event [of c e s] Cons.prems cons_step_rank [of c "mem s" "conss s c"]
      cons_step_idle [of c "mem s" "conss s c"] by simp
  then show ?case using Cons.IH [of "exec_event e s"] Cons.prems by auto
qed simp

section \<open>Quiescent states\<close>

lemma pending_quiescent:
  assumes inv: "csys_inv s" and lv: "live (mem s) c" and U: "unpublished (prods s) = {}"
  shows "pending (mem s) c = drop (unat (queue_tail (mem s) c)) (hist s)"
proof -
  let ?q = "mem s" and ?n = "length (slots (mem s))" and ?t = "unat (queue_tail (mem s) c)"
  have sh: "shared_inv ?q (hist s) {}" using csys_invD(1) [OF inv] U by simp
  note lb = shared_inv_live(1,2) [OF sh lv] and h = shared_invD(3) [OF sh]
  have "data (slots ?q ! (p mod ?n)) = hist s ! p" if "p \<in> set [?t ..< length (hist s)]" for p
    using shared_inv_published [OF sh, of p] that lb(2) by simp
  then have "pending ?q c = map (\<lambda>p. hist s ! p) [?t ..< length (hist s)]"
    unfolding pending_def h by simp
  then show ?thesis
    using lb(1) by (simp add: list_eq_iff_nth_eq)
qed

section \<open>Ownership of slots\<close>

text \<open>The position whose slot a thread accesses with plain loads and stores.\<close>

definition writing :: "'a ppc \<Rightarrow> u64 option" where
  "writing pc = (case pc of P_copy x h \<Rightarrow> Some h | P_publish x h \<Rightarrow> Some h | _ \<Rightarrow> None)"

definition reading :: "'a cpc \<Rightarrow> u64 option" where
  "reading pc = (case pc of C_copy t \<Rightarrow> Some t | _ \<Rightarrow> None)"

lemma writing_claim: "writing pc = Some h \<Longrightarrow> claim_of pc = Some (unat h)"
  by (cases pc) (simp_all add: writing_def)

lemma reading_readable:
  assumes "csys_inv s" and "unat c < 32" and "reading (conss s c) = Some t"
  shows "readable (mem s) (unpublished (prods s)) c t"
  using csys_invD(4) [OF assms(1,2)] assms(3) by (cases "conss s c") (simp_all add: reading_def)

lemma writer_slot:
  assumes inv: "csys_inv s" and w: "writing (prods s i) = Some h"
    and t: "unat t < length (hist s)" "length (hist s) \<le> unat t + length (slots (mem s))"
    and eq: "slot_index (mem s) t = slot_index (mem s) h"
  shows "unat t = unat h \<and> unat h \<in> unpublished (prods s)"
proof -
  note sh = csys_invD(1) [OF inv]
  have u: "unat h \<in> unpublished (prods s)" using writing_claim [OF w] by (auto simp: unpublished_def)
  show ?thesis
    using same_slot [OF _ t(1) shared_inv_claimed(1) [OF sh u] t(2) shared_inv_claimed(2) [OF sh u]]
      eq slot_index_mod [OF shared_invD(1) [OF sh]] u by simp
qed

lemma reader_slot:
  assumes inv: "csys_inv s" and w: "writing (prods s i) = Some h"
    and c: "unat c < 32" "reading (conss s c) = Some t"
  shows "slot_index (mem s) t \<noteq> slot_index (mem s) h"
proof
  assume eq: "slot_index (mem s) t = slot_index (mem s) h"
  note sh = csys_invD(1) [OF inv]
  have r: "live (mem s) c" "queue_tail (mem s) c = t" "unat t < length (hist s)"
    "unat t \<notin> unpublished (prods s)"
    using reading_readable [OF inv c] shared_invD(3) [OF sh] by (simp_all add: readable_def)
  then show False
    using writer_slot [OF inv w r(3) _ eq] shared_inv_live(2) [OF sh r(1)] by simp
qed

lemma two_writers_slot:
  assumes inv: "csys_inv s" and w: "writing (prods s i) = Some h"
    and v: "writing (prods s j) = Some g" and ij: "j \<noteq> i"
  shows "slot_index (mem s) g \<noteq> slot_index (mem s) h"
proof
  assume eq: "slot_index (mem s) g = slot_index (mem s) h"
  note sh = csys_invD(1) [OF inv]
  have u: "unat g \<in> unpublished (prods s)" using writing_claim [OF v] by (auto simp: unpublished_def)
  then have "unat g = unat h"
    using writer_slot [OF inv w _ _ eq] shared_inv_claimed(1,2) [OF sh u] by blast
  then show False
    using csys_invD(3) [OF inv writing_claim [OF v], of i] writing_claim [OF w] ij by simp
qed

text \<open>Accesses of one consumer alone.\<close>

lemma solo_pop_done [simp]: "solo_pop k c q (C_done r) = (C_done r, q)"
  by (induction k) simp_all

lemma solo_pop_add: "solo_pop (a + b) c q pc = (let (pc', q') = solo_pop a c q pc in solo_pop b c q' pc')"
  by (induction a arbitrary: q pc) (auto split: prod.split)

lemma solo_pop_at_least:
  assumes "solo_pop a c q pc = (C_done r, q')" and "a \<le> b"
  shows "solo_pop b c q pc = (C_done r, q')"
  using assms solo_pop_add [of a "b - a" c q pc] by simp

lemma run_only_pop:
  assumes "unat c < 32" and "\<forall>e \<in> set es. is_run_pop c e"
  shows "(conss (run_events es s) c, mem (run_events es s)) = solo_pop (length es) c (mem s) (conss s c)"
  using assms(2)
proof (induction es arbitrary: s)
  case (Cons e es)
  have e: "e = Run_pop c" using Cons.prems by (cases e) auto
  show ?case
    using Cons.IH [of "do_cons c s"] Cons.prems assms(1) unfolding e
    by (auto simp: do_cons_def split_beta)
qed simp

section \<open>Properties\<close>

text \<open>C1: Exactly-once delivery in order. In every reachable state of the interleaved
  system, what a consumer's calls of \<open>pop\<close> have returned is the prefix, of the length
  its tail says, of the items in the order their positions were claimed: no item is lost,
  duplicated, reordered or torn, whatever the number of producers and consumers.\<close>

theorem delivery_in_order:
  assumes "reachable n d k s" and "valid_size n" and "length (hist s) + n < 2 ^ 64 - 1"
    and "unat c < 32"
  shows "got s c = take (unat (queue_tail (mem s) c)) (hist s)
    \<and> unat (queue_tail (mem s) c) \<le> length (hist s)"
  using reachable_inv [OF assms(1-3)] csys_invD(5) [of s c] assms(4) by (simp add: received_ok_def)

definition demo_run :: "nat event list" where
  "demo_run = [Call_push 0 7, Call_push 1 8, Run_push 0 False, Run_push 1 False, Run_push 1 False,
     Run_push 1 False, Run_push 0 False, Run_push 0 False, Run_push 0 False, Run_push 0 False,
     Run_push 0 False, Run_push 1 False, Run_push 1 False, Call_pop 0, Run_pop 0, Run_pop 0,
     Run_pop 0, Run_pop 0, Run_pop 0]"

definition demo_state :: "nat csys" where
  "demo_state = run_events demo_run (init_csys 16 0 1)"

lemma demo_reachable: "reachable 16 0 1 demo_state"
  unfolding demo_state_def by (rule run_reachable)

lemma demo_values:
  "hist demo_state = [8, 7]" "got demo_state 0 = [8]" "queue_tail (mem demo_state) 0 = 1"
  by code_simp+

lemma delivery_in_order_witness:
  "got demo_state 0 = take (unat (queue_tail (mem demo_state) 0)) (hist demo_state)
    \<and> got demo_state 0 = [8]"
  using delivery_in_order [OF demo_reachable, of 0] demo_values by (simp add: valid_size_def)

text \<open>C10: No data race. In a reachable state, let one producer be between its claim and
  its publishing store. A consumer copying an item out of a slot, and any other producer
  between its claim and its publishing store, is at a different slot: the plain accesses of
  \<open>push\<close> and \<open>pop\<close> to the payload of a slot never overlap.\<close>

theorem no_slot_race:
  assumes "reachable n d k s" and "valid_size n" and "length (hist s) + n < 2 ^ 64 - 1"
    and "writing (prods s i) = Some h"
    and "(\<exists>c. unat c < 32 \<and> reading (conss s c) = Some t)
      \<or> (\<exists>j. j \<noteq> i \<and> writing (prods s j) = Some t)"
  shows "slot_index (mem s) t \<noteq> slot_index (mem s) h"
  using reachable_inv [OF assms(1-3)] assms(4,5) reader_slot [of s i h] two_writers_slot [of s i h]
  by blast

definition demo_race :: "nat csys" where
  "demo_race = run_events (take 17 demo_run) (init_csys 16 0 1)"

lemma demo_race_values:
  "hist demo_race = [8, 7]" "writing (prods demo_race 0) = Some 1"
  "reading (conss demo_race 0) = Some 0"
  by code_simp+

lemma no_slot_race_witness: "slot_index (mem demo_race) 0 \<noteq> slot_index (mem demo_race) 1"
proof -
  have "reachable 16 0 1 demo_race"
    unfolding demo_race_def by (rule run_reachable)
  moreover have "\<exists>c. unat c < 32 \<and> reading (conss demo_race c) = Some 0"
    using demo_race_values by (intro exI [of _ 0]) simp
  ultimately show ?thesis
    using no_slot_race [of 16 0 1 demo_race 0 1 0] demo_race_values by (auto simp: valid_size_def)
qed

text \<open>C11: Unread items are never overwritten. In a reachable state the head is at most one
  lap ahead of the tail of every active consumer, and each position the consumer has still
  to read that no producer is in the middle of publishing is in its slot, with its sequence
  number and its item.\<close>

theorem unread_items_kept:
  assumes "reachable n d k s" and "valid_size n" and "length (hist s) + n < 2 ^ 64 - 1"
    and "live (mem s) c"
  shows "unat (queue_head (mem s)) \<le> unat (queue_tail (mem s) c) + n
    \<and> length (hist s) = unat (queue_head (mem s))
    \<and> (\<forall>p. unat (queue_tail (mem s) c) \<le> p \<and> p < length (hist s) \<and> (\<forall>i. claim_of (prods s i) \<noteq> Some p) \<longrightarrow>
         slots (mem s) ! (p mod n) = \<lparr>sequence = of_nat p, data = hist s ! p\<rparr>)"
proof (intro conjI allI impI)
  have inv: "csys_inv s" and n: "length (slots (mem s)) = n"
    using reachable_inv [OF assms(1-3)] by simp_all
  note sh = csys_invD(1) [OF inv]
  show hd: "length (hist s) = unat (queue_head (mem s))" using shared_invD(3) [OF sh] by simp
  show "unat (queue_head (mem s)) \<le> unat (queue_tail (mem s) c) + n"
    using shared_inv_live(2) [OF sh assms(4)] n hd by simp
  fix p
  assume p: "unat (queue_tail (mem s) c) \<le> p \<and> p < length (hist s) \<and> (\<forall>i. claim_of (prods s i) \<noteq> Some p)"
  then have "p \<notin> unpublished (prods s)" by (auto simp: unpublished_def)
  then show "slots (mem s) ! (p mod n) = \<lparr>sequence = of_nat p, data = hist s ! p\<rparr>"
    using shared_inv_live(2) [OF sh assms(4)] shared_inv_published [OF sh, of p] p n by simp
qed

definition demo_unread :: "nat csys" where
  "demo_unread = run_events ([Call_push 0 7] @ replicate 6 (Run_push 0 False)) (init_csys 16 0 1)"

lemma demo_unread_values:
  "hist demo_unread = [7]" "live (mem demo_unread) 0" "queue_tail (mem demo_unread) 0 = 0"
  "prods demo_unread 0 = P_done True"
  by code_simp+

lemma demo_unread_prods: "prods demo_unread i = (if i = 0 then P_done True else P_idle)"
proof (cases "i = 0")
  case False
  then show ?thesis
    by (simp add: demo_unread_def init_csys_def numeral_eq_Suc do_prod_def split_beta)
qed (simp add: demo_unread_values)

lemma unread_items_kept_witness: "slots (mem demo_unread) ! 0 = \<lparr>sequence = 0, data = 7\<rparr>"
proof -
  have "reachable 16 0 1 demo_unread"
    unfolding demo_unread_def by (rule run_reachable)
  moreover have "\<forall>i. claim_of (prods demo_unread i) \<noteq> Some 0"
    by (simp add: demo_unread_prods)
  ultimately show ?thesis
    using unread_items_kept [of 16 0 1 demo_unread 0] demo_unread_values
    by (simp add: valid_size_def)
qed

text \<open>Conservation in the concurrent system. When no producer is between its claim and
  its publishing store, what a live consumer has received followed by what it can still pop
  is exactly the items accepted so far, in claim order.\<close>

lemma received_then_pending:
  assumes "reachable n d k s" and "valid_size n" and "length (hist s) + n < 2 ^ 64 - 1"
    and "live (mem s) c" and "\<forall>i. claim_of (prods s i) = None"
  shows "got s c @ pending (mem s) c = hist s"
proof -
  have inv: "csys_inv s" using reachable_inv [OF assms(1-3)] by simp
  have U: "unpublished (prods s) = {}" using assms(5) by (auto simp: unpublished_def)
  have c: "unat c < 32" using shared_inv_live(4) [OF csys_invD(1) [OF inv] assms(4)] .
  show ?thesis
    using pending_quiescent [OF inv assms(4) U] csys_invD(5) [OF inv c] by (simp add: received_ok_def)
qed

text \<open>Obstruction freedom and agreement with the sequential call. The accesses of one
  producer, run without interference and without spurious failures, return within 71
  steps, with the result and the memory the call \<open>push\<close> computes.\<close>

lemma push_accesses_agree:
  assumes "length (consumers q) = 32"
  shows "solo 71 q (P_load_head x) = (P_done (fst (push [] x q)), snd (push [] x q))"
  using solo_push_agrees [OF assms, of x] by (simp add: split_beta del: push.simps)

lemma push_accesses_agree_witness:
  "solo 71 (MPMCQueue_new 16 (0 :: nat)) (P_load_head 5)
    = (P_done (fst (push [] 5 (MPMCQueue_new 16 (0 :: nat)))),
       snd (push [] 5 (MPMCQueue_new 16 (0 :: nat))))"
  using push_accesses_agree [of "MPMCQueue_new 16 (0 :: nat)" 5] by (simp add: MPMCQueue_new_def)

text \<open>C25: Pop is wait-free and its accesses agree with the sequential call. Whatever the
  other threads do between them, five accesses of a consumer inside a call of \<open>pop\<close> bring
  that call to its return; when nothing else happens between them, the call returns what
  \<open>pop\<close> returns on the ring of the call and leaves the ring \<open>pop\<close> leaves.\<close>

theorem pop_wait_free:
  assumes "conss s c = C_load_active" and "unat c < 32" and "\<forall>e \<in> set es. \<not> is_call_pop c e"
    and "5 \<le> length (filter (is_run_pop c) es)"
  shows "(\<exists>r. conss (run_events es s) c = C_done r)
    \<and> ((\<forall>e \<in> set es. is_run_pop c e) \<longrightarrow>
         conss (run_events es s) c = C_done (fst (pop c (mem s))) \<and> mem (run_events es s) = snd (pop c (mem s)))"
proof
  have "pop_rank (conss (run_events es s) c) = 0 \<and> conss (run_events es s) c \<noteq> C_idle"
    using pop_rank_run [OF assms(3,2), of s] assms(1,4) by simp
  then show "\<exists>r. conss (run_events es s) c = C_done r" by (cases "conss (run_events es s) c") simp_all
  show "(\<forall>e \<in> set es. is_run_pop c e) \<longrightarrow>
      conss (run_events es s) c = C_done (fst (pop c (mem s))) \<and> mem (run_events es s) = snd (pop c (mem s))"
  proof
    assume only: "\<forall>e \<in> set es. is_run_pop c e"
    then have five: "5 \<le> length es" using assms(4) by (simp add: filter_id_conv)
    have "solo_pop 5 c (mem s) C_load_active = (C_done (fst (pop c (mem s))), snd (pop c (mem s)))"
      by (simp only: solo_pop_agrees Let_def split_beta)
    from solo_pop_at_least [OF this five] show "conss (run_events es s) c = C_done (fst (pop c (mem s))) \<and> mem (run_events es s) = snd (pop c (mem s))"
      using run_only_pop [OF assms(2) only, of s] unfolding assms(1) by simp
  qed
qed

lemma pop_wait_free_witness:
  "(\<exists>r. conss (run_events [Run_pop 0, Run_push 1 False, Run_pop 0, Run_pop 0, Unregister 1,
       Run_pop 0, Run_pop 0] (exec_event (Call_pop 0) (init_csys 16 (0 :: nat) 1))) 0 = C_done r)
    \<and> conss (run_events (replicate 5 (Run_pop 0)) (exec_event (Call_pop 0) demo_unread)) 0
      = C_done (fst (pop 0 (mem demo_unread)))"
proof
  show "\<exists>r. conss (run_events [Run_pop 0, Run_push 1 False, Run_pop 0, Run_pop 0, Unregister 1,
      Run_pop 0, Run_pop 0] (exec_event (Call_pop 0) (init_csys 16 (0 :: nat) 1))) 0 = C_done r"
    by (rule pop_wait_free [THEN conjunct1]) (simp_all add: init_csys_def cons_resting_def)
  have start: "conss (exec_event (Call_pop 0) demo_unread) 0 = C_load_active"
    "mem (exec_event (Call_pop 0) demo_unread) = mem demo_unread"
    by code_simp+
  show "conss (run_events (replicate 5 (Run_pop 0)) (exec_event (Call_pop 0) demo_unread)) 0
      = C_done (fst (pop 0 (mem demo_unread)))"
  proof -
    have c: "unat (0 :: u32) < 32" and quiet: "\<forall>e \<in> set (replicate 5 (Run_pop 0)). \<not> is_call_pop 0 (e :: nat event)"
      and five: "5 \<le> length (filter (is_run_pop 0) (replicate 5 (Run_pop 0 :: nat event)))"
      and only: "\<forall>e \<in> set (replicate 5 (Run_pop 0)). is_run_pop 0 (e :: nat event)" by simp_all
    show ?thesis
      using pop_wait_free [OF start(1) c quiet five, THEN conjunct2, THEN mp, OF only, THEN conjunct1]
      unfolding start(2) .
  qed
qed

end
