(* ===== verification/Mpmc_Calls.thy ===== *)
theory Mpmc_Calls
  imports Mpmc_Queue
begin

text \<open>
  The calls of \<open>MPMCQueue\<close> against their specification: a map from consumer ids to
  backlogs. \<open>push\<close> (whatever exchanges fail spuriously), \<open>pop\<close>, \<open>register_consumer\<close> and
  \<open>unregister_consumer\<close> each implement the operation on that map, and over any run of
  calls nothing is lost.
\<close>

section \<open>The abstract queue\<close>

definition abs_queue :: "'a MPMCQueue \<Rightarrow> u32 \<rightharpoonup> 'a list" where
  "abs_queue q = (\<lambda>c. if live q c then Some (pending q c) else None)"

definition spec_push :: "nat \<Rightarrow> 'a \<Rightarrow> (u32 \<rightharpoonup> 'a list) \<Rightarrow> bool \<times> (u32 \<rightharpoonup> 'a list)" where
  "spec_push n x m =
     (if \<exists>c b. m c = Some b \<and> n \<le> length b then (False, m)
      else (True, \<lambda>c. map_option (\<lambda>b. b @ [x]) (m c)))"

definition spec_pop :: "u32 \<Rightarrow> (u32 \<rightharpoonup> 'a list) \<Rightarrow> 'a option \<times> (u32 \<rightharpoonup> 'a list)" where
  "spec_pop c m = (case m c of Some (x # b) \<Rightarrow> (Some x, m(c \<mapsto> b)) | _ \<Rightarrow> (None, m))"

section \<open>Failed exchanges change nothing\<close>

lemma full_check_again:
  assumes "full_check h q = (False, q1)"
  shows "full_check h q1 = (False, q1)" "queue_head q1 = queue_head q"
  using assms by (auto simp: full_check_def Let_def SIZE_def split: if_splits)

lemma push_retries: "push fs x q = push [] x q"
proof (induction fs arbitrary: q)
  case (Cons spurious fs)
  obtain full q1 where fc: "full_check (queue_head q) q = (full, q1)" by fastforce
  show ?case
  proof (cases "spurious \<and> \<not> full")
    case True
    then have "push (spurious # fs) x q = push [] x q1" using fc Cons.IH [of q1] by (simp add: Let_def)
    also have "\<dots> = push [] x q"
      using full_check_again [of "queue_head q" q q1] fc True by (simp add: Let_def)
    finally show ?thesis .
  next
    case False
    then show ?thesis using fc by (auto simp: Let_def)
  qed
qed simp

section \<open>Registration\<close>

lemma register_ok:
  assumes "queue_num_consumers q < MAX_CONSUMERS"
  shows "register_consumer q =
    (Inr (queue_num_consumers q),
     publish_consumer (queue_num_consumers q) (queue_head q)
       (store_num_consumers (queue_num_consumers q + 1) q))"
  using assms by (simp add: register_consumer_def Let_def)

lemma publish_consumer_frame [simp]:
  "queue_head (publish_consumer c h q) = queue_head q" "slots (publish_consumer c h q) = slots q"
  "cached_min (publish_consumer c h q) = cached_min q"
  "length (consumers (publish_consumer c h q)) = length (consumers q)"
  "ring_capacity (publish_consumer c h q) = ring_capacity q"
  by (simp_all add: publish_consumer_def ring_capacity_def)

lemma publish_consumer_live:
  assumes "unat c < length (consumers q)"
  shows "live (publish_consumer c h q) d = (d = c \<or> live q d)"
    "queue_tail (publish_consumer c h q) d = (if d = c then h else queue_tail q d)"
  using assms by (simp_all add: publish_consumer_def live_store_active queue_tail_store_tail)

lemma publish_consumer_inv:
  assumes inv: "queue_inv b q" and c: "unat c < 32"
  shows "queue_inv b (publish_consumer c (queue_head q) q)"
proof -
  let ?q = "publish_consumer c (queue_head q) q"
  note d = queue_invD [OF inv]
  have "unat (cached_min q) \<le> unat (tail e) \<and> unat (tail e) \<le> unat (queue_head q)
      \<and> unat (queue_head q) \<le> unat (tail e) + length (slots q)"
    if e: "e \<in> set (consumers ?q)" "active e" for e
  proof -
    obtain i where i: "i < 32" "e = consumers ?q ! i" using e(1) d(2) by (auto simp: in_set_conv_nth)
    then have u: "unat (of_nat i :: u32) = i" by (simp add: unat_of_nat take_bit_nat_eq_self)
    have lv: "live ?q (of_nat i)" "queue_tail ?q (of_nat i) = tail e"
      using i e(2) d(2) u by (simp_all add: live_def is_active_def queue_tail_def)
    show ?thesis
    proof (cases "of_nat i = c")
      case True
      then show ?thesis using lv(2) publish_consumer_live(2) [of c q] c d by simp
    next
      case False
      then have "live q (of_nat i)" using lv(1) publish_consumer_live(1) [of c q] c d(2) by simp
      then show ?thesis
        using live_bounds [OF inv, of "of_nat i"] lv(2) publish_consumer_live(2) [of c q] c d(2) False
        by simp
    qed
  qed
  then show ?thesis
    using inv d(2) by (simp add: queue_inv_def Let_def)
qed

lemma queue_inv_count: "queue_inv b (store_num_consumers n q) = queue_inv b q"
  by (simp add: queue_inv_def Let_def)

lemma pending_same:
  assumes "slots q' = slots q" and "queue_head q' = queue_head q" and "queue_tail q' c = queue_tail q c"
  shows "pending q' c = pending q c"
  using assms by (simp add: pending_def)

lemma publish_consumer_abs:
  assumes "unat c < length (consumers q)"
  shows "abs_queue (publish_consumer c (queue_head q) q) = (abs_queue q)(c \<mapsto> [])"
proof (rule ext)
  fix d
  show "abs_queue (publish_consumer c (queue_head q) q) d = ((abs_queue q)(c \<mapsto> [])) d"
    using publish_consumer_live [OF assms, of "queue_head q" d]
      pending_same [of "publish_consumer c (queue_head q) q" q d]
    by (cases "d = c") (simp_all add: abs_queue_def pending_def)
qed

lemma abs_queue_count [simp]: "abs_queue (store_num_consumers n q) = abs_queue q"
  using pending_same [of "store_num_consumers n q" q] by (auto simp: abs_queue_def fun_eq_iff)

lemma register_refines:
  assumes inv: "queue_inv b q" and few: "queue_num_consumers q < MAX_CONSUMERS"
    and r: "register_consumer q = (res, q')"
  shows "res = Inr (queue_num_consumers q) \<and> queue_inv b q'
    \<and> abs_queue q' = (abs_queue q)(queue_num_consumers q \<mapsto> [])
    \<and> queue_num_consumers q' = queue_num_consumers q + 1 \<and> ring_capacity q' = ring_capacity q"
proof -
  let ?c = "queue_num_consumers q" and ?q1 = "store_num_consumers (queue_num_consumers q + 1) q"
  have eqs: "res = Inr ?c" "q' = publish_consumer ?c (queue_head ?q1) ?q1"
    using r register_ok [OF few] by simp_all
  have c: "unat ?c < 32" using few by (simp add: word_less_nat_alt)
  have "queue_inv b ?q1" using inv by (simp add: queue_inv_count)
  then have "queue_inv b q'" using publish_consumer_inv [of b ?q1 ?c] c eqs(2) by simp
  moreover have "abs_queue q' = (abs_queue q)(?c \<mapsto> [])"
    using publish_consumer_abs [of ?c ?q1] c queue_invD(2) [OF inv] eqs(2) by simp
  moreover have "queue_num_consumers q' = ?c + 1"
    by (simp add: eqs(2) publish_consumer_def queue_num_consumers_def)
  ultimately show ?thesis using eqs by (simp add: ring_capacity_def)
qed

lemma register_full:
  assumes "queue_num_consumers q \<ge> MAX_CONSUMERS"
  shows "register_consumer q =
    (Inl Too_many_consumers, store_num_consumers (queue_num_consumers q + 1) q)"
  using assms by (simp add: register_consumer_def Let_def)

lemma unregister_refines:
  assumes inv: "queue_inv b q"
  shows "queue_inv b (unregister_consumer c q)
    \<and> abs_queue (unregister_consumer c q) = (abs_queue q)(c := None)"
proof
  have "e \<in> set (consumers (unregister_consumer c q)) \<Longrightarrow> active e \<Longrightarrow> e \<in> set (consumers q)" for e
    using set_update_subset_insert by (fastforce simp: unregister_consumer_def)
  then show "queue_inv b (unregister_consumer c q)"
    using inv queue_inv_active [OF inv] unfolding queue_inv_def Let_def
    by (simp add: unregister_consumer_def)
  show "abs_queue (unregister_consumer c q) = (abs_queue q)(c := None)"
    using pending_same [of "unregister_consumer c q" q]
    by (auto simp: abs_queue_def fun_eq_iff unregister_consumer_def live_store_active)
qed

section \<open>Push and pop\<close>

lemma push_refines_spec:
  assumes inv: "queue_inv (Suc b) q" and lv: "live q c" and p: "push fs x q = (ok, q')"
  shows "spec_push (ring_capacity q) x (abs_queue q) = (ok, abs_queue q') \<and> queue_inv b q'"
proof -
  have p0: "push [] x q = (ok, q')" using p by (simp only: push_retries [of fs])
  have room: "(\<exists>d b. abs_queue q d = Some b \<and> ring_capacity q \<le> length b) \<longleftrightarrow> \<not> ok"
    using mpmc.push_room [OF inv lv, of x] p0 by (auto simp: abs_queue_def not_less)
  show ?thesis
  proof (cases ok)
    case True
    then show ?thesis
      using mpmc.push_true [OF inv, of x q'] p0 room
      by (auto simp: spec_push_def abs_queue_def fun_eq_iff)
  next
    case False
    then show ?thesis
      using mpmc.push_false [of b q x q'] mpmc.inv_mono [OF inv] p0 room
      by (auto simp: spec_push_def abs_queue_def fun_eq_iff)
  qed
qed

lemma pop_refines_spec:
  assumes inv: "queue_inv b q" and c: "unat c < 32" and p: "pop c q = (r, q')"
  shows "spec_pop c (abs_queue q) = (r, abs_queue q') \<and> queue_inv b q'"
proof (cases "live q c")
  case True
  have others: "pending q' d = (if d = c then tl (pending q c) else pending q d)" for d
    using mpmc.pop_live [OF inv True p] by simp
  show ?thesis
    using mpmc.pop_live [OF inv True p] others True
    by (auto simp: spec_pop_def abs_queue_def fun_eq_iff split: list.splits)
next
  case False
  then show ?thesis
    using mpmc.pop_dead [OF inv False c] p inv by (simp add: spec_pop_def abs_queue_def)
qed

section \<open>A queue nobody reads\<close>

lemma no_live_min:
  assumes inv: "queue_inv b q" and none: "\<forall>c. \<not> live q c"
  shows "compute_min_tail q = 0"
proof -
  have "\<not> active c" if "c \<in> set (consumers q)" for c
    using active_live [OF inv that] none by blast
  then show ?thesis
    using compute_min_tail_attained [OF queue_invD(2) [OF inv]] by blast
qed

lemma no_live_push:
  assumes inv: "queue_inv b q" and none: "\<forall>c. \<not> live q c"
    and full: "unat (cached_min q) + length (slots q) \<le> unat (queue_head q)"
  shows "fst (push [] x q) = False"
proof -
  obtain f q1 where fc: "full_check (queue_head q) q = (f, q1)" by fastforce
  have "full_check (queue_head q) q = (True, snd (full_check (queue_head q) q))"
    using unat_cached_plus_size [OF inv queue_invD(4) [OF inv]] full no_live_min [OF inv none]
      unat_cached_plus_size [OF inv, of 0]
    by (simp add: full_check_def Let_def word_le_nat_alt)
  then show ?thesis using fc by (simp add: Let_def)
qed

section \<open>A fresh queue with registered consumers\<close>

fun register_all :: "nat \<Rightarrow> 'a MPMCQueue \<Rightarrow> 'a MPMCQueue" where
  "register_all 0 q = q"
| "register_all (Suc k) q = snd (register_consumer (register_all k q))"

lemma register_all_spec:
  assumes "queue_inv b q" and "queue_num_consumers q = 0" and "abs_queue q = Map.empty" and "k \<le> 32"
  shows "queue_inv b (register_all k q) \<and> queue_num_consumers (register_all k q) = of_nat k
    \<and> abs_queue (register_all k q) = (\<lambda>c. if unat c < k then Some [] else None)"
  using assms(4)
proof (induction k)
  case 0
  then show ?case using assms(1-3) by (simp add: fun_eq_iff)
next
  case (Suc k)
  let ?q = "register_all k q"
  have ih: "queue_inv b ?q" "queue_num_consumers ?q = of_nat k"
    "abs_queue ?q = (\<lambda>c. if unat c < k then Some [] else None)"
    using Suc by simp_all
  have u: "unat (of_nat k :: u32) = k"
    using Suc.prems by (simp add: unat_of_nat take_bit_nat_eq_self)
  obtain res q' where r: "register_consumer ?q = (res, q')" by fastforce
  have "of_nat k < MAX_CONSUMERS" using Suc.prems u by (simp add: word_less_nat_alt)
  then have s: "queue_inv b q'" "abs_queue q' = (abs_queue ?q)(of_nat k \<mapsto> [])"
    "queue_num_consumers q' = of_nat k + 1"
    using register_refines [OF ih(1) _ r] ih(2) by simp_all
  have "((\<lambda>c. if unat c < k then Some [] else None)(of_nat k \<mapsto> []))
      = (\<lambda>c :: u32. if unat c < Suc k then Some [] else None)"
    using u by (auto simp: fun_eq_iff less_Suc_eq word_unat_eq_iff)
  then have "abs_queue q' = (\<lambda>c. if unat c < Suc k then Some [] else None)"
    using s(2) ih(3) by (simp only:)
  then show ?case using s(1,3) r by (simp add: add.commute)
qed

lemma register_consumer_slots [simp]: "slots (snd (register_consumer q)) = slots q"
  by (simp add: register_consumer_def Let_def)

lemma register_all_slots [simp]:
  "slots (register_all k q) = slots q" "ring_capacity (register_all k q) = ring_capacity q"
proof -
  show "slots (register_all k q) = slots q"
    by (induction k) simp_all
  then show "ring_capacity (register_all k q) = ring_capacity q" by (simp add: ring_capacity_def)
qed

lemma new_queue_abs: "abs_queue (MPMCQueue_new n d) = Map.empty"
  by (auto simp: abs_queue_def live_def is_active_def MPMCQueue_new_def fun_eq_iff)

lemma new_queue_registered:
  assumes "valid_size n" and "n + b < 2 ^ 64 - 1" and "k \<le> 32" and "unat c < k"
  shows "queue_inv b (register_all k (MPMCQueue_new n d))"
    "live (register_all k (MPMCQueue_new n d)) c" "pending (register_all k (MPMCQueue_new n d)) c = []"
proof -
  have "queue_num_consumers (MPMCQueue_new n d) = 0"
    by (simp add: MPMCQueue_new_def queue_num_consumers_def)
  note s = register_all_spec [OF queue_inv_new [OF assms(1,2), of d] this new_queue_abs assms(3)]
  show "queue_inv b (register_all k (MPMCQueue_new n d))" using s by blast
  have "abs_queue (register_all k (MPMCQueue_new n d)) c = Some []" using s assms(4) by simp
  then show "live (register_all k (MPMCQueue_new n d)) c"
    "pending (register_all k (MPMCQueue_new n d)) c = []"
    by (auto simp: abs_queue_def split: if_splits)
qed

section \<open>Properties\<close>

text \<open>C12: \<open>push\<close> implements the abstract push. On a well-formed ring with an active
  consumer it is refused exactly when some active consumer's backlog has reached the ring
  size and then changes no backlog; otherwise it appends the item to every backlog. This
  holds for every pattern of spurious compare-exchange failures, and the ring stays
  well-formed.\<close>

theorem push_implements_spec:
  assumes "queue_inv (Suc b) q" and "live q c" and "push fs x q = (ok, q')"
  shows "spec_push (ring_capacity q) x (abs_queue q) = (ok, abs_queue q') \<and> queue_inv b q'"
  by (rule push_refines_spec [OF assms])

definition demo_queue :: "nat MPMCQueue" where
  "demo_queue = register_all 2 (MPMCQueue_new 16 0)"

lemma demo_queue_ok: "queue_inv 5 demo_queue" "live demo_queue 0" "live demo_queue 1"
  using new_queue_registered(1) [of 16 5 2 0 "0 :: nat"] new_queue_registered(2) [of 16 5 2 _ "0 :: nat"]
  by (simp_all add: valid_size_def demo_queue_def)

lemma push_implements_spec_witness:
  "abs_queue (snd (push [True, False] 7 demo_queue)) 1 = Some [7]"
proof -
  obtain ok q' where p: "push [True, False] 7 demo_queue = (ok, q')" by fastforce
  have "queue_inv (Suc 4) demo_queue" using demo_queue_ok by simp
  note r = push_implements_spec [OF this demo_queue_ok(2) p]
  have "fst (push [True, False] 7 demo_queue)" by code_simp
  moreover have empty: "abs_queue demo_queue 1 = Some []" "ring_capacity demo_queue = 16"
    using new_queue_registered(2,3) [of 16 5 2 1 "0 :: nat"]
    by (simp_all add: valid_size_def abs_queue_def demo_queue_def) code_simp
  ultimately have "abs_queue q' = (\<lambda>c. map_option (\<lambda>b. b @ [7]) (abs_queue demo_queue c))"
    using r p by (auto simp: spec_push_def simp del: push.simps split: if_splits)
  then show ?thesis using p empty(1) by (simp del: push.simps)
qed

text \<open>C13: \<open>pop\<close> implements the abstract pop: it takes the oldest item of the calling
  consumer's backlog and leaves every other backlog alone, returns nothing when the backlog
  is empty or the consumer is not active, and keeps the ring well-formed.\<close>

theorem pop_implements_spec:
  assumes "queue_inv b q" and "unat c < 32" and "pop c q = (r, q')"
  shows "spec_pop c (abs_queue q) = (r, abs_queue q') \<and> queue_inv b q'"
  by (rule pop_refines_spec [OF assms])

lemma pop_implements_spec_witness: "spec_pop 0 (abs_queue demo_queue) = (None, abs_queue demo_queue)"
proof -
  have "pop 0 demo_queue = (None, demo_queue)" by code_simp
  then show ?thesis using pop_implements_spec [OF demo_queue_ok(1), of 0 None demo_queue] by simp
qed

text \<open>C29: The four-accumulator scan of \<open>compute_min_tail\<close> equals the plain minimum over the
  32 consumers of the active tails, starting from the reserved position, with 0 when no
  consumer is active.\<close>

theorem min_tail_scan_is_minimum:
  assumes "length (consumers q) = 32"
  shows "compute_min_tail q =
    (let m = fold (\<lambda>c m. if active c then min m (tail c) else m) (consumers q) INVALID_POS
     in if m = INVALID_POS then 0 else m)"
  using compute_min_tail_plain [OF assms] by (simp add: plain_min_def acc_min_def)

lemma min_tail_scan_is_minimum_witness:
  "compute_min_tail (store_tail 1 5 (store_tail 0 9 demo_queue)) = 5"
proof -
  have "length (consumers (store_tail 1 5 (store_tail 0 9 demo_queue))) = 32" by code_simp
  note m = min_tail_scan_is_minimum [OF this]
  show ?thesis unfolding m by code_simp
qed

text \<open>Registration. While fewer than 32 ids were handed out, \<open>register_consumer\<close>
  returns the next id and the new consumer starts active with an empty backlog (it sees only
  later pushes), every other backlog is untouched and the ring stays well-formed. Once 32
  were handed out it fails and only the counter moves.\<close>

lemma register_consumer_spec:
  assumes "queue_inv b q" and "register_consumer q = (res, q')"
  shows "if queue_num_consumers q < MAX_CONSUMERS
    then res = Inr (queue_num_consumers q) \<and> queue_inv b q'
      \<and> abs_queue q' = (abs_queue q)(queue_num_consumers q \<mapsto> [])
    else res = Inl Too_many_consumers \<and> queue_inv b q' \<and> abs_queue q' = abs_queue q
      \<and> queue_num_consumers q' = queue_num_consumers q + 1"
  using register_refines [OF assms(1) _ assms(2)] register_full [of q] assms
  by (auto simp: not_less queue_inv_count) (simp add: queue_num_consumers_def)

lemma register_consumer_spec_witness:
  "abs_queue (snd (register_consumer demo_queue)) = (abs_queue demo_queue)(2 \<mapsto> [])"
proof -
  have "queue_num_consumers demo_queue = 2" "(2 :: u32) < MAX_CONSUMERS" by code_simp+
  then show ?thesis
    using register_consumer_spec [OF demo_queue_ok(1), of "fst (register_consumer demo_queue)"
        "snd (register_consumer demo_queue)"] by simp
qed

text \<open>Conservation from a fresh queue. After \<open>k\<close> registrations on a fresh ring, over any
  sequence of pushes and pops, the accepted items are, for each registered consumer, exactly
  what its pops returned followed by what is still pending for it.\<close>

lemma fresh_queue_conserves:
  assumes "valid_size n" and "n + length ops < 2 ^ 64 - 1" and "k \<le> 32" and "unat c < k"
    and "\<forall>d. Pop d \<in> set ops \<longrightarrow> unat d < 32"
    and "run_ops (push []) pop ops (register_all k (MPMCQueue_new n d0)) = (acc, rcv, q')"
  shows "acc = received_by c rcv @ pending q' c"
  using new_queue_registered [OF assms(1-4), of d0]
    mpmc.run_conserves [OF _ _ assms(5,6), of c] by simp

lemma fresh_queue_conserves_witness:
  "case run_ops (push []) pop [Push 7, Pop 0, Push 8] (register_all 2 (MPMCQueue_new 16 (0 :: nat)))
   of (acc, rcv, q') \<Rightarrow> acc = received_by 0 rcv @ pending q' 0"
proof -
  obtain acc rcv q' where r: "run_ops (push []) pop [Push 7, Pop 0, Push 8]
      (register_all 2 (MPMCQueue_new 16 (0 :: nat))) = (acc, rcv, q')"
    using prod_cases3 by blast
  have "acc = received_by 0 rcv @ pending q' 0"
    by (rule fresh_queue_conserves [OF _ _ _ _ _ r, of 0]) (auto simp: valid_size_def)
  then show ?thesis using r by simp
qed

text \<open>C37: A ring without active consumers stops accepting: once the head is a lap ahead of the
  cached minimum, every push is refused.\<close>

theorem push_refused_without_consumers:
  assumes "queue_inv b q" and "\<forall>c. \<not> live q c"
    and "unat (cached_min q) + length (slots q) \<le> unat (queue_head q)"
  shows "fst (push fs x q) = False"
  using no_live_push [OF assms] by (simp only: push_retries [of fs])

definition demo_full :: "nat MPMCQueue" where
  "demo_full = unregister_consumer 0
     (snd (snd (run_ops (push []) pop (map Push [0..<16]) (register_all 1 (MPMCQueue_new 16 0)))))"

lemma demo_full_values:
  "list_all (\<lambda>e. \<not> active e) (consumers demo_full)" "cached_min demo_full = 0"
  "length (slots demo_full) = 16" "queue_head demo_full = 16"
  by code_simp+

lemma demo_full_ok: "queue_inv 0 demo_full" "\<forall>c. \<not> live demo_full c"
proof -
  obtain acc rcv q' where r: "run_ops (push []) pop (map Push [0..<16])
      (register_all 1 (MPMCQueue_new 16 (0 :: nat))) = (acc, rcv, q')"
    using prod_cases3 by blast
  have "queue_inv 0 q'"
    using new_queue_registered [of 16 16 1 0 "0 :: nat"]
      mpmc.run_conserves [OF _ _ _ r, of 0] by (auto simp: valid_size_def)
  then show "queue_inv 0 demo_full"
    using r unregister_refines [of 0 q' 0] by (simp only: demo_full_def snd_conv)
  show "\<forall>c. \<not> live demo_full c"
    using demo_full_values(1) by (auto simp: live_def is_active_def list_all_length)
qed

lemma push_refused_without_consumers_witness: "fst (push [True] 99 demo_full) = False"
  by (rule push_refused_without_consumers [OF demo_full_ok]) (simp add: demo_full_values)

end
