(* ===== verification/Late_Registration.thy ===== *)
theory Late_Registration
  imports Mpmc_Calls
begin

text \<open>
  \<open>register_consumer\<close> of include/mpmc_logger/mpmc_queue.hpp loads the head and only later
  stores it as the tail of the new consumer and sets the active flag. This theory splits
  the call at that point and lets other calls run in between: when producers go more than
  one lap ahead meanwhile, the new consumer never receives anything, at most a
  ring size of further pushes is accepted, and after the first refusal none. With nothing in between the split call is the call.
\<close>

definition register_interrupted ::
  "'a qop list \<Rightarrow> 'a MPMCQueue \<Rightarrow> u32 \<times> 'a MPMCQueue" where
  "register_interrupted between q =
     (let c = queue_num_consumers q; q1 = store_num_consumers (c + 1) q; h = queue_head q1;
          (acc, rcv, q2) = run_ops (push []) pop between q1
      in (c, publish_consumer c h q2))"

lemma register_uninterrupted:
  assumes "queue_num_consumers q < MAX_CONSUMERS"
  shows "register_consumer q = (let (c, q') = register_interrupted [] q in (Inr c, q'))"
  using register_ok [OF assms] by (simp add: register_interrupted_def Let_def)

text \<open>
  A stuck ring: consumer \<open>c\<close> is active at a tail more than a lap behind the head, its slot
  carries another sequence number, and no position from \<open>m\<close> on can be claimed.
\<close>

definition stuck :: "u32 \<Rightarrow> u64 \<Rightarrow> nat \<Rightarrow> 'a MPMCQueue \<Rightarrow> bool" where
  "stuck c h m q \<longleftrightarrow>
     (let n = length (slots q)
      in valid_size n \<and> length (consumers q) = 32 \<and> live q c \<and> queue_tail q c = h
       \<and> unat h + n < unat (queue_head q) \<and> unat (queue_head q) \<le> m
       \<and> unat (cached_min q) + n \<le> m \<and> m + n < 2 ^ 64 - 1
       \<and> sequence (slots q ! (unat h mod n)) \<noteq> h)"

lemma stuckD:
  assumes "stuck c h m q"
  shows "valid_size (length (slots q))" "length (consumers q) = 32" "live q c" "queue_tail q c = h"
    "unat h + length (slots q) < unat (queue_head q)" "unat (queue_head q) \<le> m"
    "unat (cached_min q) + length (slots q) \<le> m" "m + length (slots q) < 2 ^ 64 - 1"
    "sequence (slots q ! (unat h mod length (slots q))) \<noteq> h" "0 < length (slots q)" "unat c < 32"
  using assms by (auto simp: stuck_def Let_def valid_size_def live_def)

lemma stuck_pop_self:
  assumes "stuck c h m q"
  shows "pop c q = (None, q)"
  using stuckD [OF assms] slot_index_mod [of q h] by (simp add: pop_def Let_def live_def)

lemma stuck_pop_other:
  assumes st: "stuck c h m q" and d: "d \<noteq> c" "unat d < 32" and p: "pop d q = (r, q')"
  shows "stuck c h m q' \<and> queue_head q' = queue_head q \<and> slots q' = slots q"
proof -
  have "q' = q \<or> q' = store_tail d (queue_tail q d + 1) q"
    using p by (auto simp: pop_def Let_def split: if_splits)
  then show ?thesis
    using st d stuckD(2) [OF st] by (auto simp: stuck_def Let_def queue_tail_store_tail)
qed

lemma stuck_min:
  assumes "stuck c h m q"
  shows "unat (compute_min_tail q) \<le> unat h"
proof -
  have "consumers q ! unat c \<in> set (consumers q)" "active (consumers q ! unat c)"
    "tail (consumers q ! unat c) = h"
    using stuckD(2-4,11) [OF assms] by (simp_all add: live_def is_active_def queue_tail_def)
  then show ?thesis
    using compute_min_tail_lower [OF stuckD(2) [OF assms]] by (fastforce simp: word_le_nat_alt)
qed

lemma stuck_size_guard:
  assumes "stuck c h m q" and "unat v + length (slots q) \<le> m"
  shows "queue_head q \<ge> v + SIZE q \<longleftrightarrow> unat (queue_head q) \<ge> unat v + length (slots q)"
  using stuckD [OF assms(1)] assms(2) by (simp add: word_le_nat_alt unat_add_pos unat_SIZE)

text \<open>The full check either refuses or passes on the old cached minimum.\<close>

lemma stuck_full_check:
  assumes st: "stuck c h m q" and fc: "full_check (queue_head q) q = (full, q1)"
  shows "stuck c h m q1 \<and> queue_head q1 = queue_head q \<and> length (slots q1) = length (slots q)
    \<and> (\<not> full \<longrightarrow> q1 = q \<and> unat (queue_head q) < unat (cached_min q) + length (slots q))"
proof -
  let ?m = "compute_min_tail q"
  note d = stuckD [OF st]
  have le: "unat ?m + length (slots q) \<le> m" using stuck_min [OF st] d(5,6) by linarith
  have g: "queue_head q \<ge> ?m + SIZE q"
    using stuck_size_guard [OF st le] stuck_min [OF st] d(5) by simp
  have s: "stuck c h m (store_min_tail ?m q)"
    using st le by (simp add: stuck_def Let_def)
  show ?thesis
    using fc st s g stuck_size_guard [OF st d(7)]
    by (auto simp: full_check_def Let_def split: if_splits)
qed

lemma stuck_push:
  assumes st: "stuck c h m q" and p: "push [] x q = (ok, q')"
  shows "stuck c h m q' \<and> length (slots q') = length (slots q)
    \<and> unat (queue_head q') = unat (queue_head q) + (if ok then 1 else 0)"
proof -
  obtain full q1 where fc: "full_check (queue_head q) q = (full, q1)" by fastforce
  note s = stuck_full_check [OF st fc]
  show ?thesis
  proof (cases full)
    case True
    then show ?thesis using s p fc by (simp add: Let_def)
  next
    case False
    let ?p = "queue_head q" and ?n = "length (slots q)"
    have q1: "q1 = q" and room: "unat ?p < unat (cached_min q) + ?n" using s False by auto
    have q': "q' = publish_slot ?p x (store_head (?p + 1) q)" and ok
      using p fc False q1 by (simp_all add: Let_def)
    note d = stuckD [OF st]
    have hd: "unat (queue_head q') = unat ?p + 1"
      using d(6,8) by (simp add: q' unat_succ_pos)
    have sl: "slots q' = (slots q)[unat ?p mod ?n := \<lparr>sequence = ?p, data = x\<rparr>]"
      unfolding q' by (rule slots_publish [OF d(1)])
    have "sequence (slots q' ! (unat h mod ?n)) \<noteq> h"
      using d(5,9,10) by (auto simp: sl nth_list_update)
    moreover have "live q' c" "queue_tail q' c = h"
      using d(3,4) by (simp_all add: q' live_def is_active_def queue_tail_def)
    ultimately have "stuck c h m q'"
      using d hd room by (simp add: stuck_def Let_def sl) (simp add: q')
    then show ?thesis using hd sl \<open>ok\<close> by simp
  qed
qed

text \<open>A refused push has stored the minimum it computed, and that keeps the ring full for good.\<close>

definition blocked :: "u32 \<Rightarrow> u64 \<Rightarrow> nat \<Rightarrow> 'a MPMCQueue \<Rightarrow> bool" where
  "blocked c h m q \<longleftrightarrow> stuck c h m q \<and> unat (cached_min q) + length (slots q) \<le> unat (queue_head q)"

lemma refused_blocks:
  assumes st: "stuck c h m q" and p: "push [] x q = (False, q')"
  shows "blocked c h m q'"
proof -
  let ?m = "compute_min_tail q"
  note d = stuckD [OF st]
  obtain full q1 where fc: "full_check (queue_head q) q = (full, q1)" by fastforce
  then have full: full and q': "q' = q1" using p by (auto simp: Let_def split: if_splits)
  have s: "stuck c h m q1 \<and> queue_head q1 = queue_head q \<and> length (slots q1) = length (slots q)"
    using stuck_full_check [OF st fc] by blast
  have "cached_min q1 = ?m"
    using fc full by (auto simp: full_check_def Let_def split: if_splits)
  then show ?thesis using s stuck_min [OF st] d(5) unfolding blocked_def q' by simp
qed

lemma blocked_push:
  assumes b: "blocked c h m q" and p: "push [] x q = (ok, q')"
  shows "\<not> ok \<and> blocked c h m q'"
proof (cases ok)
  case True
  obtain full q1 where fc: "full_check (queue_head q) q = (full, q1)" by fastforce
  then have "\<not> full" using p True by (auto simp: Let_def split: if_splits)
  then show ?thesis using stuck_full_check [OF _ fc, of c h m] b by (simp add: blocked_def)
next
  case False
  then show ?thesis using refused_blocks [of c h m q x q'] b p by (simp add: blocked_def)
qed

lemma blocked_pop:
  assumes b: "blocked c h m q" and d: "unat d < 32" and p: "pop d q = (v, q')"
  shows "blocked c h m q'"
proof (cases "d = c")
  case True
  then show ?thesis using stuck_pop_self [of c h m q] b p by (simp add: blocked_def)
next
  case False
  have "stuck c h m q' \<and> queue_head q' = queue_head q \<and> slots q' = slots q"
    using stuck_pop_other [OF _ False d p, of h m] b unfolding blocked_def by blast
  moreover have "cached_min q' = cached_min q"
    using p by (auto simp: pop_def Let_def split: if_splits)
  ultimately show ?thesis using b by (simp add: blocked_def)
qed

lemma blocked_run:
  assumes "blocked c h m q" and "\<forall>d. Pop d \<in> set ops \<longrightarrow> unat d < 32"
    and "run_ops (push []) pop ops q = (acc, rcv, q')"
  shows "acc = []"
  using assms
proof (induction ops arbitrary: q acc rcv)
  case (Cons e ops)
  show ?case
  proof (cases e)
    case (Push x)
    obtain ok q1 where p: "push [] x q = (ok, q1)" by fastforce
    note b = blocked_push [OF Cons.prems(1) p]
    then have "run_ops (push []) pop ops q1 = (acc, rcv, q')"
      using Cons.prems(3) Push p by (auto simp del: push.simps split: prod.splits)
    then show ?thesis using Cons.IH [of q1] b Cons.prems(2) by (simp del: push.simps)
  next
    case (Pop d)
    obtain v q1 where p: "pop d q = (v, q1)" by fastforce
    then obtain rcv' where o: "run_ops (push []) pop ops q1 = (acc, rcv', q')"
      using Cons.prems(3) Pop by (auto simp del: push.simps split: prod.splits)
    have "unat d < 32" using Cons.prems(2) Pop by simp
    then show ?thesis using Cons.IH [OF blocked_pop [OF Cons.prems(1) _ p] _ o] Cons.prems(2) by simp
  qed
qed simp

lemma stuck_run:
  assumes "stuck c h m q" and "\<forall>d. Pop d \<in> set ops \<longrightarrow> unat d < 32"
    and "run_ops (push []) pop ops q = (acc, rcv, q')"
  shows "received_by c rcv = [] \<and> unat (queue_head q) + length acc \<le> m \<and> stuck c h m q'"
  using assms
proof (induction ops arbitrary: q acc rcv)
  case Nil
  then show ?case using stuckD(6) by simp
next
  case (Cons e ops)
  show ?case
  proof (cases e)
    case (Push x)
    obtain ok q1 where p: "push [] x q = (ok, q1)" by fastforce
    obtain acc' where r: "run_ops (push []) pop ops q1 = (acc', rcv, q')"
      "acc = (if ok then x # acc' else acc')"
      using Cons.prems(3) Push p by (auto simp del: push.simps split: prod.splits)
    note s = stuck_push [OF Cons.prems(1) p]
    show ?thesis using Cons.IH [OF _ _ r(1)] s Cons.prems(2) r(2) by (simp split: if_splits)
  next
    case (Pop d)
    obtain v q1 where p: "pop d q = (v, q1)" by fastforce
    obtain rcv' where r: "run_ops (push []) pop ops q1 = (acc, rcv', q')"
      "rcv = (case v of None \<Rightarrow> rcv' | Some x \<Rightarrow> (d, x) # rcv')"
      using Cons.prems(3) Pop p by (auto simp del: push.simps split: prod.splits)
    have d: "unat d < 32" using Cons.prems(2) Pop by simp
    have s: "stuck c h m q1 \<and> queue_head q1 = queue_head q \<and> (d = c \<longrightarrow> v = None)"
      using stuck_pop_self [OF Cons.prems(1)] stuck_pop_other [OF Cons.prems(1) _ d p] p Cons.prems(1)
      by (cases "d = c") auto
    show ?thesis using Cons.IH [OF _ _ r(1)] s Cons.prems(2) r(2) by (auto split: option.splits)
  qed
qed

text \<open>Publishing a consumer at a head that is more than a lap old makes the ring stuck.\<close>

lemma stale_publish_stuck:
  assumes inv: "queue_inv b q" and c: "unat c < 32"
    and old: "unat h + length (slots q) < unat (queue_head q)"
    and room: "unat (queue_head q) + 2 * length (slots q) < 2 ^ 64 - 1"
  shows "stuck c h (unat (queue_head q) + length (slots q)) (publish_consumer c h q)"
proof -
  let ?n = "length (slots q)" and ?p = "unat (queue_head q)" and ?q = "publish_consumer c h q"
  note d = queue_invD [OF inv]
  \<comment> \<open>the last position of the slot's residue class that was claimed\<close>
  let ?i = "unat h mod ?n"
  define j where "j = (?p - 1) - ((?p - 1 - ?i) mod ?n)"
  have i: "?i < ?n" "?i \<le> unat h" using d(5) by simp_all
  have ip: "?i + ?n < ?p" using i old by linarith
  have m: "(?p - 1 - ?i) mod ?n < ?n" "(?p - 1 - ?i) mod ?n \<le> ?p - 1 - ?i" using d(5) by simp_all
  have j: "j < ?p" "?p \<le> j + ?n" using m ip by (simp_all add: j_def)
  obtain k r where kr: "k = (?p - 1 - ?i) div ?n" "r = (?p - 1 - ?i) mod ?n" by blast
  have "?n * k + r = ?p - 1 - ?i" using mult_div_mod_eq [of ?n "?p - 1 - ?i"] kr by simp
  then have "j = ?i + ?n * k" using m(2) ip kr(2) unfolding j_def by linarith
  then have jm: "j mod ?n = ?i" by simp
  have "sequence (slots q ! ?i) = of_nat j" using queue_inv_seq [OF inv j] jm by simp
  moreover have "unat (of_nat j :: u64) = j"
    using j(1) d(3) by (simp add: unat_of_nat take_bit_nat_eq_self)
  ultimately have seq: "sequence (slots q ! ?i) \<noteq> h" using j(2) old by auto
  show ?thesis
    using d c old room seq publish_consumer_live [of c q h c]
    by (simp add: stuck_def Let_def)
qed

lemma run_keeps_inv:
  assumes "queue_inv (b + length ops) q" and "\<forall>d. Pop d \<in> set ops \<longrightarrow> unat d < 32"
    and "run_ops (push []) pop ops q = (acc, rcv, q')"
  shows "queue_inv b q' \<and> length (slots q') = length (slots q)"
  using assms
proof (induction ops arbitrary: q acc rcv)
  case (Cons e ops)
  have inv: "queue_inv (Suc (b + length ops)) q" using Cons.prems(1) by simp
  show ?case
  proof (cases e)
    case (Push x)
    obtain ok q1 where p: "push [] x q = (ok, q1)" by fastforce
    then obtain acc' where r: "run_ops (push []) pop ops q1 = (acc', rcv, q')"
      using Cons.prems(3) Push by (auto simp del: push.simps split: prod.splits)
    have "queue_inv (b + length ops) q1 \<and> ring_capacity q1 = ring_capacity q"
      using mpmc.push_true [OF inv, of x q1] mpmc.push_false [OF queue_inv_mono [OF inv], of x q1] p
      by (cases ok) simp_all
    then show ?thesis using Cons.IH [OF _ _ r] Cons.prems(2) by (simp add: ring_capacity_def)
  next
    case (Pop d)
    obtain v q1 where p: "pop d q = (v, q1)" by fastforce
    then obtain rcv' where r: "run_ops (push []) pop ops q1 = (acc, rcv', q')"
      using Cons.prems(3) Pop by (auto simp del: push.simps split: prod.splits)
    have "unat d < 32" using Cons.prems(2) Pop by simp
    then have "queue_inv (b + length ops) q1 \<and> length (slots q1) = length (slots q)"
      using pop_refines_spec [OF queue_inv_mono [OF inv] _ p] p
      by (auto simp: pop_def Let_def split: if_splits)
    then show ?thesis using Cons.IH [OF _ _ r] Cons.prems(2) by simp
  qed
qed simp

lemma interrupted_stuck:
  assumes inv: "queue_inv (2 * ring_capacity q + length between) q"
    and few: "queue_num_consumers q < MAX_CONSUMERS"
    and ids: "\<forall>d. Pop d \<in> set between \<longrightarrow> unat d < 32"
    and r: "register_interrupted between q = (c, q')"
    and old: "unat (queue_head q) + ring_capacity q < unat (queue_head q')"
  shows "stuck c (queue_head q) (unat (queue_head q') + ring_capacity q) q'
    \<and> length (slots q') = ring_capacity q"
proof -
  let ?q1 = "store_num_consumers (queue_num_consumers q + 1) q"
  obtain acc rcv q2 where run: "run_ops (push []) pop between ?q1 = (acc, rcv, q2)"
    using prod_cases3 by blast
  have c: "c = queue_num_consumers q" and q': "q' = publish_consumer c (queue_head q) q2"
    using r run by (auto simp: register_interrupted_def Let_def simp del: push.simps)
  have q2: "queue_inv (2 * ring_capacity q) q2 \<and> length (slots q2) = ring_capacity q"
    using run_keeps_inv [OF _ ids run] inv by (simp add: queue_inv_count ring_capacity_def)
  have "unat c < 32" using few c by (simp add: word_less_nat_alt)
  then show ?thesis
    using stale_publish_stuck [of "2 * ring_capacity q" q2 c "queue_head q"] q2 old
      queue_invD(3) [of "2 * ring_capacity q" q2] by (simp add: q')
qed

section \<open>Properties\<close>

text \<open>C15: A registration that races with producers blocks the queue. When, between the load
  of the head and the publication of the new consumer, other threads push more than one lap,
  then whatever pushes and pops follow, the new consumer never receives an item, at most a
  further ring size of pushes is accepted, and once a push has been refused every later one is.\<close>

theorem late_registration_blocks:
  assumes "queue_inv (2 * ring_capacity q + length between) q"
    and "queue_num_consumers q < MAX_CONSUMERS"
    and "\<forall>d. Pop d \<in> set between \<longrightarrow> unat d < 32"
    and "register_interrupted between q = (c, q')"
    and "unat (queue_head q) + ring_capacity q < unat (queue_head q')"
    and "\<forall>d. Pop d \<in> set later \<union> set after \<longrightarrow> unat d < 32"
    and "run_ops (push []) pop later q' = (acc, rcv, q'')"
  shows "received_by c rcv = [] \<and> length acc \<le> ring_capacity q
    \<and> (\<not> fst (push [] x q'') \<longrightarrow> fst (run_ops (push []) pop after (snd (push [] x q''))) = [])"
proof -
  let ?m = "unat (queue_head q') + ring_capacity q"
  have ids: "\<forall>d. Pop d \<in> set later \<longrightarrow> unat d < 32" "\<forall>d. Pop d \<in> set after \<longrightarrow> unat d < 32"
    using assms(6) by blast+
  have st: "stuck c (queue_head q) ?m q'" using interrupted_stuck [OF assms(1-5)] by blast
  note run = stuck_run [OF st ids(1) assms(7)]
  have "fst (run_ops (push []) pop after (snd (push [] x q''))) = []" if refused: "\<not> fst (push [] x q'')"
  proof -
    obtain q3 where p: "push [] x q'' = (False, q3)" using refused by (cases "push [] x q''") (auto simp del: push.simps)
    obtain acc2 rcv2 q4 where o: "run_ops (push []) pop after q3 = (acc2, rcv2, q4)" using prod_cases3 by blast
    have "blocked c (queue_head q) ?m q3" using refused_blocks [OF _ p] run by blast
    then show ?thesis using blocked_run [OF _ ids(2) o] by (simp add: p o del: push.simps)
  qed
  then show ?thesis using run by simp
qed

definition demo_between :: "nat qop list" where
  "demo_between = concat (map (\<lambda>i. [Push i, Pop 0]) [0..<17])"

definition demo_race_queue :: "nat MPMCQueue" where
  "demo_race_queue = register_all 1 (MPMCQueue_new 16 0)"

lemma late_registration_blocks_witness:
  "case run_ops (push []) pop (map Push [0..<40] @ [Pop 1])
      (snd (register_interrupted demo_between demo_race_queue))
   of (acc, rcv, q'') \<Rightarrow> received_by 1 rcv = [] \<and> length acc \<le> 16
      \<and> fst (run_ops (push []) pop [Pop 0, Push 8] (snd (push [] 7 q''))) = []"
proof -
  obtain acc rcv q'' where run: "run_ops (push []) pop (map Push [0..<40] @ [Pop 1])
      (snd (register_interrupted demo_between demo_race_queue)) = (acc, rcv, q'')"
    using prod_cases3 by blast
  have v: "queue_num_consumers demo_race_queue < MAX_CONSUMERS" "ring_capacity demo_race_queue = 16"
    "fst (register_interrupted demo_between demo_race_queue) = 1" "length demo_between = 34"
    "unat (queue_head demo_race_queue) + 16
      < unat (queue_head (snd (register_interrupted demo_between demo_race_queue)))"
    by code_simp+
  have inv: "queue_inv 66 demo_race_queue"
    unfolding demo_race_queue_def
    by (rule new_queue_registered(1) [of _ _ _ 0]) (simp_all add: valid_size_def)
  have ids: "\<forall>d. Pop d \<in> set demo_between \<longrightarrow> unat d < 32"
    "\<forall>d. Pop d \<in> set (map Push [0..<40] @ [Pop 1]) \<union> set [Pop 0, Push 8] \<longrightarrow> unat d < 32"
    by (auto simp: demo_between_def)
  have "register_interrupted demo_between demo_race_queue
      = (1, snd (register_interrupted demo_between demo_race_queue))"
    using v(3) by (simp add: prod_eq_iff)
  note b = late_registration_blocks [OF _ v(1) ids(1) this _ ids(2) run, of 7]
  have refused: "\<not> fst (push [] 7 (snd (snd (run_ops (push []) pop (map Push [0..<40] @ [Pop 1])
      (snd (register_interrupted demo_between demo_race_queue))))))"
    by code_simp
  then have "\<not> fst (push [] 7 q'')" unfolding run by (simp del: push.simps)
  then have "received_by 1 rcv = [] \<and> length acc \<le> 16
      \<and> fst (run_ops (push []) pop [Pop 0, Push 8] (snd (push [] 7 q''))) = []"
    using b inv v(2,4,5) by (simp del: push.simps run_ops.simps)
  then show ?thesis unfolding run by simp
qed

end
