(* ===== verification/Log_Entry.thy ===== *)
theory Log_Entry
  imports Logger_Prelude
begin

text \<open>
  include/mpmc_logger/log_entry.hpp and config.hpp: the log levels, the 128-byte
  \<open>LogEntry\<close>, its memory image, \<open>fast_copy_128\<close> and the generic \<open>fast_copy\<close> of
  mpmc_queue.hpp. The image is the one of a little-endian machine. Proved: the image is
  128 bytes long and determines the entry, and the vector copies are \<open>memcpy\<close>.
\<close>

section \<open>Levels\<close>

text \<open>
  \<open>enum class LogLevel : uint8_t\<close> has all 256 values of its underlying type (an entry read
  back from a file may carry any of them); the enumerators are constants.
\<close>

type_synonym LogLevel = u8

definition LVL_TRACE :: LogLevel where "LVL_TRACE = 0"
definition LVL_DEBUG :: LogLevel where "LVL_DEBUG = 1"
definition LVL_INFO :: LogLevel where "LVL_INFO = 2"
definition LVL_WARN :: LogLevel where "LVL_WARN = 3"
definition LVL_ERROR :: LogLevel where "LVL_ERROR = 4"
definition LVL_FATAL :: LogLevel where "LVL_FATAL = 5"
definition LVL_OFF :: LogLevel where "LVL_OFF = 6"

lemmas level_defs = LVL_TRACE_def LVL_DEBUG_def LVL_INFO_def LVL_WARN_def LVL_ERROR_def
  LVL_FATAL_def LVL_OFF_def

definition level_names :: "string list" where
  "level_names = [''TRACE'', ''DEBUG'', ''INFO '', ''WARN '', ''ERROR'', ''FATAL'', ''OFF  '']"

definition level_to_string :: "LogLevel \<Rightarrow> string" where
  "level_to_string lvl = (if lvl \<le> 6 then level_names ! unat lvl else ''?????'')"

lemma small_level: "(lvl :: u8) \<le> 6 \<Longrightarrow> lvl \<in> {0, 1, 2, 3, 4, 5, 6}"
proof -
  assume "lvl \<le> 6"
  then have "unat lvl \<le> 6" by (simp add: word_le_nat_alt)
  then have "unat lvl \<in> {0, 1, 2, 3, 4, 5, 6}" by auto
  then show ?thesis by (auto simp: word_unat_eq_iff)
qed

lemma length_level_to_string [simp]: "length (level_to_string lvl) = 5"
  using small_level [of lvl] by (auto simp: level_to_string_def level_names_def)

lemma level_to_string_inject:
  assumes "lvl \<le> 6" and "level_to_string lvl = level_to_string lvl'"
  shows "lvl' = lvl"
proof -
  have "lvl' \<le> 6"
    using assms small_level [of lvl] by (auto simp: level_to_string_def level_names_def split: if_splits)
  then show ?thesis
    using assms small_level [of lvl] small_level [of lvl']
    by (auto simp: level_to_string_def level_names_def)
qed

section \<open>Entries\<close>

record LogEntry =
  timestamp_ns :: u64
  thread_id :: u32
  level :: LogLevel
  category :: u8
  payload_len :: u16
  payload :: bytes

text \<open>The payload array has 112 bytes; the constructor leaves its contents (\<open>p\<close>) alone.\<close>

definition PAYLOAD_SIZE :: nat where
  "PAYLOAD_SIZE = 112"

definition wf_entry :: "LogEntry \<Rightarrow> bool" where
  "wf_entry e \<longleftrightarrow> length (payload e) = PAYLOAD_SIZE"

definition LogEntry_new :: "bytes \<Rightarrow> LogEntry" where
  "LogEntry_new p = \<lparr>timestamp_ns = 0, thread_id = 0, level = LVL_INFO, category = 0,
     payload_len = 0, payload = p\<rparr>"

definition sizeof_LogEntry :: nat where
  "sizeof_LogEntry = 128"

text \<open>The object representation, field by field at the offsets of the layout comment.\<close>

definition entry_image :: "LogEntry \<Rightarrow> bytes" where
  "entry_image e =
     le_image 8 (unat (timestamp_ns e)) @ le_image 4 (unat (thread_id e))
     @ le_image 1 (unat (level e)) @ le_image 1 (unat (category e))
     @ le_image 2 (unat (payload_len e)) @ payload e"

definition entry_of_image :: "bytes \<Rightarrow> LogEntry" where
  "entry_of_image bs =
     \<lparr>timestamp_ns = of_nat (le_value (take 8 bs)),
      thread_id = of_nat (le_value (take 4 (drop 8 bs))),
      level = of_nat (le_value (take 1 (drop 12 bs))),
      category = of_nat (le_value (take 1 (drop 13 bs))),
      payload_len = of_nat (le_value (take 2 (drop 14 bs))),
      payload = drop 16 bs\<rparr>"

lemma length_entry_image [simp]: "wf_entry e \<Longrightarrow> length (entry_image e) = sizeof_LogEntry"
  by (simp add: entry_image_def wf_entry_def PAYLOAD_SIZE_def sizeof_LogEntry_def)

lemma entry_image_nonempty: "entry_image e \<noteq> []"
proof -
  have "length (le_image 8 (unat (timestamp_ns e))) \<noteq> 0" by simp
  then show ?thesis by (auto simp: entry_image_def)
qed

lemma le_value_word:
  "unat (w :: 'a :: len word) < 256 ^ k \<Longrightarrow> of_nat (le_value (le_image k (unat w))) = w"
  by (simp add: le_value_image)

lemma entry_word_bounds:
  "unat (a :: u64) < 256 ^ 8" "unat (b :: u32) < 256 ^ 4" "unat (c :: u8) < 256 ^ 1"
  "unat (d :: u16) < 256 ^ 2"
  using unsigned_less [of a, where 'a = nat] unsigned_less [of b, where 'a = nat]
    unsigned_less [of c, where 'a = nat] unsigned_less [of d, where 'a = nat] by simp_all

lemma le_value_field:
  "of_nat (le_value (le_image 8 (unat (a :: u64)))) = a"
  "of_nat (le_value (le_image 4 (unat (b :: u32)))) = b"
  "of_nat (le_value (le_image 1 (unat (c :: u8)))) = c"
  "of_nat (le_value (le_image 2 (unat (d :: u16)))) = d"
  by (rule le_value_word; rule entry_word_bounds)+

lemma entry_image_roundtrip: "entry_of_image (entry_image e) = e"
proof -
  have "take 8 (entry_image e) = le_image 8 (unat (timestamp_ns e))"
    "take 4 (drop 8 (entry_image e)) = le_image 4 (unat (thread_id e))"
    "take 1 (drop 12 (entry_image e)) = le_image 1 (unat (level e))"
    "take 1 (drop 13 (entry_image e)) = le_image 1 (unat (category e))"
    "take 2 (drop 14 (entry_image e)) = le_image 2 (unat (payload_len e))"
    "drop 16 (entry_image e) = payload e"
    by (simp_all add: entry_image_def del: One_nat_def le_image.simps)
  then show ?thesis
    unfolding entry_of_image_def by (simp only: le_value_field) (cases e; simp)
qed

lemma image_split:
  assumes "length bs = 128"
  shows "bs = take 8 bs @ take 4 (drop 8 bs) @ take 1 (drop 12 bs) @ take 1 (drop 13 bs)
    @ take 2 (drop 14 bs) @ drop 16 bs"
proof -
  have "drop 14 bs = take 2 (drop 14 bs) @ drop 16 bs"
    using append_take_drop_id [of 2 "drop 14 bs"] by simp
  moreover have "drop 13 bs = take 1 (drop 13 bs) @ drop 14 bs"
    using append_take_drop_id [of 1 "drop 13 bs"] by simp
  moreover have "drop 12 bs = take 1 (drop 12 bs) @ drop 13 bs"
    using append_take_drop_id [of 1 "drop 12 bs"] by simp
  moreover have "drop 8 bs = take 4 (drop 8 bs) @ drop 12 bs"
    using append_take_drop_id [of 4 "drop 8 bs"] by simp
  ultimately show ?thesis by (metis append_take_drop_id)
qed

lemma le_image_take:
  assumes "length xs = k"
  shows "le_image k (le_value xs) = xs"
  using le_image_value [of xs] assms by simp

lemma unat_le_value:
  assumes "length xs = k" and "256 ^ k = (2 :: nat) ^ LENGTH('a)"
  shows "unat (of_nat (le_value xs) :: 'a :: len word) = le_value xs"
  using le_value_bound [of xs] assms by (simp add: unat_of_nat take_bit_nat_eq_self)

lemma image_entry_roundtrip:
  assumes "length bs = sizeof_LogEntry"
  shows "entry_image (entry_of_image bs) = bs" and "wf_entry (entry_of_image bs)"
proof -
  have len: "length bs = 128" using assms by (simp add: sizeof_LogEntry_def)
  have "entry_image (entry_of_image bs)
      = take 8 bs @ take 4 (drop 8 bs) @ take 1 (drop 12 bs) @ take 1 (drop 13 bs)
        @ take 2 (drop 14 bs) @ drop 16 bs"
    using len unfolding entry_image_def entry_of_image_def
    by (simp add: unat_le_value [of _ 8] unat_le_value [of _ 4] unat_le_value [of _ 2]
        unat_le_value [of _ 1] le_image_take del: One_nat_def le_image.simps)
  then show "entry_image (entry_of_image bs) = bs" using image_split [OF len] by simp
  show "wf_entry (entry_of_image bs)"
    using len by (simp add: wf_entry_def entry_of_image_def PAYLOAD_SIZE_def)
qed

section \<open>Copies\<close>

text \<open>Four (three) unaligned 32-byte loads, then as many stores.\<close>

definition fast_copy_128 :: "bool \<Rightarrow> bytes \<Rightarrow> bytes \<Rightarrow> bytes option" where
  "fast_copy_128 avx2 dst src =
     (if avx2 then do {
        y0 \<leftarrow> load_at src 0 32; y1 \<leftarrow> load_at src 32 32;
        y2 \<leftarrow> load_at src 64 32; y3 \<leftarrow> load_at src 96 32;
        dst \<leftarrow> store_at dst 0 y0; dst \<leftarrow> store_at dst 32 y1;
        dst \<leftarrow> store_at dst 64 y2; store_at dst 96 y3 }
      else memcpy dst 0 src 0 128)"

definition fast_copy :: "bool \<Rightarrow> nat \<Rightarrow> bytes \<Rightarrow> bytes \<Rightarrow> bytes option" where
  "fast_copy avx2 sz dst src =
     (if avx2 \<and> sz = 128 then do {
        y0 \<leftarrow> load_at src 0 32; y1 \<leftarrow> load_at src 32 32;
        y2 \<leftarrow> load_at src 64 32; y3 \<leftarrow> load_at src 96 32;
        dst \<leftarrow> store_at dst 0 y0; dst \<leftarrow> store_at dst 32 y1;
        dst \<leftarrow> store_at dst 64 y2; store_at dst 96 y3 }
      else if avx2 \<and> sz = 96 then do {
        y0 \<leftarrow> load_at src 0 32; y1 \<leftarrow> load_at src 32 32; y2 \<leftarrow> load_at src 64 32;
        dst \<leftarrow> store_at dst 0 y0; dst \<leftarrow> store_at dst 32 y1; store_at dst 64 y2 }
      else memcpy dst 0 src 0 sz)"

lemma overwrite_take_drop:
  assumes "a + b \<le> length src" and "a + b \<le> length dst"
  shows "overwrite a (take b (drop a src)) (overwrite 0 (take a src) dst)
    = overwrite 0 (take (a + b) src) dst"
proof -
  have "take (a + b) src = take a src @ take b (drop a src)" by (rule take_add)
  then show ?thesis
    using overwrite_overwrite [of 0 "take a src" dst "take b (drop a src)"] assms by simp
qed

lemma vector_copy_96:
  assumes "96 \<le> length src" and "96 \<le> length dst"
  shows "overwrite 64 (take 32 (drop 64 src)) (overwrite 32 (take 32 (drop 32 src))
    (overwrite 0 (take 32 src) dst)) = overwrite 0 (take 96 src) dst"
  using overwrite_take_drop [of 32 32 src dst] overwrite_take_drop [of 64 32 src dst] assms by simp

lemma fast_copy_128_memcpy:
  assumes "128 \<le> length src" and "128 \<le> length dst"
  shows "fast_copy_128 avx2 dst src = Some (overwrite 0 (take 128 src) dst)"
  using assms vector_copy_96 [of src dst] overwrite_take_drop [of 96 32 src dst]
  by (simp add: fast_copy_128_def buffer_simps)

lemma fast_copy_memcpy:
  assumes "sz \<le> length src" and "sz \<le> length dst"
  shows "fast_copy avx2 sz dst src = Some (overwrite 0 (take sz src) dst)"
  using assms vector_copy_96 [of src dst] overwrite_take_drop [of 96 32 src dst]
  by (auto simp: fast_copy_def buffer_simps)

section \<open>Properties\<close>

text \<open>The 128-byte image of an entry determines it, and every 128-byte image is the
  image of the well-formed entry read from it: writing entries to a file and reading them
  back in 128-byte steps loses nothing.\<close>

lemma entry_image_bijection:
  assumes "length bs = sizeof_LogEntry"
  shows "entry_of_image (entry_image e) = e \<and> entry_image (entry_of_image bs) = bs
    \<and> wf_entry (entry_of_image bs)"
  using entry_image_roundtrip image_entry_roundtrip [OF assms] by simp

lemma entry_image_bijection_witness:
  "entry_image (entry_of_image (replicate 128 (CHR 0x41))) = replicate 128 (CHR 0x41)"
  using entry_image_bijection [of "replicate 128 (CHR 0x41)"] by (simp add: sizeof_LogEntry_def)

text \<open>The vector copies are \<open>memcpy\<close>. For any object size, with or without AVX2, the
  generic \<open>fast_copy\<close> (128-byte, 96-byte and other objects) replaces exactly the object's
  bytes of the destination by those of the source, and \<open>fast_copy_128\<close> does so for 128;
  no access leaves the two objects.\<close>

lemma fast_copies_are_memcpy:
  assumes "sz \<le> length src" and "sz \<le> length dst"
  shows "fast_copy avx2 sz dst src = memcpy dst 0 src 0 sz
    \<and> (sz = 128 \<longrightarrow> fast_copy_128 avx2 dst src = memcpy dst 0 src 0 sz)"
  using fast_copy_memcpy [OF assms] fast_copy_128_memcpy [of src dst] assms
  by (simp add: memcpy_in)

lemma fast_copies_are_memcpy_witness:
  "fast_copy True 96 (replicate 100 CHR ''a'') (replicate 96 CHR ''b'')
    = memcpy (replicate 100 CHR ''a'') 0 (replicate 96 CHR ''b'') 0 96"
  using fast_copies_are_memcpy [of 96 "replicate 96 CHR ''b''" "replicate 100 CHR ''a''" True] by simp

end
