(* ===== verification/Legacy_Queue.thy ===== *)
theory Legacy_Queue
  imports Mpmc_Calls Log_Entry
begin

text \<open>
  The ring buffer \<open>MPMC_Queue\<close> of mpmc.hpp (mpmc_2.hpp has the item type as a template
  parameter, as the model; the copies under original/ differ in the syntax of an
  attribute) and its payload \<open>MarketData\<close>. It
  differs from \<open>MPMCQueue\<close> in a \<open>purge_lock\<close> field and in \<open>computeMinTail\<close>, which also
  stores its result. Each call is shown to do on the shared fields what the call of
  \<open>MPMCQueue\<close> does, so it implements the contract of \<open>Queue_Contract\<close>.
\<close>

section \<open>Market data\<close>

record MarketData =
  token :: u32
  bids :: "u32 list"
  asks :: "u32 list"
  bids_quantity :: "u32 list"
  asks_quantity :: "u32 list"
  seq_no :: u32
  push_ts_n :: u64

definition MarketData_new :: MarketData where
  "MarketData_new = \<lparr>token = 0, bids = replicate 5 0, asks = replicate 5 0,
     bids_quantity = replicate 5 0, asks_quantity = replicate 5 0, seq_no = 0, push_ts_n = 0\<rparr>"

definition wf_market :: "MarketData \<Rightarrow> bool" where
  "wf_market m \<longleftrightarrow> length (bids m) = 5 \<and> length (asks m) = 5
     \<and> length (bids_quantity m) = 5 \<and> length (asks_quantity m) = 5"

definition u32s_image :: "u32 list \<Rightarrow> bytes" where
  "u32s_image xs = concat (map (\<lambda>x. le_image 4 (unat x)) xs)"

definition market_image :: "MarketData \<Rightarrow> bytes" where
  "market_image m = le_image 4 (unat (token m)) @ u32s_image (bids m) @ u32s_image (asks m)
     @ u32s_image (bids_quantity m) @ u32s_image (asks_quantity m)
     @ le_image 4 (unat (seq_no m)) @ le_image 8 (unat (push_ts_n m))"

lemma length_u32s_image [simp]: "length (u32s_image xs) = 4 * length xs"
  by (induction xs) (simp_all add: u32s_image_def)

lemma length_market_image: "wf_market m \<Longrightarrow> length (market_image m) = 96"
  by (simp add: market_image_def wf_market_def)

text \<open>Reading the object back from its bytes.\<close>

fun u32s_of_image :: "nat \<Rightarrow> bytes \<Rightarrow> u32 list" where
  "u32s_of_image 0 bs = []"
| "u32s_of_image (Suc k) bs = of_nat (le_value (take 4 bs)) # u32s_of_image k (drop 4 bs)"

definition market_of_image :: "bytes \<Rightarrow> MarketData" where
  "market_of_image bs =
     \<lparr>token = of_nat (le_value (take 4 bs)), bids = u32s_of_image 5 (drop 4 bs),
      asks = u32s_of_image 5 (drop 24 bs), bids_quantity = u32s_of_image 5 (drop 44 bs),
      asks_quantity = u32s_of_image 5 (drop 64 bs), seq_no = of_nat (le_value (take 4 (drop 84 bs))),
      push_ts_n = of_nat (le_value (take 8 (drop 88 bs)))\<rparr>"

lemma u32s_roundtrip: "length xs = k \<Longrightarrow> u32s_of_image k (u32s_image xs @ bs) = xs"
proof (induction xs arbitrary: k)
  case Nil
  then show ?case by simp
next
  case (Cons x xs)
  then show ?case by (cases k) (simp_all add: u32s_image_def le_value_field)
qed

lemma market_roundtrip:
  assumes "wf_market m"
  shows "market_of_image (market_image m) = m"
  using assms u32s_roundtrip [of _ 5] u32s_roundtrip [of _ 5, where bs = "[]"]
  by (cases m) (simp add: market_of_image_def market_image_def wf_market_def le_value_field)

definition fast_copy_96 :: "bool \<Rightarrow> bytes \<Rightarrow> bytes \<Rightarrow> bytes option" where
  "fast_copy_96 avx2 dst src =
     (if avx2 then do {
        y0 \<leftarrow> load_at src 0 32; y1 \<leftarrow> load_at src 32 32; y2 \<leftarrow> load_at src 64 32;
        dst \<leftarrow> store_at dst 0 y0; dst \<leftarrow> store_at dst 32 y1; store_at dst 64 y2 }
      else memcpy dst 0 src 0 96)"

lemma fast_copy_96_memcpy:
  assumes "96 \<le> length src" and "96 \<le> length dst"
  shows "fast_copy_96 avx2 dst src = Some (overwrite 0 (take 96 src) dst)"
  using assms vector_copy_96 [of src dst] by (auto simp: fast_copy_96_def buffer_simps)

section \<open>The queue of mpmc.hpp\<close>

record 'a MPMC_Queue = "'a MPMCQueue" +
  purge_lock :: bool

definition MPMC_Queue_new :: "nat \<Rightarrow> 'a \<Rightarrow> 'a MPMC_Queue" where
  "MPMC_Queue_new n d =
     \<lparr>consumers = replicate (unat MAX_CONSUMERS) \<lparr>tail = 0, active = False\<rparr>,
      producer = \<lparr>head = 0\<rparr>, meta = \<lparr>num_consumers = 0, min_tail = 0\<rparr>,
      slots = replicate n \<lparr>sequence = INVALID_POS, data = d\<rparr>, purge_lock = False\<rparr>"

definition legacy_mask :: "'a MPMC_Queue \<Rightarrow> u64 \<Rightarrow> nat" where
  "legacy_mask q p = unat (p AND (of_nat (length (slots q)) - 1))"

definition reg_consumer :: "'a MPMC_Queue \<Rightarrow> (queue_error + u32) \<times> 'a MPMC_Queue" where
  "reg_consumer q =
     (let c = num_consumers (meta q); q1 = q\<lparr>meta := (meta q)\<lparr>num_consumers := c + 1\<rparr>\<rparr>
      in if c \<ge> MAX_CONSUMERS then (Inl Too_many_consumers, q1)
         else let head' = head (producer q1);
                  q2 = q1\<lparr>consumers := (consumers q1)[unat c := (consumers q1 ! unat c)\<lparr>tail := head'\<rparr>]\<rparr>;
                  q3 = q2\<lparr>consumers := (consumers q2)[unat c := (consumers q2 ! unat c)\<lparr>active := True\<rparr>]\<rparr>
              in (Inr c, q3))"

definition del_consumer :: "u32 \<Rightarrow> 'a MPMC_Queue \<Rightarrow> 'a MPMC_Queue" where
  "del_consumer c q =
     q\<lparr>consumers := (consumers q)[unat c := (consumers q ! unat c)\<lparr>active := False\<rparr>]\<rparr>"

definition legacy_head :: "'a MPMC_Queue \<Rightarrow> u64" where
  "legacy_head q = head (producer q)"

definition legacy_tail :: "'a MPMC_Queue \<Rightarrow> u32 \<Rightarrow> u64" where
  "legacy_tail q c = tail (consumers q ! unat c)"

definition legacy_store_min :: "u64 \<Rightarrow> 'a MPMC_Queue \<Rightarrow> 'a MPMC_Queue" where
  "legacy_store_min m q = q\<lparr>meta := (meta q)\<lparr>min_tail := m\<rparr>\<rparr>"

text \<open>\<open>computeMinTail\<close>: the unrolled scan, then a store of the result.\<close>

definition computeMinTail :: "'a MPMC_Queue \<Rightarrow> u64 \<times> 'a MPMC_Queue" where
  "computeMinTail q =
     (let mini = merge_mins (min_tail_loop (consumers q) 0
                   (INVALID_POS, INVALID_POS, INVALID_POS, INVALID_POS))
      in (mini, legacy_store_min mini q))"

definition recomputeAndStoreMinTail :: "'a MPMC_Queue \<Rightarrow> 'a MPMC_Queue" where
  "recomputeAndStoreMinTail q = (let (mini, q1) = computeMinTail q in legacy_store_min mini q1)"

text \<open>
  \<open>push\<close>: the full test, the claim by compare-exchange, the copy and the publishing store.
  The list says which compare-exchanges fail spuriously.
\<close>

definition legacy_check :: "u64 \<Rightarrow> 'a MPMC_Queue \<Rightarrow> bool \<times> 'a MPMC_Queue" where
  "legacy_check h q =
     (let mt = min_tail (meta q); size = of_nat (length (slots q))
      in if h \<ge> mt + size
         then let (new_min, q1) = computeMinTail q;
                  q2 = (if new_min \<noteq> mt then legacy_store_min new_min q1 else q1);
                  mt1 = (if new_min \<noteq> mt then new_min else mt)
              in (h \<ge> mt1 + size, q2)
         else (False, q))"

definition legacy_publish :: "u64 \<Rightarrow> 'a \<Rightarrow> 'a MPMC_Queue \<Rightarrow> 'a MPMC_Queue" where
  "legacy_publish h x q =
     (let index = legacy_mask q h;
          q1 = q\<lparr>slots := (slots q)[index := (slots q ! index)\<lparr>data := x\<rparr>]\<rparr>
      in q1\<lparr>slots := (slots q1)[index := (slots q1 ! index)\<lparr>sequence := h\<rparr>]\<rparr>)"

fun legacy_push :: "bool list \<Rightarrow> 'a \<Rightarrow> 'a MPMC_Queue \<Rightarrow> bool \<times> 'a MPMC_Queue" where
  "legacy_push [] x q =
     (let h = head (producer q); (full, q1) = legacy_check h q
      in if full then (False, q1)
         else (True, legacy_publish h x (q1\<lparr>producer := (producer q1)\<lparr>head := h + 1\<rparr>\<rparr>)))"
| "legacy_push (spurious # fs) x q =
     (let h = head (producer q); (full, q1) = legacy_check h q
      in if full then (False, q1)
         else if spurious then legacy_push fs x q1
         else (True, legacy_publish h x (q1\<lparr>producer := (producer q1)\<lparr>head := h + 1\<rparr>\<rparr>)))"

definition legacy_pop :: "u32 \<Rightarrow> 'a MPMC_Queue \<Rightarrow> 'a option \<times> 'a MPMC_Queue" where
  "legacy_pop c q =
     (if \<not> active (consumers q ! unat c) then (None, q)
      else let t = tail (consumers q ! unat c); index = legacy_mask q t; seq = sequence (slots q ! index)
           in if seq \<noteq> t then (None, q)
              else (Some (data (slots q ! index)),
                    q\<lparr>consumers := (consumers q)[unat c := (consumers q ! unat c)\<lparr>tail := t + 1\<rparr>]\<rparr>))"

section \<open>The calls refine \<open>MPMCQueue\<close>\<close>

definition core :: "'a MPMC_Queue \<Rightarrow> 'a MPMCQueue" where
  "core q = MPMCQueue.truncate q"

lemma core_fields [simp]:
  "consumers (core q) = consumers q" "producer (core q) = producer q" "meta (core q) = meta q"
  "slots (core q) = slots q"
  by (simp_all add: core_def MPMCQueue.defs)

lemma core_updates [simp]:
  "core (q\<lparr>consumers := cs\<rparr>) = (core q)\<lparr>consumers := cs\<rparr>"
  "core (q\<lparr>producer := p\<rparr>) = (core q)\<lparr>producer := p\<rparr>"
  "core (q\<lparr>meta := m\<rparr>) = (core q)\<lparr>meta := m\<rparr>"
  "core (q\<lparr>slots := ss\<rparr>) = (core q)\<lparr>slots := ss\<rparr>"
  by (simp_all add: core_def MPMCQueue.defs)

lemma core_new: "core (MPMC_Queue_new n d) = MPMCQueue_new n d"
  by (simp add: core_def MPMCQueue.defs MPMC_Queue_new_def MPMCQueue_new_def)

lemma core_reg: "map_prod id core (reg_consumer q) = register_consumer (core q)"
  by (simp add: reg_consumer_def register_consumer_def publish_consumer_def store_defs
      queue_num_consumers_def queue_head_def Let_def)

lemma core_del: "core (del_consumer c q) = unregister_consumer c (core q)"
  by (simp add: del_consumer_def unregister_consumer_def store_defs)

lemma core_pop: "map_prod id core (legacy_pop c q) = pop c (core q)"
  by (simp add: legacy_pop_def pop_def is_active_def queue_tail_def slot_index_def INDEX_MASK_def
      SIZE_def legacy_mask_def store_defs Let_def)

lemma computeMinTail_core:
  "computeMinTail q = (compute_min_tail (core q), legacy_store_min (compute_min_tail (core q)) q)"
  by (simp add: computeMinTail_def compute_min_tail_def Let_def)

lemma core_store_min [simp]: "core (legacy_store_min m q) = store_min_tail m (core q)"
  by (simp add: legacy_store_min_def store_defs)

lemma store_same_min: "store_min_tail (min_tail (meta q)) q = q"
  by (simp add: store_defs)

lemma core_recompute: "core (recomputeAndStoreMinTail q) = recompute_and_store_min_tail (core q)"
  by (simp add: recomputeAndStoreMinTail_def recompute_and_store_min_tail_def computeMinTail_core
      store_min_tail_def Let_def)

lemma core_check: "map_prod id core (legacy_check h q) = full_check h (core q)"
  using store_same_min [of "core q"]
  by (auto simp: legacy_check_def full_check_def computeMinTail_core cached_min_def SIZE_def store_defs
      legacy_store_min_def Let_def)

lemma check_consumers: "consumers (snd (legacy_check h q)) = consumers q"
  by (auto simp: legacy_check_def computeMinTail_core legacy_store_min_def Let_def)

lemma core_publish: "core (legacy_publish h x q) = publish_slot h x (core q)"
  by (simp add: legacy_publish_def publish_slot_def legacy_mask_def slot_index_def INDEX_MASK_def SIZE_def
      store_defs Let_def)

lemma core_push: "map_prod id core (legacy_push fs x q) = push fs x (core q)"
proof (induction fs arbitrary: q)
  case Nil
  obtain full q1 where c: "legacy_check (head (producer q)) q = (full, q1)" by fastforce
  then have "full_check (queue_head (core q)) (core q) = (full, core q1)"
    using core_check [of "head (producer q)" q] by (simp add: queue_head_def)
  then show ?case
    using c by (simp add: core_publish queue_head_def store_head_def Let_def)
next
  case (Cons spurious fs)
  obtain full q1 where c: "legacy_check (head (producer q)) q = (full, q1)" by fastforce
  then have f: "full_check (queue_head (core q)) (core q) = (full, core q1)"
    using core_check [of "head (producer q)" q] by (simp add: queue_head_def)
  show ?case
    using c f Cons.IH [of q1] by (simp add: core_publish queue_head_def store_head_def Let_def id_def)
qed

section \<open>The contract\<close>

text \<open>A queue whose calls map to those of \<open>MPMCQueue\<close> under \<open>core\<close> inherits its contract.\<close>

lemma legacy_contract:
  assumes push: "\<And>b q x. queue_inv b (core q) \<Longrightarrow> map_prod id core (lpush x q) = push [] x (core q)"
    and pop: "\<And>c q. map_prod id core (lpop c q) = pop c (core q)"
    and dead: "\<And>c q. \<not> live (core q) c \<Longrightarrow> unat c < 32 \<Longrightarrow> length (consumers q) = 32 \<Longrightarrow> lpop c q = (None, q)"
  shows "broadcast_queue (\<lambda>b q. queue_inv b (core q)) lpush lpop (\<lambda>q. live (core q))
    (\<lambda>q. pending (core q)) (\<lambda>q. ring_capacity (core q))"
proof
  fix b :: nat and q q' :: "'a MPMC_Queue" and x :: 'a and c :: u32 and r :: "'a option"
  show "queue_inv (Suc b) (core q) \<Longrightarrow> queue_inv b (core q)" by (rule mpmc.inv_mono)
  assume i: "queue_inv b (core q)"
  have p: "lpush x q = (ok, q') \<Longrightarrow> push [] x (core q) = (ok, core q')" for ok q'
    using push [OF i, of x] by (metis id_apply map_prod_simp)
  show "lpush x q = (False, q') \<Longrightarrow> queue_inv b (core q') \<and> live (core q') = live (core q)
      \<and> ring_capacity (core q') = ring_capacity (core q) \<and> pending (core q') = pending (core q)"
    using mpmc.push_false [OF i] p by blast
  show "live (core q) c \<Longrightarrow> fst (lpush x q)
      \<longleftrightarrow> (\<forall>d. live (core q) d \<longrightarrow> length (pending (core q) d) < ring_capacity (core q))"
    using mpmc.push_room [OF i, of c x] p [of "fst (lpush x q)" "snd (lpush x q)"]
    by (simp del: push.simps)
  show "\<lbrakk>live (core q) c; lpop c q = (r, q')\<rbrakk> \<Longrightarrow>
      queue_inv b (core q') \<and> live (core q') = live (core q)
      \<and> ring_capacity (core q') = ring_capacity (core q)
      \<and> r = (case pending (core q) c of [] \<Rightarrow> None | x # _ \<Rightarrow> Some x)
      \<and> pending (core q') c = tl (pending (core q) c)
      \<and> (\<forall>d. d \<noteq> c \<longrightarrow> pending (core q') d = pending (core q) d)"
    using mpmc.pop_live [OF i, of c r "core q'"] pop [of c q] by (metis id_apply map_prod_simp)
  show "\<lbrakk>\<not> live (core q) c; unat c < 32\<rbrakk> \<Longrightarrow> lpop c q = (None, q)"
    using dead queue_invD(2) [OF i] by simp
  show "live (core q) c \<Longrightarrow> length (pending (core q) c) \<le> ring_capacity (core q)"
    using mpmc.backlog_bound [OF i] .
next
  fix b :: nat and q q' :: "'a MPMC_Queue" and x :: 'a
  assume i: "queue_inv (Suc b) (core q)" and p: "lpush x q = (True, q')"
  have "push [] x (core q) = (True, core q')"
    using push [OF i, of x] p by (metis id_apply map_prod_simp)
  then show "queue_inv b (core q') \<and> live (core q') = live (core q)
      \<and> ring_capacity (core q') = ring_capacity (core q)
      \<and> (\<forall>c. live (core q) c \<longrightarrow> pending (core q') c = pending (core q) c @ [x])"
    using mpmc.push_true [OF i] by blast
qed

lemma legacy_pop_dead:
  "\<not> live (core q) c \<Longrightarrow> unat c < 32 \<Longrightarrow> length (consumers q) = 32 \<Longrightarrow> legacy_pop c q = (None, q)"
  by (simp add: legacy_pop_def live_def is_active_def)

interpretation legacy: broadcast_queue "\<lambda>b q. queue_inv b (core q)" "legacy_push []" legacy_pop
  "\<lambda>q. live (core q)" "\<lambda>q. pending (core q)" "\<lambda>q. ring_capacity (core q)"
  by (rule legacy_contract) (simp_all only: core_push core_pop, rule legacy_pop_dead)

section \<open>Properties\<close>

text \<open>On market data, the 96-byte copy moves the object: with or without AVX2 it succeeds on
  any 96-byte destination, stays inside it, and what is read back is the source object, all
  fields included.\<close>

lemma market_data_copied:
  assumes "wf_market m" and "length dst = 96"
  shows "map_option market_of_image (fast_copy_96 avx2 dst (market_image m)) = Some m"
  using assms by (simp add: fast_copy_96_memcpy length_market_image market_roundtrip overwrite_def)

text \<open>C38: The queue of mpmc.hpp computes what \<open>MPMCQueue\<close> computes. For every pattern of
  spurious compare-exchange failures, \<open>push\<close> returns the same result and leaves the same
  shared fields as \<open>MPMCQueue::push\<close>; so do the constructor, \<open>reg_consumer\<close>,
  \<open>del_consumer\<close>, \<open>pop\<close>, the recomputation of the minimum, and the readers of the head and
  of a tail. \<open>computeMinTail\<close> returns the same minimum, but stores it as well, so it
  leaves what the recomputation of \<open>MPMCQueue\<close> leaves.\<close>

theorem legacy_calls_refine:
  "map_prod id core (legacy_push fs x q) = push fs x (core q)
    \<and> map_prod id core (legacy_pop c q) = pop c (core q)
    \<and> map_prod id core (reg_consumer q) = register_consumer (core q)
    \<and> core (del_consumer c q) = unregister_consumer c (core q)
    \<and> core (recomputeAndStoreMinTail q) = recompute_and_store_min_tail (core q)
    \<and> map_prod id core (computeMinTail q)
      = (compute_min_tail (core q), recompute_and_store_min_tail (core q))
    \<and> legacy_head q = queue_head (core q) \<and> legacy_tail q c = queue_tail (core q) c
    \<and> core (MPMC_Queue_new n d) = MPMCQueue_new n d"
  by (simp add: core_push core_pop core_reg core_del core_new core_recompute computeMinTail_core
      recompute_and_store_min_tail_def legacy_head_def legacy_tail_def queue_head_def queue_tail_def del: push.simps)

text \<open>Conservation for the queue of mpmc.hpp: over any run of pushes and pops that starts in a
  well-formed ring, an active consumer's backlog followed by the accepted items is what it
  received followed by what it still has pending.\<close>

lemma legacy_conserves:
  assumes "queue_inv (length ops) (core q)" and "live (core q) c"
    and "\<forall>d. Pop d \<in> set ops \<longrightarrow> unat d < 32"
    and "run_ops (legacy_push []) legacy_pop ops q = (acc, rcv, q')"
  shows "pending (core q) c @ acc = received_by c rcv @ pending (core q') c"
  using legacy.run_conserves [OF assms] by blast

definition legacy_demo :: "nat MPMC_Queue" where
  "legacy_demo = snd (reg_consumer (MPMC_Queue_new 16 0))"

lemma legacy_demo_core: "core legacy_demo = register_all 1 (MPMCQueue_new 16 0)"
  using core_reg [of "MPMC_Queue_new 16 0"] by (metis core_new legacy_demo_def One_nat_def
    register_all.simps snd_map_prod)

lemma legacy_demo_ok:
  "queue_inv 3 (core legacy_demo)" "live (core legacy_demo) 0" "pending (core legacy_demo) 0 = []"
  using new_queue_registered [of 16 3 1 0 "0 :: nat"]
  unfolding legacy_demo_core by (simp_all add: valid_size_def del: register_all.simps)

end
