(* ===== verification/Original_Queue.thy ===== *)
theory Original_Queue
  imports Legacy_Queue
begin

text \<open>
  The first ring buffer, \<open>MPMC_Queue\<close> of mpmc_queue.hpp, on the state of \<open>Legacy_Queue\<close>.
  Its \<open>computeMinTail\<close> has one accumulator and skips an inactive consumer with
  \<open>continue\<close>, \<open>reg_consumer\<close> reads the stored tail back, and items are copied with
  \<open>memcpy\<close>. On well-formed queues its calls are those of mpmc.hpp, and it implements the
  contract. The counter \<open>spin\<close> of \<open>push\<close> is never read and is left out.
\<close>

section \<open>Operations\<close>

definition v1_new :: "nat \<Rightarrow> 'a \<Rightarrow> 'a MPMC_Queue" where
  "v1_new n d =
     \<lparr>consumers = replicate (unat MAX_CONSUMERS) \<lparr>tail = 0, active = False\<rparr>,
      producer = \<lparr>head = 0\<rparr>, meta = \<lparr>num_consumers = 0, min_tail = 0\<rparr>,
      slots = replicate n \<lparr>sequence = INVALID_POS, data = d\<rparr>, purge_lock = False\<rparr>"

definition v1_reg_consumer :: "'a MPMC_Queue \<Rightarrow> (queue_error + u32) \<times> 'a MPMC_Queue" where
  "v1_reg_consumer q =
     (let c = num_consumers (meta q);
          q1 = q\<lparr>meta := (meta q)\<lparr>num_consumers := num_consumers (meta q) + 1\<rparr>\<rparr>
      in if c \<ge> MAX_CONSUMERS then (Inl Too_many_consumers, q1)
         else let head' = head (producer q1);
                  q2 = q1\<lparr>consumers := (consumers q1)[unat c := (consumers q1 ! unat c)\<lparr>tail := head'\<rparr>]\<rparr>;
                  q3 = q2\<lparr>consumers := (consumers q2)[unat c := (consumers q2 ! unat c)\<lparr>active := True\<rparr>]\<rparr>;
                  tail' = tail (consumers q3 ! unat c)
              in (Inr c, q3))"

function scan_loop :: "ConsumerInfo list \<Rightarrow> nat \<Rightarrow> u64 \<Rightarrow> u64" where
  "scan_loop cs i mini =
     (if i < unat MAX_CONSUMERS
      then if \<not> active (cs ! i) then scan_loop cs (i + 1) mini
           else scan_loop cs (i + 1) (min mini (tail (cs ! i)))
      else mini)"
  by pat_completeness auto
termination
  by (relation "measure (\<lambda>(cs, i, m). unat MAX_CONSUMERS - i)") auto

declare scan_loop.simps [simp del]

definition v1_computeMinTail :: "'a MPMC_Queue \<Rightarrow> u64 \<times> 'a MPMC_Queue" where
  "v1_computeMinTail q =
     (let mini = scan_loop (consumers q) 0 INVALID_POS;
          mini = (if mini = INVALID_POS then 0 else mini)
      in (mini, q\<lparr>meta := (meta q)\<lparr>min_tail := mini\<rparr>\<rparr>))"

definition v1_recomputeAndStoreMinTail :: "'a MPMC_Queue \<Rightarrow> 'a MPMC_Queue" where
  "v1_recomputeAndStoreMinTail q =
     (let (mini, q1) = v1_computeMinTail q in q1\<lparr>meta := (meta q1)\<lparr>min_tail := mini\<rparr>\<rparr>)"

text \<open>
  One turn of the claim loop: \<open>None\<close> to try again, \<open>Some None\<close> for \<open>return false\<close>, and
  the claimed position when the compare-exchange succeeds.
\<close>

definition v1_push_turn :: "bool \<Rightarrow> 'a MPMC_Queue \<Rightarrow> u64 option option \<times> 'a MPMC_Queue" where
  "v1_push_turn spurious q =
     (let h = head (producer q); mt = min_tail (meta q); size = of_nat (length (slots q));
          (full, q2) =
            (if h \<ge> mt + size
             then let (new_min, q1) = v1_computeMinTail q
                  in if new_min \<noteq> mt
                     then (h \<ge> new_min + size, q1\<lparr>meta := (meta q1)\<lparr>min_tail := new_min\<rparr>\<rparr>)
                     else (h \<ge> mt + size, q1)
             else (False, q))
      in if full then (Some None, q2)
         else if spurious then (None, q2)
         else (Some (Some h), q2\<lparr>producer := (producer q2)\<lparr>head := h + 1\<rparr>\<rparr>))"

definition v1_publish :: "u64 \<Rightarrow> 'a \<Rightarrow> 'a MPMC_Queue \<Rightarrow> 'a MPMC_Queue" where
  "v1_publish h x q =
     (let index = unat (h AND (of_nat (length (slots q)) - 1));
          q1 = q\<lparr>slots := (slots q)[index := (slots q ! index)\<lparr>data := x\<rparr>]\<rparr>
      in q1\<lparr>slots := (slots q1)[index := (slots q1 ! index)\<lparr>sequence := h\<rparr>]\<rparr>)"

fun v1_push :: "bool list \<Rightarrow> 'a \<Rightarrow> 'a MPMC_Queue \<Rightarrow> bool \<times> 'a MPMC_Queue" where
  "v1_push fs x q =
     (case v1_push_turn (case fs of [] \<Rightarrow> False | f # _ \<Rightarrow> f) q of
        (Some None, q1) \<Rightarrow> (False, q1)
      | (Some (Some h), q1) \<Rightarrow> (True, v1_publish h x q1)
      | (None, q1) \<Rightarrow> (case fs of [] \<Rightarrow> (False, q1) | _ # fs' \<Rightarrow> v1_push fs' x q1))"

definition v1_pop :: "u32 \<Rightarrow> 'a MPMC_Queue \<Rightarrow> 'a option \<times> 'a MPMC_Queue" where
  "v1_pop c q =
     (if \<not> active (consumers q ! unat c) then (None, q)
      else let t = tail (consumers q ! unat c);
               index = unat (t AND (of_nat (length (slots q)) - 1));
               seq = sequence (slots q ! index)
           in if seq \<noteq> t then (None, q)
              else let item = data (slots q ! index)
                   in (Some item,
                       q\<lparr>consumers := (consumers q)[unat c := (consumers q ! unat c)\<lparr>tail := t + 1\<rparr>]\<rparr>))"

definition v1_del_consumer :: "u32 \<Rightarrow> 'a MPMC_Queue \<Rightarrow> 'a MPMC_Queue" where
  "v1_del_consumer c q =
     q\<lparr>consumers := (consumers q)[unat c := (consumers q ! unat c)\<lparr>active := False\<rparr>]\<rparr>"

section \<open>The calls are those of mpmc.hpp\<close>

lemma scan_loop_plain:
  assumes "length cs = 32" and "i \<le> 32"
  shows "scan_loop cs i m = plain_min (drop i cs) m"
  using assms
proof (induction cs i m rule: scan_loop.induct)
  case (1 cs i m)
  show ?case
  proof (cases "i < 32")
    case True
    then have "drop i cs = cs ! i # drop (i + 1) cs" using 1(3) by (simp add: Cons_nth_drop_Suc)
    then show ?thesis using 1 True by (auto simp: scan_loop.simps [of cs i] acc_min_def)
  next
    case False
    then have "i = 32" using 1(4) by simp
    then show ?thesis using 1(3) by (simp add: scan_loop.simps [of cs 32])
  qed
qed

lemma v1_scan:
  assumes "length (consumers q) = 32"
  shows "v1_computeMinTail q = computeMinTail q"
  using scan_loop_plain [OF assms, of 0 INVALID_POS] compute_min_tail_plain [of "core q"] assms
  by (simp add: v1_computeMinTail_def computeMinTail_core legacy_store_min_def Let_def)

lemma v1_turn:
  assumes "length (consumers q) = 32"
  shows "v1_push_turn spurious q =
    (case legacy_check (head (producer q)) q of (full, q1) \<Rightarrow>
       if full then (Some None, q1) else if spurious then (None, q1)
       else (Some (Some (head (producer q))), q1\<lparr>producer := (producer q1)\<lparr>head := head (producer q) + 1\<rparr>\<rparr>))"
  by (simp add: v1_push_turn_def legacy_check_def legacy_store_min_def v1_scan [OF assms] Let_def
      split: prod.splits)

lemma v1_publish_same: "v1_publish = legacy_publish"
  by (simp add: v1_publish_def legacy_publish_def legacy_mask_def fun_eq_iff)

lemma v1_push_same:
  assumes "length (consumers q) = 32"
  shows "v1_push fs x q = legacy_push fs x q"
  using assms
proof (induction fs arbitrary: q)
  case Nil
  then show ?case by (simp add: v1_turn v1_publish_same Let_def split: prod.splits)
next
  case (Cons f fs)
  obtain full q1 where c: "legacy_check (head (producer q)) q = (full, q1)" by fastforce
  have "consumers q1 = consumers q" using check_consumers [of "head (producer q)" q] c by simp
  then have "v1_push fs x q1 = legacy_push fs x q1" using Cons by simp
  then show ?case
    using c by (simp add: v1_turn [OF Cons.prems] v1_publish_same Let_def del: v1_push.simps)
      (simp add: v1_push.simps [of "f # fs"] v1_turn [OF Cons.prems] v1_publish_same)
qed

lemma v1_pop_same: "v1_pop = legacy_pop"
  by (simp add: v1_pop_def legacy_pop_def legacy_mask_def Let_def fun_eq_iff)

lemma v1_others_same:
  "v1_new = MPMC_Queue_new" "v1_reg_consumer = reg_consumer" "v1_del_consumer = del_consumer"
  by (simp_all add: v1_new_def MPMC_Queue_new_def v1_reg_consumer_def reg_consumer_def
      v1_del_consumer_def del_consumer_def Let_def fun_eq_iff)

lemma v1_recompute_same:
  "length (consumers q) = 32 \<Longrightarrow> v1_recomputeAndStoreMinTail q = recomputeAndStoreMinTail q"
  by (simp add: v1_recomputeAndStoreMinTail_def recomputeAndStoreMinTail_def v1_scan legacy_store_min_def)

interpretation original: broadcast_queue "\<lambda>b q. queue_inv b (core q)" "v1_push []" v1_pop
  "\<lambda>q. live (core q)" "\<lambda>q. pending (core q)" "\<lambda>q. ring_capacity (core q)"
proof (rule legacy_contract)
  fix b and q :: "'a MPMC_Queue" and x :: 'a
  assume "queue_inv b (core q)"
  then have "length (consumers q) = 32" using queue_invD(2) by fastforce
  then show "map_prod id core (v1_push [] x q) = push [] x (core q)"
    by (simp only: v1_push_same core_push)
qed (simp_all only: v1_pop_same core_pop, rule legacy_pop_dead)

section \<open>Properties\<close>

text \<open>C39: The queue of mpmc_queue.hpp and the one of mpmc.hpp are equivalent. On a queue with its 32
  consumer records, the scan with one accumulator and \<open>continue\<close> returns and stores what the
  unrolled scan does, and every call returns the same result and leaves the same queue, for
  every pattern of spurious compare-exchange failures.\<close>

theorem original_queue_equivalent:
  assumes "length (consumers q) = 32"
  shows "v1_computeMinTail q = computeMinTail q
    \<and> v1_push fs x q = legacy_push fs x q
    \<and> v1_pop c q = legacy_pop c q
    \<and> v1_reg_consumer q = reg_consumer q
    \<and> v1_del_consumer c q = del_consumer c q
    \<and> v1_recomputeAndStoreMinTail q = recomputeAndStoreMinTail q
    \<and> v1_new n d = MPMC_Queue_new n d"
  using v1_scan [OF assms] v1_push_same [OF assms] v1_recompute_same [OF assms]
  by (simp add: v1_pop_same v1_others_same)

lemma original_queue_equivalent_witness:
  "v1_push [True] 5 legacy_demo = legacy_push [True] 5 legacy_demo"
proof -
  have "length (consumers legacy_demo) = 32"
    using legacy_demo_ok(1) queue_invD(2) [of 3 "core legacy_demo"] by simp
  from original_queue_equivalent [OF this, of "[True]" 5, THEN conjunct2, THEN conjunct1]
  show ?thesis .
qed

text \<open>Conservation for the queue of mpmc_queue.hpp: over any run of pushes and pops that starts
  in a well-formed ring, an active consumer's backlog followed by the accepted items is what it
  received followed by what it still has pending.\<close>

lemma original_conserves:
  assumes "queue_inv (length ops) (core q)" and "live (core q) c"
    and "\<forall>d. Pop d \<in> set ops \<longrightarrow> unat d < 32"
    and "run_ops (v1_push []) v1_pop ops q = (acc, rcv, q')"
  shows "pending (core q) c @ acc = received_by c rcv @ pending (core q') c"
  using original.run_conserves [OF assms] by blast

end
