(* ===== verification/Shm_Queue.thy ===== *)
theory Shm_Queue
  imports Logger_Prelude
begin

text \<open>
  \<open>ShmQueueManager\<close> of mpmc.hpp (the same class in mpmc_2.hpp and mpmc_queue.hpp): it places a
  queue in a POSIX shared memory object, as the creator or by attaching to an existing one.
  The system calls and the in-place constructor of the queue are a record of functions on an
  abstract world. What the theorems need of them is \<open>shm_laws\<close>: which descriptors are open,
  which addresses are mapped and which object names exist after each call.
\<close>

section \<open>The system calls\<close>

record 'w shm_os =
  os_shm_unlink :: "string \<Rightarrow> 'w \<Rightarrow> 'w"
  os_shm_open :: "string \<Rightarrow> bool \<Rightarrow> 'w \<Rightarrow> int \<times> 'w"
  os_ftruncate :: "int \<Rightarrow> nat \<Rightarrow> 'w \<Rightarrow> int \<times> 'w"
  os_usleep :: "nat \<Rightarrow> 'w \<Rightarrow> 'w"
  os_mmap :: "nat \<Rightarrow> int \<Rightarrow> 'w \<Rightarrow> u64 option \<times> 'w"
  os_mlock :: "u64 \<Rightarrow> nat \<Rightarrow> 'w \<Rightarrow> int \<times> 'w"
  os_munlock :: "u64 \<Rightarrow> nat \<Rightarrow> 'w \<Rightarrow> 'w"
  os_munmap :: "u64 \<Rightarrow> nat \<Rightarrow> 'w \<Rightarrow> 'w"
  os_close :: "int \<Rightarrow> 'w \<Rightarrow> 'w"
  queue_ctor :: "u64 \<Rightarrow> 'w \<Rightarrow> 'w"

text \<open>
  The flag of \<open>os_shm_open\<close> is \<open>O_CREAT\<close>, \<open>os_mmap\<close> is \<open>None\<close> for \<open>MAP_FAILED\<close>, and
  \<open>queue_ctor\<close> is \<open>new (queue_) QueueType()\<close>. Messages to the error stream are left out.
\<close>

section \<open>The manager\<close>

record ShmQueueManager =
  shm_name :: string
  shm_fd :: int
  shm_queue :: "u64 option"
  is_creator :: bool

datatype shm_error = Shm_open_failed | Ftruncate_failed | Mmap_failed

text \<open>The attach loop: the remaining attempts, then the last descriptor.\<close>

fun attach_loop :: "'w shm_os \<Rightarrow> string \<Rightarrow> nat \<Rightarrow> int \<Rightarrow> 'w \<Rightarrow> int \<times> 'w" where
  "attach_loop os name 0 d w = (d, w)"
| "attach_loop os name (Suc k) d w =
     (let (d1, w1) = os_shm_open os name False w
      in if d1 \<ge> 0 then (d1, w1) else attach_loop os name k d1 (os_usleep os 10000 w1))"

definition shm_obtain :: "'w shm_os \<Rightarrow> nat \<Rightarrow> string \<Rightarrow> bool \<Rightarrow> 'w \<Rightarrow> (shm_error + int) \<times> 'w" where
  "shm_obtain os sz name create w =
     (if create
      then let w1 = os_shm_unlink os name w; (d, w2) = os_shm_open os name True w1
           in if d < 0 then (Inl Shm_open_failed, w2)
              else let (r, w3) = os_ftruncate os d sz w2
                   in if r < 0 then (Inl Ftruncate_failed, os_close os d w3) else (Inr d, w3)
      else let (d, w1) = attach_loop os name 50 (-1) w
           in if d < 0 then (Inl Shm_open_failed, w1) else (Inr d, w1))"

definition ShmQueueManager_new ::
  "'w shm_os \<Rightarrow> nat \<Rightarrow> string \<Rightarrow> bool \<Rightarrow> 'w \<Rightarrow> (shm_error + ShmQueueManager) \<times> 'w" where
  "ShmQueueManager_new os sz name create w =
     (case shm_obtain os sz name create w of
        (Inl e, w1) \<Rightarrow> (Inl e, w1)
      | (Inr d, w1) \<Rightarrow>
          (case os_mmap os sz d w1 of
             (None, w2) \<Rightarrow> (Inl Mmap_failed, os_close os d w2)
           | (Some q, w2) \<Rightarrow>
               let (r, w3) = os_mlock os q sz w2;
                   w4 = (if create then queue_ctor os q w3 else w3)
               in (Inr \<lparr>shm_name = name, shm_fd = d, shm_queue = Some q, is_creator = create\<rparr>, w4)))"

definition ShmQueueManager_delete :: "'w shm_os \<Rightarrow> nat \<Rightarrow> ShmQueueManager \<Rightarrow> 'w \<Rightarrow> 'w" where
  "ShmQueueManager_delete os sz m w =
     (let w1 = (case shm_queue m of
            Some q \<Rightarrow> os_munmap os q sz (os_munlock os q sz w) | None \<Rightarrow> w);
          w2 = (if shm_fd m \<ge> 0 then os_close os (shm_fd m) w1 else w1)
      in if is_creator m then os_shm_unlink os (shm_name m) w2 else w2)"

definition shm_get :: "ShmQueueManager \<Rightarrow> u64 option" where
  "shm_get m = shm_queue m"

section \<open>The laws of the system calls\<close>

text \<open>
  \<open>res w\<close> is what the process and the system hold: open descriptors, mapped addresses, and
  the names of shared objects. Each call changes them as POSIX documents, and a failing call
  leaves them unchanged.
\<close>

type_synonym holdings = "int set \<times> u64 set \<times> string set"

definition shm_laws :: "'w shm_os \<Rightarrow> ('w \<Rightarrow> holdings) \<Rightarrow> bool" where
  "shm_laws os res \<longleftrightarrow>
     (\<forall>w name fds maps names. res w = (fds, maps, names) \<longrightarrow>
        res (os_shm_unlink os name w) = (fds, maps, names - {name})
      \<and> (\<forall>create. case os_shm_open os name create w of (d, w') \<Rightarrow>
           (if d < 0 then res w' = res w
            else d \<notin> fds \<and> res w' = (insert d fds, maps, if create then insert name names else names)))
      \<and> (\<forall>n d. res (snd (os_ftruncate os d n w)) = res w)
      \<and> (\<forall>n. res (os_usleep os n w) = res w)
      \<and> (\<forall>n d. case os_mmap os n d w of (None, w') \<Rightarrow> res w' = res w
           | (Some a, w') \<Rightarrow> a \<notin> maps \<and> res w' = (fds, insert a maps, names))
      \<and> (\<forall>a n. res (snd (os_mlock os a n w)) = res w \<and> res (os_munlock os a n w) = res w
           \<and> res (os_munmap os a n w) = (fds, maps - {a}, names) \<and> res (queue_ctor os a w) = res w)
      \<and> (\<forall>d. res (os_close os d w) = (fds - {d}, maps, names)))"

lemma shm_lawsD:
  assumes "shm_laws os res" and "res w = (fds, maps, names)"
  shows "res (os_shm_unlink os name w) = (fds, maps, names - {name})"
    and "res (snd (os_ftruncate os d n w)) = res w" and "res (os_usleep os n w) = res w"
    and "res (snd (os_mlock os a n w)) = res w" and "res (os_munlock os a n w) = res w"
    and "res (os_munmap os a n w) = (fds, maps - {a}, names)" and "res (queue_ctor os a w) = res w"
    and "res (os_close os d w) = (fds - {d}, maps, names)"
    and "os_shm_open os name create w = (d', w') \<Longrightarrow> d' < 0 \<Longrightarrow> res w' = res w"
    and "os_shm_open os name create w = (d', w') \<Longrightarrow> \<not> d' < 0 \<Longrightarrow>
      d' \<notin> fds \<and> res w' = (insert d' fds, maps, if create then insert name names else names)"
    and "os_mmap os n d w = (None, w') \<Longrightarrow> res w' = res w"
    and "os_mmap os n d w = (Some a, w') \<Longrightarrow> a \<notin> maps \<and> res w' = (fds, insert a maps, names)"
proof -
  note law = assms(1) [unfolded shm_laws_def, rule_format, OF assms(2)]
  note opn = law [THEN conjunct2, THEN conjunct1, rule_format, where name = name and create = create]
  note mapped = law [THEN conjunct2, THEN conjunct2, THEN conjunct2, THEN conjunct2,
    THEN conjunct1, rule_format, where d = d and n = n]
  show "res (os_shm_unlink os name w) = (fds, maps, names - {name})"
    "res (snd (os_ftruncate os d n w)) = res w" "res (os_usleep os n w) = res w"
    "res (snd (os_mlock os a n w)) = res w" "res (os_munlock os a n w) = res w"
    "res (os_munmap os a n w) = (fds, maps - {a}, names)" "res (queue_ctor os a w) = res w"
    "res (os_close os d w) = (fds - {d}, maps, names)"
    using law by simp_all
  show "os_shm_open os name create w = (d', w') \<Longrightarrow> d' < 0 \<Longrightarrow> res w' = res w"
    "os_shm_open os name create w = (d', w') \<Longrightarrow> \<not> d' < 0 \<Longrightarrow>
      d' \<notin> fds \<and> res w' = (insert d' fds, maps, if create then insert name names else names)"
    using opn by simp_all
  show "os_mmap os n d w = (None, w') \<Longrightarrow> res w' = res w"
    "os_mmap os n d w = (Some a, w') \<Longrightarrow> a \<notin> maps \<and> res w' = (fds, insert a maps, names)"
    using mapped by simp_all
qed

section \<open>Lemmas\<close>

text \<open>The names after the object was obtained, or after failing to obtain it.\<close>

definition names_after :: "bool \<Rightarrow> bool \<Rightarrow> string \<Rightarrow> string set \<Rightarrow> string set" where
  "names_after create opened name names =
     (if create then if opened then insert name names else names - {name} else names)"

lemma attach_loop_result:
  assumes "shm_laws os res" and "attach_loop os name k d w = (d', w')" and "d < 0"
    and "res w = (fds, maps, names)"
  shows "if d' < 0 then res w' = res w else d' \<notin> fds \<and> res w' = (insert d' fds, maps, names)"
  using assms(2-4)
proof (induction k arbitrary: d w)
  case 0
  then show ?case by simp
next
  case (Suc k)
  obtain d1 w1 where o: "os_shm_open os name False w = (d1, w1)" by fastforce
  show ?case
  proof (cases "d1 < 0")
    case True
    then have "res w1 = res w" using shm_lawsD(9) [OF assms(1) Suc.prems(3) o] by simp
    then have "res (os_usleep os 10000 w1) = res w"
      using shm_lawsD(3) [OF assms(1), of w1] Suc.prems(3) by simp
    then show ?thesis using Suc.IH [of d1 "os_usleep os 10000 w1"] Suc.prems True o by simp
  next
    case False
    then show ?thesis using shm_lawsD(10) [OF assms(1) Suc.prems(3) o] Suc.prems(1) o by auto
  qed
qed
lemma shm_obtain_result:
  assumes "shm_laws os res" and "res w = (fds, maps, names)"
    and "shm_obtain os sz name create w = (r, w1)"
  shows "case r of
      Inl e \<Rightarrow> e \<noteq> Mmap_failed \<and> res w1 = (fds, maps, names_after create (e = Ftruncate_failed) name names)
    | Inr d \<Rightarrow> 0 \<le> d \<and> d \<notin> fds \<and> res w1 = (insert d fds, maps, names_after create True name names)"
proof (cases create)
  case True
  obtain d w2 where o: "os_shm_open os name True (os_shm_unlink os name w) = (d, w2)" by fastforce
  obtain t w3 where f: "os_ftruncate os d sz w2 = (t, w3)" by fastforce
  have u: "res (os_shm_unlink os name w) = (fds, maps, names - {name})"
    by (rule shm_lawsD(1) [OF assms(1,2)])
  show ?thesis
  proof (cases "d < 0")
    case True
    then show ?thesis
      using shm_lawsD(9) [OF assms(1) u o] u assms(3) \<open>create\<close> o
      by (auto simp: shm_obtain_def names_after_def)
  next
    case False
    have o2: "d \<notin> fds" "res w2 = (insert d fds, maps, insert name names)"
      using shm_lawsD(10) [OF assms(1) u o False] by simp_all
    have "res w3 = (insert d fds, maps, insert name names)"
      using shm_lawsD(2) [OF assms(1) o2(2), of d sz] f o2(2) by simp
    moreover from this have "res (os_close os d w3) = (fds, maps, insert name names)"
      using shm_lawsD(8) [OF assms(1), of w3] o2(1) by simp
    ultimately show ?thesis
      using assms(3) \<open>create\<close> o f False o2(1)
      by (auto simp: shm_obtain_def names_after_def split: if_splits)
  qed
next
  case False
  obtain d w2 where a: "attach_loop os name 50 (-1) w = (d, w2)" by fastforce
  show ?thesis
    using attach_loop_result [OF assms(1) a _ assms(2)] assms(2,3) a False
    by (auto simp: shm_obtain_def names_after_def split: if_splits)
qed

lemma shm_delete_result:
  assumes "shm_laws os res" and "res w = (insert d fds, insert q maps, names)"
    and "0 \<le> d" and "d \<notin> fds" and "q \<notin> maps"
  shows "res (ShmQueueManager_delete os sz
      \<lparr>shm_name = name, shm_fd = d, shm_queue = Some q, is_creator = create\<rparr> w)
    = (fds, maps, if create then names - {name} else names)"
proof -
  have "res (os_munlock os q sz w) = (insert d fds, insert q maps, names)"
    using shm_lawsD(5) [OF assms(1,2)] assms(2) by simp
  then have "res (os_munmap os q sz (os_munlock os q sz w)) = (insert d fds, maps, names)"
    using shm_lawsD(6) [OF assms(1)] assms(5) by simp
  then have "res (os_close os d (os_munmap os q sz (os_munlock os q sz w))) = (fds, maps, names)"
    using shm_lawsD(8) [OF assms(1)] assms(4) by simp
  then show ?thesis
    using shm_lawsD(1) [OF assms(1)] assms(3) by (simp add: ShmQueueManager_delete_def)
qed

section \<open>Properties\<close>

text \<open>C40: Resources of the shared-memory manager. A construction that throws leaves the open
  descriptors and the mappings as they were; a construction followed by the destructor does
  too, and the creator's object name is gone. A creator that fails after it has created the
  object, when sizing or mapping it, leaves the object's name behind.\<close>

theorem shm_manager_resources:
  assumes "shm_laws os res" and "res w = (fds, maps, names)"
    and "ShmQueueManager_new os sz name create w = (r, w1)"
  shows "case r of
      Inl e \<Rightarrow> res w1 = (fds, maps, names_after create (e \<noteq> Shm_open_failed) name names)
    | Inr m \<Rightarrow> res (ShmQueueManager_delete os sz m w1) = (fds, maps, names_after create False name names)"
proof -
  obtain rd w2 where o: "shm_obtain os sz name create w = (rd, w2)" by fastforce
  note s = shm_obtain_result [OF assms(1,2) o]
  show ?thesis
  proof (cases rd)
    case (Inl e)
    then show ?thesis using s assms(3) o by (cases e) (auto simp: ShmQueueManager_new_def)
  next
    case (Inr d)
    then have d: "0 \<le> d" "d \<notin> fds"
      and r2: "res w2 = (insert d fds, maps, names_after create True name names)" using s by simp_all
    obtain a w3 where m: "os_mmap os sz d w2 = (a, w3)" by fastforce
    show ?thesis
    proof (cases a)
      case None
      then have "res w3 = res w2" using shm_lawsD(11) [OF assms(1) r2] m by simp
      then have "res (os_close os d w3) = (fds, maps, names_after create True name names)"
        using shm_lawsD(8) [OF assms(1), of w3] r2 d(2) by simp
      then show ?thesis using assms(3) o m Inr None by (auto simp: ShmQueueManager_new_def)
    next
      case (Some q)
      have r3: "q \<notin> maps" "res w3 = (insert d fds, insert q maps, names_after create True name names)"
        using shm_lawsD(12) [OF assms(1) r2] m Some by auto
      obtain w4 where w1: "w1 = (if create then queue_ctor os q w4 else w4)" "w4 = snd (os_mlock os q sz w3)"
        and r: "r = Inr \<lparr>shm_name = name, shm_fd = d, shm_queue = Some q, is_creator = create\<rparr>"
        using assms(3) o m Inr Some by (auto simp: ShmQueueManager_new_def split: prod.splits)
      have "res w4 = res w3" using shm_lawsD(4) [OF assms(1) r3(2)] w1(2) by simp
      then have "res w1 = (insert d fds, insert q maps, names_after create True name names)"
        using shm_lawsD(7) [OF assms(1), of w4] r3(2) w1(1) by simp
      then show ?thesis
        using shm_delete_result [OF assms(1) _ d r3(1)] r by (auto simp: names_after_def)
    qed
  qed
qed

text \<open>A system with one descriptor number in use at a time, where mapping always fails.\<close>

definition sim_shm :: "holdings shm_os" where
  "sim_shm = \<lparr>os_shm_unlink = (\<lambda>n (fds, maps, names). (fds, maps, names - {n})),
     os_shm_open = (\<lambda>n create (fds, maps, names). if 3 \<in> fds \<or> (\<not> create \<and> n \<notin> names)
       then (-1, (fds, maps, names)) else (3, (insert 3 fds, maps, if create then insert n names else names))),
     os_ftruncate = (\<lambda>d n w. (0, w)), os_usleep = (\<lambda>n w. w), os_mmap = (\<lambda>n d w. (None, w)),
     os_mlock = (\<lambda>a n w. (0, w)), os_munlock = (\<lambda>a n w. w),
     os_munmap = (\<lambda>a n (fds, maps, names). (fds, maps - {a}, names)),
     os_close = (\<lambda>d (fds, maps, names). (fds - {d}, maps, names)), queue_ctor = (\<lambda>a w. w)\<rparr>"

lemma sim_shm_laws: "shm_laws sim_shm id"
  by (auto simp: shm_laws_def sim_shm_def)

lemma shm_manager_resources_witness:
  "ShmQueueManager_new sim_shm 4096 ''/q'' True ({}, {}, {}) = (Inl Mmap_failed, ({}, {}, {''/q''}))"
proof -
  obtain r w1 where n: "ShmQueueManager_new sim_shm 4096 ''/q'' True ({}, {}, {}) = (r, w1)"
    using prod.exhaust by blast
  have r: "r = Inl Mmap_failed"
    using n by (simp add: ShmQueueManager_new_def shm_obtain_def sim_shm_def)
  show ?thesis
    using shm_manager_resources [OF sim_shm_laws _ n] n r by (simp add: names_after_def)
qed



end
