(* ===== verification/Tsc_Clock.thy ===== *)
theory Tsc_Clock
  imports Logger_Prelude Complex_Main
begin

text \<open>
  The calibration of the time stamp counter: \<open>calibrate_tsc\<close> of src/timestamp.cpp and
  \<open>tsc_to_ns\<close> of include/mpmc_logger/timestamp.hpp. The operations on \<open>double\<close> are a record
  of functions, an argument of the model; the clock readings of the five samples are its
  input. What the average computes is stated for exact arithmetic.
\<close>

section \<open>Floating point\<close>

record 'd fp =
  fp_of_u64 :: "u64 \<Rightarrow> 'd"
  fp_to_u64 :: "'d \<Rightarrow> u64"
  fp_add :: "'d \<Rightarrow> 'd \<Rightarrow> 'd"
  fp_div :: "'d \<Rightarrow> 'd \<Rightarrow> 'd"
  fp_less :: "'d \<Rightarrow> 'd \<Rightarrow> bool"
  fp_zero :: 'd
  fp_one :: 'd
  fp_tenth :: 'd
  fp_hundred :: 'd

section \<open>Calibration\<close>

record 'd TscCalibration =
  ticks_per_ns :: 'd
  available :: bool

text \<open>One sample: the clock and the counter before the spin, the counter and the clock after it.\<close>

record tsc_sample =
  start_ns :: u64
  start_tsc :: u64
  end_tsc :: u64
  end_ns :: u64

definition NUM_SAMPLES :: nat where
  "NUM_SAMPLES = 5"

definition delta_tsc :: "tsc_sample \<Rightarrow> u64" where
  "delta_tsc x = end_tsc x - start_tsc x"

definition delta_ns :: "tsc_sample \<Rightarrow> u64" where
  "delta_ns x = end_ns x - start_ns x"

fun sum_ratios :: "'d fp \<Rightarrow> 'd \<Rightarrow> tsc_sample list \<Rightarrow> 'd" where
  "sum_ratios fp acc [] = acc"
| "sum_ratios fp acc (x # xs) =
     sum_ratios fp
       (if delta_ns x > 0
        then fp_add fp acc (fp_div fp (fp_of_u64 fp (delta_tsc x)) (fp_of_u64 fp (delta_ns x)))
        else acc) xs"

text \<open>On another processor (\<open>x86\<close> false) nothing is measured.\<close>

definition calibrate_tsc :: "'d fp \<Rightarrow> bool \<Rightarrow> tsc_sample list \<Rightarrow> 'd TscCalibration" where
  "calibrate_tsc fp x86 samples =
     (let cal = \<lparr>ticks_per_ns = fp_one fp, available = False\<rparr>
      in if \<not> x86 then cal
         else let t = fp_div fp (sum_ratios fp (fp_zero fp) samples) (fp_of_u64 fp (of_nat NUM_SAMPLES))
              in cal\<lparr>ticks_per_ns := t, available := fp_less fp (fp_tenth fp) t \<and> fp_less fp t (fp_hundred fp)\<rparr>)"

definition tsc_to_ns :: "'d fp \<Rightarrow> u64 \<Rightarrow> 'd TscCalibration \<Rightarrow> u64" where
  "tsc_to_ns fp ticks cal = fp_to_u64 fp (fp_div fp (fp_of_u64 fp ticks) (ticks_per_ns cal))"

section \<open>Exact arithmetic\<close>

definition real_fp :: "real fp" where
  "real_fp = \<lparr>fp_of_u64 = (\<lambda>x. real (unat x)), fp_to_u64 = (\<lambda>r. of_int \<lfloor>r\<rfloor>), fp_add = (+), fp_div = (/),
     fp_less = (<), fp_zero = 0, fp_one = 1, fp_tenth = 1 / 10, fp_hundred = 100\<rparr>"

definition advanced :: "tsc_sample list \<Rightarrow> tsc_sample list" where
  "advanced xs = filter (\<lambda>x. delta_ns x > 0) xs"

lemma sum_ratios_real:
  assumes "\<forall>x \<in> set (advanced xs). real (unat (delta_tsc x)) = r * real (unat (delta_ns x))"
  shows "sum_ratios real_fp acc xs = acc + r * real (length (advanced xs))"
  using assms
proof (induction xs arbitrary: acc)
  case Nil
  then show ?case by (simp add: advanced_def)
next
  case (Cons x xs)
  have "\<forall>x \<in> set (advanced xs). real (unat (delta_tsc x)) = r * real (unat (delta_ns x))"
    using Cons.prems by (simp add: advanced_def)
  note ih = Cons.IH [OF this]
  show ?case
  proof (cases "delta_ns x > 0")
    case True
    then have "unat (delta_ns x) \<noteq> 0" by (simp add: word_less_nat_alt)
    then have "real (unat (delta_ns x)) \<noteq> 0" by (simp only: of_nat_eq_0_iff not_False_eq_True)
    moreover have "real (unat (delta_tsc x)) = r * real (unat (delta_ns x))"
      using Cons.prems True by (simp add: advanced_def)
    ultimately have "real (unat (delta_tsc x)) / real (unat (delta_ns x)) = r" by simp
    then show ?thesis using ih True by (simp add: real_fp_def advanced_def algebra_simps)
  next
    case False
    then show ?thesis using ih by (simp add: advanced_def)
  qed
qed

section \<open>Properties\<close>

text \<open>The calibration average. In exact arithmetic, when every sample whose clock advanced shows
  the same \<open>r\<close> ticks per nanosecond, the result is \<open>r\<close> times the share of those samples in the
  five: a sample whose clock stood still still counts in the divisor. With all five samples
  advanced, a positive \<open>r\<close> and ticks below \<open>r * 2^64\<close>, \<open>tsc_to_ns\<close> is the rounded-down quotient.\<close>

lemma calibration_average:
  assumes "\<forall>x \<in> set (advanced xs). real (unat (delta_tsc x)) = r * real (unat (delta_ns x))"
  shows "ticks_per_ns (calibrate_tsc real_fp True xs) = r * real (length (advanced xs)) / 5
    \<and> (available (calibrate_tsc real_fp True xs)
        \<longleftrightarrow> 1 / 10 < r * real (length (advanced xs)) / 5 \<and> r * real (length (advanced xs)) / 5 < 100)
    \<and> (length (advanced xs) = 5 \<and> 0 < r \<and> real (unat ticks) / r < 2 ^ 64 \<longrightarrow>
        int (unat (tsc_to_ns real_fp ticks (calibrate_tsc real_fp True xs))) = \<lfloor>real (unat ticks) / r\<rfloor>)"
proof -
  have s: "sum_ratios real_fp 0 xs = r * real (length (advanced xs))"
    using sum_ratios_real [OF assms, of 0] by simp
  have fp: "fp_zero real_fp = 0" "fp_div real_fp = (/)" "fp_of_u64 real_fp = (\<lambda>x. real (unat x))"
    "fp_less real_fp = (<)" "fp_tenth real_fp = 1 / 10" "fp_hundred real_fp = 100"
    "fp_to_u64 real_fp = (\<lambda>r. of_int \<lfloor>r\<rfloor>)"
    by (simp_all add: real_fp_def)
  have t: "ticks_per_ns (calibrate_tsc real_fp True xs) = r * real (length (advanced xs)) / 5"
    by (simp add: calibrate_tsc_def fp s NUM_SAMPLES_def Let_def)
  moreover have "available (calibrate_tsc real_fp True xs)
      \<longleftrightarrow> 1 / 10 < r * real (length (advanced xs)) / 5 \<and> r * real (length (advanced xs)) / 5 < 100"
    by (simp add: calibrate_tsc_def fp s NUM_SAMPLES_def Let_def mult.commute)
  moreover have "int (unat (tsc_to_ns real_fp ticks (calibrate_tsc real_fp True xs))) = \<lfloor>real (unat ticks) / r\<rfloor>"
    if "length (advanced xs) = 5" "0 < r" "real (unat ticks) / r < 2 ^ 64"
  proof -
    let ?z = "\<lfloor>real (unat ticks) / r\<rfloor>"
    have "0 \<le> real (unat ticks) / r" using that(2) of_nat_0_le_iff by (intro divide_nonneg_pos)
    then have "0 \<le> ?z" by (simp only: zero_le_floor)
    moreover have "?z < 2 ^ 64" using that(3) by (simp add: floor_less_iff)
    ultimately have "int (unat (of_int ?z :: u64)) = ?z"
      by (simp add: uint_word_of_int_eq take_bit_int_eq_self flip: uint_nat)
    then show ?thesis using t that(1) by (simp add: tsc_to_ns_def fp)
  qed
  ultimately show ?thesis by blast
qed

definition demo_samples :: "tsc_sample list" where
  "demo_samples = replicate 4 \<lparr>start_ns = 0, start_tsc = 5, end_tsc = 35, end_ns = 10\<rparr>
     @ [\<lparr>start_ns = 7, start_tsc = 0, end_tsc = 3, end_ns = 7\<rparr>]"

lemma demo_advanced: "advanced demo_samples = replicate 4 \<lparr>start_ns = 0, start_tsc = 5, end_tsc = 35, end_ns = 10\<rparr>"
  by (simp add: advanced_def demo_samples_def delta_ns_def)

lemma calibration_average_witness:
  "ticks_per_ns (calibrate_tsc real_fp True demo_samples) = 12 / 5"
proof -
  have "\<forall>x \<in> set (advanced demo_samples). real (unat (delta_tsc x)) = 3 * real (unat (delta_ns x))"
    by (simp add: demo_advanced delta_tsc_def delta_ns_def)
  from calibration_average [OF this] show ?thesis by (simp add: demo_advanced)
qed

end
