(* ===== verification/Timestamp.thy ===== *)
theory Timestamp
  imports Logger_Prelude
begin

text \<open>
  include/mpmc_logger/timestamp.hpp: the clocks as nanosecond counters and the
  \<open>CachedDateFormatter\<close>. \<open>clock_gettime\<close> is a \<open>timespec\<close> argument; \<open>localtime_r\<close> with
  \<open>strftime\<close> is a function \<open>date_string\<close> from seconds to the text it writes into
  \<open>date_prefix\<close> (without the terminating NUL). \<open>strftime\<close> writes 19 characters for every
  second a 64-bit nanosecond count can name, years 1970 to 2554; this is the hypothesis
  \<open>dates_ok\<close>. The calibration of the cycle counter
  is in \<open>Tsc_Clock\<close>.
\<close>

section \<open>Clocks\<close>

record timespec =
  tv_sec :: u64
  tv_nsec :: u64

definition now_ns :: "timespec \<Rightarrow> u64" where
  "now_ns monotonic = tv_sec monotonic * 1000000000 + tv_nsec monotonic"

definition wall_clock_ns :: "timespec \<Rightarrow> u64" where
  "wall_clock_ns realtime = tv_sec realtime * 1000000000 + tv_nsec realtime"

text \<open>The seconds a timestamp is split into again, and the nanoseconds, as in \<open>format\<close>.\<close>

definition ts_sec :: "u64 \<Rightarrow> u64" where
  "ts_sec wall = wall div 1000000000"

definition ts_nsec :: "u64 \<Rightarrow> u32" where
  "ts_nsec wall = ucast (wall mod 1000000000)"

lemma unat_ts_sec: "unat (ts_sec wall) = unat wall div 1000000000"
  by (simp add: ts_sec_def unat_div)

lemma unat_ts_nsec: "unat (ts_nsec wall) = unat wall mod 1000000000"
proof -
  have "unat (wall mod 1000000000) = unat wall mod 1000000000"
    by (simp add: unat_mod)
  moreover have "unat wall mod 1000000000 < 2 ^ 32"
    by (rule less_trans [of _ 1000000000]) simp_all
  ultimately show ?thesis
    by (simp add: ts_nsec_def unsigned_ucast_eq take_bit_nat_eq_self)
qed

lemma wall_clock_split:
  assumes "unat (tv_nsec ts) < 1000000000"
    and "unat (tv_sec ts) * 1000000000 + unat (tv_nsec ts) < 2 ^ 64"
  shows "ts_sec (wall_clock_ns ts) = tv_sec ts \<and> unat (ts_nsec (wall_clock_ns ts)) = unat (tv_nsec ts)"
proof -
  have "unat (wall_clock_ns ts) = unat (tv_sec ts) * 1000000000 + unat (tv_nsec ts)"
    using assms by (simp add: wall_clock_ns_def unat_word_ariths)
  then show ?thesis
    using assms(1) unat_ts_sec [of "wall_clock_ns ts"] unat_ts_nsec [of "wall_clock_ns ts"]
    by (simp add: word_unat_eq_iff)
qed

section \<open>The cached date formatter\<close>

record CachedDateFormatter =
  cached_sec :: u64
  date_prefix :: bytes

text \<open>A fresh formatter: second 0 counts as cached, the prefix array is uninitialised (\<open>junk\<close>).\<close>

definition CachedDateFormatter_new :: "bytes \<Rightarrow> CachedDateFormatter" where
  "CachedDateFormatter_new junk = \<lparr>cached_sec = 0, date_prefix = junk\<rparr>"

definition refresh_date :: "(u64 \<Rightarrow> bytes) \<Rightarrow> u64 \<Rightarrow> CachedDateFormatter \<Rightarrow> CachedDateFormatter" where
  "refresh_date date_string sec f =
     (if sec \<noteq> cached_sec f
      then \<lparr>cached_sec = sec, date_prefix = date_string sec @ [CHR 0x00]\<rparr> else f)"

text \<open>The suffix loop, for \<open>i = 8\<close> down to 0: store the last digit, divide by ten.\<close>

fun ns_digits :: "nat \<Rightarrow> u32 \<Rightarrow> nat \<Rightarrow> bytes \<Rightarrow> bytes option" where
  "ns_digits 0 ns p buf = Some buf"
| "ns_digits (Suc i) ns p buf = do {
     buf \<leftarrow> store_at buf (p + 20 + i) [digit_char (unat (ns mod 10))];
     ns_digits i (ns div 10) p buf }"

definition format_date ::
  "(u64 \<Rightarrow> bytes) \<Rightarrow> CachedDateFormatter \<Rightarrow> u64 \<Rightarrow> bytes \<Rightarrow> nat
    \<Rightarrow> (nat \<times> CachedDateFormatter \<times> bytes) option" where
  "format_date date_string f wall buf p = do {
     let f1 = refresh_date date_string (ts_sec wall) f;
     buf \<leftarrow> memcpy buf p (date_prefix f1) 0 19;
     buf \<leftarrow> store_at buf (p + 19) [CHR ''.''];
     buf \<leftarrow> ns_digits 9 (ts_nsec wall) p buf;
     Some (29, f1, buf) }"

text \<open>What \<open>format\<close> is meant to write.\<close>

definition dates_ok :: "(u64 \<Rightarrow> bytes) \<Rightarrow> bool" where
  "dates_ok date_string \<longleftrightarrow> (\<forall>s. unat s < 18446744074 \<longrightarrow> length (date_string s) = 19)"

definition date_text :: "(u64 \<Rightarrow> bytes) \<Rightarrow> u64 \<Rightarrow> bytes" where
  "date_text date_string wall =
     date_string (ts_sec wall) @ [CHR ''.''] @ dec_padded 9 (unat wall mod 1000000000)"

text \<open>
  The formatter's invariant: the prefix is 20 bytes, and unless second 0 is cached it holds
  the text of the cached second. Only second 0 is shown with an unset prefix.
\<close>

definition date_inv :: "(u64 \<Rightarrow> bytes) \<Rightarrow> CachedDateFormatter \<Rightarrow> bool" where
  "date_inv date_string f \<longleftrightarrow> length (date_prefix f) = 20 \<and> unat (cached_sec f) < 18446744074
     \<and> (cached_sec f \<noteq> 0 \<longrightarrow> take 19 (date_prefix f) = date_string (cached_sec f))"

lemma date_inv_new: "length junk = 20 \<Longrightarrow> date_inv date_string (CachedDateFormatter_new junk)"
  by (simp add: date_inv_def CachedDateFormatter_new_def)

lemma ts_sec_small: "unat (ts_sec wall) < 18446744074"
  unfolding unat_ts_sec by (rule less_mult_imp_div_less, rule less_le_trans [OF unat_bound64]) simp

lemma refresh_date_inv:
  assumes "dates_ok date_string" and "date_inv date_string f"
  shows "date_inv date_string (refresh_date date_string (ts_sec wall) f)"
    "cached_sec (refresh_date date_string (ts_sec wall) f) = ts_sec wall"
  using assms ts_sec_small [of wall] by (auto simp: refresh_date_def date_inv_def dates_ok_def)

lemma refresh_date_prefix:
  assumes "dates_ok date_string" and "date_inv date_string f" and "ts_sec wall \<noteq> 0"
  shows "take 19 (date_prefix (refresh_date date_string (ts_sec wall) f)) = date_string (ts_sec wall)"
  using refresh_date_inv [OF assms(1,2), of wall] assms(3) by (simp add: date_inv_def)

lemma ns_digits_text:
  assumes "length pre = p + 20" and "length gap = i"
  shows "ns_digits i ns p (pre @ gap @ rest) = Some (pre @ dec_padded i (unat ns) @ rest)"
  using assms
proof (induction i arbitrary: ns gap rest)
  case (Suc i)
  obtain g c where g: "gap = g @ [c]" "length g = i"
    using Suc.prems(2) by (metis length_append_singleton length_Suc_conv_rev nat.inject)
  have "store_at (pre @ gap @ rest) (p + 20 + i) [digit_char (unat (ns mod 10))]
      = Some ((pre @ g) @ digit_char (unat (ns mod 10)) # rest)"
    using store_at_append [of "p + 20 + i" "pre @ g" "[digit_char (unat (ns mod 10))]" "c # rest"]
      Suc.prems(1) g by simp
  then show ?case
    using Suc.IH [OF Suc.prems(1) g(2), of "ns div 10" "digit_char (unat (ns mod 10)) # rest"]
    by (simp add: unat_mod unat_div)
qed simp

lemma format_date_text:
  assumes "dates_ok date_string" and "date_inv date_string f"
    and "29 \<le> length rest" and "p = length pre"
  shows "\<exists>f'. date_inv date_string f' \<and> cached_sec f' = ts_sec wall
    \<and> format_date date_string f wall (pre @ rest) p
      = Some (29, f', pre @ (take 19 (date_prefix f') @ [CHR ''.''] @ dec_padded 9 (unat wall mod 1000000000))
          @ drop 29 rest)
    \<and> (ts_sec wall \<noteq> 0 \<longrightarrow> take 19 (date_prefix f') = date_string (ts_sec wall))"
proof -
  define f' where "f' = refresh_date date_string (ts_sec wall) f"
  have inv: "date_inv date_string f'" "cached_sec f' = ts_sec wall"
    using refresh_date_inv [OF assms(1,2)] by (simp_all add: f'_def)
  then have len: "length (date_prefix f') = 20" by (simp add: date_inv_def)
  have c: "memcpy (pre @ rest) p (date_prefix f') 0 19
      = Some (pre @ take 19 (date_prefix f') @ drop 19 rest)"
    using assms(3,4) len by (simp add: memcpy_in overwrite_append)
  have d: "store_at (pre @ take 19 (date_prefix f') @ drop 19 rest) (p + 19) [CHR ''.'']
      = Some ((pre @ take 19 (date_prefix f') @ [CHR ''.'']) @ take 9 (drop 20 rest) @ drop 29 rest)"
    using store_at_append [of "p + 19" "pre @ take 19 (date_prefix f')" "[CHR ''.'']" "drop 19 rest"]
      assms(3,4) len append_take_drop_id [of 9 "drop 20 rest"] by simp
  have "ns_digits 9 (ts_nsec wall) p
      ((pre @ take 19 (date_prefix f') @ [CHR ''.'']) @ take 9 (drop 20 rest) @ drop 29 rest)
    = Some ((pre @ take 19 (date_prefix f') @ [CHR ''.'']) @ dec_padded 9 (unat (ts_nsec wall)) @ drop 29 rest)"
    using assms(3,4) len by (intro ns_digits_text) simp_all
  then have "format_date date_string f wall (pre @ rest) p
      = Some (29, f', pre @ (take 19 (date_prefix f') @ [CHR ''.''] @ dec_padded 9 (unat wall mod 1000000000))
          @ drop 29 rest)"
    using c d by (simp add: format_date_def f'_def [symmetric] unat_ts_nsec Let_def del: dec_padded.simps)
  then show ?thesis
    using inv refresh_date_prefix [OF assms(1,2), of wall] by (auto simp: f'_def)
qed

end
