(* ===== verification/Formatter.thy ===== *)
theory Formatter
  imports Log_Entry Timestamp
begin

text \<open>
  include/mpmc_logger/formatter.hpp and src/formatter.cpp: the binary and the text
  formatter, both writing into a caller's buffer, with \<open>fast_u32_to_str\<close>. A store outside
  the buffer is \<open>None\<close>. The locale \<open>entry_formatter\<close> is what the drain loop relies on; both
  formatters interpret it.
\<close>

section \<open>Digits of a 32-bit integer, right-aligned\<close>

text \<open>\<open>*--buf_end = c\<close>: the store one before the end, \<open>None\<close> when there is no room.\<close>

definition push_back :: "char \<Rightarrow> bytes \<times> nat \<Rightarrow> (bytes \<times> nat) option" where
  "push_back c st = (case st of (buf, e) \<Rightarrow>
     if e = 0 then None
     else do { buf \<leftarrow> store_at buf (e - 1) [c]; Some (buf, e - 1) })"

function digits_loop :: "u32 \<Rightarrow> bytes \<times> nat \<Rightarrow> (bytes \<times> nat) option" where
  "digits_loop val st =
     (if val > 0 then do {
        st \<leftarrow> push_back (digit_char (unat (val mod 10))) st;
        digits_loop (val div 10) st }
      else Some st)"
  by pat_completeness auto
termination
  by (relation "measure (\<lambda>(val, st). unat val)") (auto simp: unat_div word_less_nat_alt)

declare digits_loop.simps [simp del]

definition fast_u32_to_str :: "u32 \<Rightarrow> bytes \<Rightarrow> nat \<Rightarrow> (bytes \<times> nat) option" where
  "fast_u32_to_str val buf e =
     (if val = 0 then push_back (CHR ''0'') (buf, e) else digits_loop val (buf, e))"

lemma push_back_append:
  assumes "e = length pre + 1"
  shows "push_back c (pre @ x # suf, e) = Some (pre @ c # suf, e - 1)"
  using assms store_at_append [of "length pre" pre "[c]" "x # suf"] by (simp add: push_back_def)

lemma unsnoc: "0 < length xs \<Longrightarrow> \<exists>ys y. xs = ys @ [y]"
  by (cases xs rule: rev_cases) auto

lemma digits_loop_text:
  assumes "0 < val" and "length (dec_numeral (unat val)) \<le> length pre"
  shows "digits_loop val (pre @ suf, length pre) =
    (let k = length pre - length (dec_numeral (unat val))
     in Some (take k pre @ dec_numeral (unat val) @ suf, k))"
  using assms
proof (induction "unat val" arbitrary: val pre suf rule: less_induct)
  case less
  let ?d = "digit_char (unat (val mod 10))"
  obtain pre' y where pre: "pre = pre' @ [y]"
    using unsnoc [of pre] less.prems(2) dec_numeral_nonempty [of "unat val"]
    by (cases pre) (auto simp: rev_exhaust)
  have pb: "push_back ?d (pre @ suf, length pre) = Some (pre' @ ?d # suf, length pre')"
    using push_back_append [of "length pre" pre' ?d y suf] by (simp add: pre)
  have step: "digits_loop val (pre @ suf, length pre)
      = digits_loop (val div 10) (pre' @ ?d # suf, length pre')"
    using less.prems(1) pb by (simp add: digits_loop.simps [of val])
  show ?case
  proof (cases "unat val < 10")
    case True
    then have "val div 10 = 0" by (simp add: word_unat_eq_iff unat_div)
    then show ?thesis
      using step True less.prems(1)
      by (simp add: digits_loop.simps [of 0] dec_numeral.simps [of "unat val"] pre unat_mod Let_def)
  next
    case False
    have num: "dec_numeral (unat val) = dec_numeral (unat (val div 10)) @ [?d]"
      using False by (simp add: dec_numeral.simps [of "unat val"] unat_mod unat_div)
    have "unat (val div 10) < unat val" "0 < val div 10"
      using False by (simp_all add: unat_div word_less_nat_alt)
    then show ?thesis
      using less.hyps [of "val div 10" pre' "?d # suf"] less.prems(2) step num
      by (simp add: pre Let_def)
  qed
qed

lemma length_u32_numeral: "length (dec_numeral (unat (val :: u32))) \<le> 10"
  using unsigned_less [of val, where 'a = nat] by (intro length_dec_numeral) simp_all

lemma fast_u32_to_str_text:
  assumes "10 \<le> e" and "e \<le> length buf"
  shows "fast_u32_to_str val buf e =
    (let n = length (dec_numeral (unat val))
     in Some (take (e - n) buf @ dec_numeral (unat val) @ drop e buf, e - n))"
proof (cases "val = 0")
  case True
  obtain pre y where pre: "take e buf = pre @ [y]" using unsnoc [of "take e buf"] assms by auto
  then have "buf = pre @ y # drop e buf" "length pre + 1 = e"
    using append_take_drop_id [of e buf] assms(2) by (metis append.assoc append_Cons append_Nil)
      (metis length_append_singleton length_take min.absorb2 pre Suc_eq_plus1 assms(2))
  then have "push_back (CHR ''0'') (buf, e) = Some (pre @ CHR ''0'' # drop e buf, e - 1)"
    using push_back_append [of e pre "CHR ''0''" y "drop e buf"] by simp
  moreover have "dec_numeral 0 = [CHR ''0'']"
    by (simp add: dec_numeral.simps [of 0] digit_char_def char_of_def bit_simps)
  moreover have "pre = take (e - 1) buf"
    using pre assms \<open>length pre + 1 = e\<close> by (metis add_diff_cancel_right' append_eq_conv_conj diff_le_self min.absorb1 take_take)
  ultimately show ?thesis using True by (simp add: fast_u32_to_str_def Let_def)
next
  case False
  have "buf = take e buf @ drop e buf" "length (take e buf) = e" using assms by simp_all
  moreover have "0 < val" using False by (simp add: word_neq_0_conv)
  ultimately show ?thesis
    using digits_loop_text [of val "take e buf" "drop e buf"] length_u32_numeral [of val] assms False
    by (simp add: fast_u32_to_str_def Let_def min_absorb1)
qed

section \<open>The formatters\<close>

text \<open>\<open>*p++ = c\<close> for each character of a literal.\<close>

definition put :: "bytes \<Rightarrow> bytes \<times> nat \<Rightarrow> (bytes \<times> nat) option" where
  "put s st = (case st of (buf, p) \<Rightarrow> do { buf \<leftarrow> store_at buf p s; Some (buf, p + length s) })"

lemma put_append [buffer_simps]:
  "p = length pre \<Longrightarrow> length s \<le> length rest \<Longrightarrow>
    put s (pre @ rest, p) = Some ((pre @ s) @ drop (length s) rest, p + length s)"
  by (simp add: put_def store_at_append)

definition BinaryFormatter_format ::
  "bool \<Rightarrow> LogEntry \<Rightarrow> bytes \<Rightarrow> nat \<Rightarrow> (nat \<times> bytes) option" where
  "BinaryFormatter_format avx2 e buf buf_size =
     (if buf_size < sizeof_LogEntry then Some (0, buf)
      else do { buf \<leftarrow> fast_copy_128 avx2 buf (entry_image e); Some (sizeof_LogEntry, buf) })"

definition max_formatted_size :: nat where
  "max_formatted_size = 256"

text \<open>The text formatter's object is its \<open>CachedDateFormatter\<close>.\<close>

type_synonym TextFormatter = CachedDateFormatter

definition TextFormatter_format ::
  "(u64 \<Rightarrow> bytes) \<Rightarrow> TextFormatter \<Rightarrow> LogEntry \<Rightarrow> bytes \<Rightarrow> nat
    \<Rightarrow> (nat \<times> TextFormatter \<times> bytes) option" where
  "TextFormatter_format date_string f e buf buf_size =
     (if buf_size < max_formatted_size then Some (0, f, buf)
      else do {
        (buf, p) \<leftarrow> put ''['' (buf, 0);
        (n, f, buf) \<leftarrow> format_date date_string f (timestamp_ns e) buf p;
        (buf, p) \<leftarrow> put ''] ['' (buf, p + n);
        buf \<leftarrow> memcpy buf p (level_to_string (level e)) 0 5;
        (buf, p) \<leftarrow> put ''] [tid:'' (buf, p + 5);
        let tid_buf = replicate 12 (CHR 0x00);
        (tid_buf, start) \<leftarrow> fast_u32_to_str (thread_id e) tid_buf 12;
        buf \<leftarrow> memcpy buf p tid_buf start (12 - start);
        (buf, p) \<leftarrow> put ''] '' (buf, p + (12 - start));
        let len = min (unat (payload_len e)) 112;
        (buf, p) \<leftarrow> (if len > 0 then do { buf \<leftarrow> memcpy buf p (payload e) 0 len; Some (buf, p + len) }
                    else Some (buf, p));
        (buf, p) \<leftarrow> put [CHR 0x0A] (buf, p);
        Some (p, f, buf) })"

text \<open>The line the text format promises.\<close>

definition text_tail :: "LogEntry \<Rightarrow> bytes" where
  "text_tail e = ''] ['' @ level_to_string (level e) @ ''] [tid:'' @ dec_numeral (unat (thread_id e))
     @ ''] '' @ take (min (unat (payload_len e)) 112) (payload e) @ [CHR 0x0A]"

definition text_line :: "bytes \<Rightarrow> LogEntry \<Rightarrow> bytes" where
  "text_line date e = ''['' @ date @ [CHR ''.''] @ dec_padded 9 (unat (timestamp_ns e) mod 1000000000)
     @ text_tail e"

lemma length_text_tail:
  assumes "wf_entry e"
  shows "length (text_tail e) = 18 + length (dec_numeral (unat (thread_id e)))
    + min (unat (payload_len e)) 112"
    "length (text_tail e) \<le> 140"
  using assms length_u32_numeral [of "thread_id e"]
  by (simp_all add: text_tail_def wf_entry_def PAYLOAD_SIZE_def)

lemma length_text_line:
  assumes "wf_entry e" and "length date = 19"
  shows "length (text_line date e) \<le> 170"
  using length_text_tail(2) [OF assms(1)] assms(2) by (simp add: text_line_def)

section \<open>Both formatters write their line and nothing else\<close>

lemma BinaryFormatter_image:
  assumes "wf_entry e" and "buf_size \<le> length buf"
  shows "BinaryFormatter_format avx2 e buf buf_size =
    (if buf_size < 128 then Some (0, buf) else Some (128, entry_image e @ drop 128 buf))"
  using assms fast_copy_128_memcpy [of "entry_image e" buf avx2]
  by (simp add: BinaryFormatter_format_def sizeof_LogEntry_def overwrite_def)

text \<open>The tail of the line, from the closing bracket of the time stamp on.\<close>

lemma payload_step:
  assumes "wf_entry e" and "p = length pre" and "min (unat (payload_len e)) 112 \<le> length rest"
  defines "len \<equiv> min (unat (payload_len e)) 112"
  shows "(if len > 0 then do { buf \<leftarrow> memcpy (pre @ rest) p (payload e) 0 len; Some (buf, p + len) }
      else Some (pre @ rest, p))
    = Some ((pre @ take len (payload e)) @ drop len rest, p + len)"
  using assms by (simp add: memcpy_in overwrite_append wf_entry_def PAYLOAD_SIZE_def)

lemma TextFormatter_text:
  assumes dates: "dates_ok date_string" and inv: "date_inv date_string f" and wf: "wf_entry e"
    and size: "256 \<le> buf_size" "buf_size \<le> length buf"
  shows "\<exists>f'. date_inv date_string f'
    \<and> TextFormatter_format date_string f e buf buf_size
      = Some (length (text_line (take 19 (date_prefix f')) e), f',
          text_line (take 19 (date_prefix f')) e
            @ drop (length (text_line (take 19 (date_prefix f')) e)) buf)
    \<and> (ts_sec (timestamp_ns e) \<noteq> 0 \<longrightarrow>
        take 19 (date_prefix f') = date_string (ts_sec (timestamp_ns e)))"
proof -
  let ?ns = "dec_padded 9 (unat (timestamp_ns e) mod 1000000000)"
  let ?lvl = "level_to_string (level e)" and ?tid = "dec_numeral (unat (thread_id e))"
  let ?len = "min (unat (payload_len e)) 112"
  have r1: "put ''['' (buf, 0) = Some (''['' @ drop 1 buf, 1)"
    using put_append [of 0 "[]" "''[''" buf] size by simp
  have one: "1 = length ''[''" and room: "29 \<le> length (drop 1 buf)" using size by simp_all
  obtain f' where f': "date_inv date_string f'"
    "format_date date_string f (timestamp_ns e) (''['' @ drop 1 buf) 1
      = Some (29, f', ''['' @ (take 19 (date_prefix f') @ [CHR ''.''] @ ?ns) @ drop 29 (drop 1 buf))"
    "ts_sec (timestamp_ns e) \<noteq> 0 \<Longrightarrow> take 19 (date_prefix f') = date_string (ts_sec (timestamp_ns e))"
    using format_date_text [OF dates inv room one, of "timestamp_ns e"] by auto
  let ?d = "take 19 (date_prefix f')"
  have d: "length ?d = 19" using f'(1) by (simp add: date_inv_def)
  define a where "a = ''['' @ ?d @ [CHR ''.''] @ ?ns"
  have la: "length a = 30" using d by (simp add: a_def)
  have t: "length ?tid \<le> 10" "12 - (12 - length ?tid) = length ?tid"
    using length_u32_numeral [of "thread_id e"] by simp_all
  have tid: "fast_u32_to_str (thread_id e) (replicate 12 (CHR 0x00)) 12
      = Some (take (12 - length ?tid) (replicate 12 (CHR 0x00)) @ ?tid, 12 - length ?tid)"
    using fast_u32_to_str_text [of 12 "replicate 12 (CHR 0x00)" "thread_id e"] by (simp add: Let_def)
  define b where "b = a @ ''] [''"
  define c where "c = (b @ ?lvl) @ ''] [tid:''"
  define g where "g = (c @ ?tid) @ ''] ''"
  have lb: "length b = 33" and lc: "length c = 45" and lg: "length g = 47 + length ?tid"
    using la by (simp_all add: b_def c_def g_def)
  have s1: "put ''] ['' (a @ drop 30 buf, 1 + 29) = Some (b @ drop 33 buf, 33)"
    using put_append [of 30 a "''] [''" "drop 30 buf"] la size by (simp add: b_def)
  have s2: "memcpy (b @ drop 33 buf) 33 ?lvl 0 5 = Some ((b @ ?lvl) @ drop 38 buf)"
    using lb size by (simp add: memcpy_in overwrite_append)
  have s3: "put ''] [tid:'' ((b @ ?lvl) @ drop 38 buf, 33 + 5) = Some (c @ drop 45 buf, 45)"
    using put_append [of 38 "b @ ?lvl" "''] [tid:''" "drop 38 buf"] lb size by (simp add: c_def)
  have s4: "memcpy (c @ drop 45 buf) 45 (take (12 - length ?tid) (replicate 12 (CHR 0x00)) @ ?tid)
        (12 - length ?tid) (12 - (12 - length ?tid))
      = Some ((c @ ?tid) @ drop (45 + length ?tid) buf)"
    using lc size t by (simp add: memcpy_in overwrite_append min_def add.commute)
  have s5: "put ''] '' ((c @ ?tid) @ drop (45 + length ?tid) buf, 45 + (12 - (12 - length ?tid)))
      = Some (g @ drop (47 + length ?tid) buf, 47 + length ?tid)"
    using put_append [of "45 + length ?tid" "c @ ?tid" "''] ''" "drop (45 + length ?tid) buf"] lc size t
    by (simp add: g_def add.commute)
  have s6: "(if ?len > 0 then do { buf \<leftarrow> memcpy (g @ drop (47 + length ?tid) buf) (47 + length ?tid)
          (payload e) 0 ?len; Some (buf, 47 + length ?tid + ?len) }
      else Some (g @ drop (47 + length ?tid) buf, 47 + length ?tid))
    = Some ((g @ take ?len (payload e)) @ drop ?len (drop (47 + length ?tid) buf), 47 + length ?tid + ?len)"
    using payload_step [OF wf, of "47 + length ?tid" g "drop (47 + length ?tid) buf"] lg size t by simp
  have lpay: "length (take ?len (payload e)) = ?len"
    using wf by (simp add: wf_entry_def PAYLOAD_SIZE_def)
  have s7: "put [CHR 0x0A] ((g @ take ?len (payload e)) @ drop ?len (drop (47 + length ?tid) buf),
        47 + length ?tid + ?len)
      = Some ((g @ take ?len (payload e) @ [CHR 0x0A]) @ drop (48 + length ?tid + ?len) buf,
          48 + length ?tid + ?len)"
    using put_append [of "47 + length ?tid + ?len" "g @ take ?len (payload e)" "[CHR 0x0A]"
        "drop ?len (drop (47 + length ?tid) buf)"] lg lpay size t
    by (simp add: ac_simps)
  have line: "text_line ?d e = g @ take ?len (payload e) @ [CHR 0x0A]"
    by (simp add: text_line_def text_tail_def g_def c_def b_def a_def del: dec_padded.simps)
  have len: "length (text_line ?d e) = 48 + length ?tid + ?len"
    unfolding line using lg lpay by simp
  have f2: "format_date date_string f (timestamp_ns e) (''['' @ drop 1 buf) 1
      = Some (29, f', a @ drop 30 buf)"
    using f'(2) by (simp add: a_def del: dec_padded.simps)
  have big: "(buf_size < 256) = False" using size by simp
  have fmt: "TextFormatter_format date_string f e buf buf_size
      = Some (48 + length ?tid + ?len, f', text_line ?d e @ drop (48 + length ?tid + ?len) buf)"
    unfolding TextFormatter_format_def Let_def line max_formatted_size_def
    by (simp only: big if_False r1 f2 s1 s2 s3 tid s4 s5 s6 s7 Option.bind.simps prod.case)
  show ?thesis
    unfolding fmt
  proof (intro exI [of _ f'] conjI impI)
    show "date_inv date_string f'" by (rule f'(1))
    show "Some (48 + length ?tid + ?len, f', text_line ?d e @ drop (48 + length ?tid + ?len) buf)
      = Some (length (text_line ?d e), f', text_line ?d e @ drop (length (text_line ?d e)) buf)"
      by (simp only: len)
    show "?d = date_string (ts_sec (timestamp_ns e))" if "ts_sec (timestamp_ns e) \<noteq> 0"
      using that by (rule f'(3))
  qed
qed

section \<open>The interface the drain loop uses\<close>

locale entry_formatter =
  fixes ok :: "'s \<Rightarrow> bool"
    and fmt :: "'s \<Rightarrow> LogEntry \<Rightarrow> bytes \<Rightarrow> nat \<Rightarrow> (nat \<times> 's \<times> bytes) option"
    and max_size :: nat
    and line_of :: "LogEntry \<Rightarrow> bytes \<Rightarrow> bool"
  assumes fits: "\<lbrakk>ok f; wf_entry e; max_size \<le> n; n \<le> length buf\<rbrakk> \<Longrightarrow>
      \<exists>f' l. ok f' \<and> line_of e l \<and> 0 < length l \<and> length l \<le> max_size
        \<and> fmt f e buf n = Some (length l, f', l @ drop (length l) buf)"
    and small: "n < max_size \<Longrightarrow> fmt f e buf n = Some (0, f, buf)"
begin

text \<open>Formatting never leaves the buffer, keeps its length, and reports the bytes of the line.\<close>

lemma fmt_total:
  assumes "ok f" and "wf_entry e" and "n \<le> length buf"
  shows "\<exists>k f' buf'. fmt f e buf n = Some (k, f', buf') \<and> ok f' \<and> length buf' = length buf \<and> k \<le> n
    \<and> drop k buf' = drop k buf"
proof (cases "n < max_size")
  case True
  then show ?thesis using small [OF True] assms(1) by simp
next
  case False
  then obtain f' l where "ok f'" "length l \<le> max_size"
    "fmt f e buf n = Some (length l, f', l @ drop (length l) buf)"
    using fits [OF assms(1,2) _ assms(3)] by fastforce
  then show ?thesis using False assms(3) by auto
qed

lemma fmt_span:
  assumes "ok f" and "wf_entry e" and "max_size \<le> length buf"
  shows "\<exists>k f' buf'. fmt f e buf (length buf) = Some (k, f', buf') \<and> ok f' \<and> 0 < k \<and> k \<le> max_size
    \<and> length buf' = length buf \<and> line_of e (take k buf')"
  using fits [OF assms(1,2,3) order_refl] assms(3) by fastforce

end

text \<open>The binary formatter is stateless; its line is the image of the entry.\<close>

definition binary_fmt ::
  "bool \<Rightarrow> unit \<Rightarrow> LogEntry \<Rightarrow> bytes \<Rightarrow> nat \<Rightarrow> (nat \<times> unit \<times> bytes) option" where
  "binary_fmt avx2 f e buf n = map_option (\<lambda>(k, b). (k, f, b)) (BinaryFormatter_format avx2 e buf n)"

interpretation binary: entry_formatter "\<lambda>_. True" "binary_fmt avx2" 128 "\<lambda>e l. l = entry_image e"
proof
  fix f :: unit and e :: LogEntry and n :: nat and buf :: bytes
  show "n < 128 \<Longrightarrow> binary_fmt avx2 f e buf n = Some (0, f, buf)"
    by (simp add: binary_fmt_def BinaryFormatter_format_def sizeof_LogEntry_def)
  assume "wf_entry e" and "128 \<le> n" and "n \<le> length buf"
  then show "\<exists>f' l. True \<and> l = entry_image e \<and> 0 < length l \<and> length l \<le> 128
      \<and> binary_fmt avx2 f e buf n = Some (length l, f', l @ drop (length l) buf)"
    by (simp add: binary_fmt_def BinaryFormatter_image sizeof_LogEntry_def entry_image_nonempty)
qed

definition text_line_of :: "(u64 \<Rightarrow> bytes) \<Rightarrow> LogEntry \<Rightarrow> bytes \<Rightarrow> bool" where
  "text_line_of date_string e l \<longleftrightarrow>
     (\<exists>d. length d = 19 \<and> l = text_line d e
        \<and> (ts_sec (timestamp_ns e) \<noteq> 0 \<longrightarrow> d = date_string (ts_sec (timestamp_ns e))))"

lemma TextFormatter_line_of:
  assumes "dates_ok date_string" and "date_inv date_string f" and "wf_entry e"
    and "256 \<le> n" and "n \<le> length buf"
  shows "\<exists>f' l. date_inv date_string f' \<and> text_line_of date_string e l \<and> 0 < length l \<and> length l \<le> 170
    \<and> TextFormatter_format date_string f e buf n = Some (length l, f', l @ drop (length l) buf)"
proof -
  obtain f' where f': "date_inv date_string f'"
    "TextFormatter_format date_string f e buf n
      = Some (length (text_line (take 19 (date_prefix f')) e), f', text_line (take 19 (date_prefix f')) e
          @ drop (length (text_line (take 19 (date_prefix f')) e)) buf)"
    "ts_sec (timestamp_ns e) \<noteq> 0 \<longrightarrow> take 19 (date_prefix f') = date_string (ts_sec (timestamp_ns e))"
    using TextFormatter_text [OF assms] by blast
  have "length (take 19 (date_prefix f')) = 19" using f'(1) by (simp add: date_inv_def)
  then have "text_line_of date_string e (text_line (take 19 (date_prefix f')) e)"
    "length (text_line (take 19 (date_prefix f')) e) \<le> 170"
    using f'(3) length_text_line [OF assms(3)] unfolding text_line_of_def by blast+
  moreover have "0 < length (text_line (take 19 (date_prefix f')) e)" by (simp add: text_line_def)
  ultimately show ?thesis using f'(1,2) by blast
qed

interpretation textual: entry_formatter "\<lambda>f. dates_ok date_string \<and> date_inv date_string f"
  "TextFormatter_format date_string" max_formatted_size "text_line_of date_string"
proof
  fix f :: TextFormatter and e :: LogEntry and n :: nat and buf :: bytes
  show "n < max_formatted_size \<Longrightarrow> TextFormatter_format date_string f e buf n = Some (0, f, buf)"
    by (simp add: TextFormatter_format_def)
  assume "dates_ok date_string \<and> date_inv date_string f" "wf_entry e" "max_formatted_size \<le> n"
    "n \<le> length buf"
  then show "\<exists>f' l. (dates_ok date_string \<and> date_inv date_string f') \<and> text_line_of date_string e l
      \<and> 0 < length l \<and> length l \<le> max_formatted_size
      \<and> TextFormatter_format date_string f e buf n = Some (length l, f', l @ drop (length l) buf)"
    using TextFormatter_line_of [of date_string f e n buf]
    by (fastforce simp: max_formatted_size_def)
qed

section \<open>Properties\<close>

text \<open>C32: The text line. For a time stamp past second 0, \<open>TextFormatter::format\<close> with a
  buffer of at least 256 bytes writes exactly the line
  \<open>[date.nanoseconds] [LEVEL] [tid:N] payload\<close> and a newline, with the nanoseconds as nine digits
  and the payload cut at 112 bytes, returns its length, at most 170, and leaves the rest of
  the buffer and the formatter's invariant alone.\<close>

theorem text_format_layout:
  assumes "dates_ok date_string" and "date_inv date_string f" and "wf_entry e"
    and "256 \<le> buf_size" and "buf_size \<le> length buf" and "ts_sec (timestamp_ns e) \<noteq> 0"
  shows "\<exists>f'. date_inv date_string f'
    \<and> TextFormatter_format date_string f e buf buf_size
      = Some (length (text_line (date_string (ts_sec (timestamp_ns e))) e), f',
          text_line (date_string (ts_sec (timestamp_ns e))) e
            @ drop (length (text_line (date_string (ts_sec (timestamp_ns e))) e)) buf)
    \<and> length (text_line (date_string (ts_sec (timestamp_ns e))) e) \<le> 170"
proof -
  have "length (date_string (ts_sec (timestamp_ns e))) = 19"
    using assms(1) ts_sec_small by (simp add: dates_ok_def)
  then show ?thesis
    using TextFormatter_text [OF assms(1-5)] assms(6) length_text_line [OF assms(3)] by auto
qed

definition demo_dates :: "u64 \<Rightarrow> bytes" where
  "demo_dates s = (if s = 1787609703 then ''2026-08-24 22:15:03'' else ''1970-01-01 00:00:00'')"

definition demo_entry :: LogEntry where
  "demo_entry = \<lparr>timestamp_ns = 1787609703000000042, thread_id = 12345, level = LVL_WARN,
     category = 0, payload_len = 5, payload = ''hello'' @ replicate 107 (CHR 0x00)\<rparr>"

definition demo_fmt :: TextFormatter where
  "demo_fmt = CachedDateFormatter_new (replicate 20 (CHR ''x''))"

lemma demo_dates_ok: "dates_ok demo_dates"
  by (simp add: dates_ok_def demo_dates_def)

lemma demo_line:
  "text_line ''2026-08-24 22:15:03'' demo_entry
    = ''[2026-08-24 22:15:03.000000042] [WARN ] [tid:12345] hello'' @ [CHR 0x0A]"
  by (simp add: text_line_def text_tail_def demo_entry_def level_to_string_def level_names_def
      LVL_WARN_def decimal_simps)

lemma text_format_layout_witness:
  "\<exists>f' rest. TextFormatter_format demo_dates demo_fmt demo_entry (replicate 256 (CHR 0x00)) 256
    = Some (58, f', ''[2026-08-24 22:15:03.000000042] [WARN ] [tid:12345] hello'' @ [CHR 0x0A] @ rest)"
proof -
  have "date_inv demo_dates demo_fmt" by (simp add: demo_fmt_def date_inv_new)
  moreover have "wf_entry demo_entry" by (simp add: wf_entry_def demo_entry_def PAYLOAD_SIZE_def)
  moreover have s: "demo_dates (ts_sec (timestamp_ns demo_entry)) = ''2026-08-24 22:15:03''"
    "ts_sec (timestamp_ns demo_entry) \<noteq> 0"
    by (simp_all add: demo_entry_def ts_sec_def demo_dates_def)
  ultimately show ?thesis
    using text_format_layout [OF demo_dates_ok, of demo_fmt demo_entry 256 "replicate 256 (CHR 0x00)"]
    unfolding s(1) demo_line by auto
qed

text \<open>\<open>fast_u32_to_str\<close> writes, right-aligned at the end pointer, the decimal numeral of
  its argument: at most ten characters that read back as the same number, nothing before or
  after them changed.\<close>

lemma fast_u32_to_str_decimal:
  assumes "10 \<le> e" and "e \<le> length buf"
  shows "\<exists>ds. fast_u32_to_str val buf e = Some (take (e - length ds) buf @ ds @ drop e buf, e - length ds)
    \<and> 1 \<le> length ds \<and> length ds \<le> 10 \<and> decimal_value ds 0 = unat val
    \<and> ds = dec_numeral (unat val)"
  using fast_u32_to_str_text [OF assms, of val] length_u32_numeral [of val]
    dec_numeral_nonempty [of "unat val"] decimal_value_numeral [of "unat val"]
  by (auto simp: Let_def Suc_le_eq)

text \<open>The date formatter writes, for any time stamp past second 0, the local date text of
  its second, a dot and the nine-digit nanoseconds, which read back as the time stamp modulo
  one second: 29 bytes, nothing else in the buffer changed, and the cache is transparent
  whatever second was formatted before.\<close>

lemma date_format_text:
  assumes "dates_ok date_string" and "date_inv date_string f" and "29 \<le> length rest"
    and "ts_sec wall \<noteq> 0"
  shows "\<exists>f'. format_date date_string f wall (pre @ rest) (length pre)
      = Some (29, f', pre @ date_text date_string wall @ drop 29 rest)
    \<and> date_inv date_string f' \<and> cached_sec f' = ts_sec wall
    \<and> decimal_value (drop 20 (date_text date_string wall)) 0 = unat wall mod 1000000000"
proof -
  have "length (date_string (ts_sec wall)) = 19"
    using assms(1) ts_sec_small by (simp add: dates_ok_def)
  then have "decimal_value (drop 20 (date_text date_string wall)) 0 = unat wall mod 1000000000"
    using decimal_value_padded [of "unat wall mod 1000000000" 9]
    by (simp add: date_text_def del: dec_padded.simps)
  then show ?thesis
    using format_date_text [OF assms(1-3) refl, of wall pre] assms(4)
    by (auto simp: date_text_def simp del: dec_padded.simps)
qed

text \<open>A time stamp inside second 0 is shown with an uninitialised date. A fresh formatter
  counts second 0 as cached, so it copies the indeterminate bytes of its prefix array.\<close>

lemma epoch_second_shows_junk:
  assumes "length junk = 20" and "unat wall < 1000000000" and "29 \<le> length buf"
  shows "\<exists>f' out. format_date date_string (CachedDateFormatter_new junk) wall buf 0 = Some (29, f', out)
    \<and> take 19 out = take 19 junk"
proof -
  let ?f = "CachedDateFormatter_new junk"
  have "ts_sec wall = 0" using assms(2) by (simp add: word_unat_eq_iff unat_ts_sec)
  then have r: "refresh_date date_string (ts_sec wall) ?f = ?f"
    by (simp add: refresh_date_def CachedDateFormatter_new_def)
  have c: "memcpy buf 0 (date_prefix ?f) 0 19 = Some (take 19 junk @ drop 19 buf)"
    using assms(1,3) by (simp add: memcpy_in overwrite_def CachedDateFormatter_new_def)
  have d: "store_at (take 19 junk @ drop 19 buf) (0 + 19) [CHR ''.'']
      = Some ((take 19 junk @ [CHR ''.'']) @ take 9 (drop 20 buf) @ drop 29 buf)"
    using store_at_append [of 19 "take 19 junk" "[CHR ''.'']" "drop 19 buf"] assms(1,3)
      append_take_drop_id [of 9 "drop 20 buf"] by simp
  have n: "ns_digits 9 (ts_nsec wall) 0 ((take 19 junk @ [CHR ''.'']) @ take 9 (drop 20 buf) @ drop 29 buf)
      = Some ((take 19 junk @ [CHR ''.'']) @ dec_padded 9 (unat (ts_nsec wall)) @ drop 29 buf)"
    using assms(1,3) by (intro ns_digits_text) simp_all
  have "format_date date_string ?f wall buf 0
      = Some (29, ?f, (take 19 junk @ [CHR ''.'']) @ dec_padded 9 (unat (ts_nsec wall)) @ drop 29 buf)"
    unfolding format_date_def Let_def r by (simp only: c d n Option.bind.simps)
  then show ?thesis using assms(1) by simp
qed

end
