(* ===== verification/Mmap_Sink.thy ===== *)
theory Mmap_Sink
  imports Logger_Prelude
begin

text \<open>
  include/mpmc_logger/mmap_sink.hpp and src/mmap_sink.cpp: the sink that appends to a
  memory-mapped file. The system calls are a record of functions on an abstract world,
  an argument of every operation; what a theorem needs of them is a named hypothesis. A
  copy past the end of the mapped region and an exception leaving a \<open>noexcept\<close> function
  are error values.
\<close>

section \<open>The system calls\<close>

record 'w posix =
  sys_mkdir :: "string \<Rightarrow> 'w \<Rightarrow> 'w"
  sys_open :: "string \<Rightarrow> 'w \<Rightarrow> int \<times> 'w"
  sys_fstat :: "int \<Rightarrow> 'w \<Rightarrow> u64 option"
  sys_close :: "int \<Rightarrow> 'w \<Rightarrow> 'w"
  sys_ftruncate :: "int \<Rightarrow> u64 \<Rightarrow> 'w \<Rightarrow> bool \<times> 'w"
  sys_mmap :: "int \<Rightarrow> u64 \<Rightarrow> u64 \<Rightarrow> 'w \<Rightarrow> u64 option \<times> 'w"
  sys_madvise :: "u64 \<Rightarrow> u64 \<Rightarrow> 'w \<Rightarrow> 'w"
  sys_munmap :: "u64 \<Rightarrow> u64 \<Rightarrow> 'w \<Rightarrow> 'w"
  sys_msync :: "u64 \<Rightarrow> u64 \<Rightarrow> bool \<Rightarrow> 'w \<Rightarrow> 'w"
  sys_unlink :: "string \<Rightarrow> 'w \<Rightarrow> 'w"
  sys_rename :: "string \<Rightarrow> string \<Rightarrow> 'w \<Rightarrow> 'w"
  mem_store :: "u64 \<Rightarrow> nat \<Rightarrow> bytes \<Rightarrow> 'w \<Rightarrow> 'w"

text \<open>
  \<open>sys_ftruncate\<close> says whether the call succeeded, \<open>sys_mmap\<close> is \<open>None\<close> for
  \<open>MAP_FAILED\<close>, the flag of \<open>sys_msync\<close> tells \<open>MS_SYNC\<close> from \<open>MS_ASYNC\<close>, and
  \<open>mem_store a i ys\<close> is the copy of \<open>ys\<close> to the mapped address \<open>a + i\<close>.
\<close>

section \<open>The sink\<close>

record MMapSink =
  base_path :: string
  region_size :: u64
  max_file_size :: u64
  max_rotated :: u64
  fd :: int
  mmap_ptr :: "u64 option"
  mmap_offset :: u64
  file_offset :: u64
  total_bytes_written :: u64
  rotation_count :: u64

datatype sink_error = Open_failed string | Region_overrun

definition open_file :: "'w posix \<Rightarrow> MMapSink \<Rightarrow> 'w \<Rightarrow> sink_error + MMapSink \<times> 'w" where
  "open_file ps s w =
     (let (d, w1) = sys_open ps (base_path s) w; s1 = s\<lparr>fd := d\<rparr>
      in if d < 0 then Inl (Open_failed (base_path s))
         else Inr (case sys_fstat ps d w1 of
             Some n \<Rightarrow> (s1\<lparr>file_offset := n\<rparr>, w1)
           | None \<Rightarrow> (s1, w1)))"

definition close_file :: "'w posix \<Rightarrow> MMapSink \<Rightarrow> 'w \<Rightarrow> MMapSink \<times> 'w" where
  "close_file ps s w =
     (let (s1, w1) = (if fd s \<ge> 0 then (s\<lparr>fd := -1\<rparr>, sys_close ps (fd s) w) else (s, w))
      in (s1\<lparr>file_offset := 0\<rparr>, w1))"

definition map_region :: "'w posix \<Rightarrow> MMapSink \<Rightarrow> 'w \<Rightarrow> MMapSink \<times> 'w" where
  "map_region ps s w =
     (if fd s < 0 then (s, w)
      else let new_file_end = file_offset s + region_size s;
               (ok, w1) = sys_ftruncate ps (fd s) new_file_end w
           in if \<not> ok then (s, w1)
              else case sys_mmap ps (fd s) (region_size s) (file_offset s) w1 of
                  (None, w2) \<Rightarrow> (s\<lparr>mmap_ptr := None\<rparr>, w2)
                | (Some a, w2) \<Rightarrow>
                    (s\<lparr>mmap_ptr := Some a, mmap_offset := 0\<rparr>, sys_madvise ps a (region_size s) w2))"

definition unmap_region :: "'w posix \<Rightarrow> MMapSink \<Rightarrow> 'w \<Rightarrow> MMapSink \<times> 'w" where
  "unmap_region ps s w =
     (let (s1, w1) = (case mmap_ptr s of
          Some a \<Rightarrow> (s\<lparr>mmap_ptr := None\<rparr>, sys_munmap ps a (region_size s) w)
        | None \<Rightarrow> (s, w))
      in (s1\<lparr>mmap_offset := 0\<rparr>, w1))"

definition rotated_name :: "string \<Rightarrow> nat \<Rightarrow> string" where
  "rotated_name base i = base @ ''.'' @ dec_numeral i"

text \<open>The shift loop: \<open>for (size_t i = max_rotated - 1; i >= 1; --i)\<close>.\<close>

function rotate_loop :: "'w posix \<Rightarrow> string \<Rightarrow> u64 \<Rightarrow> 'w \<Rightarrow> 'w" where
  "rotate_loop ps base i w =
     (if i \<ge> 1
      then rotate_loop ps base (i - 1)
             (sys_rename ps (rotated_name base (unat i)) (rotated_name base (unat (i + 1))) w)
      else w)"
  by pat_completeness auto
termination
  by (relation "measure (\<lambda>(ps, base, i, w). unat i)")
    (auto simp: word_le_nat_alt unat_sub measure_unat)

declare rotate_loop.simps [simp del]

definition rotate_files :: "'w posix \<Rightarrow> MMapSink \<Rightarrow> 'w \<Rightarrow> MMapSink \<times> 'w" where
  "rotate_files ps s w =
     (let s1 = s\<lparr>rotation_count := rotation_count s + 1\<rparr>;
          w1 = sys_unlink ps (rotated_name (base_path s) (unat (max_rotated s))) w;
          w2 = rotate_loop ps (base_path s) (max_rotated s - 1) w1
      in (s1, sys_rename ps (base_path s) (rotated_name (base_path s) 1) w2))"

text \<open>The accumulated path is created at each slash and at the end.\<close>

definition ensure_directory :: "'w posix \<Rightarrow> string \<Rightarrow> 'w \<Rightarrow> 'w" where
  "ensure_directory ps path w =
     fold (\<lambda>i w. if path ! i = CHR ''/'' \<or> i = length path - 1
                 then sys_mkdir ps (take (i + 1) path) w else w)
       [0..<length path] w"

text \<open>\<open>rfind('/')\<close> and the constructor, which lets the exception of \<open>open_file\<close> out.\<close>

definition rfind_slash :: "string \<Rightarrow> nat option" where
  "rfind_slash path =
     (case filter (\<lambda>i. path ! i = CHR ''/'') (rev [0..<length path]) of [] \<Rightarrow> None | i # _ \<Rightarrow> Some i)"

definition MMapSink_new ::
  "'w posix \<Rightarrow> string \<Rightarrow> u64 \<Rightarrow> u64 \<Rightarrow> u64 \<Rightarrow> 'w \<Rightarrow> sink_error + MMapSink \<times> 'w" where
  "MMapSink_new ps path rsize msize mrot w =
     (let s = \<lparr>base_path = path, region_size = rsize, max_file_size = msize, max_rotated = mrot,
                fd = -1, mmap_ptr = None, mmap_offset = 0, file_offset = 0,
                total_bytes_written = 0, rotation_count = 0\<rparr>;
          w1 = (case rfind_slash path of Some i \<Rightarrow> ensure_directory ps (take i path) w | None \<Rightarrow> w)
      in case open_file ps s w1 of
           Inl e \<Rightarrow> Inl e
         | Inr (s1, w2) \<Rightarrow> Inr (map_region ps s1 w2))"

definition sink_flush :: "'w posix \<Rightarrow> MMapSink \<Rightarrow> 'w \<Rightarrow> 'w" where
  "sink_flush ps s w =
     (case mmap_ptr s of
        Some a \<Rightarrow> if mmap_offset s > 0 then sys_msync ps a (mmap_offset s) True w else w
      | None \<Rightarrow> w)"

definition MMapSink_delete :: "'w posix \<Rightarrow> MMapSink \<Rightarrow> 'w \<Rightarrow> MMapSink \<times> 'w" where
  "MMapSink_delete ps s w =
     (let w1 = sink_flush ps s w; (s1, w2) = unmap_region ps s w1 in close_file ps s1 w2)"

text \<open>
  \<open>write\<close>, in two parts: leaving the full region (with the file rotation), then the copy.
  An exception of \<open>open_file\<close> ends the program here, since \<open>write\<close> is \<open>noexcept\<close>.
\<close>

definition next_region :: "'w posix \<Rightarrow> u64 \<Rightarrow> MMapSink \<Rightarrow> 'w \<Rightarrow> sink_error + MMapSink \<times> 'w" where
  "next_region ps len s w =
     (let w1 = (case mmap_ptr s of
            Some a \<Rightarrow> if mmap_offset s > 0 then sys_msync ps a (mmap_offset s) False w else w
          | None \<Rightarrow> w);
          (s2, w2) = unmap_region ps s w1
      in if file_offset s2 + len > max_file_size s2
         then let (s3, w3) = close_file ps s2 w2; (s4, w4) = rotate_files ps s3 w3
              in case open_file ps s4 w4 of
                   Inl e \<Rightarrow> Inl e
                 | Inr (s5, w5) \<Rightarrow> Inr (map_region ps s5 w5)
         else Inr (map_region ps s2 w2))"

definition copy_region :: "'w posix \<Rightarrow> bytes \<Rightarrow> MMapSink \<Rightarrow> 'w \<Rightarrow> sink_error + u64 \<times> MMapSink \<times> 'w" where
  "copy_region ps dat s w =
     (let len = of_nat (length dat)
      in case mmap_ptr s of
           None \<Rightarrow> Inr (0, s, w)
         | Some a \<Rightarrow>
             if unat (mmap_offset s) + length dat > unat (region_size s) then Inl Region_overrun
             else Inr (len, s\<lparr>mmap_offset := mmap_offset s + len, file_offset := file_offset s + len,
                              total_bytes_written := total_bytes_written s + len\<rparr>,
                       mem_store ps a (unat (mmap_offset s)) dat w))"

definition sink_write :: "'w posix \<Rightarrow> bytes \<Rightarrow> MMapSink \<Rightarrow> 'w \<Rightarrow> sink_error + u64 \<times> MMapSink \<times> 'w" where
  "sink_write ps dat s w =
     (let len = of_nat (length dat)
      in if len = 0 then Inr (0, s, w)
         else if mmap_ptr s = None then Inr (0, s, w)
         else if mmap_offset s + len > region_size s
              then case next_region ps len s w of
                     Inl e \<Rightarrow> Inl e
                   | Inr (s1, w1) \<Rightarrow> copy_region ps dat s1 w1
              else copy_region ps dat s w)"

text \<open>The accessors.\<close>

definition sink_bytes_written :: "MMapSink \<Rightarrow> u64" where
  "sink_bytes_written s = total_bytes_written s"

definition sink_rotations :: "MMapSink \<Rightarrow> u64" where
  "sink_rotations s = rotation_count s"

section \<open>Accounting and bounds\<close>

text \<open>A sink's write offset stays in its region; regions below \<open>2^63\<close> bytes rule out wrap-around.\<close>

definition sink_ok :: "MMapSink \<Rightarrow> bool" where
  "sink_ok s \<longleftrightarrow> unat (region_size s) < 2 ^ 63
     \<and> (mmap_ptr s \<noteq> None \<longrightarrow> unat (mmap_offset s) \<le> unat (region_size s))"

lemma write_dead [simp]: "mmap_ptr s = None \<Longrightarrow> sink_write ps dat s w = Inr (0, s, w)"
  by (simp add: sink_write_def Let_def)

lemma write_nothing [simp]: "sink_write ps [] s w = Inr (0, s, w)"
  by (simp add: sink_write_def Let_def)

text \<open>The region test reads as a test on natural numbers.\<close>

lemma region_test:
  assumes "sink_ok s" and "mmap_ptr s \<noteq> None" and "length dat < 2 ^ 63"
  shows "mmap_offset s + of_nat (length dat) > region_size s
    \<longleftrightarrow> unat (mmap_offset s) + length dat > unat (region_size s)"
proof -
  have "unat (mmap_offset s + of_nat (length dat)) = unat (mmap_offset s) + length dat"
    using assms unat_of_nat64 [of "length dat"] by (simp add: unat_add_pos sink_ok_def)
  then show ?thesis by (simp add: word_less_nat_alt)
qed

lemma write_fits:
  assumes "sink_ok s" and "mmap_ptr s = Some a" and "dat \<noteq> []"
    and "unat (mmap_offset s) + length dat \<le> unat (region_size s)"
  shows "sink_write ps dat s w = Inr (of_nat (length dat),
      s\<lparr>mmap_offset := mmap_offset s + of_nat (length dat),
        file_offset := file_offset s + of_nat (length dat),
        total_bytes_written := total_bytes_written s + of_nat (length dat)\<rparr>,
      mem_store ps a (unat (mmap_offset s)) dat w)"
proof -
  have len: "length dat < 2 ^ 63" using assms(1,4) by (simp add: sink_ok_def)
  then have "(of_nat (length dat) :: u64) \<noteq> 0"
    using assms(3) unat_of_nat64 [of "length dat"] by (auto simp: word_unat_eq_iff)
  then show ?thesis
    using region_test [of s dat] assms len by (simp add: sink_write_def copy_region_def Let_def)
qed

text \<open>What the steps leave alone.\<close>

definition same_config :: "MMapSink \<Rightarrow> MMapSink \<Rightarrow> bool" where
  "same_config s t \<longleftrightarrow> base_path t = base_path s \<and> region_size t = region_size s
     \<and> max_file_size t = max_file_size s \<and> max_rotated t = max_rotated s
     \<and> total_bytes_written t = total_bytes_written s"

lemma same_config_refl [simp]: "same_config s s"
  by (simp add: same_config_def)

lemma same_config_trans: "same_config s t \<Longrightarrow> same_config t u \<Longrightarrow> same_config s u"
  by (simp add: same_config_def)

lemma unmap_region_state:
  "unmap_region ps s w = (t, w') \<Longrightarrow> same_config s t \<and> mmap_ptr t = None \<and> mmap_offset t = 0
    \<and> fd t = fd s \<and> file_offset t = file_offset s \<and> rotation_count t = rotation_count s"
  by (auto simp: unmap_region_def same_config_def split: option.splits)

lemma close_file_state:
  "close_file ps s w = (t, w') \<Longrightarrow> same_config s t \<and> mmap_ptr t = mmap_ptr s
    \<and> mmap_offset t = mmap_offset s \<and> file_offset t = 0 \<and> rotation_count t = rotation_count s"
  by (auto simp: close_file_def same_config_def split: if_splits)

lemma rotate_files_state:
  "rotate_files ps s w = (t, w') \<Longrightarrow> t = s\<lparr>rotation_count := rotation_count s + 1\<rparr>"
  by (simp add: rotate_files_def Let_def)

lemma open_file_state:
  "open_file ps s w = Inr (t, w') \<Longrightarrow> same_config s t \<and> mmap_ptr t = mmap_ptr s
    \<and> mmap_offset t = mmap_offset s \<and> 0 \<le> fd t \<and> rotation_count t = rotation_count s"
  by (auto simp: open_file_def same_config_def Let_def split: prod.splits if_splits option.splits)

lemma open_file_error: "open_file ps s w = Inl e \<Longrightarrow> e = Open_failed (base_path s)"
  by (auto simp: open_file_def Let_def split: prod.splits if_splits option.splits)

lemma map_region_state:
  assumes "map_region ps s w = (t, w')" and "mmap_ptr s = None" and "mmap_offset s = 0"
  shows "same_config s t \<and> mmap_offset t = 0 \<and> file_offset t = file_offset s \<and> fd t = fd s
    \<and> rotation_count t = rotation_count s"
  using assms by (auto simp: map_region_def same_config_def Let_def split: prod.splits if_splits option.splits)

lemma next_region_state:
  assumes "next_region ps len s w = Inr (t, w')"
  shows "same_config s t \<and> mmap_offset t = 0"
proof -
  let ?w1 = "case mmap_ptr s of
      Some a \<Rightarrow> if mmap_offset s > 0 then sys_msync ps a (mmap_offset s) False w else w | None \<Rightarrow> w"
  obtain s2 w2 where u: "unmap_region ps s ?w1 = (s2, w2)" by fastforce
  note us = unmap_region_state [OF u]
  show ?thesis
  proof (cases "file_offset s2 + len > max_file_size s2")
    case False
    then have "map_region ps s2 w2 = (t, w')"
      using assms u by (simp add: next_region_def)
    then show ?thesis using map_region_state [of ps s2 w2] us same_config_trans by blast
  next
    case True
    obtain s3 w3 where c: "close_file ps s2 w2 = (s3, w3)" by fastforce
    obtain s4 w4 where r: "rotate_files ps s3 w3 = (s4, w4)" by fastforce
    obtain s5 w5 where o: "open_file ps s4 w4 = Inr (s5, w5)" and m: "map_region ps s5 w5 = (t, w')"
      using assms u True c r by (simp add: next_region_def Let_def split: sum.splits) fastforce
    have "same_config s s3 \<and> mmap_ptr s3 = None \<and> mmap_offset s3 = 0"
      using us close_file_state [OF c] same_config_trans by metis
    moreover have "same_config s3 s5 \<and> mmap_ptr s5 = mmap_ptr s3 \<and> mmap_offset s5 = mmap_offset s3"
      using rotate_files_state [OF r] open_file_state [OF o] by (simp add: same_config_def)
    ultimately show ?thesis
      using map_region_state [OF m] same_config_trans by metis
  qed
qed

lemma next_region_error: "next_region ps len s w = Inl e \<Longrightarrow> \<exists>p. e = Open_failed p"
  by (auto simp: next_region_def Let_def dest: open_file_error split: prod.splits if_splits sum.splits)

lemma copy_region_result:
  assumes "copy_region ps dat s w = Inr (k, t, w')" and "sink_ok s"
  shows "(k = 0 \<and> mmap_ptr s = None \<and> t = s \<or> k = of_nat (length dat) \<and> mmap_ptr s \<noteq> None)
    \<and> sink_ok t \<and> region_size t = region_size s \<and> mmap_ptr t = mmap_ptr s
    \<and> total_bytes_written t = total_bytes_written s + k"
proof (cases "mmap_ptr s")
  case None
  then show ?thesis using assms by (simp add: copy_region_def Let_def)
next
  case (Some a)
  have room: "unat (mmap_offset s) + length dat \<le> unat (region_size s)"
    using assms Some by (simp add: copy_region_def Let_def split: if_splits)
  then have "unat (mmap_offset s + of_nat (length dat)) = unat (mmap_offset s) + length dat"
    using assms(2) unat_of_nat64 [of "length dat"] by (simp add: unat_add_pos sink_ok_def)
  then show ?thesis
    using assms Some room by (auto simp: copy_region_def sink_ok_def Let_def split: if_splits)
qed

lemma sink_ok_fresh_region: "same_config s t \<Longrightarrow> mmap_offset t = 0 \<Longrightarrow> sink_ok s \<Longrightarrow> sink_ok t"
  by (simp add: sink_ok_def same_config_def)

lemma write_result:
  assumes ok: "sink_ok s" and w: "sink_write ps dat s w = Inr (k, t, w')"
  shows "(k = 0 \<or> k = of_nat (length dat)) \<and> sink_ok t \<and> region_size t = region_size s
    \<and> total_bytes_written t = total_bytes_written s + k"
proof -
  have direct: "(k = 0 \<or> k = of_nat (length dat)) \<and> sink_ok t \<and> region_size t = region_size s
      \<and> total_bytes_written t = total_bytes_written s + k"
    if "copy_region ps dat s1 w1 = Inr (k, t, w')" "same_config s s1" "sink_ok s1" for s1 w1
    using copy_region_result [OF that(1,3)] that(2) by (auto simp: same_config_def)
  consider "k = 0" "t = s" | "copy_region ps dat s w = Inr (k, t, w')"
    | s1 w1 where "next_region ps (of_nat (length dat)) s w = Inr (s1, w1)"
      "copy_region ps dat s1 w1 = Inr (k, t, w')"
    using w by (auto simp: sink_write_def Let_def split: if_splits sum.splits)
  then show ?thesis
  proof cases
    case 1
    then show ?thesis using ok by simp
  next
    case 2
    then show ?thesis using direct [of s w] ok by simp
  next
    case 3
    then show ?thesis
      using direct [OF 3(2)] next_region_state [OF 3(1)] sink_ok_fresh_region [OF _ _ ok] by blast
  qed
qed

lemma copy_region_error:
  assumes "copy_region ps dat s w = Inl e"
  shows "e = Region_overrun \<and> mmap_ptr s \<noteq> None
    \<and> unat (mmap_offset s) + length dat > unat (region_size s)"
  using assms by (auto simp: copy_region_def Let_def split: option.splits if_splits)

text \<open>A write no longer than the region never leaves it.\<close>

lemma write_in_region:
  assumes ok: "sink_ok s" and len: "length dat \<le> unat (region_size s)"
  shows "sink_write ps dat s w \<noteq> Inl Region_overrun"
proof
  assume w: "sink_write ps dat s w = Inl Region_overrun"
  have l: "length dat < 2 ^ 63" using ok len by (simp add: sink_ok_def)
  consider "mmap_ptr s \<noteq> None" "\<not> mmap_offset s + of_nat (length dat) > region_size s"
      "copy_region ps dat s w = Inl Region_overrun"
    | "next_region ps (of_nat (length dat)) s w = Inl Region_overrun"
    | s1 w1 where "next_region ps (of_nat (length dat)) s w = Inr (s1, w1)"
      "copy_region ps dat s1 w1 = Inl Region_overrun"
    using w by (auto simp: sink_write_def Let_def split: if_splits sum.splits)
  then show False
  proof cases
    case 1
    then show False using region_test [OF ok 1(1) l] copy_region_error [OF 1(3)] by simp
  next
    case 2
    then show False using next_region_error [OF 2] by blast
  next
    case 3
    then show False
      using copy_region_error [OF 3(2)] next_region_state [OF 3(1)] len by (simp add: same_config_def)
  qed
qed

section \<open>A list of writes\<close>

fun write_all :: "'w posix \<Rightarrow> bytes list \<Rightarrow> MMapSink \<Rightarrow> 'w \<Rightarrow> sink_error + u64 list \<times> MMapSink \<times> 'w" where
  "write_all ps [] s w = Inr ([], s, w)"
| "write_all ps (d # ds) s w =
     (case sink_write ps d s w of
        Inl e \<Rightarrow> Inl e
      | Inr (k, s1, w1) \<Rightarrow>
          (case write_all ps ds s1 w1 of
             Inl e \<Rightarrow> Inl e
           | Inr (ks, s2, w2) \<Rightarrow> Inr (k # ks, s2, w2)))"

lemma write_all_result:
  assumes "sink_ok s" and "write_all ps ds s w = Inr (ks, t, w')"
  shows "list_all2 (\<lambda>d k. k = 0 \<or> k = of_nat (length d)) ds ks \<and> sink_ok t
    \<and> region_size t = region_size s
    \<and> total_bytes_written t = total_bytes_written s + sum_list ks"
  using assms
proof (induction ds arbitrary: s w ks)
  case (Cons d ds)
  obtain k s1 w1 ks' where c: "sink_write ps d s w = Inr (k, s1, w1)"
    "write_all ps ds s1 w1 = Inr (ks', t, w')" "ks = k # ks'"
    using Cons.prems(2) by (auto split: sum.splits)
  note r = write_result [OF Cons.prems(1) c(1)]
  show ?case using Cons.IH [OF _ c(2)] r c(3) by (auto simp: add.assoc)
qed simp

lemma write_all_dead:
  assumes "mmap_ptr s = None"
  shows "write_all ps ds s w = Inr (replicate (length ds) 0, s, w)"
  using assms by (induction ds) simp_all

lemma write_all_in_region:
  assumes "sink_ok s" and "\<forall>d \<in> set ds. length d \<le> unat (region_size s)"
  shows "write_all ps ds s w \<noteq> Inl Region_overrun"
  using assms
proof (induction ds arbitrary: s w)
  case (Cons d ds)
  show ?case
  proof (cases "sink_write ps d s w")
    case (Inl e)
    then show ?thesis using write_in_region [of s d ps w] Cons.prems by auto
  next
    case (Inr r)
    obtain k s1 w1 where r: "r = (k, s1, w1)" using prod_cases3 by blast
    have "sink_ok s1 \<and> region_size s1 = region_size s"
      using write_result [OF Cons.prems(1), of ps d w k s1 w1] Inr r by simp
    then have "write_all ps ds s1 w1 \<noteq> Inl Region_overrun" using Cons by simp
    then show ?thesis using Inr r by (auto split: sum.splits)
  qed
qed simp

section \<open>Rotation\<close>

lemma rotate_loop_fold:
  "rotate_loop ps base i w =
    fold (\<lambda>j. sys_rename ps (rotated_name base j) (rotated_name base ((j + 1) mod 2 ^ 64)))
      (rev [1..<unat i + 1]) w"
proof (induction ps base i w rule: rotate_loop.induct)
  case (1 ps base i w)
  show ?case
  proof (cases "i \<ge> 1")
    case False
    then have "i = 0" by (simp add: word_le_nat_alt word_unat_eq_iff)
    then show ?thesis by (simp add: rotate_loop.simps [of ps base 0])
  next
    case True
    then have u: "unat i = unat (i - 1) + 1" by (simp add: word_le_nat_alt unat_sub)
    have "unat (i + 1) = (unat i + 1) mod 2 ^ 64" by (simp add: unat_word_ariths)
    then show ?thesis
      using True 1 u by (simp add: rotate_loop.simps [of ps base i])
  qed
qed

text \<open>The loop bound: \<open>max_rotated - 1\<close> on a 64-bit unsigned integer.\<close>

lemma unat_pred: "unat (m - 1 :: u64) + 1 = (if m = 0 then 2 ^ 64 else unat m)"
proof (cases "m = 0")
  case True
  then show ?thesis by (simp add: unsigned_minus_1_eq_mask mask_eq_exp_minus_1)
next
  case False
  then have "1 \<le> m" by (simp add: word_le_nat_alt word_unat_eq_iff Suc_le_eq)
  then show ?thesis using False by (simp add: word_le_nat_alt unat_sub)
qed

lemma rotated_name_inject [simp]: "rotated_name base i = rotated_name base j \<longleftrightarrow> i = j"
  by (simp add: rotated_name_def dec_numeral_inject)

lemma rotated_name_base [simp]: "rotated_name base i \<noteq> base" "base \<noteq> rotated_name base i"
  by (simp_all add: rotated_name_def)

text \<open>What \<open>rename\<close> and \<open>unlink\<close> do to the directory.\<close>

definition names_ok :: "'w posix \<Rightarrow> ('w \<Rightarrow> string \<rightharpoonup> 'c) \<Rightarrow> bool" where
  "names_ok ps files \<longleftrightarrow>
     (\<forall>a b w. a \<noteq> b \<longrightarrow> files (sys_rename ps a b w) =
        (case files w a of None \<Rightarrow> files w | Some c \<Rightarrow> (files w)(b \<mapsto> c, a := None)))
     \<and> (\<forall>p w. files (sys_unlink ps p w) = (files w)(p := None))"

lemma shift_names:
  assumes ok: "names_ok ps files" and m: "1 \<le> m" "m < 2 ^ 64"
    and none: "files w (rotated_name base m) = None"
  defines "w' \<equiv> fold (\<lambda>j. sys_rename ps (rotated_name base j) (rotated_name base ((j + 1) mod 2 ^ 64)))
      (rev [1..<m]) w"
  shows "(\<forall>i. 2 \<le> i \<and> i \<le> m \<longrightarrow> files w' (rotated_name base i) = files w (rotated_name base (i - 1)))
    \<and> files w' (rotated_name base 1) = None
    \<and> (\<forall>p. (\<forall>i. 1 \<le> i \<and> i \<le> m \<longrightarrow> p \<noteq> rotated_name base i) \<longrightarrow> files w' p = files w p)"
  unfolding w'_def using m none
proof (induction m arbitrary: w)
  case (Suc m)
  let ?f = "\<lambda>j. sys_rename ps (rotated_name base j) (rotated_name base ((j + 1) mod 2 ^ 64))"
  show ?case
  proof (cases "m = 0")
    case True
    then show ?thesis using Suc.prems(3) by auto
  next
    case False
    define w1 where "w1 = ?f m w"
    have f1: "files w1 = (case files w (rotated_name base m) of None \<Rightarrow> files w
        | Some c \<Rightarrow> (files w)(rotated_name base (Suc m) \<mapsto> c, rotated_name base m := None))"
      using ok Suc.prems(2) by (simp add: w1_def names_ok_def)
    have g: "files w1 (rotated_name base (Suc m)) = files w (rotated_name base m)"
      "files w1 (rotated_name base m) = None"
      "p \<noteq> rotated_name base m \<Longrightarrow> p \<noteq> rotated_name base (Suc m) \<Longrightarrow> files w1 p = files w p" for p
      using Suc.prems(3) by (simp_all add: f1 split: option.splits)
    have l: "rev [1..<Suc m] = m # rev [1..<m]" using False by simp
    have ih: "(\<forall>i. 2 \<le> i \<and> i \<le> m \<longrightarrow>
          files (fold ?f (rev [1..<m]) w1) (rotated_name base i) = files w1 (rotated_name base (i - 1)))
      \<and> files (fold ?f (rev [1..<m]) w1) (rotated_name base 1) = None
      \<and> (\<forall>p. (\<forall>i. 1 \<le> i \<and> i \<le> m \<longrightarrow> p \<noteq> rotated_name base i) \<longrightarrow>
          files (fold ?f (rev [1..<m]) w1) p = files w1 p)"
      using Suc.IH [of w1] False Suc.prems(2) g(2) by simp
    have fold: "fold ?f (rev [1..<Suc m]) w = fold ?f (rev [1..<m]) w1"
      unfolding l by (simp add: w1_def)
    have top: "files (fold ?f (rev [1..<m]) w1) (rotated_name base (Suc m)) = files w (rotated_name base m)"
      using ih g(1) by simp
    have low: "files w1 (rotated_name base (i - 1)) = files w (rotated_name base (i - 1))"
      if "2 \<le> i" "i \<le> m" for i
      using that by (intro g(3)) auto
    have others: "files w1 p = files w p" if "\<forall>i. 1 \<le> i \<and> i \<le> Suc m \<longrightarrow> p \<noteq> rotated_name base i" for p
      using that False by (intro g(3)) auto
    show ?thesis
      unfolding fold using ih top low others by (auto simp: le_Suc_eq)
  qed
qed simp

lemma rotate_files_fold:
  "rotate_files ps s w =
    (s\<lparr>rotation_count := rotation_count s + 1\<rparr>,
     sys_rename ps (base_path s) (rotated_name (base_path s) 1)
       (fold (\<lambda>j. sys_rename ps (rotated_name (base_path s) j)
                      (rotated_name (base_path s) ((j + 1) mod 2 ^ 64)))
         (rev [1..<(if max_rotated s = 0 then 2 ^ 64 else unat (max_rotated s))])
         (sys_unlink ps (rotated_name (base_path s) (unat (max_rotated s))) w)))"
  by (simp only: rotate_files_def Let_def rotate_loop_fold unat_pred)

lemma rotate_files_names:
  assumes ok: "names_ok ps files" and m: "max_rotated s \<noteq> 0" and r: "rotate_files ps s w = (t, w')"
  shows "files w' (base_path s) = None
    \<and> files w' (rotated_name (base_path s) 1) = files w (base_path s)
    \<and> (\<forall>i. 2 \<le> i \<and> i \<le> unat (max_rotated s) \<longrightarrow>
        files w' (rotated_name (base_path s) i) = files w (rotated_name (base_path s) (i - 1)))
    \<and> (\<forall>p. p \<noteq> base_path s \<and> (\<forall>i. 1 \<le> i \<and> i \<le> unat (max_rotated s) \<longrightarrow>
          p \<noteq> rotated_name (base_path s) i) \<longrightarrow> files w' p = files w p)"
proof -
  let ?n = "rotated_name (base_path s)" and ?m = "unat (max_rotated s)"
  let ?f = "\<lambda>j. sys_rename ps (?n j) (?n ((j + 1) mod 2 ^ 64))"
  define w1 where "w1 = sys_unlink ps (?n ?m) w"
  define w2 where "w2 = fold ?f (rev [1..<?m]) w1"
  have w': "w' = sys_rename ps (base_path s) (?n 1) w2"
  proof -
    have "(if max_rotated s = 0 then 2 ^ 64 else ?m) = ?m" using m by simp
    then show ?thesis
      using r unfolding rotate_files_fold w1_def w2_def by (simp only: prod.inject)
  qed
  have f1: "files w1 = (files w)(?n ?m := None)" using ok by (simp add: names_ok_def w1_def)
  have m1: "1 \<le> ?m" using m by (simp add: word_unat_eq_iff Suc_le_eq)
  have m2: "?m < 2 ^ 64" by simp
  have none: "files w1 (?n ?m) = None" by (simp add: f1)
  note sh = shift_names [where base = "base_path s", OF ok m1 m2 none, folded w2_def]
  have b: "files w2 (base_path s) = files w (base_path s)" and n1: "files w2 (?n 1) = None"
    using sh by (auto simp: f1)
  have up: "files w2 (?n i) = files w (?n (i - 1))" if "2 \<le> i" "i \<le> ?m" for i
  proof -
    have "files w2 (?n i) = files w1 (?n (i - 1))" using sh that by blast
    moreover have "i - 1 \<noteq> ?m" using that by simp
    ultimately show ?thesis by (simp add: f1)
  qed
  have rest: "files w2 p = files w p" if "\<forall>i. 1 \<le> i \<and> i \<le> ?m \<longrightarrow> p \<noteq> ?n i" for p
  proof -
    have "files w2 p = files w1 p" using sh that by blast
    moreover have "p \<noteq> ?n ?m" using that m1 by blast
    ultimately show ?thesis by (simp add: f1)
  qed
  have "files w' = (case files w (base_path s) of None \<Rightarrow> files w2
      | Some c \<Rightarrow> (files w2)(?n 1 \<mapsto> c, base_path s := None))"
    using ok b by (simp add: names_ok_def w' split: option.splits)
  then have f: "files w' q = (if q = base_path s then None else if q = ?n 1 then files w (base_path s)
      else files w2 q)" for q
    using b n1 by (cases "files w (base_path s)") auto
  show ?thesis
    using up rest m1 by (auto simp: f)
qed

section \<open>The bytes of the file\<close>

text \<open>
  What the calls do to the bytes of the open file (\<open>view\<close>), with \<open>base w\<close> the file
  offset of the mapping: \<open>fstat\<close> reports the length, \<open>ftruncate\<close> cuts or pads with zeros,
  \<open>mmap\<close> demands an offset that is a multiple of the page size, a store into a shared
  mapping is a store into the file, and the other calls leave the bytes alone.
\<close>

definition posix_file_ok :: "'w posix \<Rightarrow> nat \<Rightarrow> ('w \<Rightarrow> bytes) \<Rightarrow> ('w \<Rightarrow> nat) \<Rightarrow> bool" where
  "posix_file_ok ps page view base \<longleftrightarrow>
     (\<forall>d w. sys_fstat ps d w = Some (of_nat (length (view w))))
     \<and> (\<forall>d n w. fst (sys_ftruncate ps d n w) \<longrightarrow>
          view (snd (sys_ftruncate ps d n w))
            = take (unat n) (view w @ replicate (unat n - length (view w)) (CHR 0x00)))
     \<and> (\<forall>d n off w. unat off mod page \<noteq> 0 \<longrightarrow> fst (sys_mmap ps d n off w) = None)
     \<and> (\<forall>d n off w. view (snd (sys_mmap ps d n off w)) = view w
          \<and> (fst (sys_mmap ps d n off w) \<noteq> None \<longrightarrow> base (snd (sys_mmap ps d n off w)) = unat off))
     \<and> (\<forall>a n w. view (sys_madvise ps a n w) = view w \<and> base (sys_madvise ps a n w) = base w)
     \<and> (\<forall>a n w. view (sys_munmap ps a n w) = view w)
     \<and> (\<forall>a n b w. view (sys_msync ps a n b w) = view w \<and> base (sys_msync ps a n b w) = base w)
     \<and> (\<forall>d w. view (sys_close ps d w) = view w)
     \<and> (\<forall>a i ys w. base w + i + length ys \<le> length (view w) \<longrightarrow>
          view (mem_store ps a i ys w) = overwrite (base w + i) ys (view w)
          \<and> base (mem_store ps a i ys w) = base w)"

lemma write_all_fits:
  assumes laws: "posix_file_ok ps page view base"
    and ok: "sink_ok s" and live: "mmap_ptr s = Some a"
    and fits: "unat (mmap_offset s) + length (concat ds) \<le> unat (region_size s)"
    and mapped: "base w + unat (region_size s) \<le> length (view w)"
  shows "\<exists>t w'. write_all ps ds s w = Inr (map (\<lambda>d. of_nat (length d)) ds, t, w')
    \<and> view w' = overwrite (base w + unat (mmap_offset s)) (concat ds) (view w)
    \<and> base w' = base w \<and> mmap_ptr t = Some a \<and> region_size t = region_size s \<and> sink_ok t
    \<and> unat (mmap_offset t) = unat (mmap_offset s) + length (concat ds)"
  using ok live fits mapped
proof (induction ds arbitrary: s w)
  case Nil
  then show ?case by simp
next
  case (Cons d ds)
  show ?case
  proof (cases "d = []")
    case True
    then show ?thesis using Cons.IH [of s w] Cons.prems by auto
  next
    case False
    let ?k = "of_nat (length d) :: u64" and ?off = "unat (mmap_offset s)"
    let ?s1 = "s\<lparr>mmap_offset := mmap_offset s + ?k, file_offset := file_offset s + ?k,
      total_bytes_written := total_bytes_written s + ?k\<rparr>"
    let ?w1 = "mem_store ps a ?off d w"
    have room: "?off + length d \<le> unat (region_size s)" using Cons.prems(3) by simp
    have one: "sink_write ps d s w = Inr (?k, ?s1, ?w1)"
      by (rule write_fits [OF Cons.prems(1,2) False room])
    have bound: "unat (region_size s) < 2 ^ 63" using Cons.prems(1) by (simp add: sink_ok_def)
    have off: "unat (mmap_offset ?s1) = ?off + length d"
      using room bound unat_of_nat64 [of "length d"] by (simp add: unat_add_pos)
    have v: "view ?w1 = overwrite (base w + ?off) d (view w)" "base ?w1 = base w"
      using laws room Cons.prems(4) by (simp_all add: posix_file_ok_def)
    have len: "length (view ?w1) = length (view w)" using room Cons.prems(4) by (simp add: v(1))
    obtain t w' where ih: "write_all ps ds ?s1 ?w1 = Inr (map (\<lambda>d. of_nat (length d)) ds, t, w')"
      "view w' = overwrite (base ?w1 + unat (mmap_offset ?s1)) (concat ds) (view ?w1)"
      "base w' = base ?w1 \<and> mmap_ptr t = Some a \<and> region_size t = region_size ?s1 \<and> sink_ok t
        \<and> unat (mmap_offset t) = unat (mmap_offset ?s1) + length (concat ds)"
    proof -
      have "sink_ok ?s1" "mmap_ptr ?s1 = Some a"
        "unat (mmap_offset ?s1) + length (concat ds) \<le> unat (region_size ?s1)"
        "base ?w1 + unat (region_size ?s1) \<le> length (view ?w1)"
        using bound Cons.prems off v(2) len by (simp_all add: sink_ok_def)
      from Cons.IH [OF this] show ?thesis using that by blast
    qed
    have "view w' = overwrite (base w + ?off) (d @ concat ds) (view w)"
      using ih(2) off v overwrite_overwrite [of "base w + ?off" d "view w" "concat ds"]
        room Cons.prems(4) by (simp add: add.assoc)
    then show ?thesis using one ih(1,3) v(2) off by simp
  qed
qed

text \<open>Opening a region, and the region that cannot be opened.\<close>

lemma map_region_view:
  assumes laws: "posix_file_ok ps page view base" and m: "map_region ps s w = (t, w')"
    and none: "mmap_ptr s = None" and live: "mmap_ptr t = Some a"
    and room: "unat (file_offset s) + unat (region_size s) < 2 ^ 64"
    and size: "length (view w) \<le> unat (file_offset s) + unat (region_size s)"
  shows "view w' = view w @ replicate (unat (file_offset s) + unat (region_size s) - length (view w)) (CHR 0x00)
    \<and> base w' = unat (file_offset s) \<and> mmap_offset t = 0 \<and> region_size t = region_size s"
proof -
  let ?n = "file_offset s + region_size s"
  obtain ok w1 where tr: "sys_ftruncate ps (fd s) ?n w = (ok, w1)" by fastforce
  obtain p w2 where mm: "sys_mmap ps (fd s) (region_size s) (file_offset s) w1 = (p, w2)" by fastforce
  have "fd s \<ge> 0 \<and> ok \<and> p = Some a \<and> t = s\<lparr>mmap_ptr := Some a, mmap_offset := 0\<rparr>
      \<and> w' = sys_madvise ps a (region_size s) w2"
    using m none live tr mm
    by (auto simp: map_region_def Let_def split: if_splits option.splits)
  moreover have "unat ?n = unat (file_offset s) + unat (region_size s)"
    using room by (rule unat_add_pos)
  moreover have "ok \<Longrightarrow> view w1 = take (unat ?n) (view w @ replicate (unat ?n - length (view w)) (CHR 0x00))"
    using laws tr unfolding posix_file_ok_def by (metis fst_conv snd_conv)
  moreover have "view w2 = view w1 \<and> (p \<noteq> None \<longrightarrow> base w2 = unat (file_offset s))"
    using laws mm unfolding posix_file_ok_def by (metis fst_conv snd_conv)
  ultimately show ?thesis using laws size by (simp add: posix_file_ok_def)
qed

lemma map_region_unaligned:
  assumes laws: "posix_file_ok ps page view base" and "mmap_ptr s = None"
    and "unat (file_offset s) mod page \<noteq> 0"
  shows "mmap_ptr (fst (map_region ps s w)) = None"
proof -
  have "fst (sys_mmap ps (fd s) (region_size s) (file_offset s) w1) = None" for w1
    using laws assms(3) by (simp add: posix_file_ok_def)
  then have "\<exists>w2. sys_mmap ps (fd s) (region_size s) (file_offset s) w1 = (None, w2)" for w1
    by (metis prod.collapse)
  then show ?thesis
    using assms(2) by (auto simp: map_region_def Let_def split: prod.splits option.splits)
       (metis option.distinct(1) prod.inject)
qed

section \<open>Records across regions\<close>

text \<open>
  A log of records whose size divides the region size, as the binary log's: \<open>holds n xs\<close> says
  the open file is the bytes \<open>xs\<close> written so far and zeros up to the end of the mapped region.
  Resources are assumed available: the file can be opened and extended, and a page-aligned
  region can be mapped.
\<close>

definition regions_available :: "'w posix \<Rightarrow> nat \<Rightarrow> bool" where
  "regions_available ps page \<longleftrightarrow>
     (\<forall>p w. 0 \<le> fst (sys_open ps p w)) \<and> (\<forall>d n w. fst (sys_ftruncate ps d n w))
     \<and> (\<forall>d n off w. unat off mod page = 0 \<longrightarrow> fst (sys_mmap ps d n off w) \<noteq> None)"

definition holds :: "('w \<Rightarrow> bytes) \<Rightarrow> ('w \<Rightarrow> nat) \<Rightarrow> bytes \<Rightarrow> MMapSink \<Rightarrow> 'w \<Rightarrow> bool" where
  "holds view base xs s w \<longleftrightarrow>
     sink_ok s \<and> mmap_ptr s \<noteq> None \<and> 0 \<le> fd s
     \<and> base w mod unat (region_size s) = 0
     \<and> length xs = base w + unat (mmap_offset s) \<and> unat (file_offset s) = length xs
     \<and> view w = xs @ replicate (base w + unat (region_size s) - length xs) (CHR 0x00)"

lemma holds_step:
  assumes laws: "posix_file_ok ps page view base" and h: "holds view base xs s w"
    and room: "unat (mmap_offset s) + length d \<le> unat (region_size s)" and ne: "d \<noteq> []"
    and size: "length xs + length d < 2 ^ 64"
  shows "\<exists>t w'. sink_write ps d s w = Inr (of_nat (length d), t, w') \<and> holds view base (xs @ d) t w'
    \<and> same_config s (t\<lparr>total_bytes_written := total_bytes_written s\<rparr>)"
proof -
  have st: "sink_ok s" "0 \<le> fd s" "base w mod unat (region_size s) = 0"
    "length xs = base w + unat (mmap_offset s)" "unat (file_offset s) = length xs"
    "view w = xs @ replicate (base w + unat (region_size s) - length xs) (CHR 0x00)"
    using h by (simp_all add: holds_def)
  obtain a where a: "mmap_ptr s = Some a" using h by (auto simp: holds_def)
  let ?k = "of_nat (length d) :: u64"
  let ?t = "s\<lparr>mmap_offset := mmap_offset s + ?k, file_offset := file_offset s + ?k,
    total_bytes_written := total_bytes_written s + ?k\<rparr>"
  let ?w = "mem_store ps a (unat (mmap_offset s)) d w"
  have one: "sink_write ps d s w = Inr (?k, ?t, ?w)" by (rule write_fits [OF st(1) a ne room])
  have k: "unat ?k = length d" using size by (intro unat_of_nat64) simp
  have bound: "unat (region_size s) < 2 ^ 63" using st(1) by (simp add: sink_ok_def)
  have off: "unat (mmap_offset ?t) = unat (mmap_offset s) + length d"
    using room bound k by (simp add: unat_add_pos)
  have foff: "unat (file_offset ?t) = length xs + length d"
    using size st(5) k by (simp add: unat_add_pos)
  have "base w + unat (mmap_offset s) + length d \<le> length (view w)" using st(4,6) room by simp
  then have v: "view ?w = overwrite (base w + unat (mmap_offset s)) d (view w)" "base ?w = base w"
    using laws by (simp_all add: posix_file_ok_def)
  have "view ?w = (xs @ d) @ replicate (base w + unat (region_size s) - length (xs @ d)) (CHR 0x00)"
    using st(4,6) room by (simp add: v(1) overwrite_def)
  then have "holds view base (xs @ d) ?t ?w"
    using st(2,3,4) a bound off foff v(2) room by (simp add: holds_def sink_ok_def)
  then show ?thesis using one by (auto simp: same_config_def)
qed

lemma map_region_available:
  assumes avail: "regions_available ps page" and m: "map_region ps s w = (t, w')"
    and d: "0 \<le> fd s" and al: "unat (file_offset s) mod page = 0"
  shows "mmap_ptr t \<noteq> None"
proof -
  obtain ok w1 where tr: "sys_ftruncate ps (fd s) (file_offset s + region_size s) w = (ok, w1)"
    by fastforce
  obtain p w2 where mm: "sys_mmap ps (fd s) (region_size s) (file_offset s) w1 = (p, w2)" by fastforce
  have "ok" using avail tr unfolding regions_available_def by (metis fst_conv)
  moreover have "p \<noteq> None" using avail al mm unfolding regions_available_def by (metis fst_conv)
  ultimately show ?thesis using m tr mm d by (auto simp: map_region_def Let_def)
qed

text \<open>A full region is followed by the next one, with the file extended by zeros.\<close>

lemma next_region_holds:
  assumes laws: "posix_file_ok ps page view base" and avail: "regions_available ps page"
    and h: "holds view base xs s w" and full: "mmap_offset s = region_size s"
    and aligned: "page dvd unat (region_size s)" and fits: "file_offset s + len \<le> max_file_size s"
    and size: "length xs + unat (region_size s) < 2 ^ 64"
  shows "\<exists>t w'. next_region ps len s w = Inr (t, w') \<and> holds view base xs t w' \<and> mmap_offset t = 0
    \<and> same_config s t"
proof -
  have st: "sink_ok s" "0 \<le> fd s" "base w mod unat (region_size s) = 0"
    "length xs = base w + unat (region_size s)" "unat (file_offset s) = length xs"
    "view w = xs @ replicate (base w + unat (region_size s) - length xs) (CHR 0x00)"
    using h full by (simp_all add: holds_def)
  obtain a where a: "mmap_ptr s = Some a" using h by (auto simp: holds_def)
  let ?w1 = "if mmap_offset s > 0 then sys_msync ps a (mmap_offset s) False w else w"
  obtain s2 w2 where u: "unmap_region ps s ?w1 = (s2, w2)" by fastforce
  note us = unmap_region_state [OF u]
  have "view w2 = view w"
    using u laws a by (auto simp: unmap_region_def posix_file_ok_def)
  then have v2: "view w2 = xs" using st(4,6) by simp
  obtain t w' where m: "map_region ps s2 w2 = (t, w')" by fastforce
  have d: "unat (region_size s) dvd base w" using st(3) by (simp add: dvd_eq_mod_eq_0)
  have "page dvd base w + unat (region_size s)"
    by (rule dvd_add [OF dvd_trans [OF aligned d] aligned])
  then have al: "unat (file_offset s2) mod page = 0"
    using us st(4,5) by (simp add: dvd_eq_mod_eq_0)
  have "mmap_ptr t \<noteq> None"
    by (rule map_region_available [OF avail m _ al]) (use us st(2) in simp)
  then have "mmap_ptr t \<noteq> None \<and> fd t = fd s2 \<and> file_offset t = file_offset s2"
    using map_region_state [OF m] us by simp
  then obtain b where b: "mmap_ptr t = Some b" "fd t = fd s2" "file_offset t = file_offset s2" by auto
  have "view w' = view w2 @ replicate (unat (file_offset s2) + unat (region_size s2) - length (view w2)) (CHR 0x00)
      \<and> base w' = unat (file_offset s2) \<and> mmap_offset t = 0 \<and> region_size t = region_size s2"
    by (rule map_region_view [OF laws m _ b(1)]) (use us st(5) size v2 in \<open>auto simp: same_config_def\<close>)
  then have "holds view base xs t w'" "mmap_offset t = 0"
    using us b st v2 map_region_state [OF m] by (auto simp: holds_def same_config_def sink_ok_def)
  moreover have "same_config s t"
    using us map_region_state [OF m] same_config_trans by blast
  moreover have "next_region ps len s w = Inr (t, w')"
  proof -
    have "\<not> max_file_size s2 < file_offset s2 + len" using fits us by (simp add: same_config_def)
    then show ?thesis using a u m by (simp add: next_region_def Let_def)
  qed
  ultimately show ?thesis by blast
qed

text \<open>One record: into the current region, or into the next one when the region is full.\<close>

lemma write_after_next:
  assumes "mmap_ptr s \<noteq> None" and "dat \<noteq> []" and "length dat < 2 ^ 63"
    and "mmap_offset s + of_nat (length dat) > region_size s"
    and "next_region ps (of_nat (length dat)) s w = Inr (t, v)"
    and "mmap_ptr t \<noteq> None" and "\<not> mmap_offset t + of_nat (length dat) > region_size t"
  shows "sink_write ps dat s w = sink_write ps dat t v"
proof -
  have "(of_nat (length dat) :: u64) \<noteq> 0"
    using assms(2,3) unat_of_nat64 [of "length dat"] by (auto simp: word_unat_eq_iff)
  then show ?thesis using assms by (auto simp: sink_write_def Let_def)
qed

definition record_room :: "nat \<Rightarrow> nat \<Rightarrow> nat \<Rightarrow> MMapSink \<Rightarrow> bool" where
  "record_room page r n s \<longleftrightarrow>
     0 < r \<and> r \<le> unat (region_size s) \<and> r dvd unat (region_size s) \<and> r dvd unat (mmap_offset s)
     \<and> page dvd unat (region_size s) \<and> n \<le> unat (max_file_size s)
     \<and> unat (max_file_size s) + unat (region_size s) < 2 ^ 64"

lemma record_room_step:
  "record_room page r n s \<Longrightarrow> same_config s t \<Longrightarrow> r dvd unat (mmap_offset t) \<Longrightarrow> record_room page r n t"
  by (simp add: record_room_def same_config_def)

lemma holds_record_here:
  assumes laws: "posix_file_ok ps page view base" and h: "holds view base xs s w"
    and rr: "record_room page r n s" and len: "length d = r" "length xs + r \<le> n"
    and room: "unat (mmap_offset s) + r \<le> unat (region_size s)"
  shows "\<exists>t w'. sink_write ps d s w = Inr (of_nat r, t, w') \<and> holds view base (xs @ d) t w'
    \<and> record_room page r n t \<and> region_size t = region_size s"
proof -
  have b: "0 < r" "r dvd unat (mmap_offset s)" "n \<le> unat (max_file_size s)"
    "unat (max_file_size s) + unat (region_size s) < 2 ^ 64" using rr by (simp_all add: record_room_def)
  have "d \<noteq> []" using len(1) b(1) by auto
  then obtain t w' where t: "sink_write ps d s w = Inr (of_nat (length d), t, w')"
    "holds view base (xs @ d) t w'" "same_config s (t\<lparr>total_bytes_written := total_bytes_written s\<rparr>)"
    using holds_step [OF laws h, of d] room len b(3,4) by auto
  have "length xs = base w + unat (mmap_offset s)" using h by (simp add: holds_def)
  have "t = s\<lparr>mmap_offset := mmap_offset s + of_nat (length d), file_offset := file_offset s + of_nat (length d),
      total_bytes_written := total_bytes_written s + of_nat (length d)\<rparr>"
    using write_fits [of s _ d ps w] h \<open>d \<noteq> []\<close> room len(1) t(1) by (auto simp: holds_def)
  then have "unat (mmap_offset t) = unat (mmap_offset s) + r"
    using room b(4) len(1) unat_of_nat64 [of r] by (simp add: unat_add_pos)
  then have "record_room page r n t" using rr b(2) t(3) by (simp add: record_room_def same_config_def)
  then show ?thesis using t len(1) by (auto simp: same_config_def)
qed

lemma holds_record:
  assumes laws: "posix_file_ok ps page view base" and avail: "regions_available ps page"
    and h: "holds view base xs s w" and rr: "record_room page r n s"
    and len: "length d = r" "length xs + r \<le> n"
  shows "\<exists>t w'. sink_write ps d s w = Inr (of_nat r, t, w') \<and> holds view base (xs @ d) t w'
    \<and> record_room page r n t \<and> region_size t = region_size s"
proof (cases "unat (mmap_offset s) + r \<le> unat (region_size s)")
  case True
  then show ?thesis by (rule holds_record_here [OF laws h rr len])
next
  case False
  have st: "sink_ok s" "mmap_ptr s \<noteq> None" "unat (file_offset s) = length xs"
    using h by (simp_all add: holds_def)
  have b: "0 < r" "r \<le> unat (region_size s)" "r dvd unat (region_size s)" "r dvd unat (mmap_offset s)"
    "page dvd unat (region_size s)" "n \<le> unat (max_file_size s)"
    "unat (max_file_size s) + unat (region_size s) < 2 ^ 64" using rr by (simp_all add: record_room_def)
  have r63: "r < 2 ^ 63" and le: "unat (mmap_offset s) \<le> unat (region_size s)"
    using b(2) st(1,2) by (simp_all add: sink_ok_def)
  have full: "mmap_offset s = region_size s"
  proof -
    have "r dvd unat (region_size s) - unat (mmap_offset s)" using b(3,4) by (rule dvd_diff_nat)
    then have "unat (mmap_offset s) = unat (region_size s)"
      using False le by (auto dest: dvd_imp_le)
    then show ?thesis by (simp add: word_unat_eq_iff)
  qed
  have fits: "file_offset s + of_nat r \<le> max_file_size s"
    using st(3) len(2) b(6,7) unat_of_nat64 [of r] r63 by (simp add: word_le_nat_alt unat_add_pos)
  obtain t v where nx: "next_region ps (of_nat r) s w = Inr (t, v)" "holds view base xs t v"
    "mmap_offset t = 0" "same_config s t"
    using next_region_holds [OF laws avail h full b(5) fits] len(2) b(6,7) by auto
  have room: "unat (mmap_offset t) + r \<le> unat (region_size t)"
    using nx(3,4) b(2) by (simp add: same_config_def)
  have "record_room page r n t" by (rule record_room_step [OF rr nx(4)]) (simp add: nx(3))
  then obtain u w' where u: "sink_write ps d t v = Inr (of_nat r, u, w')" "holds view base (xs @ d) u w'"
    "record_room page r n u" "region_size u = region_size t"
    using holds_record_here [OF laws nx(2) _ len room] by blast
  have "sink_write ps d s w = sink_write ps d t v"
  proof (rule write_after_next [OF st(2)])
    show "d \<noteq> []" "length d < 2 ^ 63" using len(1) b(1) r63 by auto
    show "mmap_offset s + of_nat (length d) > region_size s"
      using False region_test [OF st(1,2), of d] len(1) r63 by simp
    show "next_region ps (of_nat (length d)) s w = Inr (t, v)" using nx(1) len(1) by simp
    have t: "sink_ok t" "mmap_ptr t \<noteq> None" using nx(2) by (simp_all add: holds_def)
    then show "mmap_ptr t \<noteq> None" "\<not> mmap_offset t + of_nat (length d) > region_size t"
      using region_test [OF t, of d] room len(1) r63 by simp_all
  qed
  then show ?thesis using u nx(4) by (auto simp: same_config_def)
qed

lemma holds_records:
  assumes laws: "posix_file_ok ps page view base" and avail: "regions_available ps page"
    and "holds view base xs s w" and "record_room page r n s"
    and "\<forall>d \<in> set ds. length d = r" and "length xs + r * length ds \<le> n"
  shows "\<exists>t w'. write_all ps ds s w = Inr (replicate (length ds) (of_nat r), t, w')
    \<and> holds view base (xs @ concat ds) t w' \<and> region_size t = region_size s"
  using assms(3-)
proof (induction ds arbitrary: xs s w)
  case Nil
  then show ?case by simp
next
  case (Cons d ds)
  have "length d = r" "length xs + r \<le> n" using Cons.prems by simp_all
  then obtain t v where t: "sink_write ps d s w = Inr (of_nat r, t, v)" "holds view base (xs @ d) t v"
    "record_room page r n t" "region_size t = region_size s"
    using holds_record [OF laws avail Cons.prems(1,2)] by blast
  have "length (xs @ d) + r * length ds \<le> n" using Cons.prems by simp
  then obtain u w' where u: "write_all ps ds t v = Inr (replicate (length ds) (of_nat r), u, w')"
    "holds view base ((xs @ d) @ concat ds) u w'" "region_size u = region_size t"
    using Cons.IH [OF t(2,3)] Cons.prems(3) by auto
  have "write_all ps (d # ds) s w = Inr (replicate (length (d # ds)) (of_nat r), u, w')"
    using t(1) u(1) by simp
  then show ?case using u(2,3) t(4) by simp
qed

text \<open>The padding: less than a region after it, and a whole number of regions with it.\<close>

lemma holds_padding:
  assumes "holds view base xs s w"
  shows "\<exists>n. view w = xs @ replicate n (CHR 0x00) \<and> n \<le> unat (region_size s)
    \<and> unat (region_size s) dvd length xs + n"
proof (intro exI conjI)
  let ?n = "base w + unat (region_size s) - length xs"
  have st: "base w mod unat (region_size s) = 0" "length xs = base w + unat (mmap_offset s)"
    "unat (mmap_offset s) \<le> unat (region_size s)"
    using assms by (auto simp: holds_def sink_ok_def)
  show "view w = xs @ replicate ?n (CHR 0x00)" using assms by (simp add: holds_def)
  show "?n \<le> unat (region_size s)" using st(2) by simp
  have "length xs + ?n = base w + unat (region_size s)" using st(2,3) by simp
  then show "unat (region_size s) dvd length xs + ?n" using st(1) by (simp add: dvd_eq_mod_eq_0)
qed

section \<open>A new sink on a new file\<close>

definition fresh_file_ok :: "'w posix \<Rightarrow> ('w \<Rightarrow> bytes) \<Rightarrow> string \<Rightarrow> 'w \<Rightarrow> bool" where
  "fresh_file_ok ps view path w \<longleftrightarrow>
     0 \<le> fst (sys_open ps path w) \<and> view (snd (sys_open ps path w)) = []"

lemma new_sink_view:
  assumes laws: "posix_file_ok ps page view base" and sz: "unat rsize < 2 ^ 63"
    and w1: "w1 = (case rfind_slash path of Some i \<Rightarrow> ensure_directory ps (take i path) w | None \<Rightarrow> w)"
    and fresh: "fresh_file_ok ps view path w1"
    and new: "MMapSink_new ps path rsize msize mrot w = Inr (s, w')"
    and live: "mmap_ptr s = Some a"
  shows "view w' = replicate (unat rsize) (CHR 0x00) \<and> base w' = 0 \<and> mmap_offset s = 0
    \<and> region_size s = rsize \<and> sink_ok s \<and> file_offset s = 0 \<and> 0 \<le> fd s \<and> max_file_size s = msize"
proof -
  let ?s0 = "\<lparr>base_path = path, region_size = rsize, max_file_size = msize, max_rotated = mrot,
    fd = -1, mmap_ptr = None, mmap_offset = 0, file_offset = 0, total_bytes_written = 0,
    rotation_count = 0\<rparr>"
  obtain s1 w2 where o: "open_file ps ?s0 w1 = Inr (s1, w2)" and m: "map_region ps s1 w2 = (s, w')"
    using new w1 by (auto simp: MMapSink_new_def Let_def split: sum.splits)
  have st: "sys_fstat ps d w = Some (of_nat (length (view w)))" for d w
    using laws by (simp add: posix_file_ok_def)
  have s1: "mmap_ptr s1 = None" "file_offset s1 = 0" "region_size s1 = rsize" "view w2 = []"
    using o fresh st by (auto simp: open_file_def fresh_file_ok_def Let_def split: prod.splits if_splits)
  have "view w' = replicate (unat rsize) (CHR 0x00) \<and> base w' = 0 \<and> mmap_offset s = 0
      \<and> region_size s = rsize"
    using map_region_view [OF laws m s1(1) live] s1(2-4) by simp
  moreover have "mmap_offset s1 = 0" using open_file_state [OF o] by simp
  moreover note map_region_state [OF m s1(1) calculation(2)] open_file_state [OF o]
  ultimately show ?thesis using sz s1(2) by (simp add: sink_ok_def same_config_def)
qed

lemma delete_keeps_view:
  assumes laws: "posix_file_ok ps page view base"
  shows "view (snd (MMapSink_delete ps s w)) = view w"
  using laws
  by (auto simp: MMapSink_delete_def sink_flush_def unmap_region_def close_file_def posix_file_ok_def
      Let_def split: option.splits prod.splits if_splits)

section \<open>A simulated file system\<close>

text \<open>
  One open file at a time, files as byte lists, one mapping: enough to run the sink on
  concrete inputs. It satisfies both groups of laws.
\<close>

record sim =
  sim_files :: "string \<rightharpoonup> bytes"
  sim_open :: string
  sim_base :: nat

definition sim_view :: "sim \<Rightarrow> bytes" where
  "sim_view w = (case sim_files w (sim_open w) of Some c \<Rightarrow> c | None \<Rightarrow> [])"

definition sim_set :: "bytes \<Rightarrow> sim \<Rightarrow> sim" where
  "sim_set c w = w\<lparr>sim_files := (sim_files w)(sim_open w \<mapsto> c)\<rparr>"

definition sim_rename :: "string \<Rightarrow> string \<Rightarrow> sim \<Rightarrow> sim" where
  "sim_rename a b w =
     (case sim_files w a of None \<Rightarrow> w | Some c \<Rightarrow> w\<lparr>sim_files := (sim_files w)(b \<mapsto> c, a := None)\<rparr>)"

definition sim_posix :: "nat \<Rightarrow> sim posix" where
  "sim_posix page =
     \<lparr>sys_mkdir = (\<lambda>p w. w),
      sys_open = (\<lambda>p w. (3, (w\<lparr>sim_open := p, sim_files := (case sim_files w p of
          None \<Rightarrow> (sim_files w)(p \<mapsto> []) | Some c \<Rightarrow> sim_files w)\<rparr>))),
      sys_fstat = (\<lambda>d w. Some (of_nat (length (sim_view w)))),
      sys_close = (\<lambda>d w. w),
      sys_ftruncate = (\<lambda>d n w. (True,
          sim_set (take (unat n) (sim_view w @ replicate (unat n - length (sim_view w)) (CHR 0x00))) w)),
      sys_mmap = (\<lambda>d n off w. if unat off mod page = 0
          then (Some 65536, w\<lparr>sim_base := unat off\<rparr>) else (None, w)),
      sys_madvise = (\<lambda>a n w. w), sys_munmap = (\<lambda>a n w. w), sys_msync = (\<lambda>a n b w. w),
      sys_unlink = (\<lambda>p w. w\<lparr>sim_files := (sim_files w)(p := None)\<rparr>),
      sys_rename = sim_rename,
      mem_store = (\<lambda>a i ys w. sim_set (overwrite (sim_base w + i) ys (sim_view w)) w)\<rparr>"

lemma sim_view_set [simp]: "sim_view (sim_set c w) = c" "sim_base (sim_set c w) = sim_base w"
  by (simp_all add: sim_view_def sim_set_def)

lemma sim_file_ok: "posix_file_ok (sim_posix page) page sim_view sim_base"
proof -
  have "sim_view (w\<lparr>sim_base := b\<rparr>) = sim_view w" for w b by (simp add: sim_view_def)
  then show ?thesis by (simp add: posix_file_ok_def sim_posix_def)
qed

lemma sim_names_ok: "names_ok (sim_posix page) sim_files"
  by (auto simp: names_ok_def sim_posix_def sim_rename_def split: option.splits)

definition sim_empty :: sim where
  "sim_empty = \<lparr>sim_files = Map.empty, sim_open = [], sim_base = 0\<rparr>"

section \<open>Properties\<close>

text \<open>C21: The bytes reach the file in order. On a live sink, writes that together fit the rest
  of the region all report their full length and change the file to their concatenation at
  the write position, every other byte of the file kept.\<close>

theorem writes_append_in_order:
  assumes "posix_file_ok ps page view base" and "sink_ok s" and "mmap_ptr s = Some a"
    and "unat (mmap_offset s) + length (concat ds) \<le> unat (region_size s)"
    and "base w + unat (region_size s) \<le> length (view w)"
  shows "\<exists>t w'. write_all ps ds s w = Inr (map (\<lambda>d. of_nat (length d)) ds, t, w')
    \<and> view w' = overwrite (base w + unat (mmap_offset s)) (concat ds) (view w) \<and> mmap_ptr t = Some a"
  using write_all_fits [OF assms] by blast

definition demo_sink :: MMapSink where
  "demo_sink = \<lparr>base_path = ''a'', region_size = 16, max_file_size = 64, max_rotated = 2, fd = 3,
     mmap_ptr = Some 65536, mmap_offset = 0, file_offset = 0, total_bytes_written = 0,
     rotation_count = 0\<rparr>"

definition demo_world :: sim where
  "demo_world = \<lparr>sim_files = [''a'' \<mapsto> replicate 16 (CHR 0x00)], sim_open = ''a'', sim_base = 0\<rparr>"

lemma demo_sink_ok: "sink_ok demo_sink" "mmap_ptr demo_sink = Some 65536"
  "region_size demo_sink = 16" "mmap_offset demo_sink = 0"
  by (simp_all add: sink_ok_def demo_sink_def)

lemma demo_view: "sim_view demo_world = replicate 16 (CHR 0x00)" "sim_base demo_world = 0"
  by (simp_all add: sim_view_def demo_world_def)

lemma writes_append_in_order_witness:
  "\<exists>t w'. write_all (sim_posix 4096) [''ab'', ''cde''] demo_sink demo_world = Inr ([2, 3], t, w')
    \<and> sim_view w' = ''abcde'' @ replicate 11 (CHR 0x00)"
proof -
  have "\<exists>t w'. write_all (sim_posix 4096) [''ab'', ''cde''] demo_sink demo_world
      = Inr (map (\<lambda>d. of_nat (length d)) [''ab'', ''cde''], t, w')
    \<and> sim_view w' = overwrite (sim_base demo_world + unat (mmap_offset demo_sink))
        (concat [''ab'', ''cde'']) (sim_view demo_world) \<and> mmap_ptr t = Some 65536"
    by (rule writes_append_in_order [OF sim_file_ok demo_sink_ok(1,2)]) (simp_all add: demo_sink_ok demo_view)
  then show ?thesis by (auto simp: demo_sink_ok demo_view overwrite_def)
qed

text \<open>C22: Accounting and bounds of \<open>write\<close>. As long as no buffer is longer than the region,
  no copy leaves the mapped region, whatever the system calls answer; every write reports its
  full length or zero, and the byte counter grows by exactly what was reported.\<close>

theorem writes_accounted:
  assumes "sink_ok s" and "\<forall>d \<in> set ds. length d \<le> unat (region_size s)"
  shows "case write_all ps ds s w of
      Inl e \<Rightarrow> e \<noteq> Region_overrun
    | Inr (ks, t, w') \<Rightarrow> list_all2 (\<lambda>d k. k = 0 \<or> k = of_nat (length d)) ds ks \<and> sink_ok t
        \<and> total_bytes_written t = total_bytes_written s + sum_list ks"
  using write_all_in_region [OF assms, of ps w] write_all_result [OF assms(1), of ps ds w]
  by (auto split: sum.splits)

lemma writes_accounted_witness:
  "write_all (sim_posix 4096) [''abcdefghij'', ''klmnopqrst''] demo_sink demo_world \<noteq> Inl Region_overrun"
  using writes_accounted [of demo_sink "[''abcdefghij'', ''klmnopqrst'']" "sim_posix 4096" demo_world]
    demo_sink_ok by auto

text \<open>A write longer than the region leaves the mapping. Nothing in \<open>write\<close> compares the length
  with the region size after a new region is mapped, so when the next region can be mapped the
  copy runs past its end, whatever the system calls answer.\<close>

lemma oversized_write_overruns:
  assumes "sink_ok s" and "mmap_ptr s = Some a"
    and "unat (region_size s) < length dat" and "length dat < 2 ^ 63"
    and "next_region ps (of_nat (length dat)) s w = Inr (t, w')" and "mmap_ptr t \<noteq> None"
  shows "sink_write ps dat s w = Inl Region_overrun"
proof -
  have "(of_nat (length dat) :: u64) \<noteq> 0"
    using assms(3,4) unat_of_nat64 [of "length dat"] by (auto simp: word_unat_eq_iff)
  moreover have "mmap_offset s + of_nat (length dat) > region_size s"
    using region_test [OF assms(1) _ assms(4)] assms(2,3) by simp
  moreover have "region_size t = region_size s"
    using next_region_state [OF assms(5)] by (simp add: same_config_def)
  ultimately show ?thesis
    using assms(2,3,5,6) by (auto simp: sink_write_def copy_region_def Let_def)
qed

text \<open>Rotation. With \<open>max_rotated\<close> at least one, \<open>rotate_files\<close> moves the log file to
  suffix 1 and every suffix \<open>i\<close> to \<open>i + 1\<close>, drops the file with suffix \<open>max_rotated\<close>, leaves
  the base name free, and touches no other name.\<close>

lemma rotation_shifts_names:
  assumes "names_ok ps files" and "max_rotated s \<noteq> 0" and "rotate_files ps s w = (t, w')"
  shows "files w' (base_path s) = None
    \<and> files w' (rotated_name (base_path s) 1) = files w (base_path s)
    \<and> (\<forall>i. 2 \<le> i \<and> i \<le> unat (max_rotated s) \<longrightarrow>
        files w' (rotated_name (base_path s) i) = files w (rotated_name (base_path s) (i - 1)))
    \<and> (\<forall>p. p \<noteq> base_path s \<and> (\<forall>i. 1 \<le> i \<and> i \<le> unat (max_rotated s) \<longrightarrow>
          p \<noteq> rotated_name (base_path s) i) \<longrightarrow> files w' p = files w p)"
  by (rule rotate_files_names [OF assms])

lemma rotation_shifts_names_witness:
  "sim_files (snd (rotate_files (sim_posix 4096) demo_sink demo_world)) (rotated_name ''a'' 1)
    = Some (replicate 16 (CHR 0x00))"
proof -
  have m: "max_rotated demo_sink \<noteq> 0" and b: "base_path demo_sink = ''a''"
    by (simp_all add: demo_sink_def)
  note r = rotation_shifts_names [OF sim_names_ok m, of 4096 demo_world _ _, OF surjective_pairing]
  show ?thesis using r b by (simp add: demo_world_def)
qed

text \<open>With \<open>max_rotated\<close> zero the loop bound underflows: one rotation performs
  \<open>2^64 - 1\<close> renames before the log file itself is renamed.\<close>

lemma rotation_zero_underflow:
  assumes "max_rotated s = 0"
  shows "snd (rotate_files ps s w) =
    sys_rename ps (base_path s) (rotated_name (base_path s) 1)
      (fold (\<lambda>j. sys_rename ps (rotated_name (base_path s) j)
                   (rotated_name (base_path s) ((j + 1) mod 2 ^ 64)))
        (rev [1..<2 ^ 64]) (sys_unlink ps (rotated_name (base_path s) 0) w))"
  unfolding rotate_files_fold assms by (simp only: snd_conv if_True unsigned_0 refl)

text \<open>C20: Records cross regions intact. When the system calls succeed, records of one size that
  divides the page-aligned region size are all written in full as long as the file stays within
  its maximal size, whatever the number of regions they need: the file holds the
  records written before, then these, then zeros up to the end of the last region.\<close>

theorem records_cross_regions:
  assumes "posix_file_ok ps page view base" and "regions_available ps page"
    and "holds view base xs s w" and "record_room page r n s"
    and "\<forall>d \<in> set ds. length d = r" and "length xs + r * length ds \<le> n"
  shows "\<exists>t w' m. write_all ps ds s w = Inr (replicate (length ds) (of_nat r), t, w')
    \<and> view w' = xs @ concat ds @ replicate m (CHR 0x00)
    \<and> m \<le> unat (region_size s) \<and> unat (region_size s) dvd length (xs @ concat ds) + m"
proof -
  obtain t w' where t: "write_all ps ds s w = Inr (replicate (length ds) (of_nat r), t, w')"
    "holds view base (xs @ concat ds) t w'" "region_size t = region_size s"
    using holds_records [OF assms] by blast
  obtain m where "view w' = (xs @ concat ds) @ replicate m (CHR 0x00)" "m \<le> unat (region_size t)"
    "unat (region_size t) dvd length (xs @ concat ds) + m"
    using holds_padding [OF t(2)] by blast
  then show ?thesis using t(1,3) by simp
qed

lemma records_cross_regions_witness:
  "\<exists>t w'. write_all (sim_posix 8) (replicate 5 ''abcdefgh'') demo_sink demo_world
      = Inr (replicate 5 8, t, w')
    \<and> sim_view w' = concat (replicate 5 ''abcdefgh'') @ replicate 8 (CHR 0x00)"
proof -
  let ?ds = "replicate 5 ''abcdefgh''"
  have h: "holds sim_view sim_base [] demo_sink demo_world"
    by (simp add: holds_def demo_sink_ok demo_view) (simp add: demo_sink_def)
  have r: "record_room 8 8 40 demo_sink" by (simp add: record_room_def demo_sink_def)
  have a: "regions_available (sim_posix 8) 8" by (simp add: regions_available_def sim_posix_def)
  have d: "\<forall>d \<in> set ?ds. length d = 8" "length ([] :: bytes) + 8 * length ?ds \<le> 40" by simp_all
  obtain t w' m where w: "write_all (sim_posix 8) ?ds demo_sink demo_world
      = Inr (replicate (length ?ds) (of_nat 8), t, w')"
    "sim_view w' = [] @ concat ?ds @ replicate m (CHR 0x00)" "m \<le> unat (region_size demo_sink)"
    "unat (region_size demo_sink) dvd length ([] @ concat ?ds) + m"
    using records_cross_regions [OF sim_file_ok a h r d] by blast
  have "unat (region_size demo_sink) = 16" by (simp add: demo_sink_def)
  moreover have "length ([] @ concat ?ds) = 40" by (simp add: numeral_eq_Suc)
  ultimately have "m \<le> 16 \<and> 16 dvd 40 + m" using w(3,4) by (simp only:)
  then have "m = 8" by presburger
  then show ?thesis using w(1,2) by (intro exI [of _ t] exI [of _ w']) simp
qed

text \<open>C36: A region boundary that is not page-aligned silences the sink for good. When the
  region is full, the file needs no rotation and the bytes written so far are not a multiple of
  the page size (any text log), the write and every later write are dropped, reporting zero.\<close>

theorem unaligned_region_silences:
  assumes "posix_file_ok ps page view base" and "sink_ok s" and "mmap_ptr s = Some a"
    and "dat \<noteq> []" and "length dat < 2 ^ 63"
    and "unat (mmap_offset s) + length dat > unat (region_size s)"
    and "file_offset s + of_nat (length dat) \<le> max_file_size s"
    and "unat (file_offset s) mod page \<noteq> 0"
  shows "\<exists>t w'. write_all ps (dat # ds) s w = Inr (replicate (Suc (length ds)) 0, t, w')"
proof -
  let ?len = "of_nat (length dat) :: u64"
  have len: "?len \<noteq> 0" using assms(4,5) unat_of_nat64 [of "length dat"] by (auto simp: word_unat_eq_iff)
  let ?w1 = "if mmap_offset s > 0 then sys_msync ps a (mmap_offset s) False w else w"
  obtain s2 w2 where u: "unmap_region ps s ?w1 = (s2, w2)" by fastforce
  note us = unmap_region_state [OF u]
  obtain t w' where m: "map_region ps s2 w2 = (t, w')" by fastforce
  have dead: "mmap_ptr t = None"
    using map_region_unaligned [OF assms(1), of s2 w2] us assms(8) m by simp
  have "\<not> file_offset s2 + ?len > max_file_size s2"
    using us assms(7) by (simp add: same_config_def not_less)
  then have "next_region ps ?len s w = Inr (t, w')"
    using u assms(3) m by (simp add: next_region_def Let_def)
  then have "sink_write ps dat s w = Inr (0, t, w')"
    using region_test [OF assms(2) _ assms(5)] assms(3,6) len dead
    by (simp add: sink_write_def copy_region_def Let_def)
  then show ?thesis using write_all_dead [OF dead, of ps ds w'] by simp
qed

definition demo_text_sink :: MMapSink where
  "demo_text_sink = demo_sink\<lparr>mmap_offset := 15, file_offset := 15\<rparr>"

lemma unaligned_region_silences_witness:
  "\<exists>t w'. write_all (sim_posix 4096) [''ab'', ''c'', ''d''] demo_text_sink demo_world = Inr ([0, 0, 0], t, w')"
proof -
  have "\<exists>t w'. write_all (sim_posix 4096) (''ab'' # [''c'', ''d'']) demo_text_sink demo_world
      = Inr (replicate (Suc (length [''c'', ''d''])) 0, t, w')"
    by (rule unaligned_region_silences [OF sim_file_ok, where a = 65536])
      (simp_all add: demo_text_sink_def demo_sink_def sink_ok_def)
  then show ?thesis by (simp add: numeral_eq_Suc)
qed

text \<open>A file is never cut to what was written. A sink created on an empty file and
  destroyed after writing a total of \<open>n\<close> bytes within its region leaves the written bytes
  followed by zero bytes up to the region size.\<close>

lemma closed_file_is_padded:
  assumes "posix_file_ok ps page view base" and "unat rsize < 2 ^ 63"
    and "fresh_file_ok ps view path
      (case rfind_slash path of Some i \<Rightarrow> ensure_directory ps (take i path) w | None \<Rightarrow> w)"
    and "MMapSink_new ps path rsize msize mrot w = Inr (s, w1)" and "mmap_ptr s = Some a"
    and "length (concat ds) \<le> unat rsize"
  shows "\<exists>ks t w2. write_all ps ds s w1 = Inr (ks, t, w2)
    \<and> view (snd (MMapSink_delete ps t w2))
      = concat ds @ replicate (unat rsize - length (concat ds)) (CHR 0x00)"
proof -
  note n = new_sink_view [OF assms(1,2) refl assms(3-5)]
  show ?thesis
    using write_all_fits [OF assms(1) _ assms(5), of ds w1] n assms(6) delete_keeps_view [OF assms(1)]
    by (auto simp: overwrite_def)
qed

end
