(* ===== verification/Logger.thy ===== *)
theory Logger
  imports Mpmc_Calls Formatter Mmap_Sink
begin

text \<open>
  include/mpmc_logger/logger.hpp, config.hpp and src/logger.cpp: the logger object, the
  level filter, the \<open>MPMC_LOG\<close> macro, \<open>init\<close>, \<open>shutdown\<close> and the drain loop. The drain
  thread and the producers interleave at the granularity of one loop iteration: the list
  given to the loop says, per iteration, what producers pushed before it and whether a stop
  request is visible. Finer interleavings of the queue are in \<open>Mpmc_Concurrent\<close>.
\<close>

section \<open>Configuration\<close>

datatype OutputFormat = BINARY | TEXT

record LoggerConfig =
  cfg_queue_capacity :: u64
  cfg_log_file_path :: string
  cfg_mmap_region_size :: u64
  cfg_max_file_size :: u64
  cfg_max_rotated_files :: u64
  cfg_output_format :: OutputFormat
  cfg_min_level :: LogLevel
  cfg_drain_batch_size :: u64
  cfg_spin_count_before_yield :: u64

definition LoggerConfig_default :: LoggerConfig where
  "LoggerConfig_default =
     \<lparr>cfg_queue_capacity = 1048576, cfg_log_file_path = ''logs/app.log'',
      cfg_mmap_region_size = 64 * 1024 * 1024, cfg_max_file_size = 1024 * 1024 * 1024,
      cfg_max_rotated_files = 8, cfg_output_format = BINARY, cfg_min_level = LVL_TRACE,
      cfg_drain_batch_size = 256, cfg_spin_count_before_yield = 1000\<rparr>"

section \<open>The logger object\<close>

definition QUEUE_SIZE :: nat where
  "QUEUE_SIZE = 2 ^ 20"

record Logger =
  queue :: "LogEntry MPMCQueue option"
  consumer_id :: u32
  sink :: "MMapSink option"
  text_fmt :: "TextFormatter option"
  output_format :: OutputFormat
  drain_thread :: bool
  running :: bool
  initialized :: bool
  min_level :: LogLevel
  drain_batch_size :: u64
  spin_count_before_yield :: u64
  entries_pushed :: u64
  entries_dropped :: u64
  entries_drained :: u64

text \<open>The default member initialisers of the singleton; \<open>drain_thread\<close> says whether it is joinable.\<close>

definition Logger_new :: Logger where
  "Logger_new =
     \<lparr>queue = None, consumer_id = 0, sink = None, text_fmt = None, output_format = BINARY,
      drain_thread = False, running = False, initialized = False, min_level = LVL_TRACE,
      drain_batch_size = 256, spin_count_before_yield = 1000,
      entries_pushed = 0, entries_dropped = 0, entries_drained = 0\<rparr>"

text \<open>What the logger runs on: system calls, local dates, the vector instructions, fresh memory.\<close>

record 'w platform =
  posix :: "'w posix"
  date_string :: "u64 \<Rightarrow> bytes"
  has_avx2 :: bool
  fresh_entry :: LogEntry
  fresh_prefix :: bytes

definition get_cached_tid :: "u32 \<Rightarrow> u32 \<Rightarrow> u32 \<times> u32" where
  "get_cached_tid gettid tid = (let tid1 = (if tid = 0 then gettid else tid) in (tid1, tid1))"

definition should_log :: "LogLevel \<Rightarrow> Logger \<Rightarrow> bool" where
  "should_log lvl lg \<longleftrightarrow> lvl \<ge> min_level lg"

definition set_level :: "LogLevel \<Rightarrow> Logger \<Rightarrow> Logger" where
  "set_level lvl lg = lg\<lparr>min_level := lvl\<rparr>"

definition logger_level :: "Logger \<Rightarrow> LogLevel" where
  "logger_level lg = min_level lg"

definition is_running :: "Logger \<Rightarrow> bool" where
  "is_running lg = running lg"

definition logger_push :: "bool list \<Rightarrow> LogEntry \<Rightarrow> Logger \<Rightarrow> bool \<times> Logger" where
  "logger_push fs e lg =
     (case queue lg of
        None \<Rightarrow> (False, lg)
      | Some q \<Rightarrow> (let (ok, q') = push fs e q in (ok, lg\<lparr>queue := Some q'\<rparr>)))"

section \<open>The macro\<close>

text \<open>
  \<open>snprintf\<close> into an \<open>n\<close>-byte array: the formatted text cut to \<open>n - 1\<close> characters and a
  NUL; the result is the full length, negative (\<open>None\<close>) on an encoding error.
\<close>

definition snprintf :: "nat \<Rightarrow> bytes option \<Rightarrow> bytes \<Rightarrow> int \<times> bytes" where
  "snprintf n t buf =
     (case t of None \<Rightarrow> (-1, buf)
      | Some s \<Rightarrow> (int (length s), overwrite 0 (take (n - 1) s @ [CHR 0x00]) buf))"

definition macro_payload_len :: "int \<Rightarrow> u16" where
  "macro_payload_len n =
     (if n > 0 then (if n < int PAYLOAD_SIZE then of_int n else of_nat PAYLOAD_SIZE) else 0)"

definition macro_entry :: "timespec \<Rightarrow> u32 \<Rightarrow> LogLevel \<Rightarrow> u8 \<Rightarrow> bytes option \<Rightarrow> bytes \<Rightarrow> LogEntry" where
  "macro_entry now tid lvl cat t junk =
     (let (n, buf) = snprintf PAYLOAD_SIZE t junk
      in (LogEntry_new buf)\<lparr>timestamp_ns := wall_clock_ns now, thread_id := tid, level := lvl,
            category := cat, payload_len := macro_payload_len n\<rparr>)"

definition MPMC_LOG ::
  "bool list \<Rightarrow> timespec \<Rightarrow> u32 \<Rightarrow> LogLevel \<Rightarrow> u8 \<Rightarrow> bytes option \<Rightarrow> bytes \<Rightarrow> Logger \<Rightarrow> Logger" where
  "MPMC_LOG fs now tid lvl cat t junk lg =
     (if should_log lvl lg then snd (logger_push fs (macro_entry now tid lvl cat t junk) lg) else lg)"

text \<open>\<open>LOG_ENTRY_RAW\<close> pushes a prebuilt entry, whatever its level.\<close>

definition LOG_ENTRY_RAW :: "bool list \<Rightarrow> LogEntry \<Rightarrow> Logger \<Rightarrow> Logger" where
  "LOG_ENTRY_RAW fs e lg = snd (logger_push fs e lg)"

section \<open>Start and stop\<close>

datatype init_error = Queue_error queue_error | Sink_error sink_error

text \<open>
  \<open>init\<close>: on an exception the object keeps what was stored before it (\<open>Inl\<close>), and the
  drain thread is not started.
\<close>

definition logger_init ::
  "'w platform \<Rightarrow> LoggerConfig \<Rightarrow> Logger \<Rightarrow> 'w \<Rightarrow> (init_error \<times> Logger) + (Logger \<times> 'w)" where
  "logger_init pf cfg lg w =
     (if initialized lg then Inr (lg, w)
      else let lg1 = lg\<lparr>min_level := cfg_min_level cfg, output_format := cfg_output_format cfg,
                 drain_batch_size := cfg_drain_batch_size cfg,
                 spin_count_before_yield := cfg_spin_count_before_yield cfg\<rparr>;
               (res, q) = register_consumer (MPMCQueue_new QUEUE_SIZE (fresh_entry pf));
               lg2 = lg1\<lparr>queue := Some q\<rparr>
           in case res of
                Inl e \<Rightarrow> Inl (Queue_error e, lg2)
              | Inr c \<Rightarrow>
                  (let lg3 = lg2\<lparr>consumer_id := c\<rparr>
                   in case MMapSink_new (posix pf) (cfg_log_file_path cfg) (cfg_mmap_region_size cfg)
                             (cfg_max_file_size cfg) (cfg_max_rotated_files cfg) w of
                        Inl e \<Rightarrow> Inl (Sink_error e, lg3)
                      | Inr (s, w1) \<Rightarrow>
                          Inr (lg3\<lparr>sink := Some s,
                                 text_fmt := (if output_format lg3 = TEXT
                                    then Some (CachedDateFormatter_new (fresh_prefix pf))
                                    else text_fmt lg3),
                                 running := True, drain_thread := True, initialized := True\<rparr>, w1)))"

text \<open>
  \<open>shutdown\<close>: what happens while it waits for the drain thread is the argument \<open>join\<close>, the
  effect of the drain loop running to its end.
\<close>

definition logger_shutdown ::
  "'w platform \<Rightarrow> (Logger \<Rightarrow> 'w \<Rightarrow> Logger \<times> 'w) \<Rightarrow> Logger \<Rightarrow> 'w \<Rightarrow> Logger \<times> 'w" where
  "logger_shutdown pf join lg w =
     (if \<not> initialized lg then (lg, w)
      else let lg1 = lg\<lparr>initialized := False, running := False\<rparr>;
               (lg2, w2) = (if drain_thread lg1
                  then let (l, w1) = join lg1 w in (l\<lparr>drain_thread := False\<rparr>, w1) else (lg1, w));
               w3 = (case sink lg2 of Some s \<Rightarrow> sink_flush (posix pf) s w2 | None \<Rightarrow> w2);
               lg3 = lg2\<lparr>queue := map_option (unregister_consumer (consumer_id lg2)) (queue lg2)\<rparr>;
               w4 = (case sink lg3 of Some s \<Rightarrow> snd (MMapSink_delete (posix pf) s w3) | None \<Rightarrow> w3)
           in (lg3\<lparr>queue := None, sink := None, text_fmt := None\<rparr>, w4))"

text \<open>The destructor of the singleton, at the end of the program.\<close>

definition Logger_delete ::
  "'w platform \<Rightarrow> (Logger \<Rightarrow> 'w \<Rightarrow> Logger \<times> 'w) \<Rightarrow> Logger \<Rightarrow> 'w \<Rightarrow> 'w" where
  "Logger_delete pf join lg w = snd (logger_shutdown pf join lg w)"

text \<open>After an explicit \<open>shutdown\<close> it does nothing, provided the thread leaves the flag alone.\<close>

lemma delete_after_shutdown:
  assumes "\<And>l v. initialized (fst (join l v)) = initialized l" and "logger_shutdown pf join lg w = (lg', w')"
  shows "Logger_delete pf join' lg' w' = w'"
proof -
  have "\<not> initialized lg'"
  proof (cases "initialized lg")
    case False
    then show ?thesis using assms(2) by (simp add: logger_shutdown_def)
  next
    case True
    obtain l w1 where j: "join (lg\<lparr>initialized := False, running := False\<rparr>) w = (l, w1)" by fastforce
    have "\<not> initialized l" using assms(1) [of "lg\<lparr>initialized := False, running := False\<rparr>" w] j by simp
    moreover have "lg' = (if drain_thread lg then l\<lparr>drain_thread := False\<rparr>
        else lg\<lparr>initialized := False, running := False\<rparr>)\<lparr>queue := None, sink := None, text_fmt := None\<rparr>"
      using assms(2) True j by (simp add: logger_shutdown_def Let_def split: if_splits)
    ultimately show ?thesis by (cases "drain_thread lg") simp_all
  qed
  then show ?thesis by (simp add: Logger_delete_def logger_shutdown_def)
qed

section \<open>The drain loop\<close>

datatype drain_error = Bad_access | Sink_failed sink_error

text \<open>The loop's state: the logger, the format buffer and the world.\<close>

type_synonym 'w dstate = "Logger \<times> bytes \<times> 'w"

definition format_entry ::
  "'w platform \<Rightarrow> Logger \<Rightarrow> LogEntry \<Rightarrow> bytes \<Rightarrow> nat \<Rightarrow> (nat \<times> Logger \<times> bytes) option" where
  "format_entry pf lg e buf n =
     (case output_format lg of
        BINARY \<Rightarrow> map_option (\<lambda>(k, b). (k, lg, b)) (BinaryFormatter_format (has_avx2 pf) e buf n)
      | TEXT \<Rightarrow>
          (case text_fmt lg of None \<Rightarrow> None
           | Some f \<Rightarrow> map_option (\<lambda>(k, f', b). (k, lg\<lparr>text_fmt := Some f'\<rparr>, b))
                         (TextFormatter_format (date_string pf) f e buf n)))"

definition drain_entry :: "'w platform \<Rightarrow> LogEntry \<Rightarrow> 'w dstate \<Rightarrow> drain_error + 'w dstate" where
  "drain_entry pf e st =
     (case st of (lg, buf, w) \<Rightarrow>
        let lg1 = lg\<lparr>entries_drained := entries_drained lg + 1\<rparr>
        in case format_entry pf lg1 e buf (length buf) of
             None \<Rightarrow> Inl Bad_access
           | Some (written, lg2, buf') \<Rightarrow>
               (case sink lg2 of
                  Some s \<Rightarrow>
                    if written > 0 then
                      (case sink_write (posix pf) (take written buf') s w of
                         Inl err \<Rightarrow> Inl (Sink_failed err)
                       | Inr (k, s', w') \<Rightarrow> Inr (lg2\<lparr>sink := Some s'\<rparr>, buf', w'))
                    else Inr (lg2, buf', w)
                | None \<Rightarrow> Inr (lg2, buf', w)))"

text \<open>\<open>queue_->pop\<close>; the loop does not ask whether there is a queue.\<close>

definition drain_pop :: "Logger \<Rightarrow> drain_error + LogEntry option \<times> Logger" where
  "drain_pop lg =
     (case queue lg of None \<Rightarrow> Inl Bad_access
      | Some q \<Rightarrow> (let (r, q') = pop (consumer_id lg) q in Inr (r, lg\<lparr>queue := Some q'\<rparr>)))"

text \<open>The batch loop; the flag is \<open>got_any\<close>.\<close>

fun drain_batch :: "'w platform \<Rightarrow> nat \<Rightarrow> 'w dstate \<Rightarrow> drain_error + bool \<times> 'w dstate" where
  "drain_batch pf 0 st = Inr (False, st)"
| "drain_batch pf (Suc n) (lg, buf, w) =
     (case drain_pop lg of
        Inl err \<Rightarrow> Inl err
      | Inr (None, lg1) \<Rightarrow> Inr (False, (lg1, buf, w))
      | Inr (Some e, lg1) \<Rightarrow>
          (case drain_entry pf e (lg1, buf, w) of
             Inl err \<Rightarrow> Inl err
           | Inr st1 \<Rightarrow>
               (case drain_batch pf n st1 of
                  Inl err \<Rightarrow> Inl err
                | Inr (_, st2) \<Rightarrow> Inr (True, st2))))"

text \<open>
  The final drain pops until the queue is empty. It has no bound of its own; the number
  bounds its turns here, \<open>None\<close> when they are not enough.
\<close>

fun drain_final :: "'w platform \<Rightarrow> nat \<Rightarrow> 'w dstate \<Rightarrow> (drain_error + 'w dstate) option" where
  "drain_final pf 0 st = None"
| "drain_final pf (Suc n) (lg, buf, w) =
     (case drain_pop lg of
        Inl err \<Rightarrow> Some (Inl err)
      | Inr (None, lg1) \<Rightarrow> Some (Inr (lg1, buf, w))
      | Inr (Some e, lg1) \<Rightarrow>
          (case drain_entry pf e (lg1, buf, w) of
             Inl err \<Rightarrow> Some (Inl err)
           | Inr st1 \<Rightarrow> drain_final pf n st1))"

text \<open>The adaptive backoff: the next count of empty turns, and whether the thread yields.\<close>

definition backoff :: "u64 \<Rightarrow> u64 \<Rightarrow> u64 \<times> bool" where
  "backoff limit consecutive_empty =
     (let c = consecutive_empty + 1 in if c < limit then (c, False) else (limit, True))"

fun push_list :: "LogEntry list \<Rightarrow> Logger \<Rightarrow> LogEntry list \<times> Logger" where
  "push_list [] lg = ([], lg)"
| "push_list (e # es) lg =
     (let (ok, lg1) = logger_push [] e lg; (acc, lg2) = push_list es lg1
      in (if ok then e # acc else acc, lg2))"

text \<open>
  The outer loop over a list of iterations. The result carries the accepted entries,
  whether the loop has ended, the count of empty turns and the state.
\<close>

fun drain_loop ::
  "'w platform \<Rightarrow> nat \<Rightarrow> (LogEntry list \<times> bool) list \<Rightarrow> u64 \<Rightarrow> 'w dstate
    \<Rightarrow> (drain_error + LogEntry list \<times> bool \<times> u64 \<times> 'w dstate) option" where
  "drain_loop pf fuel [] consecutive_empty st = Some (Inr ([], False, consecutive_empty, st))"
| "drain_loop pf fuel ((arrivals, stop_requested) # its) consecutive_empty (lg, buf, w) =
     (let (acc, lg1) = push_list arrivals lg
      in case drain_batch pf (unat (drain_batch_size lg)) (lg1, buf, w) of
           Inl err \<Rightarrow> Some (Inl err)
         | Inr (got_any, st2) \<Rightarrow>
             if \<not> got_any \<and> stop_requested then
               (case drain_final pf fuel st2 of
                  None \<Rightarrow> None
                | Some (Inl err) \<Rightarrow> Some (Inl err)
                | Some (Inr st3) \<Rightarrow> Some (Inr (acc, True, consecutive_empty, st3)))
             else
               (case drain_loop pf fuel its
                       (if got_any then 0 else fst (backoff (spin_count_before_yield lg) consecutive_empty))
                       st2 of
                  Some (Inr (acc', fin, c, st3)) \<Rightarrow> Some (Inr (acc @ acc', fin, c, st3))
                | r \<Rightarrow> r))"

section \<open>One entry\<close>

definition fmt_ok :: "'w platform \<Rightarrow> Logger \<Rightarrow> bool" where
  "fmt_ok pf lg \<longleftrightarrow> (output_format lg = TEXT \<longrightarrow> dates_ok (date_string pf)
     \<and> (\<exists>f. text_fmt lg = Some f \<and> date_inv (date_string pf) f))"

text \<open>The bytes an entry may become: its image, or its line of text.\<close>

definition entry_line :: "'w platform \<Rightarrow> OutputFormat \<Rightarrow> LogEntry \<Rightarrow> bytes \<Rightarrow> bool" where
  "entry_line pf out e l \<longleftrightarrow>
     (case out of BINARY \<Rightarrow> l = entry_image e | TEXT \<Rightarrow> text_line_of (date_string pf) e l)"

lemma format_entry_span:
  assumes ok: "fmt_ok pf lg" and wf: "wf_entry e" and len: "length buf = 256"
  shows "\<exists>k tf buf'. format_entry pf lg e buf (length buf) = Some (k, lg\<lparr>text_fmt := tf\<rparr>, buf')
    \<and> fmt_ok pf (lg\<lparr>text_fmt := tf\<rparr>) \<and> 0 < k \<and> k \<le> 256 \<and> length buf' = 256
    \<and> entry_line pf (output_format lg) e (take k buf')"
proof (cases "output_format lg")
  case BINARY
  obtain k f' buf' where b: "binary_fmt (has_avx2 pf) () e buf (length buf) = Some (k, f', buf')"
    "0 < k \<and> k \<le> 128 \<and> length buf' = length buf \<and> take k buf' = entry_image e"
    using binary.fmt_span [of e buf "has_avx2 pf" "()"] wf len by auto
  then have "format_entry pf lg e buf (length buf) = Some (k, lg\<lparr>text_fmt := text_fmt lg\<rparr>, buf')"
    using BINARY by (auto simp: format_entry_def binary_fmt_def)
  then show ?thesis
    using b(2) len BINARY by (intro exI [of _ k] exI [of _ "text_fmt lg"] exI [of _ buf'])
      (simp add: fmt_ok_def entry_line_def)
next
  case TEXT
  then obtain f where f: "text_fmt lg = Some f" "dates_ok (date_string pf)" "date_inv (date_string pf) f"
    using ok by (auto simp: fmt_ok_def)
  obtain k f' buf' where t: "TextFormatter_format (date_string pf) f e buf (length buf) = Some (k, f', buf')"
    "date_inv (date_string pf) f' \<and> 0 < k \<and> k \<le> max_formatted_size \<and> length buf' = length buf
      \<and> text_line_of (date_string pf) e (take k buf')"
    using textual.fmt_span [of "date_string pf" f e buf] f wf len by (auto simp: max_formatted_size_def)
  then have "format_entry pf lg e buf (length buf) = Some (k, lg\<lparr>text_fmt := Some f'\<rparr>, buf')"
    using TEXT f(1) by (simp add: format_entry_def)
  then show ?thesis
    using t(2) len TEXT f(2) by (intro exI [of _ k] exI [of _ "Some f'"] exI [of _ buf'])
      (simp add: fmt_ok_def entry_line_def max_formatted_size_def)
qed

lemma drain_entry_spec:
  assumes ok: "fmt_ok pf lg" and wf: "wf_entry e" and len: "length buf = 256" and s: "sink lg = Some s"
  shows "\<exists>l tf buf'. entry_line pf (output_format lg) e l \<and> length l \<le> 256 \<and> length buf' = 256
    \<and> fmt_ok pf (lg\<lparr>text_fmt := tf\<rparr>)
    \<and> drain_entry pf e (lg, buf, w) =
      (case sink_write (posix pf) l s w of
         Inl err \<Rightarrow> Inl (Sink_failed err)
       | Inr (k, s', w') \<Rightarrow>
           Inr (lg\<lparr>entries_drained := entries_drained lg + 1, text_fmt := tf, sink := Some s'\<rparr>, buf', w'))"
proof -
  let ?lg = "lg\<lparr>entries_drained := entries_drained lg + 1\<rparr>"
  have "fmt_ok pf ?lg" using ok by (simp add: fmt_ok_def)
  then obtain k tf buf' where f:
    "format_entry pf ?lg e buf (length buf) = Some (k, ?lg\<lparr>text_fmt := tf\<rparr>, buf')"
    "fmt_ok pf (?lg\<lparr>text_fmt := tf\<rparr>)" "0 < k" "k \<le> 256" "length buf' = 256"
    "entry_line pf (output_format ?lg) e (take k buf')"
    using format_entry_span [of pf ?lg e buf] wf len by blast
  then have "drain_entry pf e (lg, buf, w) =
      (case sink_write (posix pf) (take k buf') s w of
         Inl err \<Rightarrow> Inl (Sink_failed err)
       | Inr (k, s', w') \<Rightarrow>
           Inr (lg\<lparr>entries_drained := entries_drained lg + 1, text_fmt := tf, sink := Some s'\<rparr>, buf', w'))"
    using s by (simp add: drain_entry_def Let_def)
  then show ?thesis
    using f by (intro exI [of _ "take k buf'"] exI [of _ tf] exI [of _ buf']) (simp add: fmt_ok_def)
qed

section \<open>A sink that takes lines\<close>

text \<open>\<open>sink_takes ps k s w\<close>: any \<open>k\<close> lines of at most 256 bytes can be written without an error.\<close>

definition sink_takes :: "'w posix \<Rightarrow> nat \<Rightarrow> MMapSink \<Rightarrow> 'w \<Rightarrow> bool" where
  "sink_takes ps k s w \<longleftrightarrow>
     (\<forall>ls. length ls \<le> k \<and> (\<forall>l \<in> set ls. length l \<le> 256) \<longrightarrow> (\<exists>r. write_all ps ls s w = Inr r))"

lemma sink_takes_mono: "sink_takes ps k s w \<Longrightarrow> j \<le> k \<Longrightarrow> sink_takes ps j s w"
  by (auto simp: sink_takes_def)

lemma sink_takes_one:
  assumes "sink_takes ps (Suc k) s w" and "length l \<le> 256"
  shows "\<exists>n s' w'. sink_write ps l s w = Inr (n, s', w') \<and> sink_takes ps k s' w'"
proof -
  obtain r where "write_all ps [l] s w = Inr r"
    using assms(1) [unfolded sink_takes_def, rule_format, of "[l]"] assms(2) by auto
  then obtain n s' w' where one: "sink_write ps l s w = Inr (n, s', w')"
    by (auto split: sum.splits)
  have "\<exists>r. write_all ps ls s' w' = Inr r"
    if "length ls \<le> k" "\<forall>l \<in> set ls. length l \<le> 256" for ls
  proof -
    have "length (l # ls) \<le> Suc k \<and> (\<forall>l \<in> set (l # ls). length l \<le> 256)" using that assms(2) by simp
    then obtain r where "write_all ps (l # ls) s w = Inr r"
      using assms(1) unfolding sink_takes_def by blast
    then show ?thesis using one by (auto split: sum.splits)
  qed
  then show ?thesis using one by (auto simp: sink_takes_def)
qed

lemma write_all_append:
  "write_all ps (xs @ ys) s w =
    (case write_all ps xs s w of
       Inl e \<Rightarrow> Inl e
     | Inr (ks, s1, w1) \<Rightarrow>
         (case write_all ps ys s1 w1 of Inl e \<Rightarrow> Inl e | Inr (ms, s2, w2) \<Rightarrow> Inr (ks @ ms, s2, w2)))"
  by (induction xs arbitrary: s w) (auto split: sum.splits)

text \<open>A sink whose region holds a line never fails while the file can be opened.\<close>

lemma sink_takes_openable:
  assumes opens: "\<forall>p w. 0 \<le> fst (sys_open ps p w)" and ok: "sink_ok s" and big: "256 \<le> unat (region_size s)"
  shows "sink_takes ps k s w"
  unfolding sink_takes_def
proof (intro allI impI)
  have no_open: "open_file ps t v \<noteq> Inl err" for t v err
    using opens by (auto simp: open_file_def Let_def not_less split: prod.splits if_splits)
      (metis fst_conv not_less)
  have no_next: "next_region ps n t v \<noteq> Inl err" for n t v err
    using no_open by (auto simp: next_region_def Let_def split: prod.splits if_splits sum.splits)
  have no_open_err: "sink_write ps l t v \<noteq> Inl (Open_failed p)" for l t v p
    using no_next by (auto simp: sink_write_def Let_def dest: copy_region_error split: sum.splits if_splits)
  fix ls :: "bytes list"
  assume "length ls \<le> k \<and> (\<forall>l \<in> set ls. length l \<le> 256)"
  then have "\<forall>l \<in> set ls. length l \<le> 256" by simp
  then show "\<exists>r. write_all ps ls s w = Inr r"
    using ok big
  proof (induction ls arbitrary: s w)
    case (Cons l ls)
    have "sink_write ps l s w \<noteq> Inl err" for err
      using no_open_err write_in_region [of s l ps w] Cons.prems by (cases err) auto
    then obtain r where "sink_write ps l s w = Inr r" by (cases "sink_write ps l s w") auto
    then obtain n s' w' where one: "sink_write ps l s w = Inr (n, s', w')" by (cases r) auto
    then have "\<exists>r. write_all ps ls s' w' = Inr r"
      using Cons.IH [of s' w'] write_result [OF Cons.prems(2) one] Cons.prems(1,3) by simp
    then show ?case using one by auto
  qed simp
qed

section \<open>The loop drains what was accepted, in order\<close>

definition same_setup :: "Logger \<Rightarrow> Logger \<Rightarrow> bool" where
  "same_setup lg lg' \<longleftrightarrow> consumer_id lg' = consumer_id lg \<and> output_format lg' = output_format lg
     \<and> drain_batch_size lg' = drain_batch_size lg
     \<and> spin_count_before_yield lg' = spin_count_before_yield lg"

lemma same_setup_refl [simp]: "same_setup lg lg"
  by (simp add: same_setup_def)

lemma same_setup_trans: "same_setup a b \<Longrightarrow> same_setup b c \<Longrightarrow> same_setup a c"
  by (simp add: same_setup_def)

text \<open>The drain thread's state: a well-formed queue with well-formed entries, a sink, a formatter.\<close>

definition drain_ok :: "'w platform \<Rightarrow> nat \<Rightarrow> LogEntry MPMCQueue \<Rightarrow> MMapSink \<Rightarrow> 'w dstate \<Rightarrow> bool" where
  "drain_ok pf b q s st \<longleftrightarrow>
     (case st of (lg, buf, w) \<Rightarrow> queue lg = Some q \<and> sink lg = Some s \<and> fmt_ok pf lg
        \<and> length buf = 256 \<and> queue_inv b q \<and> live q (consumer_id lg)
        \<and> (\<forall>e \<in> set (pending q (consumer_id lg)). wf_entry e))"

text \<open>From one state to another, exactly the entries \<open>es\<close> went to the sink, as the lines \<open>ls\<close>.\<close>

definition drained :: "'w platform \<Rightarrow> LogEntry list \<Rightarrow> bytes list \<Rightarrow> 'w dstate \<Rightarrow> 'w dstate \<Rightarrow> bool" where
  "drained pf es ls st st' \<longleftrightarrow>
     (case (st, st') of ((lg, buf, w), (lg', buf', w')) \<Rightarrow>
        list_all2 (entry_line pf (output_format lg)) es ls \<and> (\<forall>l \<in> set ls. length l \<le> 256)
        \<and> same_setup lg lg'
        \<and> entries_drained lg' = entries_drained lg + of_nat (length es)
        \<and> (\<exists>s ks s'. sink lg = Some s \<and> sink lg' = Some s'
             \<and> write_all (posix pf) ls s w = Inr (ks, s', w')))"

lemma drained_trans:
  assumes "drained pf es ls st st1" and "drained pf fs ms st1 st2"
  shows "drained pf (es @ fs) (ls @ ms) st st2"
  using assms unfolding drained_def
  by (auto simp: write_all_append same_setup_def intro: list_all2_appendI split: prod.splits)

lemma drained_takes:
  assumes "drained pf es ls (lg, buf, w) (lg', buf', w')" and "sink lg = Some s" and "sink lg' = Some s'"
    and "sink_takes (posix pf) (length es + k) s w"
  shows "sink_takes (posix pf) k s' w'"
  unfolding sink_takes_def
proof (intro allI impI)
  obtain ks where wr: "write_all (posix pf) ls s w = Inr (ks, s', w')"
    and ls: "length ls = length es" "\<forall>l \<in> set ls. length l \<le> 256"
    using assms(1-3) by (auto simp: drained_def dest: list_all2_lengthD)
  fix ms :: "bytes list"
  assume "length ms \<le> k \<and> (\<forall>l \<in> set ms. length l \<le> 256)"
  then have "length (ls @ ms) \<le> length es + k \<and> (\<forall>l \<in> set (ls @ ms). length l \<le> 256)" using ls by auto
  then obtain r where "write_all (posix pf) (ls @ ms) s w = Inr r"
    using assms(4) unfolding sink_takes_def by blast
  then show "\<exists>r. write_all (posix pf) ms s' w' = Inr r"
    using wr by (auto simp: write_all_append split: sum.splits)
qed

text \<open>One turn: the pop takes the oldest entry and the entry becomes a line.\<close>

lemma drain_pop_spec:
  assumes ok: "drain_ok pf b q s (lg, buf, w)"
  obtains "pending q (consumer_id lg) = []" "drain_pop lg = Inr (None, lg)"
  | e es q1 where "pending q (consumer_id lg) = e # es" "drain_pop lg = Inr (Some e, lg\<lparr>queue := Some q1\<rparr>)"
      "drain_ok pf b q1 s (lg\<lparr>queue := Some q1\<rparr>, buf, w)" "pending q1 (consumer_id lg) = es"
      "wf_entry e" "ring_capacity q1 = ring_capacity q"
proof -
  let ?c = "consumer_id lg"
  have d: "queue lg = Some q" "queue_inv b q" "live q ?c" "\<forall>e \<in> set (pending q ?c). wf_entry e"
    using ok by (auto simp: drain_ok_def)
  obtain r q1 where p: "pop ?c q = (r, q1)" by fastforce
  note s = mpmc.pop_live [OF d(2,3) p]
  show thesis
  proof (cases "pending q ?c")
    case Nil
    then have "r = None" using s by simp
    moreover from this have "q1 = q" using p by (auto simp: pop_def Let_def split: if_splits)
    ultimately have "drain_pop lg = Inr (None, lg)" using d(1) p by (simp add: drain_pop_def)
    then show ?thesis using that(1) Nil by blast
  next
    case (Cons e es)
    have dp: "drain_pop lg = Inr (Some e, lg\<lparr>queue := Some q1\<rparr>)"
      using d(1) p s Cons by (simp add: drain_pop_def)
    have ok1: "drain_ok pf b q1 s (lg\<lparr>queue := Some q1\<rparr>, buf, w)"
      using ok s d(3,4) Cons by (auto simp: drain_ok_def fmt_ok_def)
    show ?thesis
      by (rule that(2) [OF Cons dp ok1]) (use s d(4) Cons in auto)
  qed
qed

lemma drain_turn:
  assumes ok: "drain_ok pf b q s (lg, buf, w)" and wf: "wf_entry e"
    and takes: "sink_takes (posix pf) (Suc k) s w"
  shows "\<exists>l s' lg' buf' w'. drain_entry pf e (lg, buf, w) = Inr (lg', buf', w')
    \<and> drained pf [e] [l] (lg, buf, w) (lg', buf', w') \<and> drain_ok pf b q s' (lg', buf', w')
    \<and> sink_takes (posix pf) k s' w'"
proof -
  have d: "fmt_ok pf lg" "length buf = 256" "sink lg = Some s" using ok by (auto simp: drain_ok_def)
  obtain l tf buf' where e: "entry_line pf (output_format lg) e l" "length l \<le> 256" "length buf' = 256"
    "fmt_ok pf (lg\<lparr>text_fmt := tf\<rparr>)"
    "drain_entry pf e (lg, buf, w) =
      (case sink_write (posix pf) l s w of
         Inl err \<Rightarrow> Inl (Sink_failed err)
       | Inr (k, s', w') \<Rightarrow>
           Inr (lg\<lparr>entries_drained := entries_drained lg + 1, text_fmt := tf, sink := Some s'\<rparr>, buf', w'))"
    using drain_entry_spec [OF d(1) wf d(2,3), of w] by blast
  obtain n s' w' where o: "sink_write (posix pf) l s w = Inr (n, s', w')" "sink_takes (posix pf) k s' w'"
    using sink_takes_one [OF takes e(2)] by blast
  let ?lg' = "lg\<lparr>entries_drained := entries_drained lg + 1, text_fmt := tf, sink := Some s'\<rparr>"
  have "drain_entry pf e (lg, buf, w) = Inr (?lg', buf', w')" using e(5) o(1) by simp
  moreover have "drained pf [e] [l] (lg, buf, w) (?lg', buf', w')"
    using e(1,2) d(3) o(1) by (simp add: drained_def same_setup_def)
  moreover have "drain_ok pf b q s' (?lg', buf', w')"
    using ok e(3,4) by (simp add: drain_ok_def fmt_ok_def)
  ultimately show ?thesis using o(2) by blast
qed

lemma drained_queue: "drained pf es ls (lg\<lparr>queue := q\<rparr>, buf, w) st' = drained pf es ls (lg, buf, w) st'"
  by (cases st') (simp add: drained_def same_setup_def)

lemma drained_id:
  "sink lg = Some s \<Longrightarrow> drained pf [] [] (lg, buf, w) (lg, buf, w)"
  by (simp add: drained_def)

lemma drained_consumer:
  "drained pf es ls (lg, buf, w) (lg', buf', w') \<Longrightarrow> consumer_id lg' = consumer_id lg"
  by (simp add: drained_def same_setup_def)

lemma drain_ok_pending:
  "drain_ok pf b q s (lg, buf, w) \<Longrightarrow> drain_ok pf b q' s' (lg, buf, w) \<Longrightarrow> q' = q \<and> s' = s"
  by (simp add: drain_ok_def)

lemma drain_batch_spec:
  assumes "drain_ok pf b q s (lg, buf, w)"
    and "sink_takes (posix pf) (length (take n (pending q (consumer_id lg)))) s w"
  shows "\<exists>ls q' s' lg' buf' w'.
    drain_batch pf n (lg, buf, w) = Inr (0 < n \<and> pending q (consumer_id lg) \<noteq> [], (lg', buf', w'))
    \<and> drain_ok pf b q' s' (lg', buf', w')
    \<and> pending q' (consumer_id lg) = drop n (pending q (consumer_id lg))
    \<and> ring_capacity q' = ring_capacity q
    \<and> drained pf (take n (pending q (consumer_id lg))) ls (lg, buf, w) (lg', buf', w')"
  using assms
proof (induction n arbitrary: q s lg buf w)
  case 0
  then show ?case using drained_id [of lg s pf buf w] by (fastforce simp: drain_ok_def)
next
  case (Suc n)
  let ?c = "consumer_id lg"
  have sk: "sink lg = Some s" using Suc.prems(1) by (simp add: drain_ok_def)
  show ?case
  proof (rule drain_pop_spec [OF Suc.prems(1)])
    assume e: "pending q ?c = []" "drain_pop lg = Inr (None, lg)"
    have "drained pf [] [] (lg, buf, w) (lg, buf, w)" by (rule drained_id [OF sk])
    then show ?thesis
      using e Suc.prems(1)
      by (intro exI [of _ "[]"] exI [of _ q] exI [of _ s] exI [of _ lg] exI [of _ buf] exI [of _ w]) simp
  next
    fix e es q1
    assume e: "pending q ?c = e # es" "drain_pop lg = Inr (Some e, lg\<lparr>queue := Some q1\<rparr>)"
      "drain_ok pf b q1 s (lg\<lparr>queue := Some q1\<rparr>, buf, w)" "pending q1 ?c = es" "wf_entry e"
      "ring_capacity q1 = ring_capacity q"
    have "sink_takes (posix pf) (Suc (length (take n es))) s w" using Suc.prems(2) e(1) by simp
    from drain_turn [OF e(3,5) this] obtain l s1 lg1 buf1 w1 where t:
      "drain_entry pf e (lg\<lparr>queue := Some q1\<rparr>, buf, w) = Inr (lg1, buf1, w1)"
      "drained pf [e] [l] (lg, buf, w) (lg1, buf1, w1)" "drain_ok pf b q1 s1 (lg1, buf1, w1)"
      "sink_takes (posix pf) (length (take n es)) s1 w1"
      by (auto simp: drained_queue)
    have c1: "consumer_id lg1 = ?c" by (rule drained_consumer [OF t(2)])
    obtain ls q' s' lg' buf' w' where ih:
      "drain_batch pf n (lg1, buf1, w1) = Inr (0 < n \<and> es \<noteq> [], (lg', buf', w'))"
      "drain_ok pf b q' s' (lg', buf', w')" "pending q' ?c = drop n es"
      "ring_capacity q' = ring_capacity q1"
      "drained pf (take n es) ls (lg1, buf1, w1) (lg', buf', w')"
      using Suc.IH [OF t(3)] t(4) e(4) c1 by auto
    have "drain_batch pf (Suc n) (lg, buf, w) = Inr (True, (lg', buf', w'))"
      using e(2) t(1) ih(1) by simp
    moreover have "drained pf (e # take n es) (l # ls) (lg, buf, w) (lg', buf', w')"
      using drained_trans [OF t(2) ih(5)] by simp
    ultimately show ?thesis
      using ih(2-4) e(1,6)
      by (intro exI [of _ "l # ls"] exI [of _ q'] exI [of _ s'] exI [of _ lg'] exI [of _ buf'] exI [of _ w'])
        simp
  qed
qed

lemma drain_final_spec:
  assumes "drain_ok pf b q s (lg, buf, w)" and "length (pending q (consumer_id lg)) < fuel"
    and "sink_takes (posix pf) (length (pending q (consumer_id lg))) s w"
  shows "\<exists>ls q' s' lg' buf' w'. drain_final pf fuel (lg, buf, w) = Some (Inr (lg', buf', w'))
    \<and> drain_ok pf b q' s' (lg', buf', w') \<and> pending q' (consumer_id lg) = []
    \<and> drained pf (pending q (consumer_id lg)) ls (lg, buf, w) (lg', buf', w')"
  using assms
proof (induction fuel arbitrary: q s lg buf w)
  case (Suc n)
  let ?c = "consumer_id lg"
  have sk: "sink lg = Some s" using Suc.prems(1) by (simp add: drain_ok_def)
  show ?case
  proof (rule drain_pop_spec [OF Suc.prems(1)])
    assume e: "pending q ?c = []" "drain_pop lg = Inr (None, lg)"
    have "drained pf [] [] (lg, buf, w) (lg, buf, w)" by (rule drained_id [OF sk])
    then show ?thesis
      using e Suc.prems(1)
      by (intro exI [of _ "[]"] exI [of _ q] exI [of _ s] exI [of _ lg] exI [of _ buf] exI [of _ w]) simp
  next
    fix e es q1
    assume e: "pending q ?c = e # es" "drain_pop lg = Inr (Some e, lg\<lparr>queue := Some q1\<rparr>)"
      "drain_ok pf b q1 s (lg\<lparr>queue := Some q1\<rparr>, buf, w)" "pending q1 ?c = es" "wf_entry e"
      "ring_capacity q1 = ring_capacity q"
    have "sink_takes (posix pf) (Suc (length es)) s w" using Suc.prems(3) e(1) by simp
    from drain_turn [OF e(3,5) this] obtain l s1 lg1 buf1 w1 where t:
      "drain_entry pf e (lg\<lparr>queue := Some q1\<rparr>, buf, w) = Inr (lg1, buf1, w1)"
      "drained pf [e] [l] (lg, buf, w) (lg1, buf1, w1)" "drain_ok pf b q1 s1 (lg1, buf1, w1)"
      "sink_takes (posix pf) (length es) s1 w1"
      by (auto simp: drained_queue)
    have c1: "consumer_id lg1 = ?c" by (rule drained_consumer [OF t(2)])
    obtain ls q' s' lg' buf' w' where ih:
      "drain_final pf n (lg1, buf1, w1) = Some (Inr (lg', buf', w'))"
      "drain_ok pf b q' s' (lg', buf', w')" "pending q' ?c = []"
      "drained pf es ls (lg1, buf1, w1) (lg', buf', w')"
      using Suc.IH [OF t(3)] t(4) e(1,4) c1 Suc.prems(2) by auto
    have "drain_final pf (Suc n) (lg, buf, w) = Some (Inr (lg', buf', w'))"
      using e(2) t(1) ih(1) by simp
    moreover have "drained pf (e # es) (l # ls) (lg, buf, w) (lg', buf', w')"
      using drained_trans [OF t(2) ih(4)] by simp
    ultimately show ?thesis
      using ih(2,3) e(1)
      by (intro exI [of _ "l # ls"] exI [of _ q'] exI [of _ s'] exI [of _ lg'] exI [of _ buf'] exI [of _ w'])
        simp
  qed
qed simp

lemma push_list_spec:
  assumes "drain_ok pf (b + length es) q s (lg, buf, w)" and "\<forall>e \<in> set es. wf_entry e"
    and "push_list es lg = (acc, lg')"
  shows "\<exists>q'. lg' = lg\<lparr>queue := Some q'\<rparr> \<and> drain_ok pf b q' s (lg', buf, w)
    \<and> pending q' (consumer_id lg) = pending q (consumer_id lg) @ acc
    \<and> ring_capacity q' = ring_capacity q \<and> set acc \<subseteq> set es \<and> length acc \<le> length es"
  using assms
proof (induction es arbitrary: q lg acc)
  case Nil
  then show ?case by (intro exI [of _ q]) (simp add: drain_ok_def)
next
  case (Cons e es)
  let ?c = "consumer_id lg"
  have d: "queue lg = Some q" "queue_inv (Suc (b + length es)) q" "live q ?c"
    "\<forall>e \<in> set (pending q ?c). wf_entry e"
    using Cons.prems(1) by (simp_all add: drain_ok_def)
  obtain ok q1 where p: "push [] e q = (ok, q1)" by fastforce
  obtain acc1 where r: "push_list es (lg\<lparr>queue := Some q1\<rparr>) = (acc1, lg')"
    "acc = (if ok then e # acc1 else acc1)"
    using Cons.prems(3) d(1) p by (auto simp: logger_push_def simp del: push.simps split: prod.splits)
  have s1: "queue_inv (b + length es) q1" "live q1 ?c" "ring_capacity q1 = ring_capacity q"
    "pending q1 ?c = pending q ?c @ (if ok then [e] else [])"
    using mpmc.push_any [OF d(2) p d(3)] d(3) by simp_all
  have "drain_ok pf (b + length es) q1 s (lg\<lparr>queue := Some q1\<rparr>, buf, w)"
    using Cons.prems(1,2) s1 d(4) by (auto simp: drain_ok_def fmt_ok_def)
  from Cons.IH [OF this _ r(1)] Cons.prems(2) obtain q' where
    "lg' = lg\<lparr>queue := Some q'\<rparr>" "drain_ok pf b q' s (lg', buf, w)"
    "pending q' ?c = pending q1 ?c @ acc1" "ring_capacity q' = ring_capacity q1"
    "set acc1 \<subseteq> set es" "length acc1 \<le> length es" by auto
  then show ?case using s1 r(2) by (intro exI [of _ q']) auto
qed

definition arrivals_of :: "(LogEntry list \<times> bool) list \<Rightarrow> LogEntry list" where
  "arrivals_of its = concat (map fst its)"

lemma arrivals_simps [simp]:
  "arrivals_of [] = []" "arrivals_of ((as, stop) # its) = as @ arrivals_of its"
  by (simp_all add: arrivals_of_def)

lemma drain_ok_mono: "drain_ok pf (b + k) q s st \<Longrightarrow> drain_ok pf b q s st"
  by (cases st) (auto simp: drain_ok_def intro: mpmc.inv_mono_add)

lemma drain_ok_backlog:
  "drain_ok pf b q s (lg, buf, w) \<Longrightarrow> length (pending q (consumer_id lg)) \<le> ring_capacity q"
  by (auto simp: drain_ok_def intro: mpmc.backlog_bound)

text \<open>One iteration up to the batch.\<close>

lemma drain_iteration:
  assumes ok: "drain_ok pf (b + length as) q s (lg, buf, w)" and wf: "\<forall>e \<in> set as. wf_entry e"
    and takes: "sink_takes (posix pf) (length (pending q (consumer_id lg)) + length as + k) s w"
    and p: "push_list as lg = (acc, lg1)"
  shows "\<exists>got ls q' s' lg' buf' w' es. drain_batch pf (unat (drain_batch_size lg)) (lg1, buf, w)
      = Inr (got, (lg', buf', w'))
    \<and> drain_ok pf b q' s' (lg', buf', w') \<and> drained pf es ls (lg, buf, w) (lg', buf', w')
    \<and> es @ pending q' (consumer_id lg) = pending q (consumer_id lg) @ acc
    \<and> ring_capacity q' = ring_capacity q
    \<and> sink_takes (posix pf) (length (pending q' (consumer_id lg)) + k) s' w'
    \<and> (got \<longrightarrow> es \<noteq> [])"
proof -
  let ?c = "consumer_id lg" and ?n = "unat (drain_batch_size lg)"
  obtain q1 where q1: "lg1 = lg\<lparr>queue := Some q1\<rparr>" "drain_ok pf b q1 s (lg1, buf, w)"
    "pending q1 ?c = pending q ?c @ acc" "ring_capacity q1 = ring_capacity q" "length acc \<le> length as"
    using push_list_spec [OF ok wf p] by blast
  let ?es = "take ?n (pending q1 ?c)"
  have t: "sink_takes (posix pf) (length (pending q1 ?c) + k) s w"
    using sink_takes_mono [OF takes] q1(3,5) by simp
  have c1: "consumer_id lg1 = ?c" by (simp add: q1(1))
  obtain ls q' s' lg' buf' w' where r:
    "drain_batch pf ?n (lg1, buf, w) = Inr (0 < ?n \<and> pending q1 ?c \<noteq> [], (lg', buf', w'))"
    "drain_ok pf b q' s' (lg', buf', w')" "pending q' ?c = drop ?n (pending q1 ?c)"
    "ring_capacity q' = ring_capacity q1" "drained pf ?es ls (lg1, buf, w) (lg', buf', w')"
    using drain_batch_spec [OF q1(2), of ?n] sink_takes_mono [OF t, of "length ?es"] c1 by auto
  have dr: "drained pf ?es ls (lg, buf, w) (lg', buf', w')"
    using r(5) by (simp add: q1(1) drained_queue)
  have sk: "sink lg = Some s" "sink lg' = Some s'" using ok r(2) by (simp_all add: drain_ok_def)
  have "length ?es + (length (pending q' ?c) + k) = length (pending q1 ?c) + k"
    using r(3) by simp
  then have "sink_takes (posix pf) (length ?es + (length (pending q' ?c) + k)) s w"
    using t by (simp only:)
  then have t': "sink_takes (posix pf) (length (pending q' ?c) + k) s' w'"
    by (rule drained_takes [OF dr sk])
  have es: "?es @ pending q' ?c = pending q ?c @ acc"
    unfolding r(3) append_take_drop_id by (rule q1(3))
  show ?thesis
    using r(1,2,4) dr t' q1(4) es
    by (intro exI [of _ "0 < ?n \<and> pending q1 ?c \<noteq> []"] exI [of _ ls] exI [of _ q'] exI [of _ s']
        exI [of _ lg'] exI [of _ buf'] exI [of _ w'] exI [of _ ?es]) auto
qed

lemma drain_loop_spec:
  assumes "drain_ok pf (length (arrivals_of its)) q s (lg, buf, w)"
    and "\<forall>e \<in> set (arrivals_of its). wf_entry e" and "ring_capacity q < fuel"
    and "sink_takes (posix pf) (length (pending q (consumer_id lg)) + length (arrivals_of its)) s w"
  shows "\<exists>acc fin ce' ls es q' s' lg' buf' w'.
    drain_loop pf fuel its ce (lg, buf, w) = Some (Inr (acc, fin, ce', (lg', buf', w')))
    \<and> drain_ok pf 0 q' s' (lg', buf', w') \<and> drained pf es ls (lg, buf, w) (lg', buf', w')
    \<and> es @ pending q' (consumer_id lg) = pending q (consumer_id lg) @ acc
    \<and> (fin \<longrightarrow> pending q' (consumer_id lg) = [])"
  using assms
proof (induction its arbitrary: q s lg buf w ce)
  case Nil
  then have "drained pf [] [] (lg, buf, w) (lg, buf, w)"
    by (intro drained_id [of lg s]) (simp add: drain_ok_def)
  then show ?case
    using Nil by (intro exI [of _ "[]"] exI [of _ False] exI [of _ ce] exI [of _ "[]"]) fastforce
next
  case (Cons it its)
  obtain as stop where it: "it = (as, stop)" by fastforce
  let ?c = "consumer_id lg"
  obtain acc lg1 where p: "push_list as lg = (acc, lg1)" by fastforce
  have ok: "drain_ok pf (length (arrivals_of its) + length as) q s (lg, buf, w)"
    using Cons.prems(1) it by (simp add: add.commute)
  have wf: "\<forall>e \<in> set as. wf_entry e" "\<forall>e \<in> set (arrivals_of its). wf_entry e"
    using Cons.prems(2) it by simp_all
  obtain got ls q' s' lg' buf' w' es where r:
    "drain_batch pf (unat (drain_batch_size lg)) (lg1, buf, w) = Inr (got, (lg', buf', w'))"
    "drain_ok pf (length (arrivals_of its)) q' s' (lg', buf', w')"
    "drained pf es ls (lg, buf, w) (lg', buf', w')"
    "es @ pending q' ?c = pending q ?c @ acc" "ring_capacity q' = ring_capacity q"
    "sink_takes (posix pf) (length (pending q' ?c) + length (arrivals_of its)) s' w'"
    using drain_iteration [OF ok wf(1) _ p, of "length (arrivals_of its)"] Cons.prems(4) it
    by (auto simp: add.assoc)
  have c': "consumer_id lg' = ?c" by (rule drained_consumer [OF r(3)])
  show ?case
  proof (cases "\<not> got \<and> stop")
    case True
    have "length (pending q' ?c) < fuel"
      using drain_ok_backlog [OF r(2)] r(5) Cons.prems(3) c' by simp
    then obtain ms q2 s2 lg2 buf2 w2 where f:
      "drain_final pf fuel (lg', buf', w') = Some (Inr (lg2, buf2, w2))"
      "drain_ok pf (length (arrivals_of its)) q2 s2 (lg2, buf2, w2)" "pending q2 ?c = []"
      "drained pf (pending q' ?c) ms (lg', buf', w') (lg2, buf2, w2)"
      using drain_final_spec [OF r(2), of fuel] sink_takes_mono [OF r(6), of "length (pending q' ?c)"] c'
      by auto
    have "drain_loop pf fuel (it # its) ce (lg, buf, w) = Some (Inr (acc, True, ce, (lg2, buf2, w2)))"
      using it p r(1) f(1) True by (simp add: Let_def)
    then show ?thesis
      using drained_trans [OF r(3) f(4)] drain_ok_mono [of pf 0 "length (arrivals_of its)" q2 s2] f(2,3) r(4)
      by (intro exI [of _ acc] exI [of _ True] exI [of _ ce]) fastforce
  next
    case False
    define ce1 where "ce1 = (if got then 0 else fst (backoff (spin_count_before_yield lg) ce))"
    obtain acc' fin ce' ms fs q2 s2 lg2 buf2 w2 where ih:
      "drain_loop pf fuel its ce1 (lg', buf', w') = Some (Inr (acc', fin, ce', (lg2, buf2, w2)))"
      "drain_ok pf 0 q2 s2 (lg2, buf2, w2)" "drained pf fs ms (lg', buf', w') (lg2, buf2, w2)"
      "fs @ pending q2 ?c = pending q' ?c @ acc'" "fin \<longrightarrow> pending q2 ?c = []"
      using Cons.IH [OF r(2) wf(2) _ _, of ce1] r(5,6) Cons.prems(3) c' by auto
    have "drain_loop pf fuel (it # its) ce (lg, buf, w) = Some (Inr (acc @ acc', fin, ce', (lg2, buf2, w2)))"
      using it p r(1) ih(1) [unfolded ce1_def] False by (cases got; cases stop) (simp_all add: Let_def)
    moreover have "(es @ fs) @ pending q2 ?c = pending q ?c @ acc @ acc'"
      using r(4) ih(4) by (metis append.assoc)
    ultimately show ?thesis
      using drained_trans [OF r(3) ih(3)] ih(2,5)
      by (intro exI [of _ "acc @ acc'"] exI [of _ fin] exI [of _ ce'] exI [of _ "ls @ ms"]
          exI [of _ "es @ fs"] exI [of _ q2] exI [of _ s2] exI [of _ lg2] exI [of _ buf2] exI [of _ w2]) simp
  qed
qed

text \<open>With a stop request visible and no arrivals, the loop ends within backlog + 1 turns.\<close>

lemma drain_loop_stops:
  assumes "drain_ok pf 0 q s (lg, buf, w)" and "length (pending q (consumer_id lg)) < k"
    and "ring_capacity q < fuel"
    and "sink_takes (posix pf) (length (pending q (consumer_id lg))) s w"
  shows "\<exists>ce' st'. drain_loop pf fuel (replicate k ([], True)) ce (lg, buf, w) = Some (Inr ([], True, ce', st'))"
  using assms
proof (induction k arbitrary: q s lg buf w ce)
  case (Suc k)
  let ?c = "consumer_id lg"
  have ok: "drain_ok pf (0 + length ([] :: LogEntry list)) q s (lg, buf, w)" using Suc.prems(1) by simp
  obtain got ls q' s' lg' buf' w' es where r:
    "drain_batch pf (unat (drain_batch_size lg)) (lg, buf, w) = Inr (got, (lg', buf', w'))"
    "drain_ok pf 0 q' s' (lg', buf', w')" "drained pf es ls (lg, buf, w) (lg', buf', w')"
    "es @ pending q' ?c = pending q ?c" "ring_capacity q' = ring_capacity q"
    "sink_takes (posix pf) (length (pending q' ?c)) s' w'" "got \<longrightarrow> es \<noteq> []"
    using drain_iteration [OF ok, of 0 "[]" lg] Suc.prems(4) by auto
  have c': "consumer_id lg' = ?c" by (rule drained_consumer [OF r(3)])
  show ?case
  proof (cases got)
    case True
    have "length (pending q' ?c) < length (pending q ?c)"
      using r(4,7) True by (metis add_less_same_cancel2 append_Nil length_0_conv length_append
          length_greater_0_conv less_add_same_cancel2)
    then obtain ce' st' where "drain_loop pf fuel (replicate k ([], True)) 0 (lg', buf', w')
        = Some (Inr ([], True, ce', st'))"
      using Suc.IH [OF r(2), of 0] Suc.prems(2,3) r(5,6) c' by auto
    then show ?thesis using r(1) True by (cases st') simp
  next
    case False
    have "length (pending q' ?c) < fuel" using drain_ok_backlog [OF r(2)] r(5) Suc.prems(3) c' by simp
    then obtain st2 where "drain_final pf fuel (lg', buf', w') = Some (Inr st2)"
      using drain_final_spec [OF r(2), of fuel] r(6) c' by auto
    then show ?thesis using r(1) False by (cases st2) simp
  qed
qed simp

section \<open>The macro, the filter, start\<close>

lemma overwrite_start: "length ys \<le> length xs \<Longrightarrow> take (length ys) (overwrite 0 ys xs) = ys"
  by (simp add: overwrite_def)

lemma macro_payload:
  fixes now :: timespec and tid :: u32 and lvl :: LogLevel and cat :: u8 and s junk :: bytes
  assumes "length junk = 112" and "length s < 2 ^ 31"
  defines "e \<equiv> macro_entry now tid lvl cat (Some s) junk"
  shows "wf_entry e \<and> unat (payload_len e) = min (length s) 112
    \<and> take (unat (payload_len e)) (payload e) = (if length s < 112 then s else take 111 s @ [CHR 0x00])"
proof -
  have len: "unat (payload_len e) = min (length s) 112"
  proof (cases "0 < length s \<and> length s < 112")
    case True
    then show ?thesis
      by (auto simp: e_def macro_entry_def snprintf_def LogEntry_new_def macro_payload_len_def PAYLOAD_SIZE_def
          unat_of_nat take_bit_nat_eq_self)
  next
    case False
    then show ?thesis
      by (auto simp: e_def macro_entry_def snprintf_def LogEntry_new_def macro_payload_len_def PAYLOAD_SIZE_def)
  qed
  have pay: "payload e = overwrite 0 (take 111 s @ [CHR 0x00]) junk"
    by (simp add: e_def macro_entry_def snprintf_def LogEntry_new_def PAYLOAD_SIZE_def)
  have "wf_entry e" using assms(1) by (simp add: wf_entry_def pay PAYLOAD_SIZE_def)
  moreover have "take (min (length s) 112) (payload e)
      = (if length s < 112 then s else take 111 s @ [CHR 0x00])"
    using assms(1) by (auto simp: pay overwrite_def min_def take_Cons')
  ultimately show ?thesis by (simp add: len)
qed

lemma register_fresh:
  "register_consumer (MPMCQueue_new n d) =
    (Inr 0, publish_consumer 0 0 (store_num_consumers 1 (MPMCQueue_new n d)))"
proof -
  have n: "queue_num_consumers (MPMCQueue_new n d) = 0" "queue_head (MPMCQueue_new n d) = 0"
    by (simp_all add: MPMCQueue_new_def queue_num_consumers_def queue_head_def)
  then have "queue_num_consumers (MPMCQueue_new n d) < MAX_CONSUMERS" by (simp add: MAX_CONSUMERS_def)
  from register_ok [OF this] show ?thesis by (simp add: n)
qed

lemma QUEUE_SIZE_valid: "valid_size QUEUE_SIZE" "QUEUE_SIZE + b < 2 ^ 64 - 1 \<longleftrightarrow> b < 2 ^ 64 - 1 - 2 ^ 20"
proof -
  have "(of_nat (2 ^ 20) :: u64) AND (of_nat (2 ^ 20) - 1) = 0" by simp
  then show "valid_size QUEUE_SIZE" by (simp add: valid_size_def QUEUE_SIZE_def)
  show "QUEUE_SIZE + b < 2 ^ 64 - 1 \<longleftrightarrow> b < 2 ^ 64 - 1 - 2 ^ 20" by (auto simp: QUEUE_SIZE_def)
qed

lemma init_queue:
  assumes "b < 2 ^ 64 - 1 - 2 ^ 20" and "snd (register_consumer (MPMCQueue_new QUEUE_SIZE d)) = q"
  shows "queue_inv b q" "live q 0" "pending q 0 = []" "ring_capacity q = QUEUE_SIZE"
proof -
  have q: "q = register_all 1 (MPMCQueue_new QUEUE_SIZE d)" using assms(2) by simp
  have v: "valid_size QUEUE_SIZE" "QUEUE_SIZE + b < 2 ^ 64 - 1" using QUEUE_SIZE_valid assms(1) by blast+
  show "queue_inv b q" "live q 0" "pending q 0 = []"
    unfolding q using new_queue_registered [OF v, of 1 0 d] by simp_all
  show "ring_capacity q = QUEUE_SIZE"
    unfolding q by (simp add: ring_capacity_def MPMCQueue_new_def)
qed

lemma logger_init_fresh:
  fixes cfg :: LoggerConfig
  assumes un: "\<not> initialized lg"
    and q: "register_consumer (MPMCQueue_new QUEUE_SIZE (fresh_entry pf)) = (Inr 0, q)"
  defines "lg3 \<equiv> lg\<lparr>min_level := cfg_min_level cfg, output_format := cfg_output_format cfg,
      drain_batch_size := cfg_drain_batch_size cfg, spin_count_before_yield := cfg_spin_count_before_yield cfg,
      queue := Some q, consumer_id := 0\<rparr>"
  shows "logger_init pf cfg lg w =
    (case MMapSink_new (posix pf) (cfg_log_file_path cfg) (cfg_mmap_region_size cfg)
        (cfg_max_file_size cfg) (cfg_max_rotated_files cfg) w of
       Inl e \<Rightarrow> Inl (Sink_error e, lg3)
     | Inr (s, w1) \<Rightarrow> Inr (lg3\<lparr>sink := Some s,
         text_fmt := (if output_format lg3 = TEXT then Some (CachedDateFormatter_new (fresh_prefix pf))
           else text_fmt lg3), running := True, drain_thread := True, initialized := True\<rparr>, w1))"
  unfolding logger_init_def Let_def q prod.case sum.case if_not_P [OF un] lg3_def ..

text \<open>After a successful \<open>init\<close> the drain thread starts from a good state.\<close>

lemma init_drain_ok:
  assumes i: "logger_init pf cfg lg w = Inr (lg', w')" and un: "\<not> initialized lg"
    and b: "b < 2 ^ 64 - 1 - 2 ^ 20" and junk: "length (fresh_prefix pf) = 20"
    and dates: "cfg_output_format cfg = TEXT \<longrightarrow> dates_ok (date_string pf)" and buf: "length buf = 256"
  obtains q s where "drain_ok pf b q s (lg', buf, w')" "consumer_id lg' = 0" "pending q 0 = []"
    "ring_capacity q = QUEUE_SIZE" "output_format lg' = cfg_output_format cfg" "initialized lg'"
    "MMapSink_new (posix pf) (cfg_log_file_path cfg) (cfg_mmap_region_size cfg) (cfg_max_file_size cfg)
       (cfg_max_rotated_files cfg) w = Inr (s, w')"
    "drain_batch_size lg' = cfg_drain_batch_size cfg" "entries_drained lg' = entries_drained lg"
    "drain_thread lg'" "min_level lg' = cfg_min_level cfg"
proof -
  obtain q where q: "register_consumer (MPMCQueue_new QUEUE_SIZE (fresh_entry pf)) = (Inr 0, q)"
    by (rule that) (rule register_fresh)
  define lg3 where "lg3 = lg\<lparr>min_level := cfg_min_level cfg, output_format := cfg_output_format cfg,
      drain_batch_size := cfg_drain_batch_size cfg, spin_count_before_yield := cfg_spin_count_before_yield cfg,
      queue := Some q, consumer_id := 0\<rparr>"
  note init = logger_init_fresh [OF un q, of cfg w, folded lg3_def]
  obtain s where s: "MMapSink_new (posix pf) (cfg_log_file_path cfg) (cfg_mmap_region_size cfg)
      (cfg_max_file_size cfg) (cfg_max_rotated_files cfg) w = Inr (s, w')"
    and lg': "lg' = lg3\<lparr>sink := Some s,
      text_fmt := (if output_format lg3 = TEXT then Some (CachedDateFormatter_new (fresh_prefix pf))
        else text_fmt lg3), running := True, drain_thread := True, initialized := True\<rparr>"
    using i unfolding init by (auto split: sum.splits)
  note iq = init_queue [OF b, of "fresh_entry pf" q]
  have "drain_ok pf b q s (lg', buf, w')"
    using iq q buf dates date_inv_new [OF junk, of "date_string pf"]
    by (simp add: drain_ok_def lg' lg3_def fmt_ok_def)
  then show thesis using that [of q s] s iq q by (simp add: lg' lg3_def)
qed

section \<open>Properties\<close>

text \<open>C9: The drain loop delivers in order and loses nothing. From a well-formed state, for
  every schedule of producer arrivals and stop requests, the loop runs without an error, and
  the entries handed to the sink followed by those still queued are exactly the entries queued
  before followed by those accepted since; each becomes its binary image or its text line, the
  drained counter counts them, and when the loop ends the queue is empty.\<close>

theorem drain_loop_in_order:
  assumes "drain_ok pf (length (arrivals_of its)) q s (lg, buf, w)"
    and "\<forall>e \<in> set (arrivals_of its). wf_entry e" and "ring_capacity q < fuel"
    and "sink_takes (posix pf) (length (pending q (consumer_id lg)) + length (arrivals_of its)) s w"
  shows "\<exists>acc fin ce' ls es q' s' lg' buf' w'.
    drain_loop pf fuel its ce (lg, buf, w) = Some (Inr (acc, fin, ce', (lg', buf', w')))
    \<and> drain_ok pf 0 q' s' (lg', buf', w')
    \<and> list_all2 (entry_line pf (output_format lg)) es ls
    \<and> (\<exists>ks. write_all (posix pf) ls s w = Inr (ks, s', w'))
    \<and> entries_drained lg' = entries_drained lg + of_nat (length es)
    \<and> es @ pending q' (consumer_id lg) = pending q (consumer_id lg) @ acc
    \<and> (fin \<longrightarrow> pending q' (consumer_id lg) = [])"
proof -
  obtain acc fin ce' ls es q' s' lg' buf' w' where r:
    "drain_loop pf fuel its ce (lg, buf, w) = Some (Inr (acc, fin, ce', (lg', buf', w')))"
    "drain_ok pf 0 q' s' (lg', buf', w')" "drained pf es ls (lg, buf, w) (lg', buf', w')"
    "es @ pending q' (consumer_id lg) = pending q (consumer_id lg) @ acc"
    "fin \<longrightarrow> pending q' (consumer_id lg) = []"
    using drain_loop_spec [OF assms, of ce] by blast
  have "sink lg = Some s" "sink lg' = Some s'" using assms(1) r(2) by (simp_all add: drain_ok_def)
  then have "list_all2 (entry_line pf (output_format lg)) es ls"
    "\<exists>ks. write_all (posix pf) ls s w = Inr (ks, s', w')"
    "entries_drained lg' = entries_drained lg + of_nat (length es)"
    using r(3) by (auto simp: drained_def)
  then show ?thesis using r by blast
qed

definition demo_platform :: "sim platform" where
  "demo_platform = \<lparr>posix = sim_posix 4096, date_string = demo_dates, has_avx2 = True,
     fresh_entry = demo_entry, fresh_prefix = replicate 20 (CHR 0x00)\<rparr>"

definition demo_log_queue :: "LogEntry MPMCQueue" where
  "demo_log_queue = register_all 1 (MPMCQueue_new 16 demo_entry)"

definition demo_log_sink :: MMapSink where
  "demo_log_sink = demo_sink\<lparr>region_size := 1048576, max_file_size := 1048576\<rparr>"

definition demo_logger :: Logger where
  "demo_logger = Logger_new\<lparr>queue := Some demo_log_queue, sink := Some demo_log_sink\<rparr>"

lemma demo_log_queue_ok:
  "queue_inv 9 demo_log_queue" "live demo_log_queue 0" "pending demo_log_queue 0 = []"
  "ring_capacity demo_log_queue = 16"
proof -
  show "queue_inv 9 demo_log_queue" "live demo_log_queue 0" "pending demo_log_queue 0 = []"
    unfolding demo_log_queue_def using new_queue_registered [of 16 9 1 0 demo_entry]
    by (simp_all add: valid_size_def)
  show "ring_capacity demo_log_queue = 16"
    by (simp add: demo_log_queue_def ring_capacity_def MPMCQueue_new_def)
qed

lemma demo_entry_wf: "wf_entry demo_entry"
  by (simp add: wf_entry_def demo_entry_def PAYLOAD_SIZE_def)

lemma demo_drain_ok:
  "b \<le> 9 \<Longrightarrow> drain_ok demo_platform b demo_log_queue demo_log_sink (demo_logger, replicate 256 (CHR 0x00), v)"
  using demo_log_queue_ok mpmc.inv_mono_le [of 9 demo_log_queue b]
  by (simp add: drain_ok_def demo_logger_def Logger_new_def fmt_ok_def)

lemma demo_takes: "sink_takes (posix demo_platform) k demo_log_sink v"
  by (rule sink_takes_openable)
    (simp_all add: demo_platform_def sim_posix_def demo_log_sink_def demo_sink_def sink_ok_def)

lemma drain_loop_in_order_witness:
  "\<exists>acc fin ce' st'. drain_loop demo_platform 17 [([demo_entry], False), ([], True)] 0
      (demo_logger, replicate 256 (CHR 0x00), demo_world) = Some (Inr (acc, fin, ce', st'))"
proof -
  have "\<exists>acc fin ce' ls es q' s' lg' buf' w'.
    drain_loop demo_platform 17 [([demo_entry], False), ([], True)] 0
      (demo_logger, replicate 256 (CHR 0x00), demo_world) = Some (Inr (acc, fin, ce', (lg', buf', w')))
    \<and> drain_ok demo_platform 0 q' s' (lg', buf', w')
    \<and> list_all2 (entry_line demo_platform (output_format demo_logger)) es ls
    \<and> (\<exists>ks. write_all (posix demo_platform) ls demo_log_sink demo_world = Inr (ks, s', w'))
    \<and> entries_drained lg' = entries_drained demo_logger + of_nat (length es)
    \<and> es @ pending q' (consumer_id demo_logger) = pending demo_log_queue (consumer_id demo_logger) @ acc
    \<and> (fin \<longrightarrow> pending q' (consumer_id demo_logger) = [])"
    by (rule drain_loop_in_order)
      (auto simp: demo_entry_wf demo_log_queue_ok demo_takes intro: demo_drain_ok)
  then show ?thesis by blast
qed

text \<open>C30: The drain loop ends. Once a stop request is visible and producers are quiet, the loop
  returns within one iteration more than its backlog, without an error.\<close>

theorem drain_loop_ends:
  assumes "drain_ok pf 0 q s (lg, buf, w)" and "length (pending q (consumer_id lg)) < k"
    and "ring_capacity q < fuel"
    and "sink_takes (posix pf) (length (pending q (consumer_id lg))) s w"
  shows "\<exists>ce' st'. drain_loop pf fuel (replicate k ([], True)) ce (lg, buf, w) = Some (Inr ([], True, ce', st'))"
  by (rule drain_loop_stops [OF assms])

lemma drain_loop_ends_witness:
  "\<exists>ce' st'. drain_loop demo_platform 17 (replicate 1 ([], True)) 0
      (demo_logger, replicate 256 (CHR 0x00), demo_world) = Some (Inr ([], True, ce', st'))"
proof -
  have c: "consumer_id demo_logger = 0" by (simp add: demo_logger_def Logger_new_def)
  show ?thesis
    by (rule drain_loop_ends [OF demo_drain_ok]) (simp_all add: c demo_log_queue_ok demo_takes)
qed

text \<open>The macro's entry. A message shorter than 112 characters is stored whole and its length
  is exact; a longer one is cut to 111 characters and its recorded length of 112 includes the
  terminating NUL, which then reaches the log file. The entry is well-formed either way.\<close>

lemma macro_entry_payload:
  assumes "length junk = 112" and "length s < 2 ^ 31"
  shows "wf_entry (macro_entry now tid lvl cat (Some s) junk)
    \<and> unat (payload_len (macro_entry now tid lvl cat (Some s) junk)) = min (length s) 112
    \<and> take (min (length s) 112) (payload (macro_entry now tid lvl cat (Some s) junk))
      = (if length s < 112 then s else take 111 s @ [CHR 0x00])"
proof -
  note m = macro_payload [OF assms, of now tid lvl cat]
  then have "unat (payload_len (macro_entry now tid lvl cat (Some s) junk)) = min (length s) 112" by blast
  then show ?thesis using m by metis
qed

lemma macro_entry_payload_witness:
  "take 112 (payload (macro_entry \<lparr>tv_sec = 1, tv_nsec = 2\<rparr> 7 LVL_INFO 0 (Some (replicate 150 CHR ''x''))
      (replicate 112 CHR ''?''))) = replicate 111 CHR ''x'' @ [CHR 0x00]"
  using macro_entry_payload [of "replicate 112 CHR ''?''" "replicate 150 CHR ''x''"
      "\<lparr>tv_sec = 1, tv_nsec = 2\<rparr>" 7 LVL_INFO 0] by simp

text \<open>The level filter. A log statement below the configured level leaves the logger exactly
  as it was; after \<open>set_level\<close> to \<open>LVL_OFF\<close> every statement with one of the six levels is
  suppressed, and at the default level every one of them is pushed.\<close>

lemma level_filter:
  "(lvl < min_level lg \<longrightarrow> MPMC_LOG fs now tid lvl cat t junk lg = lg)
    \<and> (lvl \<le> LVL_FATAL \<longrightarrow> MPMC_LOG fs now tid lvl cat t junk (set_level LVL_OFF lg) = set_level LVL_OFF lg)
    \<and> MPMC_LOG fs now tid lvl cat t junk (set_level LVL_TRACE lg)
      = snd (logger_push fs (macro_entry now tid lvl cat t junk) (set_level LVL_TRACE lg))"
proof -
  have "lvl \<le> LVL_FATAL \<Longrightarrow> \<not> lvl \<ge> LVL_OFF" by (simp add: level_defs word_le_nat_alt)
  then show ?thesis
    by (auto simp: MPMC_LOG_def should_log_def set_level_def LVL_TRACE_def)
qed

text \<open>The pushed and dropped counters never move: whatever is pushed and however often the
  queue refuses, \<open>entries_pushed\<close> and \<open>entries_dropped\<close> keep their values.\<close>

lemma push_counters_idle:
  "entries_pushed (snd (logger_push fs e lg)) = entries_pushed lg
    \<and> entries_dropped (snd (logger_push fs e lg)) = entries_dropped lg
    \<and> entries_pushed (MPMC_LOG fs now tid lvl cat t junk lg) = entries_pushed lg
    \<and> entries_dropped (MPMC_LOG fs now tid lvl cat t junk lg) = entries_dropped lg"
  by (simp add: MPMC_LOG_def logger_push_def split: option.splits prod.splits)

text \<open>C35: A failed start leaves a queue nobody drains. When the sink cannot be created, \<open>init\<close>
  throws with the logger not initialised and no drain thread, but with a queue whose consumer
  is registered: pushes are still accepted into it, and \<open>shutdown\<close> does nothing.\<close>

theorem failed_init_keeps_queue:
  assumes "logger_init pf cfg lg w = Inl (err, lg')" and "\<not> initialized lg"
  shows "\<not> initialized lg' \<and> drain_thread lg' = drain_thread lg
    \<and> fst (logger_push fs e lg') \<and> logger_shutdown pf join lg' v = (lg', v)"
proof -
  obtain q where q: "register_consumer (MPMCQueue_new QUEUE_SIZE (fresh_entry pf)) = (Inr 0, q)"
    by (rule that) (rule register_fresh)
  have lg': "\<not> initialized lg'" "drain_thread lg' = drain_thread lg" "queue lg' = Some q"
    using assms unfolding logger_init_fresh [OF assms(2) q] by (auto split: sum.splits)
  have iq: "queue_inv (Suc 0) q" "live q 0" "pending q 0 = []" "ring_capacity q = QUEUE_SIZE"
    using init_queue [of "Suc 0" "fresh_entry pf" q] q by simp_all
  have only: "live q d \<Longrightarrow> d = 0" for d
  proof -
    have "q = publish_consumer 0 0 (store_num_consumers 1 (MPMCQueue_new QUEUE_SIZE (fresh_entry pf)))"
      using q by (simp add: register_fresh)
    then show "live q d \<Longrightarrow> d = 0"
      using publish_consumer_live(1) [of 0 "store_num_consumers 1 (MPMCQueue_new QUEUE_SIZE (fresh_entry pf))" 0 d]
      by (auto simp: live_def is_active_def MPMCQueue_new_def split: if_splits)
  qed
  have "length (pending q d) < ring_capacity q" if "live q d" for d
    using only [OF that] iq(3,4) by (simp add: QUEUE_SIZE_def)
  then have "fst (push [] e q)" using mpmc.push_room [OF iq(1,2), of e] by simp
  then have "fst (push fs e q)" by (simp only: push_retries [of fs])
  then have "fst (logger_push fs e lg')" using lg'(3) by (simp add: logger_push_def split_beta del: push.simps)
  then show ?thesis using lg' by (simp add: logger_shutdown_def)
qed

definition broken_posix :: "sim posix" where
  "broken_posix = (sim_posix 4096)\<lparr>sys_open := (\<lambda>p w. (-1, w))\<rparr>"

lemma failed_init_keeps_queue_witness:
  "\<exists>err lg'. logger_init (demo_platform\<lparr>posix := broken_posix\<rparr>) LoggerConfig_default Logger_new sim_empty
      = Inl (err, lg') \<and> fst (logger_push [] demo_entry lg')"
proof -
  let ?pf = "demo_platform\<lparr>posix := broken_posix\<rparr>"
  obtain q where q: "register_consumer (MPMCQueue_new QUEUE_SIZE (fresh_entry ?pf)) = (Inr 0, q)"
    by (rule that) (rule register_fresh)
  have "open_file broken_posix t v = Inl (Open_failed (base_path t))" for t v
    by (simp add: open_file_def broken_posix_def)
  then have "\<exists>e. MMapSink_new broken_posix p a b c v = Inl e" for p a b c v
    by (simp add: MMapSink_new_def Let_def)
  then obtain err where "MMapSink_new broken_posix (cfg_log_file_path LoggerConfig_default)
      (cfg_mmap_region_size LoggerConfig_default) (cfg_max_file_size LoggerConfig_default)
      (cfg_max_rotated_files LoggerConfig_default) sim_empty = Inl err" by blast
  moreover have "\<not> initialized Logger_new" by (simp add: Logger_new_def)
  ultimately obtain err' lg' where i: "logger_init ?pf LoggerConfig_default Logger_new sim_empty = Inl (err', lg')"
    using logger_init_fresh [of Logger_new ?pf q LoggerConfig_default sim_empty] q by fastforce
  have "\<not> initialized Logger_new" by (simp add: Logger_new_def)
  from failed_init_keeps_queue [OF i this] i show ?thesis by blast
qed

text \<open>Starting twice is harmless and the backoff counter is bounded: \<open>init\<close> on an initialised
  logger changes nothing, and the count of empty turns never exceeds the configured spin count.\<close>

lemma init_once_backoff_bounded:
  "(initialized lg \<longrightarrow> logger_init pf cfg lg w = Inr (lg, w))
    \<and> (c \<le> limit \<longrightarrow> fst (backoff limit c) \<le> limit)"
  by (auto simp: logger_init_def backoff_def Let_def)

end
