(* ===== verification/Log_Tools.thy ===== *)
theory Log_Tools
  imports Formatter
begin

text \<open>
  tools/log_reader.cpp and tools/log_stats.cpp: reading a binary log in 128-byte steps, the
  reader's options and filters, the text it prints, and the counters of the statistics
  tool. Files are byte lists. Opening them, the exit status and the printed report of the
  statistics are in \<open>Tool_Mains\<close>.
\<close>

section \<open>Reading entries\<close>

text \<open>\<open>while (f.read(&entry, sizeof(entry)))\<close>: a partial entry at the end ends the loop.\<close>

function read_entries :: "bytes \<Rightarrow> LogEntry list" where
  "read_entries bs =
     (if length bs < sizeof_LogEntry then []
      else entry_of_image (take sizeof_LogEntry bs) # read_entries (drop sizeof_LogEntry bs))"
  by pat_completeness auto
termination
  by (relation "measure length") (auto simp: sizeof_LogEntry_def)

declare read_entries.simps [simp del]

lemma read_entries_image:
  assumes "wf_entry e"
  shows "read_entries (entry_image e @ bs) = e # read_entries bs"
proof -
  have "length (entry_image e) = sizeof_LogEntry" using assms by simp
  then show ?thesis
    by (simp add: read_entries.simps [of "entry_image e @ bs"] entry_image_roundtrip)
qed

lemma read_entries_images:
  "\<forall>e \<in> set es. wf_entry e \<Longrightarrow> read_entries (concat (map entry_image es) @ bs) = es @ read_entries bs"
  by (induction es) (simp_all add: read_entries_image)

lemma read_entries_wf: "e \<in> set (read_entries bs) \<Longrightarrow> wf_entry e"
proof (induction bs rule: read_entries.induct)
  case (1 bs)
  show ?case
  proof (cases "length bs < sizeof_LogEntry")
    case True
    then show ?thesis using 1(2) by (simp add: read_entries.simps [of bs])
  next
    case False
    then have "e = entry_of_image (take sizeof_LogEntry bs) \<or> e \<in> set (read_entries (drop sizeof_LogEntry bs))"
      using 1(2) by (simp add: read_entries.simps [of bs])
    then show ?thesis
      using 1(1) [OF False] False image_entry_roundtrip(2) [of "take sizeof_LogEntry bs"] by auto
  qed
qed

definition zero_entry :: LogEntry where
  "zero_entry = \<lparr>timestamp_ns = 0, thread_id = 0, level = LVL_TRACE, category = 0, payload_len = 0,
     payload = replicate 112 (CHR 0x00)\<rparr>"

lemma read_zeros: "read_entries (replicate k (CHR 0x00)) = replicate (k div 128) zero_entry"
proof (induction k rule: less_induct)
  case (less k)
  show ?case
  proof (cases "k < 128")
    case True
    then show ?thesis by (simp add: read_entries.simps [of "replicate k (CHR 0x00)"] sizeof_LogEntry_def)
  next
    case False
    have "entry_of_image (replicate 128 (CHR 0x00)) = zero_entry"
      by (simp add: entry_of_image_def zero_entry_def le_value_zeros LVL_TRACE_def)
    moreover have "k div 128 = Suc ((k - 128) div 128)" using False by (simp add: le_div_geq)
    ultimately show ?thesis
      using False less.IH [of "k - 128"]
      by (simp add: read_entries.simps [of "replicate k (CHR 0x00)"] sizeof_LogEntry_def min_def)
  qed
qed

section \<open>The reader's options\<close>

record ReaderOptions =
  filename :: string
  opt_min_level :: LogLevel
  filter_tid :: u32
  has_tid_filter :: bool
  limit :: u64

definition ReaderOptions_default :: ReaderOptions where
  "ReaderOptions_default = \<lparr>filename = [], opt_min_level = LVL_TRACE, filter_tid = 0,
     has_tid_filter = False, limit = 0\<rparr>"

definition parse_level :: "string \<Rightarrow> LogLevel" where
  "parse_level s =
     (if s = ''TRACE'' then LVL_TRACE
      else if s = ''DEBUG'' then LVL_DEBUG
      else if s = ''INFO'' then LVL_INFO
      else if s = ''WARN'' then LVL_WARN
      else if s = ''ERROR'' then LVL_ERROR
      else if s = ''FATAL'' then LVL_FATAL
      else LVL_TRACE)"

text \<open>
  \<open>std::atoi\<close>: white space, an optional sign, then the leading digits. The result is an
  \<open>int\<close> of 32 bits; when the number does not fit, the behaviour is undefined (\<open>None\<close>).
\<close>

definition is_digit :: "char \<Rightarrow> bool" where
  "is_digit c \<longleftrightarrow> 48 \<le> (of_char c :: nat) \<and> (of_char c :: nat) \<le> 57"

definition is_space :: "char \<Rightarrow> bool" where
  "is_space c \<longleftrightarrow> (of_char c :: nat) = 32 \<or> 9 \<le> (of_char c :: nat) \<and> (of_char c :: nat) \<le> 13"

definition leading_number :: "string \<Rightarrow> int" where
  "leading_number s =
     (case dropWhile is_space s of
        [] \<Rightarrow> 0
      | c # cs \<Rightarrow>
          if c = CHR ''-'' then - int (decimal_value (takeWhile is_digit cs) 0)
          else if c = CHR ''+'' then int (decimal_value (takeWhile is_digit cs) 0)
          else int (decimal_value (takeWhile is_digit (c # cs)) 0))"

definition atoi :: "string \<Rightarrow> int option" where
  "atoi s = (let v = leading_number s in if - (2 ^ 31) \<le> v \<and> v < 2 ^ 31 then Some v else None)"

text \<open>
  The option loop takes arguments in pairs and stops at one without a value. Without a file name
  the program prints its usage and exits; a number that is no \<open>int\<close> is undefined behaviour.
\<close>

datatype args_error = Usage | Undefined_number

fun parse_opts :: "string list \<Rightarrow> ReaderOptions \<Rightarrow> args_error + ReaderOptions" where
  "parse_opts (a # v # rest) opts =
     (if a = ''--level'' then parse_opts rest (opts\<lparr>opt_min_level := parse_level v\<rparr>)
      else if a = ''--thread'' then
        (case atoi v of
           None \<Rightarrow> Inl Undefined_number
         | Some i \<Rightarrow> parse_opts rest (opts\<lparr>filter_tid := of_int i, has_tid_filter := True\<rparr>))
      else if a = ''--limit'' then
        (case atoi v of
           None \<Rightarrow> Inl Undefined_number
         | Some i \<Rightarrow> parse_opts rest (opts\<lparr>limit := of_int i\<rparr>))
      else parse_opts rest opts)"
| "parse_opts _ opts = Inr opts"

definition parse_args :: "string list \<Rightarrow> args_error + ReaderOptions" where
  "parse_args argv =
     (if length argv < 2 then Inl Usage
      else parse_opts (drop 2 argv) (ReaderOptions_default\<lparr>filename := argv ! 1\<rparr>))"

lemma parse_opts_filename: "parse_opts rest opts = Inr opts' \<Longrightarrow> filename opts' = filename opts"
  by (induction rest opts rule: parse_opts.induct) (auto split: if_splits option.splits)

lemma parse_opts_error: "parse_opts rest opts = Inl e \<Longrightarrow> e = Undefined_number"
  by (induction rest opts rule: parse_opts.induct) (auto split: if_splits option.splits)

text \<open>Arguments whose leading digits are an \<open>int\<close>, or that have none, are never undefined.\<close>

lemma numbers_in_range:
  assumes "\<forall>v \<in> set argv. atoi v \<noteq> None"
  shows "parse_args argv \<noteq> Inl Undefined_number"
proof -
  have *: "parse_opts rest opts \<noteq> Inl Undefined_number" if "\<forall>v \<in> set rest. atoi v \<noteq> None" for rest opts
    using that by (induction rest opts rule: parse_opts.induct) (auto split: option.split)
  have "\<forall>v \<in> set (drop 2 argv). atoi v \<noteq> None"
    using assms set_drop_subset [of 2 argv] by blast
  then show ?thesis by (simp add: parse_args_def *)
qed

section \<open>The reader's loop\<close>

definition entry_passes :: "ReaderOptions \<Rightarrow> LogEntry \<Rightarrow> bool" where
  "entry_passes opts e \<longleftrightarrow>
     \<not> level e < opt_min_level opts \<and> \<not> (has_tid_filter opts \<and> thread_id e \<noteq> filter_tid opts)"

text \<open>Printed text, displayed and total count; \<open>None\<close> when the formatter left its buffer.\<close>

fun reader_loop ::
  "(u64 \<Rightarrow> bytes) \<Rightarrow> ReaderOptions \<Rightarrow> TextFormatter \<Rightarrow> bytes \<Rightarrow> u64 \<Rightarrow> u64 \<Rightarrow> LogEntry list
    \<Rightarrow> (bytes \<times> u64 \<times> u64) option" where
  "reader_loop dates opts f out_buf count seen [] = Some ([], count, seen)"
| "reader_loop dates opts f out_buf count seen (e # es) =
     (if \<not> entry_passes opts e then reader_loop dates opts f out_buf count (seen + 1) es
      else do {
        (n, f1, buf1) \<leftarrow> TextFormatter_format dates f e out_buf (length out_buf);
        let shown = (if n > 0 then take n buf1 else []);
        if limit opts > 0 \<and> count + 1 \<ge> limit opts then Some (shown, count + 1, seen + 1)
        else do {
          (rest, c, t) \<leftarrow> reader_loop dates opts f1 buf1 (count + 1) (seen + 1) es;
          Some (shown @ rest, c, t) } })"

definition log_reader :: "(u64 \<Rightarrow> bytes) \<Rightarrow> bytes \<Rightarrow> bytes \<Rightarrow> ReaderOptions \<Rightarrow> bytes \<Rightarrow> (bytes \<times> u64 \<times> u64) option" where
  "log_reader dates junk_prefix junk_buf opts file =
     reader_loop dates opts (CachedDateFormatter_new junk_prefix) junk_buf 0 0 (read_entries file)"

text \<open>What the reader should show: the entries passing the filters, cut at the limit.\<close>

definition displayed :: "ReaderOptions \<Rightarrow> nat \<Rightarrow> LogEntry list \<Rightarrow> LogEntry list" where
  "displayed opts c es =
     (let xs = filter (entry_passes opts) es
      in if limit opts = 0 then xs else take (max 1 (unat (limit opts) - c)) xs)"

lemma displayed_step:
  assumes "c < 2 ^ 64 - 1"
  shows "displayed opts c [] = []"
    "\<not> entry_passes opts e \<Longrightarrow> displayed opts c (e # es) = displayed opts c es"
    "entry_passes opts e \<Longrightarrow> limit opts > 0 \<and> c + 1 \<ge> unat (limit opts) \<Longrightarrow> displayed opts c (e # es) = [e]"
    "entry_passes opts e \<Longrightarrow> \<not> (limit opts > 0 \<and> c + 1 \<ge> unat (limit opts)) \<Longrightarrow>
      displayed opts c (e # es) = e # displayed opts (c + 1) es"
  by (auto simp: displayed_def Let_def max_def word_neq_0_conv take_Cons' Suc_diff_Suc not_le)

lemma reader_loop_text:
  assumes "dates_ok dates" and "date_inv dates f" and "length buf = 256"
    and "\<forall>e \<in> set es. wf_entry e" and "c + length es < 2 ^ 64 - 1"
  shows "\<exists>ls seen'. reader_loop dates opts f buf (of_nat c) seen es
      = Some (concat ls, of_nat (c + length (displayed opts c es)), seen')
    \<and> list_all2 (text_line_of dates) (displayed opts c es) ls"
  using assms
proof (induction es arbitrary: f buf c seen)
  case Nil
  then show ?case by (simp add: displayed_def)
next
  case (Cons e es)
  have c: "c < 2 ^ 64 - 1" using Cons.prems(5) by simp
  note d = displayed_step [OF c]
  show ?case
  proof (cases "entry_passes opts e")
    case False
    then show ?thesis using Cons.IH [of f buf c "seen + 1"] Cons.prems d(2) by simp
  next
    case True
    obtain n f1 buf1 where t: "TextFormatter_format dates f e buf 256 = Some (n, f1, buf1)"
      "date_inv dates f1" "0 < n" "length buf1 = 256" "text_line_of dates e (take n buf1)"
      using textual.fmt_span [of dates f e buf] Cons.prems by (auto simp: max_formatted_size_def)
    have u: "unat (of_nat (c + 1) :: u64) = c + 1"
      using Cons.prems(5) by (intro unat_of_nat64) simp
    have lim: "limit opts > 0 \<and> (of_nat c :: u64) + 1 \<ge> limit opts
        \<longleftrightarrow> limit opts > 0 \<and> c + 1 \<ge> unat (limit opts)"
      using u by (simp add: word_le_nat_alt add.commute)
    show ?thesis
    proof (cases "limit opts > 0 \<and> c + 1 \<ge> unat (limit opts)")
      case stop: True
      then have "reader_loop dates opts f buf (of_nat c) seen (e # es)
          = Some (concat [take n buf1], of_nat (c + 1), seen + 1)"
        using True t Cons.prems(3) lim by (simp add: add.commute)
      then show ?thesis
        using d(3) [OF True stop] t(5)
        by (intro exI [of _ "[take n buf1]"] exI [of _ "seen + 1"]) simp
    next
      case go: False
      have nolim: "\<not> (0 < limit opts \<and> limit opts \<le> of_nat c + 1)" using lim go by blast
      obtain ls seen' where ih: "reader_loop dates opts f1 buf1 (of_nat (c + 1)) (seen + 1) es
          = Some (concat ls, of_nat (c + 1 + length (displayed opts (c + 1) es)), seen')"
        "list_all2 (text_line_of dates) (displayed opts (c + 1) es) ls"
        using Cons.IH [of f1 buf1 "c + 1" "seen + 1"] t(2,4) Cons.prems by auto
      then have "reader_loop dates opts f buf (of_nat c) seen (e # es)
          = Some (concat (take n buf1 # ls), of_nat (c + 1 + length (displayed opts (c + 1) es)), seen')"
        using True t(1,3) Cons.prems(3) nolim by (auto simp: add.commute Let_def)
      then show ?thesis
        using d(4) [OF True go] ih(2) t(5)
        by (intro exI [of _ "take n buf1 # ls"] exI [of _ seen']) (simp add: ac_simps)
    qed
  qed
qed

section \<open>Statistics\<close>

text \<open>
  The \<open>std::map\<close> of thread counts is an association list in ascending key order, the order in
  which the report walks it; \<open>count_thread\<close> is \<open>thread_counts[tid]++\<close>.
\<close>

fun count_thread :: "u32 \<Rightarrow> (u32 \<times> u64) list \<Rightarrow> (u32 \<times> u64) list" where
  "count_thread t [] = [(t, 1)]"
| "count_thread t ((k, n) # rows) =
     (if t = k then (k, n + 1) # rows
      else if t < k then (t, 1) # (k, n) # rows
      else (k, n) # count_thread t rows)"

record LogStats =
  st_total :: u64
  level_counts :: "u64 list"
  thread_counts :: "(u32 \<times> u64) list"
  min_ts :: u64
  max_ts :: u64
  total_payload_bytes :: u64
  min_payload :: u16
  max_payload :: u16

definition LogStats_init :: LogStats where
  "LogStats_init = \<lparr>st_total = 0, level_counts = replicate 7 0, thread_counts = [],
     min_ts = - 1, max_ts = 0, total_payload_bytes = 0, min_payload = - 1, max_payload = 0\<rparr>"

definition stats_step :: "LogEntry \<Rightarrow> LogStats \<Rightarrow> LogStats" where
  "stats_step e s =
     \<lparr>st_total = st_total s + 1,
      level_counts = (if level e \<le> 6
        then (level_counts s)[unat (level e) := level_counts s ! unat (level e) + 1] else level_counts s),
      thread_counts = count_thread (thread_id e) (thread_counts s),
      min_ts = (if timestamp_ns e < min_ts s then timestamp_ns e else min_ts s),
      max_ts = (if timestamp_ns e > max_ts s then timestamp_ns e else max_ts s),
      total_payload_bytes = total_payload_bytes s + ucast (payload_len e),
      min_payload = (if payload_len e < min_payload s then payload_len e else min_payload s),
      max_payload = (if payload_len e > max_payload s then payload_len e else max_payload s)\<rparr>"

definition log_stats :: "bytes \<Rightarrow> LogStats" where
  "log_stats file = fold stats_step (read_entries file) LogStats_init"

text \<open>
  The report: the rows of the levels below \<open>OFF\<close> that occur (the rows of the threads are the
  map itself), and whether the throughput section is printed. Percentages and rates are left out.
\<close>

definition report_levels :: "LogStats \<Rightarrow> (string \<times> u64) list" where
  "report_levels s =
     map (\<lambda>i. (level_names ! i, level_counts s ! i)) (filter (\<lambda>i. level_counts s ! i > 0) [0..<6])"

definition report_throughput :: "LogStats \<Rightarrow> bool" where
  "report_throughput s \<longleftrightarrow> st_total s > 0 \<and> max_ts s > min_ts s"

text \<open>The counters after a list of entries.\<close>

lemma stats_total: "st_total (fold stats_step es s) = st_total s + of_nat (length es)"
  by (induction es arbitrary: s) (simp_all add: stats_step_def)

lemma log_stats_total: "st_total (log_stats bs) = of_nat (length (read_entries bs))"
  by (simp add: log_stats_def stats_total) (simp add: LogStats_init_def)

lemma stats_levels:
  assumes "length (level_counts s) = 7" and "i < 7"
  shows "length (level_counts (fold stats_step es s)) = 7
    \<and> level_counts (fold stats_step es s) ! i
      = level_counts s ! i + of_nat (length (filter (\<lambda>e. unat (level e) = i) es))"
  using assms
proof (induction es arbitrary: s)
  case (Cons e es)
  have "level e \<le> 6 \<longleftrightarrow> unat (level e) < 7" by (simp add: word_le_nat_alt) linarith
  then have "length (level_counts (stats_step e s)) = 7
      \<and> level_counts (stats_step e s) ! i = level_counts s ! i + (if unat (level e) = i then 1 else 0)"
    using Cons.prems by (auto simp: stats_step_def nth_list_update)
  then show ?case using Cons.IH [of "stats_step e s"] Cons.prems(2) by simp
qed simp

lemma count_thread_keys:
  "sorted_wrt (<) (map fst rows) \<Longrightarrow>
    sorted_wrt (<) (map fst (count_thread t rows)) \<and> set (map fst (count_thread t rows)) = insert t (set (map fst rows))"
  by (induction t rows rule: count_thread.induct) (auto simp: less_le)

lemma count_thread_lookup:
  "sorted_wrt (<) (map fst rows) \<Longrightarrow>
    map_of (count_thread t rows) = (map_of rows)(t \<mapsto> (case map_of rows t of None \<Rightarrow> 0 | Some n \<Rightarrow> n) + 1)"
proof (induction t rows rule: count_thread.induct)
  case (2 t k n rows)
  have "t < k \<Longrightarrow> map_of rows t = None" using 2(2) by (force simp: map_of_eq_None_iff)
  then show ?case using 2 by (auto simp: fun_eq_iff)
qed simp

lemma count_thread_sum: "sum_list (map snd (count_thread t rows)) = sum_list (map snd rows) + 1"
  by (induction t rows rule: count_thread.induct) (simp_all add: add.assoc add.left_commute)

definition thread_count :: "LogStats \<Rightarrow> u32 \<Rightarrow> u64" where
  "thread_count s t = (case map_of (thread_counts s) t of None \<Rightarrow> 0 | Some n \<Rightarrow> n)"

lemma thread_count_init [simp]: "thread_count LogStats_init t = 0"
  by (simp add: thread_count_def LogStats_init_def)

definition threads_sorted :: "LogStats \<Rightarrow> bool" where
  "threads_sorted s \<longleftrightarrow> sorted_wrt (<) (map fst (thread_counts s))"

lemma threads_sorted_init: "threads_sorted LogStats_init"
  by (simp add: threads_sorted_def LogStats_init_def)

lemma threads_sorted_step: "threads_sorted s \<Longrightarrow> threads_sorted (stats_step e s)"
  using count_thread_keys [of "thread_counts s" "thread_id e"]
  by (simp add: threads_sorted_def stats_step_def)

lemma stats_threads:
  "threads_sorted s \<Longrightarrow> thread_count (fold stats_step es s) t
    = thread_count s t + of_nat (length (filter (\<lambda>e. thread_id e = t) es))"
proof (induction es arbitrary: s)
  case (Cons e es)
  have "thread_count (stats_step e s) t = thread_count s t + (if thread_id e = t then 1 else 0)"
    using count_thread_lookup [of "thread_counts s" "thread_id e"] Cons.prems
    by (simp add: thread_count_def stats_step_def threads_sorted_def)
  then show ?case using Cons.IH [OF threads_sorted_step [OF Cons.prems], of e] by simp
qed simp

lemma stats_thread_rows:
  "threads_sorted s \<Longrightarrow> threads_sorted (fold stats_step es s)
    \<and> set (map fst (thread_counts (fold stats_step es s))) = set (map fst (thread_counts s)) \<union> thread_id ` set es
    \<and> sum_list (map snd (thread_counts (fold stats_step es s)))
      = sum_list (map snd (thread_counts s)) + of_nat (length es)"
proof (induction es arbitrary: s)
  case (Cons e es)
  have "set (map fst (thread_counts (stats_step e s))) = insert (thread_id e) (set (map fst (thread_counts s)))"
    "sum_list (map snd (thread_counts (stats_step e s))) = sum_list (map snd (thread_counts s)) + 1"
    using count_thread_keys [of "thread_counts s" "thread_id e"] Cons.prems
    by (simp_all add: stats_step_def threads_sorted_def count_thread_sum)
  then show ?case using Cons.IH [OF threads_sorted_step [OF Cons.prems], of e] by simp
qed simp

lemma stats_step_extremes [simp]:
  "min_ts (stats_step e s) = min (min_ts s) (timestamp_ns e)"
  "max_ts (stats_step e s) = max (max_ts s) (timestamp_ns e)"
  "min_payload (stats_step e s) = min (min_payload s) (payload_len e)"
  "max_payload (stats_step e s) = max (max_payload s) (payload_len e)"
  by (auto simp: stats_step_def min_def max_def)

lemma stats_extremes:
  "min_ts (fold stats_step es s) = fold (\<lambda>e m. min m (timestamp_ns e)) es (min_ts s)"
  "max_ts (fold stats_step es s) = fold (\<lambda>e m. max m (timestamp_ns e)) es (max_ts s)"
  "min_payload (fold stats_step es s) = fold (\<lambda>e m. min m (payload_len e)) es (min_payload s)"
  "max_payload (fold stats_step es s) = fold (\<lambda>e m. max m (payload_len e)) es (max_payload s)"
  by (induction es arbitrary: s; simp)+

lemma fold_min: "fold (\<lambda>e m. min m (f e)) es (a :: 'a :: linorder) = Min (insert a (f ` set es))"
proof (induction es arbitrary: a)
  case (Cons e es)
  then show ?case by (cases "es = []") (simp_all add: min.assoc)
qed simp

lemma fold_max: "fold (\<lambda>e m. max m (f e)) es (a :: 'a :: linorder) = Max (insert a (f ` set es))"
proof (induction es arbitrary: a)
  case (Cons e es)
  then show ?case by (cases "es = []") (simp_all add: max.assoc)
qed simp

lemma stats_payload:
  "total_payload_bytes (fold stats_step es s)
    = total_payload_bytes s + of_nat (sum_list (map (\<lambda>e. unat (payload_len e)) es))"
proof (induction es arbitrary: s)
  case (Cons e es)
  have "total_payload_bytes (stats_step e s) = total_payload_bytes s + of_nat (unat (payload_len e))"
    by (simp add: stats_step_def)
  then show ?case using Cons.IH [of "stats_step e s"] by simp
qed simp

section \<open>Properties\<close>

text \<open>The reader shows exactly the entries that pass its filters, in file order and cut at the
  limit, each as its text line, and counts them; its format buffer is never left.\<close>

lemma log_reader_shows_filtered:
  assumes "dates_ok dates" and "length junk_prefix = 20" and "length junk_buf = 256"
    and "length (read_entries file) < 2 ^ 64 - 1"
  shows "\<exists>ls n. log_reader dates junk_prefix junk_buf opts file
      = Some (concat ls, of_nat (length (displayed opts 0 (read_entries file))), n)
    \<and> list_all2 (text_line_of dates) (displayed opts 0 (read_entries file)) ls"
  unfolding log_reader_def
  using reader_loop_text [OF assms(1) date_inv_new [OF assms(2)] assms(3), of "read_entries file" 0 opts 0]
    read_entries_wf assms(4) by auto

lemma log_reader_shows_filtered_witness:
  "\<exists>ls n. log_reader demo_dates (replicate 20 (CHR 0x00)) (replicate 256 (CHR 0x00))
      (ReaderOptions_default\<lparr>opt_min_level := LVL_INFO\<rparr>) (entry_image demo_entry) = Some (concat ls, 1, n)
    \<and> list_all2 (text_line_of demo_dates) [demo_entry] ls"
proof -
  have "wf_entry demo_entry" by (simp add: wf_entry_def demo_entry_def PAYLOAD_SIZE_def)
  then have r: "read_entries (entry_image demo_entry) = [demo_entry]"
    using read_entries_image [of demo_entry "[]"]
    by (simp add: read_entries.simps [of "[]"] sizeof_LogEntry_def)
  have p: "displayed (ReaderOptions_default\<lparr>opt_min_level := LVL_INFO\<rparr>) 0 [demo_entry] = [demo_entry]"
    by (simp add: displayed_def entry_passes_def ReaderOptions_default_def demo_entry_def level_defs)
  show ?thesis
    using log_reader_shows_filtered [OF demo_dates_ok, of "replicate 20 (CHR 0x00)"
        "replicate 256 (CHR 0x00)" "entry_image demo_entry" "ReaderOptions_default\<lparr>opt_min_level := LVL_INFO\<rparr>"]
    by (simp add: r p)
qed

text \<open>Reading back a binary log: the images of a list of entries followed by the zero bytes the
  sink leaves behind are read as those entries followed by one all-zero \<open>TRACE\<close> entry per 128
  zero bytes, which the tools show and count like real ones.\<close>

lemma reading_back_padding:
  assumes "\<forall>e \<in> set es. wf_entry e"
  shows "read_entries (concat (map entry_image es) @ replicate k (CHR 0x00))
      = es @ replicate (k div 128) zero_entry
    \<and> st_total (log_stats (concat (map entry_image es) @ replicate k (CHR 0x00)))
      = of_nat (length es + k div 128)"
  using read_entries_images [OF assms] read_zeros by (simp add: log_stats_total)

lemma sum_positive: "sum_list (map (f :: nat \<Rightarrow> u64) (filter (\<lambda>i. f i > 0) xs)) = sum_list (map f xs)"
  by (induction xs) (auto simp: word_gt_0)

lemma sum_levels:
  "sum_list (map (\<lambda>i. of_nat (length (filter (\<lambda>e. unat (level e) = i) es)) :: u64) [0..<n])
    = of_nat (length (filter (\<lambda>e. unat (level e) < n) es))"
proof (induction n)
  case 0
  then show ?case by simp
next
  case (Suc n)
  have "length (filter (\<lambda>e. unat (level e) < Suc n) es)
      = length (filter (\<lambda>e. unat (level e) < n) es) + length (filter (\<lambda>e. unat (level e) = n) es)"
    by (induction es) auto
  then show ?case using Suc by simp
qed

lemma report_levels_sum:
  "sum_list (map snd (report_levels (log_stats file)))
    = of_nat (length (filter (\<lambda>e. unat (level e) < 6) (read_entries file)))"
proof -
  let ?s = "log_stats file"
  have c: "level_counts ?s ! i = of_nat (length (filter (\<lambda>e. unat (level e) = i) (read_entries file)))"
    if "i < 6" for i
    using that stats_levels [of LogStats_init i "read_entries file"]
    by (simp add: log_stats_def) (simp add: LogStats_init_def)
  have "sum_list (map snd (report_levels ?s))
      = sum_list (map (\<lambda>i. level_counts ?s ! i) (filter (\<lambda>i. level_counts ?s ! i > 0) [0..<6]))"
    by (simp add: report_levels_def comp_def)
  also have "\<dots> = sum_list (map (\<lambda>i. level_counts ?s ! i) [0..<6])" by (rule sum_positive)
  also have "map (\<lambda>i. level_counts ?s ! i) [0..<6]
      = map (\<lambda>i. of_nat (length (filter (\<lambda>e. unat (level e) = i) (read_entries file)))) [0..<6]"
    using c by simp
  finally show ?thesis unfolding sum_levels .
qed

text \<open>The report's rows. The thread rows are in strictly ascending order of thread id, one per
  thread that occurs, and their counts add up to the total; the level rows add up to the
  entries with one of the six printable levels, so entries with level \<open>OFF\<close> or an unknown
  level count in the total but in no row.\<close>

lemma log_stats_report:
  "sorted_wrt (<) (map fst (thread_counts (log_stats file)))
    \<and> set (map fst (thread_counts (log_stats file))) = thread_id ` set (read_entries file)
    \<and> sum_list (map snd (thread_counts (log_stats file))) = st_total (log_stats file)
    \<and> sum_list (map snd (report_levels (log_stats file)))
      = of_nat (length (filter (\<lambda>e. unat (level e) < 6) (read_entries file)))
    \<and> report_throughput (log_stats file)
      = (st_total (log_stats file) > 0 \<and> max_ts (log_stats file) > min_ts (log_stats file))"
  using stats_thread_rows [OF threads_sorted_init, of "read_entries file"]
  by (simp add: report_levels_sum log_stats_total report_throughput_def)
    (simp add: log_stats_def threads_sorted_def LogStats_init_def)



text \<open>Option parsing. A level given by name selects that level, any other name selects
  \<open>TRACE\<close> (\<open>OFF\<close> too), an option without a value is ignored, a limit beyond \<open>int\<close> is
  undefined, and without a file name there is no run.\<close>

lemma reader_options_parsed:
  "parse_args [p, file, ''--level'', ''WARN'', ''--thread'', ''1234'', ''--limit'', ''10'']
      = Inr \<lparr>filename = file, opt_min_level = LVL_WARN, filter_tid = 1234, has_tid_filter = True, limit = 10\<rparr>
    \<and> parse_args [p, file, ''--level'', ''OFF''] = Inr (ReaderOptions_default\<lparr>filename := file\<rparr>)
    \<and> parse_args [p, file, ''--limit''] = Inr (ReaderOptions_default\<lparr>filename := file\<rparr>)
    \<and> parse_args [p, file, ''--limit'', ''4294967297''] = Inl Undefined_number
    \<and> parse_args [p] = Inl Usage"
  by (simp add: parse_args_def ReaderOptions_default_def parse_level_def atoi_def leading_number_def is_space_def
      is_digit_def digit_value_def level_defs Let_def)

end
