(* ===== verification/Log_Session.thy ===== *)
theory Log_Session
  imports Logger Log_Tools "HOL-Library.Sublist"
begin

text \<open>
  A logging session from \<open>init\<close> to \<open>shutdown\<close>: the drain thread as the \<open>join\<close> argument of
  \<open>logger_shutdown\<close>, and the facts that carry an entry from \<open>push\<close> to the file: what the
  drain loop accepts, that it ends, and what the sink's file holds afterwards.
\<close>

text \<open>
  Joining the thread: the loop runs over its schedule to its end. A schedule that does not
  bring it to its end, or an error, leaves the state (the theorems exclude both).
\<close>

definition drain_join ::
  "'w platform \<Rightarrow> nat \<Rightarrow> (LogEntry list \<times> bool) list \<Rightarrow> bytes \<Rightarrow> Logger \<Rightarrow> 'w \<Rightarrow> Logger \<times> 'w" where
  "drain_join pf fuel its buf lg w =
     (case drain_loop pf fuel its 0 (lg, buf, w) of
        Some (Inr (acc, True, c, (lg', buf', w'))) \<Rightarrow> (lg', w')
      | _ \<Rightarrow> (lg, w))"

section \<open>The drain thread's queue has one consumer\<close>

declare push.simps [simp del]

definition only_live :: "'a MPMCQueue \<Rightarrow> u32 \<Rightarrow> bool" where
  "only_live q c \<longleftrightarrow> (\<forall>d. live q d \<longrightarrow> d = c)"

lemma push_list_all:
  assumes "queue lg = Some q" and "queue_inv (b + length es) q" and "live q c" and "only_live q c"
    and "length (pending q c) + length es \<le> ring_capacity q"
  shows "\<exists>q'. push_list es lg = (es, lg\<lparr>queue := Some q'\<rparr>) \<and> live q' = live q"
  using assms
proof (induction es arbitrary: q lg)
  case Nil
  then show ?case by (intro exI [of _ q]) simp
next
  case (Cons e es)
  have inv: "queue_inv (Suc (b + length es)) q" using Cons.prems(2) by simp
  have "\<forall>d. live q d \<longrightarrow> length (pending q d) < ring_capacity q"
    using Cons.prems(4,5) by (auto simp: only_live_def)
  then have "fst (push [] e q)" using mpmc.push_room [OF inv Cons.prems(3), of e] by blast
  then obtain q1 where p: "push [] e q = (True, q1)" by (cases "push [] e q") simp
  have s1: "queue_inv (b + length es) q1" "live q1 = live q" "ring_capacity q1 = ring_capacity q"
    "pending q1 c = pending q c @ [e]"
    using mpmc.push_any [OF inv p Cons.prems(3)] by simp_all
  have l1: "live q1 c" unfolding s1(2) by (rule Cons.prems(3))
  have o1: "only_live q1 c"
    unfolding only_live_def s1(2) by (rule Cons.prems(4) [unfolded only_live_def])
  have "length (pending q1 c) + length es \<le> ring_capacity q1"
    unfolding s1(3,4) using Cons.prems(5) by simp
  from Cons.IH [OF _ s1(1) l1 o1 this, of "lg\<lparr>queue := Some q1\<rparr>"]
  obtain q' where r: "push_list es (lg\<lparr>queue := Some q1\<rparr>) = (es, lg\<lparr>queue := Some q'\<rparr>)" "live q' = live q1"
    by auto
  have "logger_push [] e lg = (True, lg\<lparr>queue := Some q1\<rparr>)"
    using Cons.prems(1) p by (simp add: logger_push_def)
  then have "push_list (e # es) lg = (e # es, lg\<lparr>queue := Some q'\<rparr>)" using r(1) by simp
  moreover have "live q' = live q" using r(2) s1(2) by (rule trans)
  ultimately show ?case by (intro exI [of _ q'] conjI)
qed

lemma pop_live_same: "pop c q = (r, q') \<Longrightarrow> live q' = live q"
  by (auto simp: pop_def Let_def split: if_splits)

lemma drain_entry_queue:
  "drain_entry pf e (lg, buf, w) = Inr (lg', buf', w') \<Longrightarrow> queue lg' = queue lg"
  by (auto simp: drain_entry_def format_entry_def Let_def
      split: option.splits sum.splits prod.splits if_splits OutputFormat.splits)

lemma drain_batch_live:
  assumes "drain_batch pf n (lg, buf, w) = Inr (g, (lg', buf', w'))" and "queue lg = Some q"
  shows "\<exists>q'. queue lg' = Some q' \<and> live q' = live q"
  using assms
proof (induction n arbitrary: lg buf w q g)
  case 0
  then show ?case by simp
next
  case (Suc n)
  obtain r q1 where p: "pop (consumer_id lg) q = (r, q1)" by fastforce
  then have dp: "drain_pop lg = Inr (r, lg\<lparr>queue := Some q1\<rparr>)" using Suc.prems(2) by (simp add: drain_pop_def)
  show ?case
  proof (cases r)
    case None
    then show ?thesis using Suc.prems(1) dp pop_live_same [OF p] by auto
  next
    case (Some e)
    then obtain lg1 buf1 w1 g1 where t: "drain_entry pf e (lg\<lparr>queue := Some q1\<rparr>, buf, w) = Inr (lg1, buf1, w1)"
      and b: "drain_batch pf n (lg1, buf1, w1) = Inr (g1, (lg', buf', w'))"
      using Suc.prems(1) dp by (auto split: sum.splits)
    have "queue lg1 = Some q1" using drain_entry_queue [OF t] by simp
    then show ?thesis using Suc.IH [OF b] pop_live_same [OF p] by simp
  qed
qed

section \<open>What the loop accepts\<close>

text \<open>No producer pushes once a stop request is visible.\<close>

fun stops_quiet :: "(LogEntry list \<times> bool) list \<Rightarrow> bool" where
  "stops_quiet [] = True"
| "stops_quiet ((as, stop) # its) = ((stop \<longrightarrow> arrivals_of its = []) \<and> stops_quiet its)"

lemma stops_quiet_append:
  "\<forall>(as, stop) \<in> set its. \<not> stop \<Longrightarrow> stops_quiet its' \<Longrightarrow> stops_quiet (its @ its')"
  by (induction its) auto

lemma arrivals_append [simp]: "arrivals_of (its @ its') = arrivals_of its @ arrivals_of its'"
  by (simp add: arrivals_of_def)

lemma arrivals_replicate [simp]: "arrivals_of (replicate k ([], stop)) = []"
  by (induction k) simp_all

lemma stops_quiet_replicate: "stops_quiet (replicate k ([], stop))"
  by (induction k) simp_all

text \<open>With room for everything that arrives, every arrival is accepted.\<close>

lemma drain_loop_accepts:
  assumes "drain_ok pf (length (arrivals_of its)) q s (lg, buf, w)" and "only_live q (consumer_id lg)"
    and "\<forall>e \<in> set (arrivals_of its). wf_entry e" and "stops_quiet its"
    and "length (pending q (consumer_id lg)) + length (arrivals_of its) \<le> ring_capacity q"
    and "sink_takes (posix pf) (length (pending q (consumer_id lg)) + length (arrivals_of its)) s w"
    and "drain_loop pf fuel its ce (lg, buf, w) = Some (Inr (acc, fin, ce', st'))"
  shows "acc = arrivals_of its"
  using assms
proof (induction its arbitrary: q s lg buf w ce acc)
  case Nil
  then show ?case by simp
next
  case (Cons it its)
  obtain as stop where it: "it = (as, stop)" by fastforce
  let ?c = "consumer_id lg" and ?b = "length (arrivals_of its)"
  have ok: "drain_ok pf (?b + length as) q s (lg, buf, w)" using Cons.prems(1) it by (simp add: add.commute)
  then have d: "queue lg = Some q" "queue_inv (?b + length as) q" "live q ?c" by (simp_all add: drain_ok_def)
  have wf: "\<forall>e \<in> set as. wf_entry e" "\<forall>e \<in> set (arrivals_of its). wf_entry e"
    using Cons.prems(3) it by simp_all
  have "length (pending q ?c) + length as \<le> ring_capacity q" using Cons.prems(5) it by simp
  from push_list_all [OF d Cons.prems(2) this]
  obtain q1 where p: "push_list as lg = (as, lg\<lparr>queue := Some q1\<rparr>)" "live q1 = live q" by blast
  obtain got ls q' s' lg' buf' w' es where r:
    "drain_batch pf (unat (drain_batch_size lg)) (lg\<lparr>queue := Some q1\<rparr>, buf, w) = Inr (got, (lg', buf', w'))"
    "drain_ok pf ?b q' s' (lg', buf', w')" "drained pf es ls (lg, buf, w) (lg', buf', w')"
    "es @ pending q' ?c = pending q ?c @ as" "ring_capacity q' = ring_capacity q"
    "sink_takes (posix pf) (length (pending q' ?c) + ?b) s' w'"
    using drain_iteration [OF ok wf(1) _ p(1), of ?b] Cons.prems(6) it by (auto simp: add.assoc)
  have c': "consumer_id lg' = ?c" by (rule drained_consumer [OF r(3)])
  have "live q' = live q"
    using drain_batch_live [OF r(1)] p(2) r(2) by (simp add: drain_ok_def)
  then have ol: "only_live q' (consumer_id lg')" using Cons.prems(2) c' by (simp add: only_live_def)
  have room: "length (pending q' ?c) + ?b \<le> ring_capacity q'"
    using arg_cong [OF r(4), of length] Cons.prems(5) it r(5) by simp
  show ?case
  proof (cases "\<not> got \<and> stop")
    case True
    then have "arrivals_of its = []" "acc = as"
      using Cons.prems(4,7) it p(1) r(1) by (auto simp: Let_def split: option.splits sum.splits)
    then show ?thesis using it by simp
  next
    case False
    then obtain acc' ce1 where "drain_loop pf fuel its ce1 (lg', buf', w') = Some (Inr (acc', fin, ce', st'))"
      and acc: "acc = as @ acc'"
      using Cons.prems(7) it p(1) r(1) by (auto simp: Let_def split: option.splits sum.splits)
    then have "acc' = arrivals_of its"
      using Cons.IH [OF r(2) ol wf(2)] Cons.prems(4) it room r(6) c' by auto
    then show ?thesis using acc it by simp
  qed
qed

section \<open>The loop ends\<close>

lemma drain_loop_finishes:
  assumes "drain_ok pf (length (arrivals_of its)) q s (lg, buf, w)"
    and "\<forall>e \<in> set (arrivals_of its). wf_entry e" and "ring_capacity q < fuel"
    and "length (pending q (consumer_id lg)) + length (arrivals_of its) < k"
    and "sink_takes (posix pf) (length (pending q (consumer_id lg)) + length (arrivals_of its)) s w"
  shows "\<exists>acc ce' st'. drain_loop pf fuel (its @ replicate k ([], True)) ce (lg, buf, w)
    = Some (Inr (acc, True, ce', st'))"
  using assms
proof (induction its arbitrary: q s lg buf w ce)
  case Nil
  then show ?case using drain_loop_stops [of pf q s lg buf w k fuel ce] by auto
next
  case (Cons it its)
  obtain as stop where it: "it = (as, stop)" by fastforce
  let ?c = "consumer_id lg" and ?b = "length (arrivals_of its)"
  obtain acc lg1 where p: "push_list as lg = (acc, lg1)" by fastforce
  have ok: "drain_ok pf (?b + length as) q s (lg, buf, w)" using Cons.prems(1) it by (simp add: add.commute)
  have wf: "\<forall>e \<in> set as. wf_entry e" "\<forall>e \<in> set (arrivals_of its). wf_entry e"
    using Cons.prems(2) it by simp_all
  obtain got ls q' s' lg' buf' w' es where r:
    "drain_batch pf (unat (drain_batch_size lg)) (lg1, buf, w) = Inr (got, (lg', buf', w'))"
    "drain_ok pf ?b q' s' (lg', buf', w')" "drained pf es ls (lg, buf, w) (lg', buf', w')"
    "es @ pending q' ?c = pending q ?c @ acc" "ring_capacity q' = ring_capacity q"
    "sink_takes (posix pf) (length (pending q' ?c) + ?b) s' w'"
    using drain_iteration [OF ok wf(1) _ p, of ?b] Cons.prems(5) it by (auto simp: add.assoc)
  have c': "consumer_id lg' = ?c" by (rule drained_consumer [OF r(3)])
  have "length acc \<le> length as" using push_list_spec [OF ok wf(1) p] by auto
  then have room: "length (pending q' ?c) + ?b < k"
    using arg_cong [OF r(4), of length] Cons.prems(4) it by simp
  show ?case
  proof (cases "\<not> got \<and> stop")
    case True
    have "length (pending q' ?c) < fuel" using drain_ok_backlog [OF r(2)] r(5) Cons.prems(3) c' by simp
    then obtain st2 where "drain_final pf fuel (lg', buf', w') = Some (Inr st2)"
      using drain_final_spec [OF r(2), of fuel] sink_takes_mono [OF r(6), of "length (pending q' ?c)"] c'
      by auto
    then show ?thesis using it p r(1) True by (cases st2) (simp add: Let_def)
  next
    case False
    define ce1 where "ce1 = (if got then 0 else fst (backoff (spin_count_before_yield lg) ce))"
    obtain acc' ce' st' where "drain_loop pf fuel (its @ replicate k ([], True)) ce1 (lg', buf', w')
        = Some (Inr (acc', True, ce', st'))"
      using Cons.IH [OF r(2) wf(2), of ce1] room r(5,6) Cons.prems(3) c' by auto
    then show ?thesis
      using it p r(1) False by (cases got; cases stop; cases st') (simp_all add: Let_def ce1_def)
  qed
qed

lemma push_list_subseq: "push_list es lg = (acc, lg') \<Longrightarrow> subseq acc es"
  by (induction es arbitrary: lg acc) (auto simp: Let_def split: prod.splits if_splits)

lemma drain_loop_subseq:
  "drain_loop pf fuel its ce st = Some (Inr (acc, fin, ce', st')) \<Longrightarrow> subseq acc (arrivals_of its)"
proof (induction its arbitrary: ce st acc)
  case Nil
  then show ?case by simp
next
  case (Cons it its)
  obtain as stop where it: "it = (as, stop)" by fastforce
  obtain lg buf w where st: "st = (lg, buf, w)" using prod_cases3 by blast
  obtain acc1 lg1 where p: "push_list as lg = (acc1, lg1)" by fastforce
  have "acc = acc1 \<or> (\<exists>ce1 st1 acc'. drain_loop pf fuel its ce1 st1 = Some (Inr (acc', fin, ce', st'))
      \<and> acc = acc1 @ acc')"
    using Cons.prems it st p
    by (auto simp: Let_def split: sum.splits prod.splits if_splits option.splits)
  then show ?case
    using push_list_subseq [OF p] Cons.IH it list_emb_append_mono [of "(=)" acc1 as]
    by (fastforce intro: list_emb_prefix)
qed

section \<open>What the file holds after a session\<close>

lemma concat_length_bound: "\<forall>l \<in> set ls. length l \<le> m \<Longrightarrow> length (concat ls) \<le> m * length ls"
  by (induction ls) auto

lemma sink_takes_fits:
  assumes "posix_file_ok ps page view base" and "sink_ok s" and "mmap_ptr s = Some a"
    and "unat (mmap_offset s) + 256 * k \<le> unat (region_size s)"
    and "base w + unat (region_size s) \<le> length (view w)"
  shows "sink_takes ps k s w"
  unfolding sink_takes_def
proof (intro allI impI)
  fix ls :: "bytes list"
  assume "length ls \<le> k \<and> (\<forall>l \<in> set ls. length l \<le> 256)"
  then have "length (concat ls) \<le> 256 * k" using concat_length_bound [of ls 256] by fastforce
  then show "\<exists>r. write_all ps ls s w = Inr r"
    using write_all_fits [OF assms(1-3) _ assms(5), of ls] assms(4) by auto
qed

lemma binary_lines: "list_all2 (entry_line pf BINARY) es ls \<longleftrightarrow> ls = map entry_image es"
  by (induction es arbitrary: ls) (auto simp: entry_line_def list_all2_Cons1)

lemma images_length: "\<forall>e \<in> set es. wf_entry e \<Longrightarrow> length (concat (map entry_image es)) = 128 * length es"
  by (induction es) (simp_all add: sizeof_LogEntry_def)

lemma shutdown_keeps_view:
  assumes "posix_file_ok (posix pf) page view base" and "join (lg\<lparr>initialized := False, running := False\<rparr>) w = (lg', w')"
    and "initialized lg" and "drain_thread lg"
  shows "view (snd (logger_shutdown pf join lg w)) = view w'"
proof -
  have f: "view (sink_flush (posix pf) s v) = view v" for s v
    using assms(1) by (auto simp: sink_flush_def posix_file_ok_def split: option.splits)
  show ?thesis
    using assms(2-4) f delete_keeps_view [OF assms(1)]
    by (simp add: logger_shutdown_def Let_def split: option.splits)
qed

text \<open>The flags that \<open>shutdown\<close> clears are not read by the loop's state conditions.\<close>

lemma drain_ok_flags:
  "drain_ok pf b q s (lg\<lparr>initialized := i, running := r\<rparr>, buf, w) = drain_ok pf b q s (lg, buf, w)"
  by (simp add: drain_ok_def fmt_ok_def)

lemma init_only_live:
  assumes "logger_init pf cfg lg w = Inr (lg', w')" and "\<not> initialized lg" and "queue lg' = Some q"
  shows "only_live q 0"
proof -
  obtain q0 where q0: "register_consumer (MPMCQueue_new QUEUE_SIZE (fresh_entry pf)) = (Inr 0, q0)"
    by (rule that) (rule register_fresh)
  have "q = q0"
    using assms unfolding logger_init_fresh [OF assms(2) q0] by (auto split: sum.splits)
  then have "q = publish_consumer 0 0 (store_num_consumers 1 (MPMCQueue_new QUEUE_SIZE (fresh_entry pf)))"
    using q0 by (simp add: register_fresh)
  then show ?thesis
    using publish_consumer_live(1) [of 0 "store_num_consumers 1 (MPMCQueue_new QUEUE_SIZE (fresh_entry pf))" 0]
    by (auto simp: only_live_def live_def is_active_def MPMCQueue_new_def split: if_splits)
qed

text \<open>The loop from an empty queue to its end.\<close>

lemma session_run:
  assumes ok: "drain_ok pf (length (arrivals_of pre)) q s (lg, buf, w)" and ol: "only_live q (consumer_id lg)"
    and empty: "pending q (consumer_id lg) = []" and cap: "ring_capacity q = QUEUE_SIZE"
    and wf: "\<forall>e \<in> set (arrivals_of pre). wf_entry e" and k: "length (arrivals_of pre) < k"
    and takes: "sink_takes (posix pf) (length (arrivals_of pre)) s w"
  shows "\<exists>acc ce' ls s' lg' buf' w' ks.
    drain_loop pf (Suc QUEUE_SIZE) (pre @ replicate k ([], True)) 0 (lg, buf, w)
      = Some (Inr (acc, True, ce', (lg', buf', w')))
    \<and> subseq acc (arrivals_of pre)
    \<and> (stops_quiet (pre @ replicate k ([], True)) \<and> length (arrivals_of pre) \<le> QUEUE_SIZE \<longrightarrow> acc = arrivals_of pre)
    \<and> list_all2 (entry_line pf (output_format lg)) acc ls
    \<and> write_all (posix pf) ls s w = Inr (ks, s', w')"
proof -
  let ?its = "pre @ replicate k ([], True)"
  have arr: "arrivals_of ?its = arrivals_of pre" by simp
  have fuel: "ring_capacity q < Suc QUEUE_SIZE" using cap by simp
  have takes': "sink_takes (posix pf) (length (pending q (consumer_id lg)) + length (arrivals_of ?its)) s w"
    using takes arr empty by simp
  have wf': "\<forall>e \<in> set (arrivals_of ?its). wf_entry e" unfolding arr by (rule wf)
  have ok': "drain_ok pf (length (arrivals_of ?its)) q s (lg, buf, w)" unfolding arr by (rule ok)
  obtain acc ce' st' where r: "drain_loop pf (Suc QUEUE_SIZE) ?its 0 (lg, buf, w) = Some (Inr (acc, True, ce', st'))"
    using drain_loop_finishes [OF ok wf fuel, of k 0] takes k empty by auto
  obtain acc' fin c' ls es q' s' lg' buf' w' where d:
    "drain_loop pf (Suc QUEUE_SIZE) ?its 0 (lg, buf, w) = Some (Inr (acc', fin, c', (lg', buf', w')))"
    "drain_ok pf 0 q' s' (lg', buf', w')" "drained pf es ls (lg, buf, w) (lg', buf', w')"
    "es @ pending q' (consumer_id lg) = pending q (consumer_id lg) @ acc'"
    "fin \<longrightarrow> pending q' (consumer_id lg) = []"
    using drain_loop_spec [OF ok' wf' fuel takes', of 0] by blast
  have eqs: "acc' = acc" "fin" "st' = (lg', buf', w')" using r d(1) by simp_all
  then have es: "es = acc" using d(4,5) empty by simp
  have sub: "subseq acc (arrivals_of pre)" using drain_loop_subseq [OF r] arr by simp
  have all: "acc = arrivals_of pre" if "stops_quiet ?its" "length (arrivals_of pre) \<le> QUEUE_SIZE"
    using drain_loop_accepts [OF ok' ol wf' that(1) _ takes' r] that(2) arr empty cap by simp
  have "sink lg = Some s" "sink lg' = Some s'" using ok d(2) by (simp_all add: drain_ok_def)
  then have "list_all2 (entry_line pf (output_format lg)) acc ls"
    and "\<exists>ks. write_all (posix pf) ls s w = Inr (ks, s', w')"
    using d(3) es by (auto simp: drained_def)
  then show ?thesis using r sub all eqs(3) by blast
qed

text \<open>A successful \<open>init\<close> on an empty file.\<close>

lemma session_start:
  assumes laws: "posix_file_ok (posix pf) page view base"
    and avail: "regions_available (posix pf) page"
    and fresh: "fresh_file_ok (posix pf) view (cfg_log_file_path cfg)
      (case rfind_slash (cfg_log_file_path cfg) of
         Some i \<Rightarrow> ensure_directory (posix pf) (take i (cfg_log_file_path cfg)) w | None \<Rightarrow> w)"
    and init: "logger_init pf cfg Logger_new w = Inr (lg, w1)"
    and dates: "cfg_output_format cfg = TEXT \<longrightarrow> dates_ok (date_string pf)" and live: "sink lg = Some s" "mmap_ptr s = Some a"
    and len: "length buf = 256" "length (fresh_prefix pf) = 20"
    and size: "256 \<le> unat (cfg_mmap_region_size cfg)" "unat (cfg_mmap_region_size cfg) < 2 ^ 63"
      "b < 2 ^ 64 - 1 - 2 ^ 20"
  shows "\<exists>q. drain_ok pf b q s (lg, buf, w1) \<and> only_live q (consumer_id lg)
    \<and> pending q (consumer_id lg) = [] \<and> ring_capacity q = QUEUE_SIZE \<and> output_format lg = cfg_output_format cfg
    \<and> initialized lg \<and> drain_thread lg \<and> sink_takes (posix pf) b s w1
    \<and> holds view base [] s w1 \<and> mmap_offset s = 0
    \<and> region_size s = cfg_mmap_region_size cfg \<and> max_file_size s = cfg_max_file_size cfg"
proof -
  have un: "\<not> initialized Logger_new" by (simp add: Logger_new_def)
  obtain q s' where i: "drain_ok pf b q s' (lg, buf, w1)" "consumer_id lg = 0" "pending q 0 = []"
    "ring_capacity q = QUEUE_SIZE" "output_format lg = cfg_output_format cfg" "initialized lg"
    "MMapSink_new (posix pf) (cfg_log_file_path cfg) (cfg_mmap_region_size cfg) (cfg_max_file_size cfg)
       (cfg_max_rotated_files cfg) w = Inr (s', w1)" "drain_thread lg"
    by (rule init_drain_ok [OF init un size(3) len(2) dates len(1)]) (rule that; assumption)
  have s': "s' = s" using i(1) live(1) by (simp add: drain_ok_def)
  note v = new_sink_view [OF laws size(2) refl fresh i(7) [unfolded s'] live(2)]
  have opens: "\<forall>p w. 0 \<le> fst (sys_open (posix pf) p w)" using avail by (simp add: regions_available_def)
  have "sink_takes (posix pf) b s w1"
    by (rule sink_takes_openable [OF opens]) (use v size(1) in simp_all)
  moreover have "holds view base [] s w1" using v live(2) by (simp add: holds_def)
  moreover have "only_live q 0" using init_only_live [OF init un] i(1) by (simp add: drain_ok_def)
  ultimately show ?thesis using i s' v by (intro exI [of _ q]) simp
qed

lemma session_file:
  assumes laws: "posix_file_ok (posix pf) page view base"
    and avail: "regions_available (posix pf) page"
    and fresh: "fresh_file_ok (posix pf) view (cfg_log_file_path cfg)
      (case rfind_slash (cfg_log_file_path cfg) of
         Some i \<Rightarrow> ensure_directory (posix pf) (take i (cfg_log_file_path cfg)) w | None \<Rightarrow> w)"
    and init: "logger_init pf cfg Logger_new w = Inr (lg, w1)"
    and bin: "cfg_output_format cfg = BINARY" and live: "sink lg = Some s" "mmap_ptr s = Some a"
    and len: "length buf = 256" "length (fresh_prefix pf) = 20"
    and size: "256 \<le> unat (cfg_mmap_region_size cfg)" "unat (cfg_mmap_region_size cfg) < 2 ^ 63"
      "128 dvd unat (cfg_mmap_region_size cfg)" "page dvd unat (cfg_mmap_region_size cfg)"
      "unat (cfg_max_file_size cfg) + unat (cfg_mmap_region_size cfg) < 2 ^ 64"
    and wf: "\<forall>e \<in> set (arrivals_of pre). wf_entry e"
    and fits: "128 * length (arrivals_of pre) \<le> unat (cfg_max_file_size cfg)"
    and k: "length (arrivals_of pre) < k"
  shows "\<exists>acc ce' st' n. drain_loop pf (Suc QUEUE_SIZE) (pre @ replicate k ([], True)) 0
        (lg\<lparr>initialized := False, running := False\<rparr>, buf, w1) = Some (Inr (acc, True, ce', st'))
    \<and> subseq acc (arrivals_of pre)
    \<and> (stops_quiet (pre @ replicate k ([], True)) \<and> length (arrivals_of pre) \<le> QUEUE_SIZE \<longrightarrow> acc = arrivals_of pre)
    \<and> view (snd (logger_shutdown pf (drain_join pf (Suc QUEUE_SIZE) (pre @ replicate k ([], True)) buf) lg w1))
      = concat (map entry_image acc) @ replicate n (CHR 0x00)
    \<and> n \<le> unat (cfg_mmap_region_size cfg) \<and> unat (cfg_mmap_region_size cfg) dvd 128 * length acc + n"
proof -
  let ?its = "pre @ replicate k ([], True)" and ?lg = "lg\<lparr>initialized := False, running := False\<rparr>"
  have dates: "cfg_output_format cfg = TEXT \<longrightarrow> dates_ok (date_string pf)" using bin by simp
  have "unat (cfg_max_file_size cfg) < 2 ^ 64" by simp
  then have "128 * length (arrivals_of pre) < 2 ^ 64" using fits by linarith
  then have b: "length (arrivals_of pre) < 2 ^ 64 - 1 - 2 ^ 20" by simp
  obtain q where i: "drain_ok pf (length (arrivals_of pre)) q s (lg, buf, w1)" "only_live q (consumer_id lg)"
    "pending q (consumer_id lg) = []" "ring_capacity q = QUEUE_SIZE" "output_format lg = BINARY"
    "initialized lg" "drain_thread lg" "sink_takes (posix pf) (length (arrivals_of pre)) s w1"
    "holds view base [] s w1" "mmap_offset s = 0" "region_size s = cfg_mmap_region_size cfg"
    "max_file_size s = cfg_max_file_size cfg"
    using session_start [OF laws avail fresh init dates live len size(1,2) b] bin by auto
  have "drain_ok pf (length (arrivals_of pre)) q s (?lg, buf, w1)" using i(1) by (simp only: drain_ok_flags)
  moreover have "only_live q (consumer_id ?lg)" "pending q (consumer_id ?lg) = []" using i(2,3) by simp_all
  ultimately obtain acc ce' ls s' lg' buf' w' ks where r:
    "drain_loop pf (Suc QUEUE_SIZE) ?its 0 (?lg, buf, w1) = Some (Inr (acc, True, ce', (lg', buf', w')))"
    "subseq acc (arrivals_of pre)"
    "stops_quiet ?its \<and> length (arrivals_of pre) \<le> QUEUE_SIZE \<longrightarrow> acc = arrivals_of pre"
    "list_all2 (entry_line pf (output_format ?lg)) acc ls" "write_all (posix pf) ls s w1 = Inr (ks, s', w')"
    using session_run [of pf pre q s ?lg buf w1 k] i(4,8) wf k by blast
  have ls: "ls = map entry_image acc" using r(4) i(5) by (simp add: binary_lines)
  have acc_wf: "\<forall>e \<in> set acc. wf_entry e" and acc_len: "length acc \<le> length (arrivals_of pre)"
    using wf r(2) list_emb_length [OF r(2)] by (auto dest: list_emb_set)
  have total: "length (concat ls) = 128 * length acc" unfolding ls by (rule images_length [OF acc_wf])
  have rr: "record_room page 128 (unat (cfg_max_file_size cfg)) s"
    using size i(10-12) by (simp add: record_room_def)
  have recs: "\<forall>d \<in> set ls. length d = 128" unfolding ls by (auto simp: sizeof_LogEntry_def acc_wf)
  have "length ([] :: bytes) + 128 * length ls \<le> unat (cfg_max_file_size cfg)"
    using acc_len fits by (simp add: ls)
  then have "holds view base (concat ls) s' w' \<and> region_size s' = region_size s"
    using holds_records [OF laws avail i(9) rr recs] r(5) by auto
  then obtain n where n: "view w' = concat (map entry_image acc) @ replicate n (CHR 0x00)"
    "n \<le> unat (cfg_mmap_region_size cfg)" "unat (cfg_mmap_region_size cfg) dvd 128 * length acc + n"
    using holds_padding [of view base "concat ls" s' w'] total i(11) unfolding ls by auto
  have "view (snd (logger_shutdown pf (drain_join pf (Suc QUEUE_SIZE) ?its buf) lg w1)) = view w'"
    by (rule shutdown_keeps_view [OF laws _ i(6,7)]) (use r(1) in \<open>simp add: drain_join_def\<close>)
  then show ?thesis using r(1-3) n unfolding n(1) by blast
qed

section \<open>The session as a whole\<close>

text \<open>
  A logger started on an empty file whose first region could be mapped, on a platform with the
  file laws where regions stay available, with a region size that pages divide; the same
  in binary format, with a region size that records divide; in text format, with dates; and
  the bytes the file holds after \<open>shutdown\<close>.
\<close>

definition session_opened ::
  "'w platform \<Rightarrow> nat \<Rightarrow> ('w \<Rightarrow> bytes) \<Rightarrow> ('w \<Rightarrow> nat) \<Rightarrow> LoggerConfig \<Rightarrow> 'w \<Rightarrow> Logger \<Rightarrow> 'w \<Rightarrow> bool" where
  "session_opened pf page view base cfg w lg w1 \<longleftrightarrow>
     posix_file_ok (posix pf) page view base \<and> regions_available (posix pf) page
     \<and> fresh_file_ok (posix pf) view (cfg_log_file_path cfg)
         (case rfind_slash (cfg_log_file_path cfg) of
            Some i \<Rightarrow> ensure_directory (posix pf) (take i (cfg_log_file_path cfg)) w | None \<Rightarrow> w)
     \<and> logger_init pf cfg Logger_new w = Inr (lg, w1)
     \<and> 256 \<le> unat (cfg_mmap_region_size cfg) \<and> unat (cfg_mmap_region_size cfg) < 2 ^ 63
     \<and> page dvd unat (cfg_mmap_region_size cfg)
     \<and> unat (cfg_max_file_size cfg) + unat (cfg_mmap_region_size cfg) < 2 ^ 64
     \<and> (\<exists>s. sink lg = Some s \<and> mmap_ptr s \<noteq> None) \<and> length (fresh_prefix pf) = 20"

definition session_started ::
  "'w platform \<Rightarrow> nat \<Rightarrow> ('w \<Rightarrow> bytes) \<Rightarrow> ('w \<Rightarrow> nat) \<Rightarrow> LoggerConfig \<Rightarrow> 'w \<Rightarrow> Logger \<Rightarrow> 'w \<Rightarrow> bool" where
  "session_started pf page view base cfg w lg w1 \<longleftrightarrow>
     session_opened pf page view base cfg w lg w1
     \<and> cfg_output_format cfg = BINARY \<and> 128 dvd unat (cfg_mmap_region_size cfg)"

definition text_session_started ::
  "'w platform \<Rightarrow> nat \<Rightarrow> ('w \<Rightarrow> bytes) \<Rightarrow> ('w \<Rightarrow> nat) \<Rightarrow> LoggerConfig \<Rightarrow> 'w \<Rightarrow> Logger \<Rightarrow> 'w \<Rightarrow> bool" where
  "text_session_started pf page view base cfg w lg w1 \<longleftrightarrow>
     session_opened pf page view base cfg w lg w1
     \<and> cfg_output_format cfg = TEXT \<and> dates_ok (date_string pf)"

lemma session_openedD:
  assumes "session_opened pf page view base cfg w lg w1"
  shows "posix_file_ok (posix pf) page view base" "regions_available (posix pf) page"
    "fresh_file_ok (posix pf) view (cfg_log_file_path cfg)
      (case rfind_slash (cfg_log_file_path cfg) of
         Some i \<Rightarrow> ensure_directory (posix pf) (take i (cfg_log_file_path cfg)) w | None \<Rightarrow> w)"
    "logger_init pf cfg Logger_new w = Inr (lg, w1)"
    "256 \<le> unat (cfg_mmap_region_size cfg)" "unat (cfg_mmap_region_size cfg) < 2 ^ 63"
    "page dvd unat (cfg_mmap_region_size cfg)"
    "unat (cfg_max_file_size cfg) + unat (cfg_mmap_region_size cfg) < 2 ^ 64"
    "\<exists>s. sink lg = Some s \<and> mmap_ptr s \<noteq> None" "length (fresh_prefix pf) = 20"
  using assms by (simp_all add: session_opened_def)

definition session_bytes ::
  "'w platform \<Rightarrow> ('w \<Rightarrow> bytes) \<Rightarrow> (LogEntry list \<times> bool) list \<Rightarrow> bytes \<Rightarrow> Logger \<Rightarrow> 'w \<Rightarrow> bytes" where
  "session_bytes pf view its buf lg w1 =
     view (snd (logger_shutdown pf (drain_join pf (Suc QUEUE_SIZE) its buf) lg w1))"

lemma session_contents:
  assumes "session_started pf page view base cfg w lg w1" and "length buf = 256"
    and "\<forall>e \<in> set (arrivals_of pre). wf_entry e"
    and "128 * length (arrivals_of pre) \<le> unat (cfg_max_file_size cfg)"
    and "length (arrivals_of pre) < k"
  shows "\<exists>acc ce' st' n. drain_loop pf (Suc QUEUE_SIZE) (pre @ replicate k ([], True)) 0
        (lg\<lparr>initialized := False, running := False\<rparr>, buf, w1) = Some (Inr (acc, True, ce', st'))
    \<and> subseq acc (arrivals_of pre)
    \<and> ((\<forall>(as, stop) \<in> set pre. \<not> stop) \<and> length (arrivals_of pre) \<le> QUEUE_SIZE \<longrightarrow> acc = arrivals_of pre)
    \<and> session_bytes pf view (pre @ replicate k ([], True)) buf lg w1
      = concat (map entry_image acc) @ replicate (128 * n) (CHR 0x00)
    \<and> 128 * n \<le> unat (cfg_mmap_region_size cfg)
    \<and> unat (cfg_mmap_region_size cfg) dvd 128 * (length acc + n)"
proof -
  let ?R = "unat (cfg_mmap_region_size cfg)" and ?its = "pre @ replicate k ([], True)"
  have op: "session_opened pf page view base cfg w lg w1" and bin: "cfg_output_format cfg = BINARY"
    and recs: "128 dvd ?R"
    using assms(1) by (simp_all add: session_started_def)
  note s = session_openedD [OF op]
  obtain t a where t: "sink lg = Some t" "mmap_ptr t = Some a" using s(9) by auto
  obtain acc ce' st' n where r: "drain_loop pf (Suc QUEUE_SIZE) ?its 0
        (lg\<lparr>initialized := False, running := False\<rparr>, buf, w1) = Some (Inr (acc, True, ce', st'))"
    "subseq acc (arrivals_of pre)"
    "stops_quiet ?its \<and> length (arrivals_of pre) \<le> QUEUE_SIZE \<longrightarrow> acc = arrivals_of pre"
    "session_bytes pf view ?its buf lg w1 = concat (map entry_image acc) @ replicate n (CHR 0x00)"
    "n \<le> ?R" "?R dvd 128 * length acc + n"
    using session_file [OF s(1-4) bin t assms(2) s(10) s(5,6) recs s(7,8) assms(3-5)]
    unfolding session_bytes_def by blast
  have "(\<forall>(as, stop) \<in> set pre. \<not> stop) \<Longrightarrow> stops_quiet ?its"
    by (rule stops_quiet_append [OF _ stops_quiet_replicate])
  then have all: "(\<forall>(as, stop) \<in> set pre. \<not> stop) \<and> length (arrivals_of pre) \<le> QUEUE_SIZE \<longrightarrow> acc = arrivals_of pre"
    using r(3) by blast
  have "128 dvd 128 * length acc + n" by (rule dvd_trans [OF recs r(6)])
  then have "128 dvd n" by (simp add: dvd_add_right_iff)
  then obtain m where m: "n = 128 * m" by (rule dvdE)
  then have "?R dvd 128 * (length acc + m)" using r(6) by (simp add: distrib_left)
  then show ?thesis using r(1,2,4,5) all unfolding m by blast
qed

lemma displayed_append_hidden:
  "\<forall>e \<in> set zs. \<not> entry_passes opts e \<Longrightarrow> displayed opts c (es @ zs) = displayed opts c es"
  by (simp add: displayed_def Let_def)

section \<open>A session in text format\<close>

text \<open>The line of an entry whose time stamp is past second 0.\<close>

definition log_line :: "(u64 \<Rightarrow> bytes) \<Rightarrow> LogEntry \<Rightarrow> bytes" where
  "log_line dates e = text_line (dates (ts_sec (timestamp_ns e))) e"

lemma log_lines:
  assumes "list_all2 (text_line_of dates) es ls" and "\<forall>e \<in> set es. ts_sec (timestamp_ns e) \<noteq> 0"
  shows "ls = map (log_line dates) es"
  using assms by (induction rule: list_all2_induct) (auto simp: text_line_of_def log_line_def)

lemma text_line_length: "text_line_of dates e l \<Longrightarrow> wf_entry e \<Longrightarrow> length l \<le> 170"
  using length_text_line by (auto simp: text_line_of_def)

lemma text_lines_length:
  "list_all2 (text_line_of dates) es ls \<Longrightarrow> \<forall>e \<in> set es. wf_entry e \<Longrightarrow> length (concat ls) \<le> 170 * length es"
  by (induction rule: list_all2_induct) (auto dest: text_line_length)

lemma text_lines: "list_all2 (entry_line pf TEXT) es ls \<longleftrightarrow> list_all2 (text_line_of (date_string pf)) es ls"
proof -
  have "entry_line pf TEXT = text_line_of (date_string pf)" by (simp add: fun_eq_iff entry_line_def)
  then show ?thesis by simp
qed

text \<open>
  Lines that together fit the first region: the file holds the lines of the accepted
  entries, then zeros. (Past the first region a text log goes silent, see \<open>Mmap_Sink\<close>.)
\<close>

lemma text_session_contents:
  assumes started: "text_session_started pf page view base cfg w lg w1" and buf: "length buf = 256"
    and wf: "\<forall>e \<in> set (arrivals_of pre). wf_entry e"
    and dated: "\<forall>e \<in> set (arrivals_of pre). ts_sec (timestamp_ns e) \<noteq> 0"
    and fits: "170 * length (arrivals_of pre) \<le> unat (cfg_mmap_region_size cfg)"
    and k: "length (arrivals_of pre) < k"
  shows "\<exists>acc n. subseq acc (arrivals_of pre)
    \<and> ((\<forall>(as, stop) \<in> set pre. \<not> stop) \<and> length (arrivals_of pre) \<le> QUEUE_SIZE \<longrightarrow> acc = arrivals_of pre)
    \<and> session_bytes pf view (pre @ replicate k ([], True)) buf lg w1
      = concat (map (log_line (date_string pf)) acc) @ replicate n (CHR 0x00)"
proof -
  let ?its = "pre @ replicate k ([], True)" and ?lg = "lg\<lparr>initialized := False, running := False\<rparr>"
  let ?R = "unat (cfg_mmap_region_size cfg)"
  have op: "session_opened pf page view base cfg w lg w1" and out: "cfg_output_format cfg = TEXT"
    and dates: "cfg_output_format cfg = TEXT \<longrightarrow> dates_ok (date_string pf)"
    using started by (simp_all add: text_session_started_def)
  note o = session_openedD [OF op]
  obtain s a where s: "sink lg = Some s" "mmap_ptr s = Some a" using o(9) by auto
  have b: "length (arrivals_of pre) < 2 ^ 64 - 1 - 2 ^ 20" using fits o(6) by simp
  obtain q where i: "drain_ok pf (length (arrivals_of pre)) q s (lg, buf, w1)" "only_live q (consumer_id lg)"
    "pending q (consumer_id lg) = []" "ring_capacity q = QUEUE_SIZE" "output_format lg = TEXT"
    "initialized lg" "drain_thread lg" "sink_takes (posix pf) (length (arrivals_of pre)) s w1"
    "holds view base [] s w1" "mmap_offset s = 0" "region_size s = cfg_mmap_region_size cfg"
    using session_start [OF o(1-4) dates s buf o(10,5,6) b] out by auto
  have "drain_ok pf (length (arrivals_of pre)) q s (?lg, buf, w1)" using i(1) by (simp only: drain_ok_flags)
  moreover have "only_live q (consumer_id ?lg)" "pending q (consumer_id ?lg) = []" using i(2,3) by simp_all
  ultimately obtain acc ce' ls s' lg' buf' w' ks where r:
    "drain_loop pf (Suc QUEUE_SIZE) ?its 0 (?lg, buf, w1) = Some (Inr (acc, True, ce', (lg', buf', w')))"
    "subseq acc (arrivals_of pre)"
    "stops_quiet ?its \<and> length (arrivals_of pre) \<le> QUEUE_SIZE \<longrightarrow> acc = arrivals_of pre"
    "list_all2 (entry_line pf (output_format ?lg)) acc ls" "write_all (posix pf) ls s w1 = Inr (ks, s', w')"
    using session_run [of pf pre q s ?lg buf w1 k] i(4,8) wf k by blast
  have lines: "list_all2 (text_line_of (date_string pf)) acc ls"
    using r(4) i(5) by (simp add: text_lines)
  have acc_wf: "\<forall>e \<in> set acc. wf_entry e" and acc_dated: "\<forall>e \<in> set acc. ts_sec (timestamp_ns e) \<noteq> 0"
    and acc_len: "length acc \<le> length (arrivals_of pre)"
    using wf dated r(2) list_emb_length [OF r(2)] by (auto dest: list_emb_set)
  have ls: "ls = map (log_line (date_string pf)) acc" by (rule log_lines [OF lines acc_dated])
  have v: "view w1 = replicate ?R (CHR 0x00)" "base w1 = 0" "sink_ok s"
    using i(9,10,11) by (auto simp: holds_def)
  have room: "unat (mmap_offset s) + length (concat ls) \<le> unat (region_size s)"
    using text_lines_length [OF lines acc_wf] acc_len fits i(10,11) by simp
  then have "view w' = overwrite 0 (concat ls) (replicate ?R (CHR 0x00))"
    using write_all_fits [OF o(1) v(3) s(2) room, of w1] v(1,2) r(5) i(10,11) by auto
  then have contents: "view w' = concat ls @ replicate (?R - length (concat ls)) (CHR 0x00)"
    by (simp add: overwrite_def)
  have "view (snd (logger_shutdown pf (drain_join pf (Suc QUEUE_SIZE) ?its buf) lg w1)) = view w'"
    by (rule shutdown_keeps_view [OF o(1) _ i(6,7)]) (use r(1) in \<open>simp add: drain_join_def\<close>)
  then have stored: "session_bytes pf view ?its buf lg w1
      = concat (map (log_line (date_string pf)) acc) @ replicate (?R - length (concat ls)) (CHR 0x00)"
    unfolding session_bytes_def contents ls .
  have "(\<forall>(as, stop) \<in> set pre. \<not> stop) \<Longrightarrow> stops_quiet ?its"
    by (rule stops_quiet_append [OF _ stops_quiet_replicate])
  then show ?thesis using r(2,3) stored by blast
qed

end
