(* ===== verification/Tool_Mains.thy ===== *)
theory Tool_Mains
  imports Log_Tools
begin

text \<open>
  The \<open>main\<close> functions of tools/log_reader.cpp and tools/log_stats.cpp: exit status and text
  on the standard output. Files are a partial map from names to bytes. The report prints
  numbers computed in \<open>double\<close>; their \<open>printf\<close> text is a record of functions of the
  integers they are computed from, an argument of the model.
\<close>

section \<open>log_reader\<close>

text \<open>
  Exit status, standard output, and the last line on the standard error stream (the warning
  of \<open>parse_level\<close> for an unknown name comes before it and is left out). \<open>None\<close> when the
  behaviour is undefined: the formatter left its buffer, or an option's number is no \<open>int\<close>.
\<close>

definition newline :: bytes where
  "newline = [CHR 0x0A]"

definition reader_summary :: "u64 \<Rightarrow> u64 \<Rightarrow> bytes" where
  "reader_summary count seen =
     newline @ ''--- '' @ dec_numeral (unat count) @ '' entries displayed out of ''
       @ dec_numeral (unat seen) @ '' total ---'' @ newline"

definition reader_main ::
  "(u64 \<Rightarrow> bytes) \<Rightarrow> bytes \<Rightarrow> bytes \<Rightarrow> (string \<rightharpoonup> bytes) \<Rightarrow> string list \<Rightarrow> (nat \<times> bytes \<times> bytes) option" where
  "reader_main dates junk_prefix junk_buf files argv =
     (case parse_args argv of
        Inl Undefined_number \<Rightarrow> None
      | Inl Usage \<Rightarrow> Some (1, [],
          ''Usage: '' @ concat (take 1 argv) @ '' <logfile> [--level LEVEL] [--thread TID] [--limit N]'' @ newline)
      | Inr opts \<Rightarrow>
          (case files (filename opts) of
             None \<Rightarrow> Some (1, [], ''Error: cannot open '' @ filename opts @ newline)
           | Some file \<Rightarrow>
               map_option (\<lambda>(shown, count, seen). (0, shown, reader_summary count seen))
                 (log_reader dates junk_prefix junk_buf opts file)))"

section \<open>log_stats\<close>

text \<open>
  The texts of the numbers in \<open>double\<close>: a percentage (count, total), megabytes of a byte
  count, seconds of nanoseconds, millions of entries per second (total, nanoseconds), an
  average (bytes, total).
\<close>

record num_text =
  pct_text :: "u64 \<Rightarrow> u64 \<Rightarrow> bytes"
  mb_text :: "u64 \<Rightarrow> bytes"
  sec_text :: "u64 \<Rightarrow> bytes"
  rate_text :: "u64 \<Rightarrow> u64 \<Rightarrow> bytes"
  avg_text :: "u64 \<Rightarrow> u64 \<Rightarrow> bytes"

definition pad_left :: "nat \<Rightarrow> bytes \<Rightarrow> bytes" where
  "pad_left n s = replicate (n - length s) (CHR '' '') @ s"

definition pad_right :: "nat \<Rightarrow> bytes \<Rightarrow> bytes" where
  "pad_right n s = s @ replicate (n - length s) (CHR '' '')"

definition double_rule :: "nat \<Rightarrow> bytes" where
  "double_rule n = concat (replicate n [CHR 0xE2, CHR 0x95, CHR 0x90])"

definition single_rule :: "nat \<Rightarrow> bytes" where
  "single_rule n = concat (replicate n [CHR 0xE2, CHR 0x94, CHR 0x80])"

definition section_title :: "string \<Rightarrow> nat \<Rightarrow> bytes" where
  "section_title title n = newline @ single_rule 3 @ '' '' @ title @ '' '' @ single_rule n @ newline"

definition report_header :: "num_text \<Rightarrow> string \<Rightarrow> LogStats \<Rightarrow> bytes" where
  "report_header nt name s =
     newline @ double_rule 44 @ newline
     @ ''  MPMC Logger '' @ [CHR 0xE2, CHR 0x80, CHR 0x94] @ '' Log File Statistics'' @ newline
     @ double_rule 44 @ newline @ newline
     @ ''  File:           '' @ name @ newline
     @ ''  Total entries:  '' @ dec_numeral (unat (st_total s)) @ newline
     @ ''  File size:      '' @ mb_text nt (st_total s * of_nat sizeof_LogEntry) @ '' MB'' @ newline"

definition level_row :: "num_text \<Rightarrow> u64 \<Rightarrow> string \<times> u64 \<Rightarrow> bytes" where
  "level_row nt total_entries row =
     (case row of (name, count) \<Rightarrow>
        ''  ['' @ name @ '']  '' @ pad_left 10 (dec_numeral (unat count))
        @ ''  ('' @ pct_text nt count total_entries @ ''%)'' @ newline)"

definition thread_row :: "num_text \<Rightarrow> u64 \<Rightarrow> u32 \<times> u64 \<Rightarrow> bytes" where
  "thread_row nt total_entries row =
     (case row of (tid, count) \<Rightarrow>
        ''  tid:'' @ pad_right 8 (dec_numeral (unat tid)) @ ''  '' @ pad_left 10 (dec_numeral (unat count))
        @ ''  ('' @ pct_text nt count total_entries @ ''%)'' @ newline)"

definition throughput_section :: "num_text \<Rightarrow> LogStats \<Rightarrow> bytes" where
  "throughput_section nt s =
     (if report_throughput s
      then section_title ''Throughput'' 28
        @ ''  Time span:      '' @ sec_text nt (max_ts s - min_ts s) @ '' sec'' @ newline
        @ ''  Throughput:     '' @ rate_text nt (st_total s) (max_ts s - min_ts s) @ '' M entries/sec'' @ newline
      else [])"

definition payload_section :: "num_text \<Rightarrow> LogStats \<Rightarrow> bytes" where
  "payload_section nt s =
     section_title ''Payload'' 30
     @ ''  Total payload:  '' @ mb_text nt (total_payload_bytes s) @ '' MB'' @ newline
     @ (if st_total s > 0
        then ''  Avg payload:    '' @ avg_text nt (total_payload_bytes s) (st_total s) @ '' bytes'' @ newline
        else [])
     @ ''  Min payload:    '' @ dec_numeral (unat (min_payload s)) @ '' bytes'' @ newline
     @ ''  Max payload:    '' @ dec_numeral (unat (max_payload s)) @ '' bytes'' @ newline"

definition stats_report :: "num_text \<Rightarrow> string \<Rightarrow> LogStats \<Rightarrow> bytes" where
  "stats_report nt name s =
     report_header nt name s
     @ section_title ''Level Distribution'' 20 @ concat (map (level_row nt (st_total s)) (report_levels s))
     @ section_title ''Thread Distribution'' 19 @ concat (map (thread_row nt (st_total s)) (thread_counts s))
     @ throughput_section nt s
     @ payload_section nt s
     @ newline @ double_rule 44 @ newline @ newline"

definition stats_main :: "num_text \<Rightarrow> (string \<rightharpoonup> bytes) \<Rightarrow> string list \<Rightarrow> nat \<times> bytes \<times> bytes" where
  "stats_main nt files argv =
     (if length argv < 2
      then (1, [], ''Usage: '' @ concat (take 1 argv) @ '' <logfile>'' @ newline)
      else case files (argv ! 1) of
             None \<Rightarrow> (1, [], ''Error: cannot open '' @ argv ! 1 @ newline)
           | Some file \<Rightarrow> (0, stats_report nt (argv ! 1) (log_stats file), []))"

section \<open>Properties\<close>

text \<open>
  Two versions of the number texts that differ only where a computation would divide by zero.
\<close>

definition same_when_defined :: "num_text \<Rightarrow> num_text \<Rightarrow> bool" where
  "same_when_defined nt nt' \<longleftrightarrow> mb_text nt = mb_text nt' \<and> sec_text nt = sec_text nt'
     \<and> (\<forall>c t. t \<noteq> 0 \<longrightarrow> pct_text nt c t = pct_text nt' c t \<and> avg_text nt c t = avg_text nt' c t)
     \<and> (\<forall>t d. d \<noteq> 0 \<longrightarrow> rate_text nt t d = rate_text nt' t d)"

lemma read_entries_length: "128 * length (read_entries bs) \<le> length bs"
proof (induction bs rule: read_entries.induct)
  case (1 bs)
  show ?case
  proof (cases "length bs < sizeof_LogEntry")
    case True
    then show ?thesis by (simp add: read_entries.simps [of bs])
  next
    case False
    then have "128 * length (read_entries (drop 128 bs)) \<le> length bs - 128"
      using 1 by (simp add: sizeof_LogEntry_def)
    then show ?thesis using False by (simp add: read_entries.simps [of bs] sizeof_LogEntry_def)
  qed
qed

lemma no_rows_without_entries:
  assumes "length bs < 2 ^ 64" and "st_total (log_stats bs) = 0"
  shows "report_levels (log_stats bs) = []" "thread_counts (log_stats bs) = []"
proof -
  have "length (read_entries bs) < 2 ^ 64"
    using read_entries_length [of bs] assms(1) by simp
  then have "read_entries bs = []"
    using assms(2) unat_of_nat64 [of "length (read_entries bs)"] by (simp add: log_stats_total)
  then have s: "log_stats bs = LogStats_init" by (simp add: log_stats_def)
  show "thread_counts (log_stats bs) = []" unfolding s by (simp add: LogStats_init_def)
  show "report_levels (log_stats bs) = []"
    unfolding s by (simp add: report_levels_def LogStats_init_def)
qed

text \<open>The report never divides by zero. For any file that fits in memory, changing what the
  percentage, average and rate computations yield for a zero divisor changes nothing in the
  report: percentages and the average are computed only when entries were read, the rate only
  when the time span is positive.\<close>

lemma stats_report_divides_safely:
  assumes "length bs < 2 ^ 64" and "same_when_defined nt nt'"
  shows "stats_report nt name (log_stats bs) = stats_report nt' name (log_stats bs)"
proof -
  let ?s = "log_stats bs"
  note eq = assms(2) [unfolded same_when_defined_def]
  have rows: "map (level_row nt (st_total ?s)) (report_levels ?s) = map (level_row nt' (st_total ?s)) (report_levels ?s)"
    "map (thread_row nt (st_total ?s)) (thread_counts ?s) = map (thread_row nt' (st_total ?s)) (thread_counts ?s)"
    using no_rows_without_entries [OF assms(1)] eq
    by (cases "st_total ?s = 0"; force simp: level_row_def thread_row_def)+
  have "max_ts ?s > min_ts ?s \<Longrightarrow> max_ts ?s - min_ts ?s \<noteq> 0" by auto
  then have "throughput_section nt ?s = throughput_section nt' ?s"
    using eq by (simp add: throughput_section_def report_throughput_def)
  moreover have "payload_section nt ?s = payload_section nt' ?s"
    using eq by (simp add: payload_section_def word_gt_0)
  ultimately show ?thesis
    using eq by (simp add: stats_report_def report_header_def rows del: map_eq_conv)
qed

definition demo_text :: num_text where
  "demo_text = \<lparr>pct_text = (\<lambda>c t. dec_numeral (100 * unat c div unat t)), mb_text = (\<lambda>n. dec_numeral (unat n)),
     sec_text = (\<lambda>n. dec_numeral (unat n)), rate_text = (\<lambda>t d. dec_numeral (unat t div unat d)),
     avg_text = (\<lambda>c t. dec_numeral (unat c div unat t))\<rparr>"

lemma stats_report_divides_safely_witness:
  "stats_report demo_text ''f'' (log_stats (replicate 100 CHR ''x''))
    = stats_report (demo_text\<lparr>pct_text := \<lambda>c t. if t = 0 then ''nan'' else pct_text demo_text c t\<rparr>) ''f''
        (log_stats (replicate 100 CHR ''x''))"
  by (rule stats_report_divides_safely) (simp_all add: same_when_defined_def)

text \<open>C34: Exit status of the tools. Unless an option of the reader has a number that is no \<open>int\<close>,
  both exit with status 1 and print nothing on the standard output exactly when the file
  argument is missing or the file cannot be opened; otherwise they exit with status 0, the
  reader prints the lines of the entries its options let pass, and its summary counts them.\<close>

theorem tools_exit_status:
  assumes "dates_ok dates" and "length junk_prefix = 20" and "length junk_buf = 256"
    and "\<forall>bs. files (argv ! 1) = Some bs \<longrightarrow> length (read_entries bs) < 2 ^ 64 - 1"
    and "parse_args argv \<noteq> Inl Undefined_number"
  shows "if length argv < 2 \<or> files (argv ! 1) = None
    then (\<exists>err. reader_main dates junk_prefix junk_buf files argv = Some (1, [], err))
      \<and> (\<exists>err. stats_main nt files argv = (1, [], err))
    else (\<exists>bs opts ls n. files (argv ! 1) = Some bs \<and> parse_args argv = Inr opts
      \<and> reader_main dates junk_prefix junk_buf files argv = Some (0, concat ls,
          reader_summary (of_nat (length (displayed opts 0 (read_entries bs)))) n)
      \<and> list_all2 (text_line_of dates) (displayed opts 0 (read_entries bs)) ls
      \<and> stats_main nt files argv = (0, stats_report nt (argv ! 1) (log_stats bs), []))"
proof -
  have few: "length argv < 2 \<Longrightarrow> parse_args argv = Inl Usage" by (simp add: parse_args_def)
  have enough: "\<exists>opts. parse_args argv = Inr opts \<and> filename opts = argv ! 1" if "\<not> length argv < 2"
    using that assms(5) parse_opts_filename [of "drop 2 argv" "ReaderOptions_default\<lparr>filename := argv ! 1\<rparr>"]
      parse_opts_error [of "drop 2 argv" "ReaderOptions_default\<lparr>filename := argv ! 1\<rparr>"]
    by (cases "parse_opts (drop 2 argv) (ReaderOptions_default\<lparr>filename := argv ! 1\<rparr>)")
      (auto simp: parse_args_def)
  have ok: "\<exists>ls n. log_reader dates junk_prefix junk_buf opts bs
      = Some (concat ls, of_nat (length (displayed opts 0 (read_entries bs))), n)
    \<and> list_all2 (text_line_of dates) (displayed opts 0 (read_entries bs)) ls"
    if "files (argv ! 1) = Some bs" for opts bs
    using reader_loop_text [OF assms(1) date_inv_new [OF assms(2)] assms(3), of "read_entries bs" 0 opts 0]
      read_entries_wf assms(4) that unfolding log_reader_def by auto
  consider "length argv < 2" | opts where "\<not> length argv < 2" "files (argv ! 1) = None"
      "parse_args argv = Inr opts" "filename opts = argv ! 1"
    | opts bs where "\<not> length argv < 2" "files (argv ! 1) = Some bs"
      "parse_args argv = Inr opts" "filename opts = argv ! 1"
    using enough by (cases "files (argv ! 1)") auto
  then show ?thesis
  proof cases
    case 1
    then show ?thesis using few by (simp add: reader_main_def stats_main_def)
  next
    case 2
    then show ?thesis by (simp add: reader_main_def stats_main_def)
  next
    case (3 opts bs)
    then show ?thesis
      using ok [OF 3(2), of opts] by (auto simp: reader_main_def stats_main_def)
  qed
qed

lemma tools_exit_status_witness:
  "fst (stats_main demo_text Map.empty [''log_stats'', ''f'']) = 1
    \<and> (\<exists>err. reader_main demo_dates (replicate 20 (CHR 0x00)) (replicate 256 (CHR 0x00)) Map.empty
         [''log_reader'', ''f''] = Some (1, [], err))"
  using tools_exit_status [OF demo_dates_ok, of "replicate 20 (CHR 0x00)" "replicate 256 (CHR 0x00)"
      Map.empty "[''log_reader'', ''f'']" demo_text]
  by (auto simp: stats_main_def parse_args_def)

end
