(* ===== verification/Bench_Stats.thy ===== *)
theory Bench_Stats
  imports Tool_Mains "HOL-Library.Multiset"
begin

text \<open>
  What the benchmarks compute from their measurements: the class \<open>LatencyHistogram\<close> of
  bench/bench_queue_latency.cpp, \<open>print_percentiles\<close> and the cycle differences of
  bench/bench_rdtsc.cpp, and the caller latency report of bench/bench_logger_e2e.cpp. A
  vector is a list; an access past its end is \<open>None\<close>. Proved: the numbers printed are
  quantiles of the samples, in the sense of order statistics.
\<close>

section \<open>Quantiles\<close>

text \<open>\<open>samples[n * num / den]\<close> on the sorted samples, with the 64-bit arithmetic of \<open>size_t\<close>.\<close>

definition sample_at :: "u64 list \<Rightarrow> u64 \<Rightarrow> u64 option" where
  "sample_at s i = (if unat i < length s then Some (s ! unat i) else None)"

definition quantile :: "u64 list \<Rightarrow> u64 \<Rightarrow> u64 \<Rightarrow> u64 option" where
  "quantile s num den = sample_at s (of_nat (length s) * num div den)"

section \<open>The latency histogram\<close>

record LatencyHistogram =
  samples :: "u64 list"

definition histogram_add :: "u64 \<Rightarrow> LatencyHistogram \<Rightarrow> LatencyHistogram" where
  "histogram_add ns h = h\<lparr>samples := samples h @ [ns]\<rparr>"

definition histogram_line :: "string \<Rightarrow> u64 \<Rightarrow> bytes" where
  "histogram_line label v = label @ pad_left 8 (dec_numeral (unat v)) @ '' ns'' @ newline"

definition latency_text :: "string \<Rightarrow> u64 \<Rightarrow> (string \<times> u64) list \<Rightarrow> bytes" where
  "latency_text title n rows =
     newline @ ''=== '' @ title @ '' ('' @ dec_numeral (unat n) @ '' samples) ==='' @ newline
     @ concat (map (\<lambda>(label, v). histogram_line label v) rows)"

definition samples_average :: "u64 list \<Rightarrow> u64" where
  "samples_average s = fold (\<lambda>x sum. sum + x) s 0 div of_nat (length s)"

text \<open>\<open>report\<close> sorts the samples in place: its text, and the histogram it leaves.\<close>

definition histogram_report :: "LatencyHistogram \<Rightarrow> (bytes \<times> LatencyHistogram) option" where
  "histogram_report h =
     (if samples h = [] then Some ([], h)
      else let s = sort (samples h); n = of_nat (length s) in do {
        p50 \<leftarrow> quantile s 50 100; p90 \<leftarrow> quantile s 90 100; p99 \<leftarrow> quantile s 99 100;
        p999 \<leftarrow> quantile s 999 1000; p9999 \<leftarrow> quantile s 9999 10000;
        mx \<leftarrow> sample_at s (n - 1); mn \<leftarrow> sample_at s 0;
        Some (latency_text ''Latency Histogram'' n
            [(''  p50:    '', p50), (''  p90:    '', p90), (''  p99:    '', p99), (''  p99.9:  '', p999),
             (''  p99.99: '', p9999), (''  max:    '', mx), (''  min:    '', mn),
             (''  avg:    '', samples_average s)],
          h\<lparr>samples := s\<rparr>) })"

text \<open>The report of \<open>BM_LoggerCallerLatency\<close>.\<close>

definition caller_latency_report :: "u64 list \<Rightarrow> bytes option" where
  "caller_latency_report latencies =
     (let s = sort latencies; n = of_nat (length s)
      in if length s = 0 then Some []
         else do {
           p50 \<leftarrow> quantile s 50 100; p90 \<leftarrow> quantile s 90 100; p99 \<leftarrow> quantile s 99 100;
           p999 \<leftarrow> quantile s 999 1000; mx \<leftarrow> sample_at s (n - 1);
           Some (latency_text ''Logger Caller Latency'' n
             [(''  p50:    '', p50), (''  p90:    '', p90), (''  p99:    '', p99), (''  p99.9:  '', p999),
              (''  max:    '', mx)]) })"

section \<open>Cycle counts\<close>

text \<open>\<open>(t1 > t0) ? (t1 - t0) : 0\<close>\<close>

definition elapsed :: "u64 \<Rightarrow> u64 \<Rightarrow> u64" where
  "elapsed t0 t1 = (if t1 > t0 then t1 - t0 else 0)"

text \<open>The argument \<open>ns_text\<close> is the \<open>printf\<close> text of cycles converted to nanoseconds in \<open>double\<close>.\<close>

definition print_percentiles :: "(u64 \<Rightarrow> bytes) \<Rightarrow> string \<Rightarrow> u64 list \<Rightarrow> (bytes \<times> u64 list) option" where
  "print_percentiles ns_text name cycles =
     (let s = sort cycles; n = of_nat (length s)
      in if n = 0 then Some ([], s)
         else do {
           p50 \<leftarrow> sample_at s (n div 2); p90 \<leftarrow> quantile s 90 100;
           p99 \<leftarrow> quantile s 99 100; p999 \<leftarrow> quantile s 999 1000;
           Some (pad_right 22 name @ '' | '' @ ns_text p50 @ '' | '' @ ns_text p90 @ '' | ''
             @ ns_text p99 @ '' | '' @ ns_text p999 @ newline, s) })"

section \<open>Order statistics\<close>

text \<open>A value with more than \<open>i\<close> samples at or below it and at most \<open>i\<close> below it.\<close>

definition order_statistic :: "u64 list \<Rightarrow> nat \<Rightarrow> u64 \<Rightarrow> bool" where
  "order_statistic xs i p \<longleftrightarrow> p \<in> set xs
     \<and> i < length (filter (\<lambda>x. x \<le> p) xs) \<and> length (filter (\<lambda>x. x < p) xs) \<le> i"

lemma filter_sort_length: "length (filter P (sort xs)) = length (filter P xs)"
  by (metis mset_filter mset_sort size_mset)

lemma sort_nth_statistic:
  assumes "i < length xs"
  shows "order_statistic xs i (sort xs ! i)"
proof -
  let ?s = "sort xs"
  have i: "i < length ?s" using assms by simp
  have low: "\<forall>x \<in> set (take (Suc i) ?s). x \<le> ?s ! i"
    using sorted_nth_mono [OF sorted_sort, of _ i xs] i by (auto simp: in_set_conv_nth)
  have high: "\<forall>x \<in> set (drop i ?s). \<not> x < ?s ! i"
    using sorted_nth_mono [OF sorted_sort, of i _ xs] i by (auto simp: in_set_conv_nth not_less)
  have "filter (\<lambda>x. x \<le> ?s ! i) ?s = take (Suc i) ?s @ filter (\<lambda>x. x \<le> ?s ! i) (drop (Suc i) ?s)"
    using low filter_append [of "\<lambda>x. x \<le> ?s ! i" "take (Suc i) ?s" "drop (Suc i) ?s"]
    by (simp add: filter_id_conv del: take_Suc_conv_app_nth)
  then have "Suc i \<le> length (filter (\<lambda>x. x \<le> ?s ! i) ?s)" using i by simp
  moreover have "filter (\<lambda>x. x < ?s ! i) ?s = filter (\<lambda>x. x < ?s ! i) (take i ?s)"
    using high filter_append [of "\<lambda>x. x < ?s ! i" "take i ?s" "drop i ?s"]
    by (simp add: filter_empty_conv)
  then have "length (filter (\<lambda>x. x < ?s ! i) ?s) \<le> i"
    using length_filter_le [of "\<lambda>x. x < ?s ! i" "take i ?s"] by simp
  moreover have "?s ! i \<in> set xs" using nth_mem [OF i] by simp
  ultimately show ?thesis by (simp add: order_statistic_def filter_sort_length)
qed

lemma quantile_statistic:
  assumes "xs \<noteq> []" and "length xs < 2 ^ 50" and "unat num < unat den" and "unat den \<le> 10000"
  shows "\<exists>p. quantile (sort xs) num den = Some p
    \<and> order_statistic xs (length xs * unat num div unat den) p"
proof -
  let ?n = "length xs" and ?i = "length xs * unat num div unat den"
  have den: "0 < unat den" using assms(3) by simp
  have "?n * unat num \<le> 2 ^ 50 * 10000" using assms(2-4) by (intro mult_mono) simp_all
  then have "unat (of_nat ?n * num) = ?n * unat num"
    using assms(2) unat_of_nat64 [of ?n] by (simp add: unat_word_ariths)
  then have ix: "unat (of_nat ?n * num div den) = ?i" by (simp add: unat_div)
  have "?n * unat num < ?n * unat den" using assms(1,3) by simp
  then have lt: "?i < ?n" using den by (simp add: less_mult_imp_div_less)
  then have "quantile (sort xs) num den = Some (sort xs ! ?i)"
    by (simp add: quantile_def sample_at_def ix)
  then show ?thesis using sort_nth_statistic [OF lt] by blast
qed

lemma sample_extremes:
  assumes "xs \<noteq> []" and "length xs < 2 ^ 50"
  shows "sample_at (sort xs) (of_nat (length xs) - 1) = Some (Max (set xs))"
    "sample_at (sort xs) 0 = Some (Min (set xs))"
proof -
  let ?s = "sort xs" and ?n = "length xs"
  have n: "0 < ?n" using assms(1) by simp
  have u: "unat (of_nat ?n - 1 :: u64) = ?n - 1"
    using n assms(2) unat_of_nat64 [of ?n] by (subst unat_sub) (auto simp: word_le_nat_alt Suc_le_eq)
  have mem: "?s ! i \<in> set xs" if "i < ?n" for i using nth_mem [of i ?s] that by simp
  have mono: "?s ! i \<le> ?s ! j" if "i \<le> j" "j < ?n" for i j
    using sorted_nth_mono [OF sorted_sort, of i j xs] that by simp
  have at: "\<exists>i < ?n. x = ?s ! i" if "x \<in> set xs" for x
    using that by (metis in_set_conv_nth length_sort set_sort)
  have "Max (set xs) = ?s ! (?n - 1)"
    using n mem [of "?n - 1"] at mono by (intro Max_eqI) force+
  moreover have "Min (set xs) = ?s ! 0"
    using n mem [of 0] at mono by (intro Min_eqI) force+
  ultimately show "sample_at ?s (of_nat ?n - 1) = Some (Max (set xs))" "sample_at ?s 0 = Some (Min (set xs))"
    using n u by (simp_all add: sample_at_def)
qed

lemma fold_sum_words: "fold (\<lambda>x sum. sum + x) s (a :: u64) = a + of_nat (sum_list (map unat s))"
  by (induction s arbitrary: a) (simp_all add: add.assoc)

lemma sum_sort: "sum_list (map unat (sort xs)) = sum_list (map unat (xs :: u64 list))"
  by (metis mset_map mset_sort sum_mset_sum_list)

lemma samples_average_sort:
  assumes "length xs < 2 ^ 50" and "sum_list (map unat xs) < 2 ^ 64"
  shows "unat (samples_average (sort xs)) = sum_list (map unat xs) div length xs"
  using assms unat_of_nat64 [of "length xs"] unat_of_nat64 [of "sum_list (map unat xs)"]
  by (simp add: samples_average_def fold_sum_words sum_sort unat_div)

text \<open>The reports that print no average: they never read outside the samples.\<close>

lemma caller_latency_report_total:
  assumes "length xs < 2 ^ 50"
  shows "caller_latency_report xs \<noteq> None"
proof (cases "xs = []")
  case True
  then show ?thesis by (simp add: caller_latency_report_def)
next
  case False
  note q = quantile_statistic [OF False assms]
  obtain a b c d where "quantile (sort xs) 50 100 = Some a" "quantile (sort xs) 90 100 = Some b"
    "quantile (sort xs) 99 100 = Some c" "quantile (sort xs) 999 1000 = Some d"
    using q [of 50 100] q [of 90 100] q [of 99 100] q [of 999 1000] by auto
  then show ?thesis
    using False sample_extremes(1) [OF False assms] by (simp add: caller_latency_report_def Let_def)
qed

lemma print_percentiles_total:
  assumes "length xs < 2 ^ 50"
  shows "print_percentiles ns_text name xs \<noteq> None"
proof (cases "xs = []")
  case True
  then show ?thesis by (simp add: print_percentiles_def)
next
  case False
  have n: "unat (of_nat (length xs) :: u64) = length xs" using assms unat_of_nat64 [of "length xs"] by simp
  have "length xs div 2 < length xs" using False by simp
  then have half: "sample_at (sort xs) (of_nat (length xs) div 2) = Some (sort xs ! (length xs div 2))"
    by (simp add: sample_at_def unat_div n)
  have "(of_nat (length xs) :: u64) \<noteq> 0" using False n by (auto simp: word_unat_eq_iff)
  moreover obtain b c d where "quantile (sort xs) 90 100 = Some b" "quantile (sort xs) 99 100 = Some c"
    "quantile (sort xs) 999 1000 = Some d"
    using quantile_statistic [OF False assms, of 90 100] quantile_statistic [OF False assms, of 99 100]
      quantile_statistic [OF False assms, of 999 1000] by auto
  ultimately show ?thesis using half by (simp add: print_percentiles_def Let_def)
qed

section \<open>Properties\<close>

text \<open>The latency report prints quantiles. For a nonempty histogram each percentile printed is
  the sample of its rank (more than that many samples are at or below it, at most that many
  below), the extremes are the largest and the smallest sample, and the average is the
  rounded-down mean when the sum of the samples fits 64 bits.\<close>

lemma histogram_report_quantiles:
  assumes "samples h \<noteq> []" and "length (samples h) < 2 ^ 50"
  defines "xs \<equiv> samples h" and "n \<equiv> length (samples h)"
  shows "\<exists>p50 p90 p99 p999 p9999 avg.
    histogram_report h = Some (latency_text ''Latency Histogram'' (of_nat n)
      [(''  p50:    '', p50), (''  p90:    '', p90), (''  p99:    '', p99), (''  p99.9:  '', p999),
       (''  p99.99: '', p9999), (''  max:    '', Max (set xs)), (''  min:    '', Min (set xs)),
       (''  avg:    '', avg)], h\<lparr>samples := sort xs\<rparr>)
    \<and> order_statistic xs (n * 50 div 100) p50 \<and> order_statistic xs (n * 90 div 100) p90
    \<and> order_statistic xs (n * 99 div 100) p99 \<and> order_statistic xs (n * 999 div 1000) p999
    \<and> order_statistic xs (n * 9999 div 10000) p9999
    \<and> (sum_list (map unat xs) < 2 ^ 64 \<longrightarrow> unat avg = sum_list (map unat xs) div n)"
proof -
  have xs: "xs \<noteq> []" "length xs < 2 ^ 50" "n = length xs" using assms by simp_all
  note q = quantile_statistic [OF xs(1,2)]
  obtain a b c d e where r: "quantile (sort xs) 50 100 = Some a" "order_statistic xs (n * 50 div 100) a"
    "quantile (sort xs) 90 100 = Some b" "order_statistic xs (n * 90 div 100) b"
    "quantile (sort xs) 99 100 = Some c" "order_statistic xs (n * 99 div 100) c"
    "quantile (sort xs) 999 1000 = Some d" "order_statistic xs (n * 999 div 1000) d"
    "quantile (sort xs) 9999 10000 = Some e" "order_statistic xs (n * 9999 div 10000) e"
    using q [of 50 100] q [of 90 100] q [of 99 100] q [of 999 1000] q [of 9999 10000] xs(3) by auto
  have "histogram_report h = Some (latency_text ''Latency Histogram'' (of_nat n)
      [(''  p50:    '', a), (''  p90:    '', b), (''  p99:    '', c), (''  p99.9:  '', d),
       (''  p99.99: '', e), (''  max:    '', Max (set xs)), (''  min:    '', Min (set xs)),
       (''  avg:    '', samples_average (sort xs))], h\<lparr>samples := sort xs\<rparr>)"
    using r xs sample_extremes [OF xs(1,2)]
    by (simp add: histogram_report_def Let_def xs_def [symmetric])
  then show ?thesis using r samples_average_sort [OF xs(2)] xs(3) by blast
qed

lemma histogram_report_quantiles_witness:
  "\<exists>p50 avg out h'. histogram_report \<lparr>samples = [30, 10, 20]\<rparr> = Some (out, h')
    \<and> order_statistic [30, 10, 20] 1 p50 \<and> unat (avg :: u64) = 20"
proof -
  let ?h = "\<lparr>samples = [30, 10, 20]\<rparr>"
  have h: "samples ?h \<noteq> []" "length (samples ?h) < 2 ^ 50" by simp_all
  obtain p50 avg out h' where r: "histogram_report ?h = Some (out, h')"
    "order_statistic (samples ?h) (length (samples ?h) * 50 div 100) p50"
    "sum_list (map unat (samples ?h)) < 2 ^ 64 \<longrightarrow>
      unat (avg :: u64) = sum_list (map unat (samples ?h)) div length (samples ?h)"
    using histogram_report_quantiles [OF h] by (elim exE conjE) (rule that; assumption)
  have "length (samples ?h) * 50 div 100 = 1" "sum_list (map unat (samples ?h)) = 60" by simp_all
  then have "order_statistic [30, 10, 20] 1 p50 \<and> unat (avg :: u64) = 20" using r(2,3) by simp
  then show ?thesis using r(1) by blast
qed

end
