(* ===== verification/Bench_Queue.thy ===== *)
theory Bench_Queue
  imports Mpmc_Calls Bench_Stats
begin

text \<open>
  The benchmarks that drive the queue: the consumer threads of bench/bench_contention.cpp
  and bench/bench_queue_throughput.cpp, and the pop benchmark. What other threads push between two calls of a consumer is a schedule; a busy
  wait is a partial function whose value \<open>None\<close> is a loop that never ends. Spurious failures
  of the compare-exchange inside \<open>push\<close> do not change its result (\<open>push_retries\<close>) and
  are left out. Proved: the waits end, nothing is dropped, and the consumers receive what
  was accepted.
\<close>

section \<open>Busy waits\<close>

text \<open>\<open>while (!q.push(entry)) {}\<close>, \<open>while (!q.pop(cid, out)) {}\<close>, \<open>while (q.pop(cid, out)) {}\<close>\<close>

partial_function (option) push_until :: "'a \<Rightarrow> 'a MPMCQueue \<Rightarrow> 'a MPMCQueue option" where
  "push_until x q = (let (ok, q1) = push [] x q in if ok then Some q1 else push_until x q1)"

partial_function (option) pop_until :: "u32 \<Rightarrow> 'a MPMCQueue \<Rightarrow> ('a \<times> 'a MPMCQueue) option" where
  "pop_until c q = (case pop c q of (Some x, q1) \<Rightarrow> Some (x, q1) | (None, q1) \<Rightarrow> pop_until c q1)"

partial_function (option) pop_all :: "u32 \<Rightarrow> 'a MPMCQueue \<Rightarrow> ('a list \<times> 'a MPMCQueue) option" where
  "pop_all c q =
     (case pop c q of
        (None, q1) \<Rightarrow> Some ([], q1)
      | (Some x, q1) \<Rightarrow> do { (xs, q2) \<leftarrow> pop_all c q1; Some (x # xs, q2) })"

section \<open>Consumer threads\<close>

text \<open>
  What is pushed in between, one call of \<open>push\<close> per item (a producer whose call is refused
  makes it again later in the schedule), and which calls are accepted.
\<close>

fun pushes :: "'a list \<Rightarrow> 'a MPMCQueue \<Rightarrow> 'a list \<times> 'a MPMCQueue" where
  "pushes [] q = ([], q)"
| "pushes (x # es) q =
     (let (ok, q1) = push [] x q; (acc, q2) = pushes es q1 in (if ok then x # acc else acc, q2))"

text \<open>
  The drainer of the push benchmarks: until it sees the stop flag, pop everything and
  refresh the cached minimum. The list has the items pushed before each turn; it ends when
  the flag is seen. Accepted and received items are collected.
\<close>

fun drainer :: "u32 \<Rightarrow> 'a list list \<Rightarrow> 'a MPMCQueue \<Rightarrow> ('a list \<times> 'a list \<times> 'a MPMCQueue) option" where
  "drainer c [] q = Some ([], [], q)"
| "drainer c (es # its) q =
     (let (acc, q1) = pushes es q in do {
        (xs, q2) \<leftarrow> pop_all c q1;
        (acc', ys, q3) \<leftarrow> drainer c its (recompute_and_store_min_tail q2);
        Some (acc @ acc', xs @ ys, q3) })"

text \<open>The consumer of \<open>BM_ProducerScaling\<close>: the same, then a final drain after the stop flag.\<close>

definition scaling_drainer ::
  "u32 \<Rightarrow> 'a list list \<Rightarrow> 'a list \<Rightarrow> 'a MPMCQueue \<Rightarrow> ('a list \<times> 'a list \<times> 'a MPMCQueue) option" where
  "scaling_drainer c its late q = do {
     (acc, xs, q1) \<leftarrow> drainer c its q;
     let (acc', q2) = pushes late q1;
     (ys, q3) \<leftarrow> pop_all c q2;
     Some (acc @ acc', xs @ ys, q3) }"

text \<open>
  The consumer of \<open>BM_ConsumerScaling\<close>, which counts to \<open>TOTAL\<close>: per turn the items pushed
  before it and whether \<open>producers_done\<close> is seen.
\<close>

fun counting_consumer ::
  "u32 \<Rightarrow> nat \<Rightarrow> ('a list \<times> bool) list \<Rightarrow> nat \<Rightarrow> 'a MPMCQueue \<Rightarrow> 'a list \<times> 'a list \<times> nat \<times> 'a MPMCQueue" where
  "counting_consumer c tot [] cnt q = ([], [], cnt, q)"
| "counting_consumer c tot ((es, dn) # its) cnt q =
     (if cnt < tot
      then let (acc, q1) = pushes es q in
           case pop c q1 of
             (Some x, q2) \<Rightarrow>
               let (acc', xs, n, q3) = counting_consumer c tot its (cnt + 1) q2
               in (acc @ acc', x # xs, n, q3)
           | (None, q2) \<Rightarrow>
               if dn \<and> cnt \<ge> tot then (acc, [], cnt, q2)
               else let (acc', xs, n, q3) = counting_consumer c tot its cnt q2
                    in (acc @ acc', xs, n, q3)
      else ([], [], cnt, q))"

section \<open>The pop benchmark\<close>

definition make_bench_entry :: "bytes \<Rightarrow> LogEntry" where
  "make_bench_entry p =
     (LogEntry_new p)\<lparr>timestamp_ns := 123456789, thread_id := 1, level := LVL_INFO, payload_len := 16,
       payload := overwrite 0 ''benchmark_entry!'' p\<rparr>"

fun prefill :: "nat \<Rightarrow> 'a \<Rightarrow> 'a MPMCQueue \<Rightarrow> 'a MPMCQueue" where
  "prefill 0 x q = q"
| "prefill (Suc n) x q = prefill n x (snd (push [] x q))"

text \<open>The timed loop: the error of \<open>SkipWithError\<close>, if any, and what was popped.\<close>

fun pop_loop :: "nat \<Rightarrow> u32 \<Rightarrow> 'a \<Rightarrow> 'a MPMCQueue \<Rightarrow> string option \<times> 'a list \<times> 'a MPMCQueue" where
  "pop_loop 0 c x q = (None, [], q)"
| "pop_loop (Suc n) c x q =
     (case pop c q of
        (None, q1) \<Rightarrow> (Some ''Queue empty unexpectedly'', [], q1)
      | (Some y, q1) \<Rightarrow>
          let q2 = recompute_and_store_min_tail q1; (ok, q3) = push [] x q2;
              (err, ys, q4) = pop_loop n c x q3
          in (err, y # ys, q4))"

definition BM_QueuePop :: "nat \<Rightarrow> nat \<Rightarrow> LogEntry \<Rightarrow> bytes \<Rightarrow> queue_error + string option \<times> LogEntry list \<times> LogEntry MPMCQueue" where
  "BM_QueuePop slot_count iterations d p =
     (let (r, q) = register_consumer (MPMCQueue_new slot_count d); x = make_bench_entry p
      in case r of
           Inl e \<Rightarrow> Inl e
         | Inr cid \<Rightarrow> Inr (pop_loop iterations cid x (prefill (slot_count - 1) x q)))"

section \<open>The mutex baseline\<close>

text \<open>
  The timed loop of \<open>BM_MutexPushLatency\<close> in bench/bench_queue_latency.cpp: the clock readings
  around each push. The baseline is a \<open>std::queue\<close> (a list) under a mutex.
\<close>

fun mutex_latency_loop ::
  "(u64 \<times> u64) list \<Rightarrow> 'a \<Rightarrow> 'a list \<Rightarrow> LatencyHistogram \<Rightarrow> LatencyHistogram \<times> 'a list" where
  "mutex_latency_loop [] x mq h = (h, mq)"
| "mutex_latency_loop ((t0, t1) # ts) x mq h =
     (let mq1 = mq @ [x]; mq2 = (if mq1 \<noteq> [] then tl mq1 else mq1)
      in mutex_latency_loop ts x mq2 (histogram_add (t1 - t0) h))"

text \<open>The baseline's queue keeps its length, so it starts every iteration empty.\<close>

lemma mutex_latency_samples:
  "samples (fst (mutex_latency_loop ts x mq h)) = samples h @ map (\<lambda>(t0, t1). t1 - t0) ts
    \<and> length (snd (mutex_latency_loop ts x mq h)) = length mq"
  by (induction ts x mq h rule: mutex_latency_loop.induct) (simp_all add: Let_def histogram_add_def)

section \<open>A queue with one consumer\<close>

definition solo_queue :: "nat \<Rightarrow> nat \<Rightarrow> 'a list \<Rightarrow> u32 \<Rightarrow> 'a MPMCQueue \<Rightarrow> bool" where
  "solo_queue n b xs c q \<longleftrightarrow> queue_inv b q \<and> live q c \<and> (\<forall>d. live q d \<longrightarrow> d = c)
     \<and> pending q c = xs \<and> ring_capacity q = n"

lemma solo_new:
  assumes "valid_size n" and "n + b < 2 ^ 64 - 1"
  shows "\<exists>q. register_consumer (MPMCQueue_new n d) = (Inr 0, q) \<and> solo_queue n b [] 0 q"
proof -
  let ?q = "MPMCQueue_new n d"
  obtain res q where r: "register_consumer ?q = (res, q)" by fastforce
  have n: "queue_num_consumers ?q = 0" by (simp add: MPMCQueue_new_def queue_num_consumers_def)
  have inv: "queue_inv b ?q" by (rule queue_inv_new [OF assms])
  have "queue_num_consumers ?q < MAX_CONSUMERS" by (simp add: n MAX_CONSUMERS_def)
  note s = register_refines [OF inv this r]
  have a: "abs_queue q = (Map.empty)(0 \<mapsto> [])" using s n by (simp add: new_queue_abs)
  have "live q d \<longleftrightarrow> d = 0" for d
    using fun_cong [OF a, of d] by (auto simp: abs_queue_def split: if_splits)
  moreover have "pending q 0 = []"
    using fun_cong [OF a, of 0] by (auto simp: abs_queue_def split: if_splits)
  moreover have "ring_capacity q = n"
  proof -
    have "slots q = slots ?q" using register_consumer_slots [of ?q] unfolding r by simp
    then show ?thesis by (simp add: ring_capacity_def MPMCQueue_new_def)
  qed
  moreover have "queue_inv b q" "res = Inr 0" using s n by auto
  ultimately show ?thesis using r unfolding solo_queue_def by blast
qed

lemma recompute_keeps [simp]:
  "live (recompute_and_store_min_tail q) = live q"
  "pending (recompute_and_store_min_tail q) = pending q"
  "ring_capacity (recompute_and_store_min_tail q) = ring_capacity q"
  by (simp_all add: recompute_and_store_min_tail_def ring_capacity_def pending_def fun_eq_iff)

lemma recompute_inv: "queue_inv b q \<Longrightarrow> queue_inv b (recompute_and_store_min_tail q)"
  unfolding recompute_and_store_min_tail_def
  using queue_inv_store_min compute_min_tail_inv by blast

lemma solo_queueD:
  assumes "solo_queue n b xs c q"
  shows "queue_inv b q" "live q c" "\<And>d. live q d \<Longrightarrow> d = c" "pending q c = xs" "ring_capacity q = n"
  using assms by (simp_all add: solo_queue_def)

lemma solo_queueI:
  assumes "queue_inv b q" and "live q = live q0" and "pending q c = xs" and "ring_capacity q = ring_capacity q0"
    and "solo_queue n b0 xs0 c q0"
  shows "solo_queue n b xs c q"
  using assms unfolding solo_queue_def by simp

lemma solo_recompute:
  assumes "solo_queue n b xs c q"
  shows "solo_queue n b xs c (recompute_and_store_min_tail q)"
  by (rule solo_queueI [OF _ _ _ _ assms]) (simp_all add: solo_queueD [OF assms] recompute_inv)

lemma solo_push:
  assumes "solo_queue n (Suc b) xs c q" and "length xs < n"
  shows "\<exists>q'. push [] x q = (True, q') \<and> solo_queue n b (xs @ [x]) c q'"
proof -
  note s = solo_queueD [OF assms(1)]
  have "\<forall>d. live q d \<longrightarrow> length (pending q d) < ring_capacity q"
  proof (intro allI impI)
    fix d assume "live q d"
    then have "d = c" by (rule s(3))
    then show "length (pending q d) < ring_capacity q" using s(4,5) assms(2) by simp
  qed
  then have "fst (push [] x q)" using mpmc.push_room [OF s(1,2), of x] by blast
  then obtain q' where p: "push [] x q = (True, q')" by (cases "push [] x q") (auto simp del: push.simps)
  have t: "queue_inv b q'" "live q' = live q" "ring_capacity q' = ring_capacity q"
    "pending q' c = pending q c @ [x]"
    using mpmc.push_true [OF s(1) p] s(2) by blast+
  have "solo_queue n b (xs @ [x]) c q'"
    by (rule solo_queueI [OF t(1,2) _ t(3) assms(1)]) (simp add: t(4) s(4))
  then show ?thesis using p by blast
qed

lemma solo_pop:
  assumes "solo_queue n b xs c q"
  shows "\<exists>q'. pop c q = ((case xs of [] \<Rightarrow> None | x # _ \<Rightarrow> Some x), q') \<and> solo_queue n b (tl xs) c q'"
proof -
  note s = solo_queueD [OF assms]
  obtain r q' where p: "pop c q = (r, q')" by fastforce
  note t = mpmc.pop_live [OF s(1,2) p]
  have "solo_queue n b (tl xs) c q'"
    by (rule solo_queueI [OF _ _ _ _ assms]) (use t s(4) in blast)+
  then show ?thesis using p t s(4) by simp
qed

section \<open>The loops\<close>

lemma prefill_solo:
  assumes "solo_queue n (k + b) xs c q" and "length xs + k \<le> n"
  shows "solo_queue n b (xs @ replicate k x) c (prefill k x q)"
  using assms
proof (induction k arbitrary: xs q)
  case 0
  then show ?case by simp
next
  case (Suc k)
  obtain q' where p: "push [] x q = (True, q')" "solo_queue n (k + b) (xs @ [x]) c q'"
    using solo_push [of n "k + b" xs c q x] Suc.prems by auto
  then show ?case using Suc.IH [OF p(2)] Suc.prems(2) by simp
qed

lemma pop_loop_solo:
  assumes "solo_queue n (k + b) ys c q" and "ys \<noteq> []" and "length ys \<le> n"
  shows "\<exists>q'. pop_loop k c x q = (None, take k (ys @ replicate k x), q')
    \<and> solo_queue n b (drop k (ys @ replicate k x)) c q'"
  using assms
proof (induction k arbitrary: ys q)
  case 0
  then show ?case by simp
next
  case (Suc k)
  obtain y zs where ys: "ys = y # zs" using Suc.prems(2) by (cases ys) auto
  obtain q1 where p: "pop c q = (Some y, q1)" "solo_queue n (Suc (k + b)) zs c q1"
    using solo_pop [OF Suc.prems(1)] by (auto simp: ys)
  have "length zs < n" using Suc.prems(3) by (simp add: ys)
  then obtain q3 where w: "push [] x (recompute_and_store_min_tail q1) = (True, q3)"
    "solo_queue n (k + b) (zs @ [x]) c q3"
    using solo_push [OF solo_recompute [OF p(2)], of x] by blast
  obtain q4 where r: "pop_loop k c x q3 = (None, take k ((zs @ [x]) @ replicate k x), q4)"
    "solo_queue n b (drop k ((zs @ [x]) @ replicate k x)) c q4"
    using Suc.IH [OF w(2)] Suc.prems(3) by (auto simp: ys)
  then show ?case using p(1) w(1) by (simp add: ys)
qed

text \<open>Popping until empty ends, with the backlog.\<close>

lemma pop_all_spec:
  assumes "queue_inv b q" and "live q c"
  shows "\<exists>q'. pop_all c q = Some (pending q c, q') \<and> queue_inv b q' \<and> live q' = live q
    \<and> ring_capacity q' = ring_capacity q \<and> pending q' c = []
    \<and> (\<forall>d. d \<noteq> c \<longrightarrow> pending q' d = pending q d)"
  using assms
proof (induction "pending q c" arbitrary: q)
  case Nil
  obtain r q1 where p: "pop c q = (r, q1)" by fastforce
  note t = mpmc.pop_live [OF Nil.prems p]
  then have "pop c q = (None, q1)" "pending q1 c = []" using Nil.hyps p by (simp_all flip: Nil.hyps)
  then have "pop_all c q = Some (pending q c, q1)" using Nil.hyps by (simp add: pop_all.simps)
  then show ?case using t \<open>pending q1 c = []\<close> by blast
next
  case (Cons x xs)
  obtain r q1 where p: "pop c q = (r, q1)" by fastforce
  note t = mpmc.pop_live [OF Cons.prems p]
  have r: "r = Some x" "pending q1 c = xs" using t Cons.hyps(2) by (metis list.simps(5), metis list.sel(3))
  have lv: "live q1 c" using t Cons.prems(2) by simp
  obtain q' where q': "pop_all c q1 = Some (pending q1 c, q')" "queue_inv b q' \<and> live q' = live q1
    \<and> ring_capacity q' = ring_capacity q1 \<and> pending q' c = []
    \<and> (\<forall>d. d \<noteq> c \<longrightarrow> pending q' d = pending q1 d)"
    using Cons.hyps(1) [OF r(2) [symmetric] _ lv] t by blast
  have "pop_all c q = Some (pending q c, q')"
    using p r q'(1) Cons.hyps(2) by (simp add: pop_all.simps [of c q])
  then show ?case using q'(2) t by (intro exI [of _ q']) simp
qed

lemma pushes_spec:
  assumes "queue_inv (length es + b) q" and "live q c" and "pushes es q = (acc, q')"
  shows "queue_inv b q' \<and> live q' = live q \<and> ring_capacity q' = ring_capacity q
    \<and> pending q' c = pending q c @ acc"
  using assms
proof (induction es arbitrary: q acc)
  case Nil
  then show ?case by simp
next
  case (Cons x es)
  obtain ok q1 where p: "push [] x q = (ok, q1)" by fastforce
  obtain acc1 where r: "pushes es q1 = (acc1, q')" "acc = (if ok then x # acc1 else acc1)"
    using Cons.prems(3) p by (auto simp: Let_def split: prod.splits simp del: push.simps)
  have inv: "queue_inv (Suc (length es + b)) q" using Cons.prems(1) by simp
  note t = mpmc.push_any [OF inv p Cons.prems(2)]
  have "live q1 c" using t Cons.prems(2) by simp
  note u = Cons.IH [OF _ this r(1)]
  show ?case using t u r(2) by (cases ok) simp_all
qed

lemma drainer_spec:
  assumes "queue_inv (length (concat its) + b) q" and "live q c"
  shows "\<exists>acc xs q'. drainer c its q = Some (acc, xs, q') \<and> queue_inv b q' \<and> live q' = live q
    \<and> xs @ pending q' c = pending q c @ acc"
  using assms
proof (induction its arbitrary: q)
  case Nil
  then show ?case by simp
next
  case (Cons es its)
  obtain acc q1 where p: "pushes es q = (acc, q1)" by fastforce
  have inv: "queue_inv (length es + (length (concat its) + b)) q" using Cons.prems(1) by (simp add: add.assoc)
  note t = pushes_spec [OF inv Cons.prems(2) p]
  have lv: "live q1 c" using t Cons.prems(2) by simp
  obtain q2 where a: "pop_all c q1 = Some (pending q1 c, q2)" "queue_inv (length (concat its) + b) q2"
    "live q2 = live q1" "pending q2 c = []"
    using pop_all_spec [OF _ lv] t by blast
  have "live (recompute_and_store_min_tail q2) c" using a(3) lv by simp
  then obtain acc' ys q3 where d: "drainer c its (recompute_and_store_min_tail q2) = Some (acc', ys, q3)"
    "queue_inv b q3" "live q3 = live (recompute_and_store_min_tail q2)"
    "ys @ pending q3 c = pending (recompute_and_store_min_tail q2) c @ acc'"
    using Cons.IH [OF recompute_inv [OF a(2)]] by blast
  have "drainer c (es # its) q = Some (acc @ acc', pending q1 c @ ys, q3)"
    using p a(1) d(1) by simp
  moreover have "live q3 = live q" "(pending q1 c @ ys) @ pending q3 c = pending q c @ acc @ acc'"
    using d(3,4) a(3,4) t by simp_all
  ultimately show ?case using d(2) by blast
qed

lemma counting_consumer_conserves:
  assumes "queue_inv (length (concat (map fst its)) + b) q" and "live q c"
    and "counting_consumer c tot its cnt q = (acc, xs, m, q')"
  shows "queue_inv b q' \<and> live q' = live q \<and> pending q c @ acc = xs @ pending q' c
    \<and> m = cnt + length xs \<and> m \<le> max cnt tot"
  using assms
proof (induction its arbitrary: q cnt acc xs m)
  case Nil
  then show ?case by simp
next
  case (Cons it its)
  obtain es dn where it: "it = (es, dn)" by fastforce
  let ?b = "length (concat (map fst its)) + b"
  have inv: "queue_inv (length es + ?b) q" using Cons.prems(1) it by (simp add: add.assoc)
  show ?case
  proof (cases "cnt < tot")
    case False
    have "queue_inv b q" by (rule mpmc.inv_mono_le [OF inv]) simp
    then show ?thesis using False Cons.prems(3) it by simp
  next
    case True
    obtain acc1 q1 where p: "pushes es q = (acc1, q1)" by fastforce
    note t = pushes_spec [OF inv Cons.prems(2) p]
    have lv: "live q1 c" using t Cons.prems(2) by simp
    obtain r q2 where o: "pop c q1 = (r, q2)" by fastforce
    note u = mpmc.pop_live [OF conjunct1 [OF t] lv o]
    have lv2: "live q2 c" using u lv by simp
    define rs where "rs = (case r of None \<Rightarrow> [] | Some x \<Rightarrow> [x])"
    obtain acc2 xs2 where r: "counting_consumer c tot its (cnt + length rs) q2 = (acc2, xs2, m, q')"
      "acc = acc1 @ acc2" "xs = rs @ xs2"
      using Cons.prems(3) it True p o by (auto simp: rs_def split: option.splits prod.splits)
    have ih: "queue_inv b q' \<and> live q' = live q2 \<and> pending q2 c @ acc2 = xs2 @ pending q' c
        \<and> m = cnt + length rs + length xs2 \<and> m \<le> max (cnt + length rs) tot"
      using Cons.IH [OF conjunct1 [OF u] lv2 r(1)] .
    have "r = (case pending q1 c of [] \<Rightarrow> None | x # _ \<Rightarrow> Some x)" "pending q2 c = tl (pending q1 c)"
      using u by blast+
    then have "pending q1 c = rs @ pending q2 c" by (cases "pending q1 c") (simp_all add: rs_def)
    then have eq: "pending q c @ acc1 = rs @ pending q2 c" using t by simp
    have "pending q c @ acc = rs @ pending q2 c @ acc2" using eq r(2) by (metis append.assoc)
    then have "pending q c @ acc = xs @ pending q' c" using ih r(3) by simp
    moreover have "length rs \<le> 1" by (simp add: rs_def split: option.split)
    ultimately show ?thesis using ih t u True r(3) by simp
  qed
qed

text \<open>With the backlog there, \<open>TOTAL\<close> turns are enough.\<close>

lemma counting_consumer_finishes:
  assumes "queue_inv b q" and "live q c" and "cnt \<le> tot" and "tot \<le> cnt + length (pending q c)"
    and "tot \<le> cnt + k"
  shows "\<exists>acc xs q'. counting_consumer c tot (replicate k ([], dn)) cnt q = (acc, xs, tot, q')"
  using assms
proof (induction k arbitrary: q cnt)
  case 0
  then show ?case by simp
next
  case (Suc k)
  show ?case
  proof (cases "cnt < tot")
    case False
    then show ?thesis using Suc.prems(3) by simp
  next
    case True
    then obtain x rest where x: "pending q c = x # rest" using Suc.prems(4) by (cases "pending q c") auto
    obtain r q2 where o: "pop c q = (r, q2)" by fastforce
    note u = mpmc.pop_live [OF Suc.prems(1,2) o]
    have lv: "live q2 c" using u Suc.prems(2) by simp
    have "r = Some x" "pending q2 c = rest" using u x by simp_all
    moreover obtain acc xs q' where "counting_consumer c tot (replicate k ([], dn)) (cnt + 1) q2
        = (acc, xs, tot, q')"
      using Suc.IH [OF conjunct1 [OF u] lv, of "cnt + 1"] Suc.prems(4,5) True x
        \<open>pending q2 c = rest\<close> by auto
    ultimately show ?thesis using True o by simp
  qed
qed

section \<open>Properties\<close>

text \<open>The consumer thread of the producer benchmark loses nothing. For any schedule of
  pushes its loops end, it has received its backlog followed by every accepted item, in
  order, and its backlog is empty.\<close>

lemma scaling_drainer_complete:
  assumes "queue_inv (length (concat its) + length late + b) q" and "live q c"
  shows "\<exists>acc q'. scaling_drainer c its late q = Some (acc, pending q c @ acc, q')
    \<and> pending q' c = [] \<and> queue_inv b q'"
proof -
  have inv: "queue_inv (length (concat its) + (length late + b)) q" using assms(1) by (simp add: add.assoc)
  obtain acc xs q1 where d: "drainer c its q = Some (acc, xs, q1)" "queue_inv (length late + b) q1"
    "live q1 = live q" "xs @ pending q1 c = pending q c @ acc"
    using drainer_spec [OF inv assms(2)] by blast
  obtain acc' q2 where p: "pushes late q1 = (acc', q2)" by fastforce
  have lv: "live q1 c" using d(3) assms(2) by simp
  note t = pushes_spec [OF d(2) lv p]
  have lv2: "live q2 c" using t lv by simp
  obtain q3 where a: "pop_all c q2 = Some (pending q2 c, q3)" "queue_inv b q3" "pending q3 c = []"
    using pop_all_spec [OF _ lv2] t by blast
  have "xs @ pending q2 c = pending q c @ acc @ acc'" using t d(4) by (metis append.assoc)
  then have "scaling_drainer c its late q = Some (acc @ acc', pending q c @ acc @ acc', q3)"
    using d(1) p a(1) by (simp add: scaling_drainer_def)
  then show ?thesis using a(2,3) by blast
qed

lemma scaling_drainer_complete_witness:
  "\<exists>acc q'. scaling_drainer 0 [[7, 8], [9]] [10] (register_all 1 (MPMCQueue_new 16 (0 :: nat)))
    = Some (acc, acc, q')"
proof -
  let ?q = "register_all 1 (MPMCQueue_new 16 (0 :: nat))"
  have v: "valid_size 16" by (simp add: valid_size_def)
  have q: "queue_inv 4 ?q" "live ?q 0" "pending ?q 0 = []"
    using new_queue_registered [OF v, of 4 1 0 0] by simp_all
  have inv: "queue_inv (length (concat [[7, 8], [9 :: nat]]) + length [10 :: nat] + 0) ?q"
  proof -
    have "length (concat [[7, 8], [9 :: nat]]) + length [10 :: nat] + 0 = 4" by simp
    then show ?thesis using q(1) by (simp only:)
  qed
  show ?thesis using scaling_drainer_complete [OF inv q(2)] unfolding q(3) append_Nil
    by (elim exE conjE) (intro exI)
qed

text \<open>The pop benchmark never meets an empty queue. After filling all slots but one, every
  one of its iterations pops an entry and the push that follows is accepted, so the timed loop
  runs to its end without its error and pops the entry it pushed.\<close>

lemma pop_benchmark_never_empty:
  assumes "valid_size n" and "2 * n + k < 2 ^ 64"
  shows "\<exists>q. BM_QueuePop n k d p = Inr (None, replicate k (make_bench_entry p), q)
    \<and> pending q 0 = replicate (n - 1) (make_bench_entry p)"
proof -
  let ?x = "make_bench_entry p"
  have n: "16 \<le> n" using assms(1) by (simp add: valid_size_def)
  have room: "n + ((n - 1) + (k + 0)) < 2 ^ 64 - 1" using assms(2) n by simp
  obtain q where r: "register_consumer (MPMCQueue_new n d) = (Inr 0, q)"
    "solo_queue n ((n - 1) + (k + 0)) [] 0 q"
    using solo_new [OF assms(1) room, of d] by (elim exE conjE) (rule that; assumption)
  have pre: "solo_queue n (k + 0) (replicate (n - 1) ?x) 0 (prefill (n - 1) ?x q)"
    using prefill_solo [OF r(2), of ?x] by simp
  have ne: "replicate (n - 1) ?x \<noteq> []" using n by simp
  have le: "length (replicate (n - 1) ?x) \<le> n" by simp
  obtain q' where l: "pop_loop k 0 ?x (prefill (n - 1) ?x q)
      = (None, take k (replicate (n - 1) ?x @ replicate k ?x), q')"
    "solo_queue n 0 (drop k (replicate (n - 1) ?x @ replicate k ?x)) 0 q'"
    using pop_loop_solo [OF pre ne le] by blast
  have "take k (replicate (n - 1) ?x @ replicate k ?x) = replicate k ?x"
    "drop k (replicate (n - 1) ?x @ replicate k ?x) = replicate (n - 1) ?x"
    by (simp_all add: replicate_add [symmetric] del: replicate_add)
  then show ?thesis using r(1) l solo_queueD(4) [OF l(2)] by (simp add: BM_QueuePop_def)
qed

end
