(* ===== verification/Bench_Rdtsc.thy ===== *)
theory Bench_Rdtsc
  imports Bench_Queue Bench_Stats Logger
begin

text \<open>
  bench/bench_rdtsc.cpp as a whole: the push, pop and write phases with their busy waits,
  and the printed table. The readings of the cycle counter are lists of pairs, one per
  iteration; \<open>ns_text\<close> and \<open>mhz_text\<close> stand for \<open>printf\<close> of numbers computed in \<open>double\<close>. \<open>None\<close>
  is a wait that never ends, an access outside a vector, or an exception that leaves
  \<open>main\<close>. Proved: the program ends, no call of \<open>push\<close> or \<open>pop\<close> has to be repeated, and the
  counts it prints are of the differences of the readings.
\<close>

section \<open>The phases\<close>

fun push_phase :: "(u64 \<times> u64) list \<Rightarrow> 'a \<Rightarrow> 'a MPMCQueue \<Rightarrow> (u64 list \<times> 'a MPMCQueue) option" where
  "push_phase [] x q = Some ([], q)"
| "push_phase ((t0, t1) # ts) x q = do {
     q1 \<leftarrow> push_until x q;
     (cs, q2) \<leftarrow> push_phase ts x q1;
     Some (elapsed t0 t1 # cs, q2) }"

text \<open>The index of the iteration is the first argument; what was popped is collected.\<close>

fun pop_phase ::
  "nat \<Rightarrow> (u64 \<times> u64) list \<Rightarrow> u32 \<Rightarrow> 'a MPMCQueue \<Rightarrow> (u64 list \<times> 'a list \<times> 'a MPMCQueue) option" where
  "pop_phase i [] c q = Some ([], [], q)"
| "pop_phase i ((t0, t1) # ts) c q = do {
     (y, q1) \<leftarrow> pop_until c q;
     let q2 = (if i mod 64 = 0 then recompute_and_store_min_tail q1 else q1);
     (cs, ys, q3) \<leftarrow> pop_phase (i + 1) ts c q2;
     Some (elapsed t0 t1 # cs, y # ys, q3) }"

fun write_phase ::
  "'w posix \<Rightarrow> (u64 \<times> u64) list \<Rightarrow> bytes \<Rightarrow> MMapSink \<Rightarrow> 'w \<Rightarrow> (u64 list \<times> MMapSink \<times> 'w) option" where
  "write_phase ps [] l s w = Some ([], s, w)"
| "write_phase ps ((t0, t1) # ts) l s w =
     (case sink_write ps l s w of
        Inl e \<Rightarrow> None
      | Inr (n, s1, w1) \<Rightarrow> do {
          (cs, s2, w2) \<leftarrow> write_phase ps ts l s1 w1;
          Some (elapsed t0 t1 # cs, s2, w2) })"

section \<open>The program\<close>

definition RDTSC_ITERS :: nat where
  "RDTSC_ITERS = 100000"

definition RDTSC_QUEUE_SIZE :: nat where
  "RDTSC_QUEUE_SIZE = 2 ^ 18"

definition rdtsc_entry :: "bytes \<Rightarrow> LogEntry" where
  "rdtsc_entry p =
     (LogEntry_new p)\<lparr>timestamp_ns := 0, thread_id := 1, level := LVL_INFO, payload_len := 16,
       payload := overwrite 0 ''bench_rdtsc_msg!'' p\<rparr>"

definition rdtsc_line :: bytes where
  "rdtsc_line = ''2026-08-25 01:23:45.123456789 [INFO ] [tid:00001] bench_rdtsc_msg!'' @ newline"

definition rdtsc_file :: string where
  "rdtsc_file = ''/tmp/bench_rdtsc_sink.log''"

definition rdtsc_table_head :: bytes where
  "rdtsc_table_head =
     newline @ ''=== RDTSC Microbenchmark Latency (ns) ('' @ dec_numeral RDTSC_ITERS @ '' iterations) ==='' @ newline
     @ ''Metric                 |      p50 |      p90 |      p99 |    p99.9'' @ newline
     @ ''-----------------------|----------|----------|----------|----------'' @ newline"

text \<open>The write phase with the sink's lifetime: \<open>MMapSink sink(...)\<close> to the end of its block.\<close>

definition rdtsc_write_part :: "'w posix \<Rightarrow> (u64 \<times> u64) list \<Rightarrow> 'w \<Rightarrow> (u64 list \<times> 'w) option" where
  "rdtsc_write_part ps clk w =
     (let w1 = sys_unlink ps rdtsc_file w in
      case MMapSink_new ps rdtsc_file (16 * 1024 * 1024) (1024 * 1024 * 1024) 8 w1 of
        Inl e \<Rightarrow> None
      | Inr (s, w2) \<Rightarrow> do {
          (cs, s1, w3) \<leftarrow> write_phase ps clk rdtsc_line s w2;
          let (s2, w4) = MMapSink_delete ps s1 w3;
          Some (cs, sys_unlink ps rdtsc_file w4) })"

definition bench_rdtsc ::
  "'w posix \<Rightarrow> (u64 \<Rightarrow> bytes) \<Rightarrow> bytes \<Rightarrow> LogEntry \<Rightarrow> bytes
    \<Rightarrow> (u64 \<times> u64) list \<Rightarrow> (u64 \<times> u64) list \<Rightarrow> (u64 \<times> u64) list \<Rightarrow> 'w \<Rightarrow> (bytes \<times> 'w) option" where
  "bench_rdtsc ps ns_text mhz_text d p clk_push clk_pop clk_write w =
     (let (r, q) = register_consumer (MPMCQueue_new RDTSC_QUEUE_SIZE d); x = rdtsc_entry p in
      case r of
        Inl e \<Rightarrow> None
      | Inr cid \<Rightarrow> do {
          (push_cycles, q1) \<leftarrow> push_phase clk_push x q;
          (pop_cycles, ys, q2) \<leftarrow> pop_phase 0 clk_pop cid q1;
          (write_cycles, w1) \<leftarrow> rdtsc_write_part ps clk_write w;
          (row1, s1) \<leftarrow> print_percentiles ns_text ''Producer Push to Queue'' push_cycles;
          (row2, s2) \<leftarrow> print_percentiles ns_text ''Consumer Pop from Queue'' pop_cycles;
          (row3, s3) \<leftarrow> print_percentiles ns_text ''Consumer Sink Write'' write_cycles;
          Some (''Detected/Assumed rdtsc() frequency: '' @ mhz_text @ '' MHz'' @ newline
            @ rdtsc_table_head @ row1 @ row2 @ row3 @ replicate 67 (CHR ''-'') @ newline, w1) })"

section \<open>The phases end\<close>

lemma push_phase_solo:
  assumes "solo_queue n (length ts + b) xs c q" and "length xs + length ts \<le> n"
  shows "\<exists>q'. push_phase ts x q = Some (map (\<lambda>(t0, t1). elapsed t0 t1) ts, q')
    \<and> solo_queue n b (xs @ replicate (length ts) x) c q'"
  using assms
proof (induction ts arbitrary: xs q)
  case Nil
  then show ?case by simp
next
  case (Cons t ts)
  obtain t0 t1 where t: "t = (t0, t1)" by fastforce
  have s: "solo_queue n (Suc (length ts + b)) xs c q" "length xs < n" using Cons.prems by simp_all
  obtain q1 where p: "push [] x q = (True, q1)" "solo_queue n (length ts + b) (xs @ [x]) c q1"
    using solo_push [OF s, of x] by (elim exE conjE) (rule that; assumption)
  have u: "push_until x q = Some q1" using p(1) by (simp add: push_until.simps del: push.simps)
  have le: "length (xs @ [x]) + length ts \<le> n" using Cons.prems(2) by simp
  obtain q' where "push_phase ts x q1 = Some (map (\<lambda>(t0, t1). elapsed t0 t1) ts, q')"
    "solo_queue n b ((xs @ [x]) @ replicate (length ts) x) c q'"
    using Cons.IH [OF p(2) le] by (elim exE conjE) (rule that; assumption)
  then show ?case using u by (simp add: t)
qed

lemma pop_phase_solo:
  assumes "solo_queue n b xs c q" and "length ts \<le> length xs"
  shows "\<exists>q'. pop_phase i ts c q = Some (map (\<lambda>(t0, t1). elapsed t0 t1) ts, take (length ts) xs, q')
    \<and> solo_queue n b (drop (length ts) xs) c q'"
  using assms
proof (induction ts arbitrary: xs q i)
  case Nil
  then show ?case by simp
next
  case (Cons t ts)
  obtain t0 t1 where t: "t = (t0, t1)" by fastforce
  obtain y ys where xs: "xs = y # ys" using Cons.prems(2) by (cases xs) auto
  obtain q1 where p: "pop c q = (Some y, q1)" "solo_queue n b ys c q1"
    using solo_pop [OF Cons.prems(1)] by (auto simp: xs)
  have u: "pop_until c q = Some (y, q1)" using p(1) by (simp add: pop_until.simps)
  let ?q2 = "if i mod 64 = 0 then recompute_and_store_min_tail q1 else q1"
  have q2: "solo_queue n b ys c ?q2" using p(2) solo_recompute by (cases "i mod 64 = 0") simp_all
  have le: "length ts \<le> length ys" using Cons.prems(2) by (simp add: xs)
  obtain q' where "pop_phase (i + 1) ts c ?q2
      = Some (map (\<lambda>(t0, t1). elapsed t0 t1) ts, take (length ts) ys, q')"
    "solo_queue n b (drop (length ts) ys) c q'"
    using Cons.IH [OF q2 le, of "i + 1"] by (elim exE conjE) (rule that; assumption)
  then show ?case using u by (simp add: t xs Let_def)
qed

lemma write_phase_all:
  assumes "write_all ps (replicate (length ts) l) s w = Inr (ks, s', w')"
  shows "write_phase ps ts l s w = Some (map (\<lambda>(t0, t1). elapsed t0 t1) ts, s', w')"
  using assms
proof (induction ts arbitrary: s w ks)
  case Nil
  then show ?case by simp
next
  case (Cons t ts)
  obtain t0 t1 where t: "t = (t0, t1)" by fastforce
  obtain k s1 w1 ks' where c: "sink_write ps l s w = Inr (k, s1, w1)"
    "write_all ps (replicate (length ts) l) s1 w1 = Inr (ks', s', w')"
    using Cons.prems by (auto split: sum.splits)
  then show ?case using Cons.IH [OF c(2)] by (simp add: t)
qed

lemma new_sink_opens:
  assumes opens: "\<forall>p w. 0 \<le> fst (sys_open ps p w)" and size: "unat rsize < 2 ^ 63"
  shows "\<exists>s w'. MMapSink_new ps path rsize msize mrot w = Inr (s, w') \<and> sink_ok s \<and> region_size s = rsize"
proof -
  let ?s0 = "\<lparr>base_path = path, region_size = rsize, max_file_size = msize, max_rotated = mrot,
    fd = -1, mmap_ptr = None, mmap_offset = 0, file_offset = 0, total_bytes_written = 0,
    rotation_count = 0\<rparr>"
  let ?w1 = "case rfind_slash path of Some i \<Rightarrow> ensure_directory ps (take i path) w | None \<Rightarrow> w"
  have "open_file ps ?s0 ?w1 \<noteq> Inl e" for e
    using opens by (auto simp: open_file_def Let_def not_less split: prod.splits if_splits)
      (metis fst_conv not_less)
  then obtain s1 w2 where o: "open_file ps ?s0 ?w1 = Inr (s1, w2)"
    by (cases "open_file ps ?s0 ?w1") auto
  obtain s w' where m: "map_region ps s1 w2 = (s, w')" by fastforce
  note st = open_file_state [OF o]
  have "region_size s = rsize \<and> mmap_offset s = 0"
    using map_region_state [OF m] st by (simp add: same_config_def)
  moreover have "MMapSink_new ps path rsize msize mrot w = Inr (s, w')"
    using o m by (simp add: MMapSink_new_def Let_def)
  ultimately show ?thesis using size by (simp add: sink_ok_def)
qed

lemma length_rdtsc_line: "length rdtsc_line \<le> 256"
  by (simp add: rdtsc_line_def newline_def)

lemma rdtsc_write_part_ends:
  assumes opens: "\<forall>p w. 0 \<le> fst (sys_open ps p w)"
  shows "\<exists>w'. rdtsc_write_part ps clk w = Some (map (\<lambda>(t0, t1). elapsed t0 t1) clk, w')"
proof -
  let ?w1 = "sys_unlink ps rdtsc_file w"
  have size: "unat (16 * 1024 * 1024 :: u64) < 2 ^ 63" by simp
  obtain s w2 where s: "MMapSink_new ps rdtsc_file (16 * 1024 * 1024) (1024 * 1024 * 1024) 8 ?w1 = Inr (s, w2)"
    "sink_ok s" "region_size s = 16 * 1024 * 1024"
    using new_sink_opens [OF opens size] by blast
  have "256 \<le> unat (region_size s)" by (simp add: s(3))
  then have takes: "sink_takes ps (length clk) s w2" by (rule sink_takes_openable [OF opens s(2)])
  have "length (replicate (length clk) rdtsc_line) \<le> length clk
      \<and> (\<forall>l \<in> set (replicate (length clk) rdtsc_line). length l \<le> 256)"
    using length_rdtsc_line by simp
  then obtain r where "write_all ps (replicate (length clk) rdtsc_line) s w2 = Inr r"
    using takes unfolding sink_takes_def by blast
  then obtain ks s1 w3 where "write_all ps (replicate (length clk) rdtsc_line) s w2 = Inr (ks, s1, w3)"
    by (cases r) auto
  then have wp: "write_phase ps clk rdtsc_line s w2 = Some (map (\<lambda>(t0, t1). elapsed t0 t1) clk, s1, w3)"
    by (rule write_phase_all)
  obtain s2 w4 where "MMapSink_delete ps s1 w3 = (s2, w4)" by fastforce
  then show ?thesis using s(1) wp by (simp add: rdtsc_write_part_def Let_def)
qed

section \<open>Properties\<close>

text \<open>The cycle benchmark runs to its end. When its file can be opened, no busy wait of the
  program spins forever, no exception leaves it, no access is outside a vector, and the three
  rows it prints are the percentiles of the differences of the counter readings.\<close>

lemma bench_rdtsc_completes:
  assumes "\<forall>p w. 0 \<le> fst (sys_open ps p w)"
    and "length clk_push = RDTSC_ITERS" and "length clk_pop = RDTSC_ITERS"
    and "length clk_write = RDTSC_ITERS"
  shows "\<exists>row1 row2 row3 s1 s2 s3 w'.
    bench_rdtsc ps ns_text mhz_text d p clk_push clk_pop clk_write w
      = Some (''Detected/Assumed rdtsc() frequency: '' @ mhz_text @ '' MHz'' @ newline
            @ rdtsc_table_head @ row1 @ row2 @ row3 @ replicate 67 (CHR ''-'') @ newline, w')
    \<and> print_percentiles ns_text ''Producer Push to Queue'' (map (\<lambda>(t0, t1). elapsed t0 t1) clk_push) = Some (row1, s1)
    \<and> print_percentiles ns_text ''Consumer Pop from Queue'' (map (\<lambda>(t0, t1). elapsed t0 t1) clk_pop) = Some (row2, s2)
    \<and> print_percentiles ns_text ''Consumer Sink Write'' (map (\<lambda>(t0, t1). elapsed t0 t1) clk_write) = Some (row3, s3)"
proof -
  let ?x = "rdtsc_entry p" and ?n = RDTSC_QUEUE_SIZE and ?e = "\<lambda>(t0, t1). elapsed t0 t1"
  have v: "valid_size ?n" by (simp add: valid_size_def RDTSC_QUEUE_SIZE_def)
  have room: "?n + (length clk_push + 0) < 2 ^ 64 - 1"
    by (simp add: assms(2) RDTSC_ITERS_def RDTSC_QUEUE_SIZE_def)
  obtain q where q: "register_consumer (MPMCQueue_new ?n d) = (Inr 0, q)"
    "solo_queue ?n (length clk_push + 0) [] 0 q"
    using solo_new [OF v room, of d] by (elim exE conjE) (rule that; assumption)
  have le: "length ([] :: LogEntry list) + length clk_push \<le> ?n"
    by (simp add: assms(2) RDTSC_ITERS_def RDTSC_QUEUE_SIZE_def)
  obtain q1 where q1: "push_phase clk_push ?x q = Some (map ?e clk_push, q1)"
    "solo_queue ?n 0 ([] @ replicate (length clk_push) ?x) 0 q1"
    using push_phase_solo [OF q(2) le, of ?x] by (elim exE conjE) (rule that; assumption)
  have le2: "length clk_pop \<le> length ([] @ replicate (length clk_push) ?x)" by (simp add: assms(2,3))
  obtain q2 where q2: "pop_phase 0 clk_pop 0 q1
      = Some (map ?e clk_pop, take (length clk_pop) ([] @ replicate (length clk_push) ?x), q2)"
    using pop_phase_solo [OF q1(2) le2, of 0] by (elim exE conjE) (rule that; assumption)
  obtain w' where w': "rdtsc_write_part ps clk_write w = Some (map ?e clk_write, w')"
    using rdtsc_write_part_ends [OF assms(1), of clk_write w] by (elim exE) (rule that; assumption)
  have rows: "\<exists>row s. print_percentiles ns_text name (map ?e clk) = Some (row, s)"
    if "length clk = RDTSC_ITERS" for clk name
    using print_percentiles_total [of "map ?e clk" ns_text name] that by (auto simp: RDTSC_ITERS_def)
  obtain row1 s1 where r1: "print_percentiles ns_text ''Producer Push to Queue'' (map ?e clk_push) = Some (row1, s1)"
    using rows [OF assms(2), of "''Producer Push to Queue''"] by (elim exE) (rule that; assumption)
  obtain row2 s2 where r2: "print_percentiles ns_text ''Consumer Pop from Queue'' (map ?e clk_pop) = Some (row2, s2)"
    using rows [OF assms(3), of "''Consumer Pop from Queue''"] by (elim exE) (rule that; assumption)
  obtain row3 s3 where r3: "print_percentiles ns_text ''Consumer Sink Write'' (map ?e clk_write) = Some (row3, s3)"
    using rows [OF assms(4), of "''Consumer Sink Write''"] by (elim exE) (rule that; assumption)
  have "bench_rdtsc ps ns_text mhz_text d p clk_push clk_pop clk_write w
      = Some (''Detected/Assumed rdtsc() frequency: '' @ mhz_text @ '' MHz'' @ newline
            @ rdtsc_table_head @ row1 @ row2 @ row3 @ replicate 67 (CHR ''-'') @ newline, w')"
    using q(1) q1(1) q2 w' r1 r2 r3 by (simp add: bench_rdtsc_def Let_def)
  then show ?thesis using r1 r2 r3 by blast
qed

lemma bench_rdtsc_completes_witness:
  "\<exists>out. bench_rdtsc (sim_posix 4096) (\<lambda>c. dec_numeral (unat c)) ''3000.00'' (LogEntry_new [])
    (replicate 112 (CHR 0x00)) (replicate RDTSC_ITERS (5, 7)) (replicate RDTSC_ITERS (7, 7))
    (replicate RDTSC_ITERS (9, 8)) sim_empty = Some out"
proof -
  have o: "\<forall>p w. 0 \<le> fst (sys_open (sim_posix 4096) p w)" by (simp add: sim_posix_def)
  note run = bench_rdtsc_completes [where clk_push = "replicate RDTSC_ITERS (5, 7)"
      and clk_pop = "replicate RDTSC_ITERS (7, 7)" and clk_write = "replicate RDTSC_ITERS (9, 8)",
      OF o length_replicate length_replicate length_replicate,
      of "\<lambda>c. dec_numeral (unat c)" "''3000.00''" "LogEntry_new []" "replicate 112 (CHR 0x00)" sim_empty]
  show ?thesis using run by (elim exE conjE) (rule exI; assumption)
qed

end
