(* ===== verification/Bench_Io.thy ===== *)
theory Bench_Io
  imports Logger_Prelude
begin

text \<open>
  bench/bench_mmap_vs_write.cpp: three ways to write a million blocks of 128 bytes, in a
  directory made for them and removed afterwards; and the huge-page allocator of bench/bench_huge_pages.cpp. The calls of the
  operating system and of \<open>stdio\<close> are records of functions on an abstract world. Proved: the
  three ways leave the same file up to the fill character, superpage sizes are rounded
  correctly, and what the allocator holds after its two functions.
\<close>

section \<open>Writing blocks\<close>

record 'w block_io =
  bio_create :: "string \<Rightarrow> 'w \<Rightarrow> int \<times> 'w"
  bio_truncate :: "int \<Rightarrow> u64 \<Rightarrow> 'w \<Rightarrow> 'w"
  bio_map :: "u64 \<Rightarrow> int \<Rightarrow> 'w \<Rightarrow> u64 option \<times> 'w"
  bio_store :: "u64 \<Rightarrow> nat \<Rightarrow> bytes \<Rightarrow> 'w \<Rightarrow> 'w"
  bio_msync :: "u64 \<Rightarrow> u64 \<Rightarrow> 'w \<Rightarrow> 'w"
  bio_unmap :: "u64 \<Rightarrow> u64 \<Rightarrow> 'w \<Rightarrow> 'w"
  bio_write :: "int \<Rightarrow> bytes \<Rightarrow> 'w \<Rightarrow> 'w"
  bio_fsync :: "int \<Rightarrow> 'w \<Rightarrow> 'w"
  bio_close :: "int \<Rightarrow> 'w \<Rightarrow> 'w"
  std_open :: "string \<Rightarrow> 'w \<Rightarrow> 'w"
  std_write :: "bytes \<Rightarrow> 'w \<Rightarrow> 'w"
  std_flush :: "'w \<Rightarrow> 'w"
  std_close :: "'w \<Rightarrow> 'w"

text \<open>
  \<open>bio_create\<close> is \<open>open\<close> with \<open>O_CREAT | O_TRUNC\<close>, \<open>bio_map\<close> maps the start of the file,
  \<open>bio_store a i ys\<close> copies to the mapped address \<open>a + i\<close>, and the \<open>std_\<close> calls work on the one
  open stream. Results the code ignores are left out.
\<close>

definition BLOCK_SIZE :: nat where
  "BLOCK_SIZE = 128"

definition TOTAL_WRITES :: nat where
  "TOTAL_WRITES = 1000000"

definition block :: "char \<Rightarrow> bytes" where
  "block ch = replicate BLOCK_SIZE ch"

text \<open>The result of \<open>mmap\<close> is used unchecked: a failed mapping has no value (\<open>None\<close>).\<close>

definition mmap_memcpy_iteration :: "'w block_io \<Rightarrow> nat \<Rightarrow> string \<Rightarrow> 'w \<Rightarrow> 'w option" where
  "mmap_memcpy_iteration io writes path w =
     (let (fd, w1) = bio_create io path w; total_size = of_nat (BLOCK_SIZE * writes);
          w2 = bio_truncate io fd total_size w1;
          (p, w3) = bio_map io total_size fd w2
      in case p of
           None \<Rightarrow> None
         | Some ptr \<Rightarrow>
             let w4 = fold (\<lambda>i. bio_store io ptr (i * BLOCK_SIZE) (block CHR ''A'')) [0..<writes] w3;
                 w5 = bio_unmap io ptr total_size (bio_msync io ptr total_size w4)
             in Some (bio_close io fd w5))"

definition write_syscall_iteration :: "'w block_io \<Rightarrow> nat \<Rightarrow> string \<Rightarrow> 'w \<Rightarrow> 'w" where
  "write_syscall_iteration io writes path w =
     (let (fd, w1) = bio_create io path w;
          w2 = fold (\<lambda>i. bio_write io fd (block CHR ''B'')) [0..<writes] w1
      in bio_close io fd (bio_fsync io fd w2))"

definition fwrite_iteration :: "'w block_io \<Rightarrow> nat \<Rightarrow> string \<Rightarrow> 'w \<Rightarrow> 'w" where
  "fwrite_iteration io writes path w =
     (let w1 = std_open io path w;
          w2 = fold (\<lambda>i. std_write io (block CHR ''C'')) [0..<writes] w1
      in std_close io (std_flush io w2))"

text \<open>
  The directory is emptied and made, the iterations rewrite the same file, and the directory is
  removed; \<open>dir_calls\<close> has the two functions of \<open>std::filesystem\<close>. \<open>io_iterations\<close> is the world
  before the removal.
\<close>

record 'w dir_calls =
  remove_all :: "string \<Rightarrow> 'w \<Rightarrow> 'w"
  create_directories :: "string \<Rightarrow> 'w \<Rightarrow> 'w"

definition IO_BENCH_DIR :: string where
  "IO_BENCH_DIR = ''/tmp/mpmc_logger_bench_io''"

definition io_iterations :: "'w dir_calls \<Rightarrow> nat \<Rightarrow> ('w \<Rightarrow> 'w option) \<Rightarrow> 'w \<Rightarrow> 'w option" where
  "io_iterations ds its iteration w =
     ((\<lambda>r. Option.bind r iteration) ^^ its)
       (Some (create_directories ds IO_BENCH_DIR (remove_all ds IO_BENCH_DIR w)))"

definition BM_Mmap_Memcpy :: "'w dir_calls \<Rightarrow> 'w block_io \<Rightarrow> nat \<Rightarrow> 'w \<Rightarrow> 'w option" where
  "BM_Mmap_Memcpy ds io its w =
     map_option (remove_all ds IO_BENCH_DIR)
       (io_iterations ds its (mmap_memcpy_iteration io TOTAL_WRITES (IO_BENCH_DIR @ ''/mmap_bench.dat'')) w)"

definition BM_Write_Syscall :: "'w dir_calls \<Rightarrow> 'w block_io \<Rightarrow> nat \<Rightarrow> 'w \<Rightarrow> 'w option" where
  "BM_Write_Syscall ds io its w =
     map_option (remove_all ds IO_BENCH_DIR)
       (io_iterations ds its (Some \<circ> write_syscall_iteration io TOTAL_WRITES (IO_BENCH_DIR @ ''/write_bench.dat'')) w)"

definition BM_Fwrite_Buffered :: "'w dir_calls \<Rightarrow> 'w block_io \<Rightarrow> nat \<Rightarrow> 'w \<Rightarrow> 'w option" where
  "BM_Fwrite_Buffered ds io its w =
     map_option (remove_all ds IO_BENCH_DIR)
       (io_iterations ds its (Some \<circ> fwrite_iteration io TOTAL_WRITES (IO_BENCH_DIR @ ''/fwrite_bench.dat'')) w)"

section \<open>The laws of the calls\<close>

text \<open>
  \<open>view\<close> is the contents of the file, \<open>unwritten\<close> what the stream still buffers. Calls succeed:
  the file is created empty, \<open>write\<close> takes the whole block, mappings are granted.
\<close>

definition block_io_ok :: "'w block_io \<Rightarrow> ('w \<Rightarrow> bytes) \<Rightarrow> ('w \<Rightarrow> bytes) \<Rightarrow> bool" where
  "block_io_ok io view unwritten \<longleftrightarrow>
     (\<forall>p w. view (snd (bio_create io p w)) = [])
     \<and> (\<forall>d n w. view (bio_truncate io d n w)
          = take (unat n) (view w @ replicate (unat n - length (view w)) (CHR 0x00)))
     \<and> (\<forall>n d w. fst (bio_map io n d w) \<noteq> None \<and> view (snd (bio_map io n d w)) = view w)
     \<and> (\<forall>a i ys w. i + length ys \<le> length (view w) \<longrightarrow> view (bio_store io a i ys w) = overwrite i ys (view w))
     \<and> (\<forall>a n w. view (bio_msync io a n w) = view w \<and> view (bio_unmap io a n w) = view w)
     \<and> (\<forall>d ys w. view (bio_write io d ys w) = view w @ ys)
     \<and> (\<forall>d w. view (bio_fsync io d w) = view w \<and> view (bio_close io d w) = view w)
     \<and> (\<forall>p w. view (std_open io p w) = [] \<and> unwritten (std_open io p w) = [])
     \<and> (\<forall>ys w. view (std_write io ys w) @ unwritten (std_write io ys w) = view w @ unwritten w @ ys)
     \<and> (\<forall>w. view (std_flush io w) = view w @ unwritten w \<and> unwritten (std_flush io w) = [])
     \<and> (\<forall>w. view (std_close io w) = view w @ unwritten w)"

lemma store_blocks:
  assumes laws: "block_io_ok io view unwritten" and "view w = replicate (BLOCK_SIZE * n) (CHR 0x00)" and "k \<le> n"
  shows "view (fold (\<lambda>i. bio_store io a (i * BLOCK_SIZE) (block ch)) [0..<k] w)
    = replicate (BLOCK_SIZE * k) ch @ replicate (BLOCK_SIZE * (n - k)) (CHR 0x00)"
  using assms(3)
proof (induction k)
  case 0
  then show ?case using assms(2) by simp
next
  case (Suc k)
  let ?w = "fold (\<lambda>i. bio_store io a (i * BLOCK_SIZE) (block ch)) [0..<k] w"
  have ih: "view ?w = replicate (BLOCK_SIZE * k) ch @ replicate (BLOCK_SIZE * (n - k)) (CHR 0x00)"
    using Suc by simp
  have nk: "n - k = Suc (n - Suc k)" using Suc.prems by simp
  have room: "k * BLOCK_SIZE + length (block ch) \<le> length (view ?w)"
    unfolding ih nk by (simp add: block_def algebra_simps)
  have "view (bio_store io a (k * BLOCK_SIZE) (block ch) ?w) = overwrite (k * BLOCK_SIZE) (block ch) (view ?w)"
    using laws room unfolding block_io_ok_def by blast
  also have "\<dots> = (replicate (BLOCK_SIZE * k) ch @ block ch) @ replicate (BLOCK_SIZE * (n - Suc k)) (CHR 0x00)"
    unfolding ih nk by (simp add: overwrite_def block_def mult.commute)
  also have "replicate (BLOCK_SIZE * k) ch @ block ch = replicate (BLOCK_SIZE * Suc k) ch"
    by (simp add: block_def replicate_add [symmetric] add.commute)
  finally show ?case by simp
qed

lemma write_blocks:
  assumes laws: "block_io_ok io view unwritten"
  shows "view (fold (\<lambda>i. bio_write io d (block ch)) [0..<k] w) = view w @ replicate (BLOCK_SIZE * k) ch"
proof (induction k)
  case 0
  then show ?case by simp
next
  case (Suc k)
  then show ?case
    using laws by (simp add: block_io_ok_def block_def replicate_add [symmetric] add.commute)
qed

lemma fwrite_blocks:
  assumes laws: "block_io_ok io view unwritten"
  shows "view (fold (\<lambda>i. std_write io (block ch)) [0..<k] w) @ unwritten (fold (\<lambda>i. std_write io (block ch)) [0..<k] w)
    = view w @ unwritten w @ replicate (BLOCK_SIZE * k) ch"
proof (induction k)
  case 0
  then show ?case by simp
next
  case (Suc k)
  let ?w = "fold (\<lambda>i. std_write io (block ch)) [0..<k] w"
  have "view (std_write io (block ch) ?w) @ unwritten (std_write io (block ch) ?w)
      = view ?w @ unwritten ?w @ block ch"
    using laws by (simp add: block_io_ok_def)
  also have "\<dots> = (view w @ unwritten w @ replicate (BLOCK_SIZE * k) ch) @ block ch"
    using Suc by (metis append.assoc)
  finally show ?case by (simp add: block_def replicate_add [symmetric] add.commute)
qed

section \<open>Huge pages\<close>

text \<open>
  The operations of the allocator on macOS and the C++ heap: \<open>vm_allocate\<close>, \<open>vm_deallocate\<close>,
  \<open>new T()\<close>, \<open>delete\<close>, construction in place and the destructor. The warning printed before
  the fallback is left out.
\<close>

record 'w page_os =
  vm_allocate :: "u64 \<Rightarrow> 'w \<Rightarrow> u64 option \<times> 'w"
  vm_deallocate :: "u64 \<Rightarrow> u64 \<Rightarrow> 'w \<Rightarrow> 'w"
  heap_new :: "'w \<Rightarrow> u64 \<times> 'w"
  heap_delete :: "u64 \<Rightarrow> 'w \<Rightarrow> 'w"
  construct :: "u64 \<Rightarrow> 'w \<Rightarrow> 'w"
  destroy :: "u64 \<Rightarrow> 'w \<Rightarrow> 'w"

definition superpage_size :: "u64 \<Rightarrow> u64" where
  "superpage_size sz = (sz + (2 * 1024 * 1024) - 1) AND NOT ((2 * 1024 * 1024) - 1)"

definition allocate_huge_page :: "bool \<Rightarrow> 'w page_os \<Rightarrow> u64 \<Rightarrow> 'w \<Rightarrow> u64 \<times> 'w" where
  "allocate_huge_page apple os sz w =
     (if apple
      then (case vm_allocate os (superpage_size sz) w of
              (None, w1) \<Rightarrow> heap_new os w1
            | (Some addr, w1) \<Rightarrow> (addr, construct os addr w1))
      else heap_new os w)"

definition deallocate_huge_page :: "bool \<Rightarrow> 'w page_os \<Rightarrow> u64 \<Rightarrow> u64 \<Rightarrow> 'w \<Rightarrow> 'w" where
  "deallocate_huge_page apple os sz ptr w =
     (if apple then vm_deallocate os ptr (superpage_size sz) (destroy os ptr w)
      else heap_delete os ptr w)"

lemma unat_clear_low:
  "unat ((x :: u64) AND NOT 2097151) = unat x - unat x mod 2097152"
proof -
  have m: "x AND NOT 2097151 = x - (x AND 2097151)"
  proof -
    have "NOT x AND (x AND 2097151) = 0" by (rule bit_eqI) (simp add: bit_simps)
    then have "x - (x AND 2097151) = x AND NOT (x AND 2097151)" by (rule disjunctive_diff_eq_and_not)
    also have "\<dots> = x AND NOT 2097151" by (rule bit_eqI) (auto simp: bit_simps)
    finally show ?thesis by simp
  qed
  have low: "unat (x AND 2097151) = unat x mod 2097152"
    using unat_and_mask [of 2097152 21 x] by simp
  then have le: "x AND 2097151 \<le> x" by (simp add: word_le_nat_alt)
  show ?thesis unfolding m unat_sub [OF le] low ..
qed

text \<open>A superpage size is the least multiple of two megabytes that holds the object.\<close>

lemma superpage_size_least:
  assumes "unat sz < 2 ^ 63"
  shows "2097152 dvd unat (superpage_size sz)" "unat sz \<le> unat (superpage_size sz)"
    "unat (superpage_size sz) < unat sz + 2097152"
proof -
  have s: "sz + (2 * 1024 * 1024) - 1 = sz + 2097151" by simp
  have u: "unat (sz + 2097151) = unat sz + 2097151" using assms by (simp add: unat_add_pos)
  have v: "unat (superpage_size sz) = (unat sz + 2097151) - (unat sz + 2097151) mod 2097152"
    unfolding superpage_size_def s using unat_clear_low [of "sz + 2097151"] u by simp
  have "unat (superpage_size sz) = (unat sz + 2097151) div 2097152 * 2097152"
    unfolding v by (simp add: minus_mod_eq_div_mult)
  then show "2097152 dvd unat (superpage_size sz)" by simp
  have "(unat sz + 2097151) mod 2097152 < 2097152" by simp
  then show "unat sz \<le> unat (superpage_size sz)" unfolding v by linarith
  show "unat (superpage_size sz) < unat sz + 2097152" unfolding v by linarith
qed

text \<open>
  What the process holds: the regions with their sizes, and the heap blocks. Releasing a
  region that was not granted as such leaves both alone at best.
\<close>

definition page_laws :: "'w page_os \<Rightarrow> ('w \<Rightarrow> (u64 \<rightharpoonup> u64) \<times> u64 set) \<Rightarrow> bool" where
  "page_laws os holds \<longleftrightarrow>
     (\<forall>n w regions heap. holds w = (regions, heap) \<longrightarrow>
        (case vm_allocate os n w of
           (None, w') \<Rightarrow> holds w' = (regions, heap)
         | (Some a, w') \<Rightarrow> a \<notin> dom regions \<and> holds w' = (regions(a \<mapsto> n), heap))
      \<and> (\<forall>a. holds (vm_deallocate os a n w)
            = (if regions a = Some n then regions(a := None) else regions, heap))
      \<and> (case heap_new os w of (a, w') \<Rightarrow> a \<notin> heap \<and> a \<notin> dom regions \<and> holds w' = (regions, insert a heap))
      \<and> (\<forall>a. holds (heap_delete os a w) = (regions, heap - {a})
           \<and> holds (construct os a w) = (regions, heap) \<and> holds (destroy os a w) = (regions, heap)))"

lemma page_lawsD:
  assumes "page_laws os holds" and "holds w = (regions, heap)"
  shows "vm_allocate os n w = (None, w') \<Longrightarrow> holds w' = (regions, heap)"
    and "vm_allocate os n w = (Some a, w') \<Longrightarrow> a \<notin> dom regions \<and> holds w' = (regions(a \<mapsto> n), heap)"
    and "holds (vm_deallocate os a n w) = (if regions a = Some n then regions(a := None) else regions, heap)"
    and "heap_new os w = (a, w') \<Longrightarrow> a \<notin> heap \<and> a \<notin> dom regions \<and> holds w' = (regions, insert a heap)"
    and "holds (heap_delete os a w) = (regions, heap - {a})"
    and "holds (construct os a w) = (regions, heap)" and "holds (destroy os a w) = (regions, heap)"
  using assms(1) [unfolded page_laws_def, rule_format, OF assms(2), of n] by simp_all

text \<open>
  With superpages granted, or without them in the build, the pair releases what it took;
  after the fallback the heap block stays, because it is not given back to the heap.
\<close>

lemma huge_page_balance:
  assumes laws: "page_laws os holds" and h: "holds w = (regions, heap)"
    and a: "allocate_huge_page apple os sz w = (ptr, w1)"
  shows "holds (deallocate_huge_page apple os sz ptr w1)
    = (if apple \<and> fst (vm_allocate os (superpage_size sz) w) = None
       then (regions, insert ptr heap) else (regions, heap))"
proof (cases apple)
  case False
  then show ?thesis
    using page_lawsD(4) [OF laws h, of ptr w1] page_lawsD(5) [OF laws, of w1] a
    by (simp add: allocate_huge_page_def deallocate_huge_page_def)
next
  case True
  let ?n = "superpage_size sz"
  obtain p v where v: "vm_allocate os ?n w = (p, v)" by fastforce
  have after: "holds (deallocate_huge_page apple os sz ptr w1)
      = (if rs ptr = Some ?n then rs(ptr := None) else rs, hs)" if "holds w1 = (rs, hs)" for rs hs
    using page_lawsD(7) [OF laws that, of ptr] page_lawsD(3) [OF laws, of "destroy os ptr w1" rs hs ptr ?n] True
    by (simp add: deallocate_huge_page_def)
  show ?thesis
  proof (cases p)
    case None
    then have "heap_new os v = (ptr, w1)" "holds v = (regions, heap)"
      using v a True page_lawsD(1) [OF laws h] by (auto simp: allocate_huge_page_def)
    then have "holds w1 = (regions, insert ptr heap) \<and> ptr \<notin> dom regions"
      using page_lawsD(4) [OF laws] by blast
    then have "holds w1 = (regions, insert ptr heap)" "regions ptr = None" by auto
    then show ?thesis using after v None True by simp
  next
    case (Some b)
    have t: "b \<notin> dom regions" "holds v = (regions(b \<mapsto> ?n), heap)"
      using page_lawsD(2) [OF laws h, of ?n b v] v Some by simp_all
    have w1: "ptr = b" "w1 = construct os b v" using a v Some True by (auto simp: allocate_huge_page_def)
    have "holds w1 = (regions(b \<mapsto> ?n), heap)" unfolding w1(2) by (rule page_lawsD(6) [OF laws t(2)])
    then have "holds (deallocate_huge_page apple os sz ptr w1) = ((regions(b \<mapsto> ?n))(b := None), heap)"
      using after w1(1) by simp
    moreover have "(regions(b \<mapsto> ?n))(b := None) = regions" using t(1) by (auto simp: fun_eq_iff domIff)
    ultimately show ?thesis using v Some by simp
  qed
qed

section \<open>Properties\<close>

text \<open>The three ways of writing leave the same file. When the calls succeed, an iteration of
  each benchmark ends with a file of exactly its blocks, in sequence: mapping and copying,
  the \<open>write\<close> calls, and the buffered stream differ in the fill character only.\<close>

lemma io_iterations_agree:
  assumes "block_io_ok io view unwritten" and "BLOCK_SIZE * n < 2 ^ 64"
  shows "\<exists>w1. mmap_memcpy_iteration io n path w = Some w1
    \<and> view w1 = concat (replicate n (block CHR ''A''))
    \<and> view (write_syscall_iteration io n path w) = concat (replicate n (block CHR ''B''))
    \<and> view (fwrite_iteration io n path w) = concat (replicate n (block CHR ''C''))"
proof -
  have blocks: "concat (replicate n (block ch)) = replicate (BLOCK_SIZE * n) ch" for ch
    by (induction n) (simp_all add: block_def replicate_add)
  obtain d w1 where c: "bio_create io path w = (d, w1)" by fastforce
  let ?n = "of_nat (BLOCK_SIZE * n) :: u64"
  have created: "view w1 = []" using assms(1) c unfolding block_io_ok_def by (metis snd_conv)
  let ?w2 = "bio_truncate io d ?n w1"
  have v2: "view ?w2 = replicate (BLOCK_SIZE * n) (CHR 0x00)"
    using assms created unat_of_nat64 [OF assms(2)] by (simp add: block_io_ok_def)
  obtain p w3 where m: "bio_map io ?n d ?w2 = (p, w3)" by fastforce
  have granted: "fst (bio_map io ?n d ?w2) \<noteq> None \<and> view (snd (bio_map io ?n d ?w2)) = view ?w2"
    using assms(1) by (simp add: block_io_ok_def)
  then obtain a where p: "p = Some a" using m by auto
  have v3: "view w3 = replicate (BLOCK_SIZE * n) (CHR 0x00)" using granted m v2 by simp
  have stored: "view (fold (\<lambda>i. bio_store io a (i * BLOCK_SIZE) (block CHR ''A'')) [0..<n] w3)
      = replicate (BLOCK_SIZE * n) (CHR ''A'')"
    using store_blocks [OF assms(1) v3, of n] by simp
  have mapped: "\<exists>w4. mmap_memcpy_iteration io n path w = Some w4
      \<and> view w4 = replicate (BLOCK_SIZE * n) (CHR ''A'')"
    using c m p stored assms(1) by (simp add: mmap_memcpy_iteration_def Let_def block_io_ok_def)
  have "view (write_syscall_iteration io n path w) = replicate (BLOCK_SIZE * n) (CHR ''B'')"
    using c created write_blocks [OF assms(1)] assms(1)
    by (simp add: write_syscall_iteration_def Let_def block_io_ok_def)
  moreover have "view (fwrite_iteration io n path w) = replicate (BLOCK_SIZE * n) (CHR ''C'')"
    using fwrite_blocks [OF assms(1), of "CHR ''C''" n "std_open io path w"] assms(1)
    by (simp add: fwrite_iteration_def Let_def block_io_ok_def)
  ultimately show ?thesis using mapped unfolding blocks by blast
qed

text \<open>
  Every iteration creates its file anew, so however many there are the last one leaves what one
  iteration leaves, and the benchmarks with the mapping do not fail.
\<close>

lemma io_iterations_last:
  assumes "\<And>w. \<exists>w1. iteration w = Some w1 \<and> view w1 = content"
  shows "\<exists>w1. io_iterations ds (Suc its) iteration w = Some w1 \<and> view w1 = content"
proof -
  have "io_iterations ds its iteration w \<noteq> None"
    unfolding io_iterations_def by (induction its) (use assms in \<open>fastforce\<close>)+
  then obtain w1 where "io_iterations ds its iteration w = Some w1" by blast
  then have "io_iterations ds (Suc its) iteration w = iteration w1" by (simp add: io_iterations_def)
  then show ?thesis using assms [of w1] by simp
qed

lemma io_benchmarks_leave:
  assumes "block_io_ok io view unwritten"
  shows "\<exists>w1. io_iterations ds (Suc its) (mmap_memcpy_iteration io TOTAL_WRITES p) w = Some w1
      \<and> view w1 = concat (replicate TOTAL_WRITES (block CHR ''A''))"
    and "\<exists>w1. io_iterations ds (Suc its) (Some \<circ> write_syscall_iteration io TOTAL_WRITES p) w = Some w1
      \<and> view w1 = concat (replicate TOTAL_WRITES (block CHR ''B''))"
    and "\<exists>w1. io_iterations ds (Suc its) (Some \<circ> fwrite_iteration io TOTAL_WRITES p) w = Some w1
      \<and> view w1 = concat (replicate TOTAL_WRITES (block CHR ''C''))"
proof -
  have "BLOCK_SIZE * TOTAL_WRITES < 2 ^ 64" by (simp add: BLOCK_SIZE_def TOTAL_WRITES_def)
  note a = io_iterations_agree [OF assms this, of p]
  show "\<exists>w1. io_iterations ds (Suc its) (mmap_memcpy_iteration io TOTAL_WRITES p) w = Some w1
      \<and> view w1 = concat (replicate TOTAL_WRITES (block CHR ''A''))"
    by (rule io_iterations_last) (use a in blast)
  show "\<exists>w1. io_iterations ds (Suc its) (Some \<circ> write_syscall_iteration io TOTAL_WRITES p) w = Some w1
      \<and> view w1 = concat (replicate TOTAL_WRITES (block CHR ''B''))"
    by (rule io_iterations_last) (use a in auto)
  show "\<exists>w1. io_iterations ds (Suc its) (Some \<circ> fwrite_iteration io TOTAL_WRITES p) w = Some w1
      \<and> view w1 = concat (replicate TOTAL_WRITES (block CHR ''C''))"
    by (rule io_iterations_last) (use a in auto)
qed

text \<open>A world of one file and one stream buffer.\<close>

definition demo_io :: "(bytes \<times> bytes) block_io" where
  "demo_io =
     \<lparr>bio_create = (\<lambda>p w. (3, ([], snd w))),
      bio_truncate = (\<lambda>d n w. (take (unat n) (fst w @ replicate (unat n - length (fst w)) (CHR 0x00)), snd w)),
      bio_map = (\<lambda>n d w. (Some 4096, w)),
      bio_store = (\<lambda>a i ys w. (overwrite i ys (fst w), snd w)),
      bio_msync = (\<lambda>a n w. w), bio_unmap = (\<lambda>a n w. w),
      bio_write = (\<lambda>d ys w. (fst w @ ys, snd w)), bio_fsync = (\<lambda>d w. w), bio_close = (\<lambda>d w. w),
      std_open = (\<lambda>p w. ([], [])), std_write = (\<lambda>ys w. (fst w, snd w @ ys)),
      std_flush = (\<lambda>w. (fst w @ snd w, [])), std_close = (\<lambda>w. (fst w @ snd w, []))\<rparr>"

lemma demo_io_ok: "block_io_ok demo_io fst snd"
  by (simp add: block_io_ok_def demo_io_def)

lemma io_iterations_agree_witness:
  "\<exists>w1. mmap_memcpy_iteration demo_io TOTAL_WRITES ''x'' ([], []) = Some w1
    \<and> fst w1 = concat (replicate TOTAL_WRITES (block CHR ''A''))
    \<and> fst (write_syscall_iteration demo_io TOTAL_WRITES ''x'' ([], []))
      = concat (replicate TOTAL_WRITES (block CHR ''B''))"
proof -
  have "BLOCK_SIZE * TOTAL_WRITES < 2 ^ 64" by (simp add: BLOCK_SIZE_def TOTAL_WRITES_def)
  from io_iterations_agree [OF demo_io_ok this, of "''x''" "([], [])"] show ?thesis
    by (elim exE conjE) (intro exI conjI; assumption)
qed

end
