(* ===== verification/Bench_Logger.thy ===== *)
theory Bench_Logger
  imports Bench_Stats Bench_Io Log_Session
begin

text \<open>
  bench/bench_logger_e2e.cpp: a logger started on a fresh file, log statements from one or
  several threads, \<open>shutdown\<close>, and the timing of the statements. The two calls of
  \<open>std::filesystem\<close> are a record of functions on the world; the messages are constant, so a
  statement is its time, thread id and the indeterminate payload bytes. Proved: with the numbers
  of the binary benchmarks the log never rotates, and every entry in the file carries the
  message; the text benchmark leaves its lines as long as they fit the first region.
\<close>

section \<open>The benchmarks\<close>

definition BENCH_DIR :: string where
  "BENCH_DIR = ''/tmp/mpmc_logger_bench''"

definition e2e_config :: "string \<Rightarrow> OutputFormat \<Rightarrow> LoggerConfig" where
  "e2e_config name fmt =
     LoggerConfig_default\<lparr>cfg_log_file_path := BENCH_DIR @ name,
       cfg_output_format := fmt, cfg_mmap_region_size := 64 * 1024 * 1024\<rparr>"

definition binary_message :: bytes where
  "binary_message = ''bench entry seq=42 price=10050 qty=100''"

definition threads_message :: bytes where
  "threads_message = ''mt bench tid=42 val=99''"

type_synonym statement = "timespec \<times> u32 \<times> bytes"

definition e2e_entry :: "bytes \<Rightarrow> statement \<Rightarrow> LogEntry" where
  "e2e_entry msg st = (case st of (now, tid, junk) \<Rightarrow> macro_entry now tid LVL_INFO 0 (Some msg) junk)"

text \<open>The statements between the drain thread's turns; no stop is requested before the last one.\<close>

definition e2e_schedule :: "bytes \<Rightarrow> statement list list \<Rightarrow> (LogEntry list \<times> bool) list" where
  "e2e_schedule msg turns = map (\<lambda>sts. (map (e2e_entry msg) sts, False)) turns"

text \<open>
  The directory is emptied and made, then \<open>init\<close>, the loop and \<open>shutdown\<close>: the log file at
  that point, and the world after the directory is removed. \<open>None\<close>: \<open>init\<close> throws.
\<close>

definition bench_dir_ready :: "'w dir_calls \<Rightarrow> 'w \<Rightarrow> 'w" where
  "bench_dir_ready ds w = create_directories ds BENCH_DIR (remove_all ds BENCH_DIR w)"

definition BM_LoggerE2E ::
  "'w platform \<Rightarrow> ('w \<Rightarrow> bytes) \<Rightarrow> 'w dir_calls \<Rightarrow> LoggerConfig \<Rightarrow> bytes \<Rightarrow> statement list list \<Rightarrow> nat
    \<Rightarrow> bytes \<Rightarrow> 'w \<Rightarrow> (bytes \<times> 'w) option" where
  "BM_LoggerE2E pf view ds cfg msg turns k buf w =
     (case logger_init pf cfg Logger_new (bench_dir_ready ds w) of
        Inl e \<Rightarrow> None
      | Inr (lg, w1) \<Rightarrow>
          let its = e2e_schedule msg turns @ replicate k ([], True);
              w2 = snd (logger_shutdown pf (drain_join pf (Suc QUEUE_SIZE) its buf) lg w1)
          in Some (view w2, remove_all ds BENCH_DIR w2))"

definition BM_LoggerE2E_Binary ::
  "'w platform \<Rightarrow> ('w \<Rightarrow> bytes) \<Rightarrow> 'w dir_calls \<Rightarrow> statement list list \<Rightarrow> nat \<Rightarrow> bytes \<Rightarrow> 'w \<Rightarrow> (bytes \<times> 'w) option" where
  "BM_LoggerE2E_Binary pf view ds turns k buf w =
     BM_LoggerE2E pf view ds (e2e_config ''/bench_binary.log'' BINARY) binary_message turns k buf w"

definition BM_LoggerE2E_Text ::
  "'w platform \<Rightarrow> ('w \<Rightarrow> bytes) \<Rightarrow> 'w dir_calls \<Rightarrow> statement list list \<Rightarrow> nat \<Rightarrow> bytes \<Rightarrow> 'w \<Rightarrow> (bytes \<times> 'w) option" where
  "BM_LoggerE2E_Text pf view ds turns k buf w =
     BM_LoggerE2E pf view ds (e2e_config ''/bench_text.log'' TEXT) binary_message turns k buf w"

text \<open>Four threads: their statements arrive in any order, with their own thread ids.\<close>

definition BM_LoggerE2E_4Threads ::
  "'w platform \<Rightarrow> ('w \<Rightarrow> bytes) \<Rightarrow> 'w dir_calls \<Rightarrow> statement list list \<Rightarrow> nat \<Rightarrow> bytes \<Rightarrow> 'w \<Rightarrow> (bytes \<times> 'w) option" where
  "BM_LoggerE2E_4Threads pf view ds turns k buf w =
     BM_LoggerE2E pf view ds (e2e_config ''/bench_mt.log'' BINARY) threads_message turns k buf w"

text \<open>Each statement is between two clock readings; the report is printed before \<open>shutdown\<close>.\<close>

definition latency_message :: bytes where
  "latency_message = ''latency test value=42''"

definition BM_LoggerCallerLatency ::
  "'w platform \<Rightarrow> ('w \<Rightarrow> bytes) \<Rightarrow> 'w dir_calls \<Rightarrow> (u64 \<times> u64) list \<Rightarrow> statement list list \<Rightarrow> nat \<Rightarrow> bytes \<Rightarrow> 'w
    \<Rightarrow> (bytes option \<times> bytes \<times> 'w) option" where
  "BM_LoggerCallerLatency pf view ds readings turns k buf w =
     map_option (Pair (caller_latency_report (map (\<lambda>(t0, t1). t1 - t0) readings)))
       (BM_LoggerE2E pf view ds (e2e_config ''/bench_latency.log'' BINARY) latency_message turns k buf w)"

section \<open>Lemmas\<close>

lemma arrivals_schedule: "arrivals_of (e2e_schedule msg turns) = map (e2e_entry msg) (concat turns)"
  by (simp add: arrivals_of_def e2e_schedule_def map_concat comp_def)

lemma e2e_entry_message:
  assumes "length (snd (snd st)) = 112" and "length msg < 112"
  shows "wf_entry (e2e_entry msg st)" "unat (payload_len (e2e_entry msg st)) = length msg"
    "take (length msg) (payload (e2e_entry msg st)) = msg"
  using macro_payload [of "snd (snd st)" msg "fst st" "fst (snd st)" LVL_INFO 0] assms
  by (auto simp: e2e_entry_def split_beta)

lemma BM_LoggerE2E_bytes:
  assumes "session_opened pf page view base cfg (bench_dir_ready ds w) lg w1"
  shows "\<exists>w'. BM_LoggerE2E pf view ds cfg msg turns k buf w
    = Some (session_bytes pf view (e2e_schedule msg turns @ replicate k ([], True)) buf lg w1, w')"
  using session_openedD [OF assms] by (simp add: BM_LoggerE2E_def session_bytes_def Let_def)

text \<open>
  Five million records of 128 bytes fit the default maximal file size of one gigabyte: the
  binary benchmarks never rotate their log, and what they leave is the message of each
  accepted statement, in order, then the padding of the last region.
\<close>

lemma e2e_binary_log:
  assumes started: "session_started pf page view base (e2e_config name BINARY) (bench_dir_ready ds w) lg w1"
    and buf: "length buf = 256" and msg: "length msg < 112"
    and junk: "\<forall>st \<in> set (concat turns). length (snd (snd st)) = 112"
    and count: "length (concat turns) \<le> 5000000" and k: "length (concat turns) < k"
  shows "\<exists>log_bytes w' acc n. BM_LoggerE2E pf view ds (e2e_config name BINARY) msg turns k buf w = Some (log_bytes, w')
    \<and> read_entries log_bytes = acc @ replicate n zero_entry
    \<and> subseq acc (map (e2e_entry msg) (concat turns))
    \<and> (\<forall>e \<in> set acc. take (unat (payload_len e)) (payload e) = msg)"
proof -
  let ?pre = "e2e_schedule msg turns"
  have wf: "\<forall>e \<in> set (arrivals_of ?pre). wf_entry e"
    using e2e_entry_message(1) [OF _ msg] junk by (auto simp: arrivals_schedule simp del: set_concat)
  have len: "length (arrivals_of ?pre) = length (concat turns)" by (simp add: arrivals_schedule)
  have size: "128 * length (arrivals_of ?pre) \<le> unat (cfg_max_file_size (e2e_config name BINARY))"
    using count unfolding len by (simp add: e2e_config_def LoggerConfig_default_def)
  have k': "length (arrivals_of ?pre) < k" using k unfolding len .
  obtain acc ce' st' n where s: "subseq acc (arrivals_of ?pre)"
    "session_bytes pf view (?pre @ replicate k ([], True)) buf lg w1
      = concat (map entry_image acc) @ replicate (128 * n) (CHR 0x00)"
    using session_contents [OF started buf wf size k'] by (elim exE conjE) (rule that; assumption)
  have acc_wf: "\<forall>e \<in> set acc. wf_entry e" using wf s(1) by (auto dest: list_emb_set)
  have "\<forall>e \<in> set acc. take (unat (payload_len e)) (payload e) = msg"
  proof
    fix e assume "e \<in> set acc"
    then have "e \<in> set (arrivals_of ?pre)" using s(1) by (auto dest: list_emb_set)
    then obtain st where "st \<in> set (concat turns)" "e = e2e_entry msg st"
      by (auto simp: arrivals_schedule simp del: set_concat)
    then show "take (unat (payload_len e)) (payload e) = msg"
      using e2e_entry_message(2,3) [OF _ msg, of st] junk by simp
  qed
  moreover have "read_entries (concat (map entry_image acc) @ replicate (128 * n) (CHR 0x00))
      = acc @ replicate n zero_entry"
    by (simp add: read_entries_images [OF acc_wf] read_zeros)
  moreover have "\<exists>w'. BM_LoggerE2E pf view ds (e2e_config name BINARY) msg turns k buf w
      = Some (concat (map entry_image acc) @ replicate (128 * n) (CHR 0x00), w')"
    using BM_LoggerE2E_bytes [OF started [unfolded session_started_def, THEN conjunct1], of msg turns k buf] unfolding s(2) .
  ultimately show ?thesis using s(1) unfolding arrivals_schedule by blast
qed

text \<open>
  The lines of the text benchmark are at most 170 bytes, so a first region of 64 MB takes the
  lines of 394758 statements; what comes after a full region is lost (\<open>unaligned_region_silences\<close>
  of \<open>Mmap_Sink\<close>).
\<close>

lemma e2e_text_log:
  assumes started: "text_session_started pf page view base (e2e_config name TEXT) (bench_dir_ready ds w) lg w1"
    and buf: "length buf = 256" and msg: "length msg < 112"
    and junk: "\<forall>st \<in> set (concat turns). length (snd (snd st)) = 112"
    and dated: "\<forall>st \<in> set (concat turns). ts_sec (timestamp_ns (e2e_entry msg st)) \<noteq> 0"
    and count: "length (concat turns) \<le> 394758" and k: "length (concat turns) < k"
  shows "\<exists>w' acc n. BM_LoggerE2E pf view ds (e2e_config name TEXT) msg turns k buf w
      = Some (concat (map (log_line (date_string pf)) acc) @ replicate n (CHR 0x00), w')
    \<and> subseq acc (map (e2e_entry msg) (concat turns))"
proof -
  let ?pre = "e2e_schedule msg turns"
  have wf: "\<forall>e \<in> set (arrivals_of ?pre). wf_entry e"
    using e2e_entry_message(1) [OF _ msg] junk by (auto simp: arrivals_schedule simp del: set_concat)
  have dates: "\<forall>e \<in> set (arrivals_of ?pre). ts_sec (timestamp_ns e) \<noteq> 0"
    using dated by (auto simp: arrivals_schedule simp del: set_concat)
  have len: "length (arrivals_of ?pre) = length (concat turns)" by (simp add: arrivals_schedule)
  have size: "170 * length (arrivals_of ?pre) \<le> unat (cfg_mmap_region_size (e2e_config name TEXT))"
    using count unfolding len by (simp add: e2e_config_def LoggerConfig_default_def)
  have k': "length (arrivals_of ?pre) < k" using k unfolding len .
  obtain acc n where s: "subseq acc (arrivals_of ?pre)"
    "session_bytes pf view (?pre @ replicate k ([], True)) buf lg w1
      = concat (map (log_line (date_string pf)) acc) @ replicate n (CHR 0x00)"
    using text_session_contents [OF started buf wf dates size k'] by (elim exE conjE) (rule that; assumption)
  obtain w' where "BM_LoggerE2E pf view ds (e2e_config name TEXT) msg turns k buf w
      = Some (session_bytes pf view (?pre @ replicate k ([], True)) buf lg w1, w')"
    using BM_LoggerE2E_bytes [OF started [unfolded text_session_started_def, THEN conjunct1]] by blast
  then show ?thesis using s unfolding arrivals_schedule by auto
qed

lemma caller_latency_printed:
  assumes "BM_LoggerCallerLatency pf view ds readings turns k buf w = Some (out, log_bytes, w')"
    and "length readings < 2 ^ 50"
  shows "out \<noteq> None"
proof -
  have "out = caller_latency_report (map (\<lambda>(t0, t1). t1 - t0) readings)"
    using assms(1) by (auto simp: BM_LoggerCallerLatency_def)
  then show ?thesis using caller_latency_report_total assms(2) by simp
qed

end
