(* ===== verification/Mpmc_Results.thy ===== *)
theory Mpmc_Results
  imports Mpmc_Correct
begin

text \<open>
  What the return values of \<open>push\<close> and \<open>pop\<close> (include/mpmc_logger/mpmc_queue.hpp) tell their
  callers when other threads run in between. Proved, for any interleaving: a push that
  returns true has replaced the head exactly once, during the call, at a position that is its
  own and whose slot holds its item, and one that returns false never; a refused push had a
  reason during the call; a pop returns the next item its
  consumer has not received, or nothing, and then the position was not ready at a moment of
  the call.
\<close>

section \<open>Calls inside an execution\<close>

text \<open>The event that ends the current call of a producer by starting the next one.\<close>

fun starts_push :: "nat \<Rightarrow> 'a event \<Rightarrow> bool" where
  "starts_push i (Call_push j x) = (i = j)"
| "starts_push i e = False"

text \<open>
  The positions producer \<open>i\<close> claims along a list of events: the head values its successful
  compare-exchanges replace.
\<close>

fun claims_now :: "nat \<Rightarrow> 'a event \<Rightarrow> 'a csys \<Rightarrow> nat list" where
  "claims_now i (Run_push j spurious) s =
     (case prods s i of
        P_cas x h \<Rightarrow> if j = i \<and> \<not> spurious \<and> queue_head (mem s) = h then [unat h] else []
      | _ \<Rightarrow> [])"
| "claims_now i e s = []"

fun claimed_by :: "nat \<Rightarrow> 'a event list \<Rightarrow> 'a csys \<Rightarrow> nat list" where
  "claimed_by i [] s = []"
| "claimed_by i (e # es) s = claims_now i e s @ claimed_by i es (exec_event e s)"

lemma claimed_by_append: "claimed_by i (es @ fs) s = claimed_by i es s @ claimed_by i fs (run_events es s)"
  by (induction es arbitrary: s) simp_all

lemma exec_grows: "\<exists>xs. hist (exec_event e s) = hist s @ xs"
  using exec_event_step [of e s]
proof
  assume "exec_event e s = s"
  then have "hist (exec_event e s) = hist s @ []" by simp
  then show ?thesis by (rule exI)
qed (rule csys_step_grows(1))

lemma run_grows: "\<exists>xs. hist (run_events es s) = hist s @ xs"
proof (induction es arbitrary: s)
  case (Cons e es)
  obtain xs where "hist (exec_event e s) = hist s @ xs" using exec_grows by blast
  then show ?case using Cons.IH [of "exec_event e s"] by auto
qed simp

lemma exec_others:
  "\<not> starts_push i e \<Longrightarrow> (\<And>sp. e \<noteq> Run_push i sp) \<Longrightarrow> prods (exec_event e s) i = prods s i"
  "\<not> is_call_pop c e \<Longrightarrow> e \<noteq> Run_pop c \<Longrightarrow> conss (exec_event e s) c = conss s c \<and> got (exec_event e s) c = got s c"
  by (cases e; auto simp: do_prod_def do_cons_def do_help_def split: prod.split)+

lemma exec_live: "live (mem (exec_event e s)) c \<Longrightarrow> live (mem s) c"
  and exec_live_same: "(\<And>d. e \<noteq> Unregister d) \<Longrightarrow> live (mem (exec_event e s)) c = live (mem s) c"
proof -
  have p: "live (mem (do_prod i sp s)) = live (mem s)" for i sp
    by (cases "prods s i") (auto simp: do_prod_def Let_def)
  have c: "live (mem (do_cons d s)) = live (mem s)" for d
    by (cases "conss s d") (auto simp: do_cons_def)
  have h: "live (mem (do_help j s)) = live (mem s)" for j
    by (cases "helps s j") (auto simp: do_help_def)
  show "live (mem (exec_event e s)) c \<Longrightarrow> live (mem s) c"
    by (cases e) (auto simp: p c h unregister_consumer_def live_store_active split: if_splits)
  show "(\<And>d. e \<noteq> Unregister d) \<Longrightarrow> live (mem (exec_event e s)) c = live (mem s) c"
    by (cases e) (auto simp: p c h)
qed

text \<open>All states on the way to a state within the position budget satisfy the invariant.\<close>

definition within :: "nat \<Rightarrow> 'a csys \<Rightarrow> bool" where
  "within n s \<longleftrightarrow> length (hist s) + n < 2 ^ 64 - 1"

lemma within_before: "within n (run_events es s) \<Longrightarrow> within n s"
  using run_grows [of es s] by (auto simp: within_def)

lemma within_last: "within n (exec_event e s) \<Longrightarrow> within n s"
  using within_before [of n "[e]" s] by simp

lemma run_inv:
  assumes "reachable n d k s" and "valid_size n" and "within n (run_events es s)"
  shows "csys_inv (run_events es s) \<and> length (slots (mem (run_events es s))) = n"
  using reachable_inv [OF reachable_run [OF assms(1)] assms(2)] assms(3) by (simp add: within_def)

section \<open>What a push returns\<close>

text \<open>In a state that satisfies the invariant the head counts the claims.\<close>

lemma csys_head: "csys_inv s \<Longrightarrow> unat (queue_head (mem s)) = length (hist s)"
  by (rule shared_invD(3) [OF csys_invD(1)])

text \<open>A step makes at most the position at the head unpublished.\<close>

lemma exec_unpublished:
  "unpublished (prods (exec_event e s)) \<subseteq> insert (unat (queue_head (mem s))) (unpublished (prods s))"
proof -
  have upd: "unpublished ((prods s)(i := pc)) \<subseteq> insert (unat (queue_head (mem s))) (unpublished (prods s))"
    if "claim_of pc = None \<or> claim_of pc = claim_of (prods s i) \<or> claim_of pc = Some (unat (queue_head (mem s)))"
    for i pc
    using that by (auto simp: unpublished_def split: if_splits)
  show ?thesis
  proof (cases e)
    case (Run_push i sp)
    have "claim_of (prods (do_prod i sp s) i) = None \<or> claim_of (prods (do_prod i sp s) i) = claim_of (prods s i)
        \<or> claim_of (prods (do_prod i sp s) i) = Some (unat (queue_head (mem s)))"
      by (cases "prods s i") (auto simp: do_prod_def Let_def)
    moreover have "prods (do_prod i sp s) = (prods s)(i := prods (do_prod i sp s) i)"
      by (auto simp: do_prod_def fun_eq_iff split: prod.split)
    ultimately show ?thesis using upd [of _ i] Run_push by (metis exec_event.simps(2))
  next
    case (Call_push i x)
    then show ?thesis using upd [of "P_load_head x" i] by auto
  qed (auto simp: do_cons_def do_help_def split: prod.split)
qed

text \<open>
  \<open>K\<close>: the positions claimed since the call, \<open>b\<close>: the number of claims at the call, \<open>U\<close>: the
  positions not published yet. Once published the position stays published.
\<close>

definition placed_once :: "'a \<Rightarrow> nat \<Rightarrow> 'a list \<Rightarrow> nat list \<Rightarrow> bool" where
  "placed_once x b hs K \<longleftrightarrow> (\<exists>p. K = [p] \<and> b \<le> p \<and> p < length hs \<and> hs ! p = x)"

fun push_ok :: "'a \<Rightarrow> nat \<Rightarrow> 'a list \<Rightarrow> nat set \<Rightarrow> nat list \<Rightarrow> 'a ppc \<Rightarrow> bool" where
  "push_ok x b hs U K P_idle = False"
| "push_ok x b hs U K (P_load_head y) = (y = x \<and> K = [])"
| "push_ok x b hs U K (P_load_min y h) = (y = x \<and> K = [])"
| "push_ok x b hs U K (P_scan_active y h mt i accs) = (y = x \<and> K = [])"
| "push_ok x b hs U K (P_scan_tail y h mt i accs) = (y = x \<and> K = [])"
| "push_ok x b hs U K (P_store_min y h mt m) = (y = x \<and> K = [])"
| "push_ok x b hs U K (P_cas y h) = (y = x \<and> K = [])"
| "push_ok x b hs U K (P_copy y h) = (y = x \<and> placed_once x b hs K \<and> K = [unat h])"
| "push_ok x b hs U K (P_publish y h) = (y = x \<and> placed_once x b hs K \<and> K = [unat h])"
| "push_ok x b hs U K (P_done r) =
     (if r then placed_once x b hs K \<and> (\<forall>p \<in> set K. p \<notin> U) else K = [])"

lemma placed_once_grows: "placed_once x b hs K \<Longrightarrow> placed_once x b (hs @ xs) K"
  unfolding placed_once_def by (elim exE) (simp add: nth_append)

lemma placed_once_bound: "placed_once x b hs K \<Longrightarrow> p \<in> set K \<Longrightarrow> p < length hs"
  by (auto simp: placed_once_def)

lemma push_ok_grows:
  assumes "push_ok x b hs U K pc" and "U' \<subseteq> insert (length hs) U"
  shows "push_ok x b (hs @ xs) U' K pc"
  using assms placed_once_bound [of x b hs K] by (cases pc) (auto simp: placed_once_grows split: if_splits)

lemma push_ok_step:
  assumes inv: "csys_inv s" and ok: "push_ok x b (hist s) (unpublished (prods s)) K (prods s i)"
    and b: "b \<le> length (hist s)"
  shows "push_ok x b (hist (do_prod i sp s)) (unpublished (prods (do_prod i sp s)))
    (K @ claims_now i (Run_push i sp) s) (prods (do_prod i sp s) i)"
proof (cases "prods s i")
  case (P_cas y h)
  then show ?thesis using ok b csys_head [OF inv] by (auto simp: do_prod_def claimed_item_def placed_once_def)
next
  case (P_store_min y h mt m)
  then show ?thesis using ok by (simp add: do_prod_def claimed_item_def Let_def)
next
  case (P_publish y h)
  have "unpublished ((prods s)(i := P_done True)) = unpublished (prods s) - {unat h}"
    using unpublished_update [of "prods s" i] csys_invD(3) [OF inv] by (simp add: P_publish)
  then show ?thesis using ok by (auto simp: P_publish do_prod_def claimed_item_def)
next
  case (P_done r)
  have "(prods s)(i := P_done r) = prods s" using P_done by (simp add: fun_upd_idem)
  then show ?thesis using ok P_done by (simp add: do_prod_def claimed_item_def)
qed (use ok in \<open>auto simp: do_prod_def claimed_item_def Let_def\<close>)

lemma push_ok_run:
  assumes r: "reachable n d k s" and n: "valid_size n"
    and rest: "prod_resting (prods s i)" and quiet: "\<forall>e \<in> set es. \<not> starts_push i e"
    and bound: "within n (run_events (Call_push i x # es) s)"
  shows "let s2 = run_events (Call_push i x # es) s
    in push_ok x (length (hist s)) (hist s2) (unpublished (prods s2)) (claimed_by i (Call_push i x # es) s) (prods s2 i)"
  using quiet bound
proof (induction es rule: rev_induct)
  case Nil
  then show ?case using rest by simp
next
  case (snoc e es)
  let ?s2 = "run_events (Call_push i x # es) s" and ?K = "claimed_by i (Call_push i x # es) s"
  have eq: "run_events (Call_push i x # es @ [e]) s = exec_event e ?s2" by (simp add: run_events_append)
  have w: "within n ?s2" using snoc.prems(2) within_last unfolding eq by blast
  have ok: "push_ok x (length (hist s)) (hist ?s2) (unpublished (prods ?s2)) ?K (prods ?s2 i)"
    using snoc.IH snoc.prems(1) w by (simp add: Let_def)
  have inv: "csys_inv ?s2" using run_inv [OF r n w] by simp
  have K: "claimed_by i (Call_push i x # es @ [e]) s = ?K @ claims_now i e ?s2"
    by (simp add: claimed_by_append)
  have b: "length (hist s) \<le> length (hist ?s2)" using run_grows [of "Call_push i x # es" s] by auto
  obtain xs where g: "hist (exec_event e ?s2) = hist ?s2 @ xs" using exec_grows by blast
  have U: "unpublished (prods (exec_event e ?s2)) \<subseteq> insert (length (hist ?s2)) (unpublished (prods ?s2))"
    using exec_unpublished [of e ?s2] csys_head [OF inv] by simp
  have "push_ok x (length (hist s)) (hist (exec_event e ?s2)) (unpublished (prods (exec_event e ?s2)))
      (?K @ claims_now i e ?s2) (prods (exec_event e ?s2) i)"
  proof (cases "\<exists>sp. e = Run_push i sp")
    case True
    then obtain sp where e: "e = Run_push i sp" by blast
    show ?thesis unfolding e exec_event.simps by (rule push_ok_step [OF inv ok b])
  next
    case False
    then have "claims_now i e ?s2 = []" by (cases e) (auto split: ppc.split)
    then show ?thesis
      using exec_others(1) [of i e ?s2] snoc.prems(1) False push_ok_grows [OF ok U] g by simp
  qed
  then show ?case unfolding Let_def eq K .
qed

text \<open>Every position is claimed by exactly one producer, once.\<close>

lemma claims_now_exec:
  assumes hd: "unat (queue_head (mem s)) = length (hist s)"
  shows "hist (exec_event e s) = hist s \<and> (\<forall>i. claims_now i e s = [])
   \<or> (\<exists>i x. hist (exec_event e s) = hist s @ [x] \<and> claims_now i e s = [length (hist s)]
        \<and> (\<forall>j. j \<noteq> i \<longrightarrow> claims_now j e s = []))"
proof (cases e)
  case (Run_push i sp)
  show ?thesis
  proof (cases "prods s i")
    case (P_cas x h)
    show ?thesis
    proof (cases "\<not> sp \<and> queue_head (mem s) = h")
      case True
      then have "hist (exec_event e s) = hist s @ [x]" "claims_now i e s = [length (hist s)]"
        using P_cas hd by (auto simp: Run_push do_prod_def claimed_item_def)
      moreover have "claims_now j e s = []" if "j \<noteq> i" for j
        using that by (simp add: Run_push split: ppc.split)
      ultimately show ?thesis by blast
    next
      case False
      then have "hist (exec_event e s) = hist s"
        using P_cas by (auto simp: Run_push do_prod_def claimed_item_def)
      moreover have "claims_now j e s = []" for j
        using False P_cas by (auto simp: Run_push split: ppc.split)
      ultimately show ?thesis by blast
    qed
  next
    case (P_store_min x h mt m)
    then show ?thesis
      by (auto simp: Run_push do_prod_def claimed_item_def Let_def split: ppc.split)
  qed (auto simp: Run_push do_prod_def claimed_item_def Let_def split: ppc.split)
qed (auto simp: do_cons_def do_help_def split: prod.split)

lemma claims_now_position: "q \<in> set (claims_now i e s) \<Longrightarrow> q = unat (queue_head (mem s))"
  by (cases e) (auto split: ppc.splits if_splits)

lemma claimed_by_positions:
  assumes n: "valid_size n" and "reachable n d k s" and "within n (run_events es s)"
  shows "p \<in> set (claimed_by i es s) \<Longrightarrow> length (hist s) \<le> p"
    and "length (hist s) \<le> p \<and> p < length (hist (run_events es s)) \<Longrightarrow> \<exists>!i. p \<in> set (claimed_by i es s)"
proof -
  have run: "csys_inv s" "reachable n d k (exec_event e s)" "within n (run_events es (exec_event e s))"
    if "reachable n d k s" "within n (run_events (e # es) s)" for e es and s :: "'a csys"
    using run_inv [of n d k s "[]"] reachable_run [OF that(1), of "[e]"] within_before [OF that(2)] that n by simp_all
  have low: "length (hist s) \<le> p"
    if "reachable n d k s" "within n (run_events es s)" "p \<in> set (claimed_by i es s)"
    for i p es and s :: "'a csys"
    using that
  proof (induction es arbitrary: s)
    case (Cons e es)
    have "length (hist s) \<le> length (hist (exec_event e s))" using exec_grows [of e s] by auto
    then show ?case
      using Cons.prems(3) Cons.IH [OF run(2,3) [OF Cons.prems(1,2)]] claims_now_position [of p i e s]
        csys_head [OF run(1) [OF Cons.prems(1,2)]] by auto
  qed simp
  show "p \<in> set (claimed_by i es s) \<Longrightarrow> length (hist s) \<le> p" by (rule low [OF assms(2,3)])
  show "length (hist s) \<le> p \<and> p < length (hist (run_events es s)) \<Longrightarrow> \<exists>!i. p \<in> set (claimed_by i es s)"
    using assms(2,3)
  proof (induction es arbitrary: s)
    case (Cons e es)
    note rn = run [OF Cons.prems(2,3)]
    from claims_now_exec [OF csys_head [OF rn(1)], of e] show ?case
    proof (elim disjE exE conjE)
      assume "hist (exec_event e s) = hist s" "\<forall>i. claims_now i e s = []"
      then show ?thesis using Cons.IH [OF _ rn(2,3)] Cons.prems(1) by simp
    next
      fix i x
      assume h: "hist (exec_event e s) = hist s @ [x]" and i: "claims_now i e s = [length (hist s)]"
        and o: "\<forall>j. j \<noteq> i \<longrightarrow> claims_now j e s = []"
      show ?thesis
      proof (cases "p = length (hist s)")
        case True
        have "p \<notin> set (claimed_by j es (exec_event e s))" for j
          using low [OF rn(2,3), of p j] h True by auto
        then have "j = i" if "p \<in> set (claimed_by j (e # es) s)" for j
          using that o by (cases "j = i") auto
        then show ?thesis using i True by (intro ex1I [of _ i]) auto
      next
        case False
        have "p \<in> set (claimed_by j (e # es) s) \<longleftrightarrow> p \<in> set (claimed_by j es (exec_event e s))" for j
          using i o False by (cases "j = i") auto
        then show ?thesis using Cons.IH [OF _ rn(2,3)] Cons.prems(1) False h by simp
      qed
    qed
  qed auto
qed

section \<open>Why a push is refused\<close>

text \<open>The ring is full: some active consumer is a whole lap behind the head.\<close>

definition ring_full :: "'a MPMCQueue \<Rightarrow> bool" where
  "ring_full q \<longleftrightarrow> (\<exists>c. live q c \<and> unat (queue_head q) = unat (queue_tail q c) + length (slots q))"

definition all_unset :: "u64 list \<Rightarrow> bool" where
  "all_unset accs \<longleftrightarrow> (\<forall>a \<in> set accs. a = INVALID_POS)"

text \<open>\<open>F\<close>: a reason to refuse has occurred since the call.\<close>

definition scan_fair :: "'a MPMCQueue \<Rightarrow> bool \<Rightarrow> u64 \<Rightarrow> nat \<Rightarrow> u64 list \<Rightarrow> bool" where
  "scan_fair q F h k accs \<longleftrightarrow>
     (\<forall>a \<in> set accs. a \<noteq> INVALID_POS \<and> unat a + length (slots q) \<le> unat h \<longrightarrow> F)
   \<and> (all_unset accs \<longrightarrow> (\<forall>c. live q c \<longrightarrow> k \<le> unat c))"

definition none_live :: "'a MPMCQueue \<Rightarrow> bool" where
  "none_live q \<longleftrightarrow> (\<forall>c. \<not> live q c)"

fun refuse_ok :: "'a MPMCQueue \<Rightarrow> bool \<Rightarrow> 'a ppc \<Rightarrow> bool" where
  "refuse_ok q F (P_scan_active x h mt k accs) = scan_fair q F h k accs"
| "refuse_ok q F (P_scan_tail x h mt k accs) = (scan_fair q F h k accs \<and> (live q (of_nat k) \<or> F))"
| "refuse_ok q F (P_store_min x h mt m) = (unat m + length (slots q) \<le> unat h \<longrightarrow> F \<or> none_live q)"
| "refuse_ok q F (P_done r) = (r \<or> F \<or> none_live q)"
| "refuse_ok q F _ = True"

lemma refuse_ok_mono:
  assumes "refuse_ok q F pc" and "F \<Longrightarrow> F'" and "\<And>c. live q' c \<Longrightarrow> live q c"
    and "length (slots q') = length (slots q)" and "F' \<or> (\<forall>c. live q c \<longrightarrow> live q' c)"
  shows "refuse_ok q' F' pc"
  using assms by (cases pc) (auto simp: scan_fair_def none_live_def)

lemma merge_accs_unset:
  assumes "length accs = 4"
  shows "merge_accs accs \<in> set accs \<and> merge_accs accs \<noteq> INVALID_POS \<or> all_unset accs"
proof -
  obtain a b c e where accs: "accs = [a, b, c, e]"
    using assms by (auto simp: length_Suc_conv numeral_eq_Suc)
  have "merge_mins (a, b, c, e) = min (min a b) (min c e) \<or> min (min a b) (min c e) = INVALID_POS"
    by (simp add: merge_mins_def Let_def)
  moreover have "all_unset accs" if "min (min a b) (min c e) = INVALID_POS"
  proof -
    have "INVALID_POS \<le> a" "INVALID_POS \<le> b" "INVALID_POS \<le> c" "INVALID_POS \<le> e"
      using that by (metis min.bounded_iff order_refl)+
    then show ?thesis by (simp add: accs all_unset_def INVALID_POS_def word_order.extremum_unique)
  qed
  moreover have "min (min a b) (min c e) \<in> set accs" by (simp add: accs min_def)
  moreover have "merge_accs accs = merge_mins (a, b, c, e)"
    by (simp add: merge_accs_def accs numeral_eq_Suc)
  ultimately show ?thesis by (metis (full_types))
qed

text \<open>One step of the producer itself.\<close>

lemma refuse_ok_step:
  assumes inv: "csys_inv s" and ok: "refuse_ok (mem s) F (prods s i)" and full: "ring_full (mem s) \<Longrightarrow> F"
  shows "refuse_ok (mem (do_prod i sp s)) F (prods (do_prod i sp s) i)"
proof -
  let ?q = "mem s" and ?n = "length (slots (mem s))" and ?U = "unpublished (prods s)"
  note cd = csys_invD [OF inv]
  have P: "prod_inv ?q (hist s) ?U (prods s i)" by (rule cd(2))
  show ?thesis
  proof (cases "prods s i")
    case (P_load_min x h)
    have "scan_fair ?q F h 0 [INVALID_POS, INVALID_POS, INVALID_POS, INVALID_POS]"
      by (simp add: scan_fair_def)
    then show ?thesis using P_load_min by (simp add: do_prod_def Let_def)
  next
    case (P_scan_active x h mt k accs)
    have fair: "scan_fair ?q F h k accs" and sc: "scan_inv ?q ?U k accs" using ok P P_scan_active by simp_all
    consider "k < 32" "active (consumers ?q ! k)" | "k < 32" "\<not> active (consumers ?q ! k)" | "k = 32"
      using sc by (fastforce simp: scan_inv_def)
    then show ?thesis
    proof cases
      case 1
      have "live ?q (of_nat k)"
        using 1 shared_invD(2) [OF cd(1)] by (simp add: live_def is_active_def unat_of_nat take_bit_nat_eq_self)
      then show ?thesis using 1 P_scan_active fair by (simp add: do_prod_def)
    next
      case 2
      have "unat c \<noteq> k" if "live ?q c" for c using that 2 by (auto simp: live_def is_active_def)
      then have "scan_fair ?q F h (k + 1) accs" using fair unfolding scan_fair_def by (metis Suc_eq_plus1 Suc_leI le_neq_implies_less)
      then show ?thesis using 2 P_scan_active by (simp add: do_prod_def)
    next
      case 3
      have len: "length accs = 4" using sc by (simp add: scan_inv_def)
      have "none_live ?q" if "all_unset accs"
        using fair that 3 shared_inv_live(4) [OF cd(1)] by (fastforce simp: scan_fair_def none_live_def)
      then have "unat (merge_accs accs) + ?n \<le> unat h \<longrightarrow> F \<or> none_live ?q"
        using merge_accs_unset [OF len] fair unfolding scan_fair_def by blast
      then show ?thesis using 3 P_scan_active by (simp add: do_prod_def)
    qed
  next
    case (P_scan_tail x h mt k accs)
    let ?c = "of_nat k :: u32" and ?t = "tail (consumers ?q ! k)"
    let ?accs = "accs[k mod 4 := min (accs ! (k mod 4)) ?t]"
    have fair: "scan_fair ?q F h k accs" and lv: "live ?q ?c \<or> F" and k: "k < 32"
      and h: "unat h \<le> unat (queue_head ?q)" and len: "length accs = 4"
      using ok P P_scan_tail by (simp_all add: scan_inv_def)
    have c: "unat ?c = k" using k by (simp add: unat_of_nat take_bit_nat_eq_self)
    have t: "?t = queue_tail ?q ?c" by (simp add: queue_tail_def c)
    have le: "unat ?t \<le> length (hist s)" using shared_inv_tail(1) [OF cd(1), of ?c] c k t by simp
    have reason: F if "unat ?t + ?n \<le> unat h"
    proof (cases F)
      case False
      then have "live ?q ?c" using lv by simp
      moreover have "unat (queue_head ?q) = unat (queue_tail ?q ?c) + ?n"
        using shared_inv_live(2) [OF cd(1) \<open>live ?q ?c\<close>] shared_invD(3) [OF cd(1)] that h t by simp
      ultimately have "ring_full ?q" unfolding ring_full_def by blast
      then show ?thesis by (rule full)
    qed simp
    have mem: "min (accs ! (k mod 4)) ?t \<in> set ?accs" using len by (simp add: set_update_memI)
    have "?t \<noteq> INVALID_POS" using le shared_invD(4) [OF cd(1)] unat_INVALID_POS by auto
    then have "min (accs ! (k mod 4)) ?t \<noteq> INVALID_POS"
      by (auto simp: min_def INVALID_POS_def word_order.extremum_unique)
    then have set: "\<not> all_unset ?accs" using mem unfolding all_unset_def by blast
    have "a = ?t \<or> a \<in> set accs" if "a \<in> set ?accs" for a
    proof -
      have "a = min (accs ! (k mod 4)) ?t \<or> a \<in> set accs"
        using that set_update_subset_insert by fastforce
      then show ?thesis using len by (auto simp: min_def split: if_splits)
    qed
    then have "scan_fair ?q F h (k + 1) ?accs"
      using fair reason set unfolding scan_fair_def by blast
    then show ?thesis using P_scan_tail by (simp add: do_prod_def)
  next
    case (P_store_min x h mt m)
    have h: "unat h \<le> unat (queue_head ?q)" and m: "below_marks ?q ?U (unat m)" using P P_store_min by simp_all
    have "h \<ge> m + SIZE ?q \<longleftrightarrow> unat h \<ge> unat m + ?n" by (rule unat_size_guard [OF cd(1) below_marks_head [OF m]])
    then show ?thesis using ok P_store_min by (auto simp: do_prod_def Let_def none_live_def)
  next
    case (P_done r)
    then show ?thesis using ok by (simp add: do_prod_def)
  qed (use ok in \<open>auto simp: do_prod_def Let_def\<close>)
qed

text \<open>A condition met by some state since a call.\<close>

definition met_since :: "('a csys \<Rightarrow> bool) \<Rightarrow> 'a event list \<Rightarrow> 'a csys \<Rightarrow> bool" where
  "met_since Q es s \<longleftrightarrow> (\<exists>fs gs. es = fs @ gs \<and> Q (run_events fs s))"

lemma met_since_grows: "met_since Q es s \<Longrightarrow> met_since Q (es @ fs) s"
  unfolding met_since_def by (metis append.assoc)

lemma met_since_now: "Q (run_events es s) \<Longrightarrow> met_since Q es s"
  unfolding met_since_def by (metis append_Nil2)

lemma refuse_ok_run:
  assumes r: "reachable n d k s" and n: "valid_size n" and quiet: "\<forall>e \<in> set es. \<not> starts_push i e"
    and bound: "within n (run_events es s)" and start: "prods s i = P_load_head x"
  shows "refuse_ok (mem (run_events es s))
    (met_since (\<lambda>u. ring_full (mem u)) es s \<or> (\<exists>c. Unregister c \<in> set es)) (prods (run_events es s) i)"
  using quiet bound
proof (induction es rule: rev_induct)
  case Nil
  then show ?case using start by simp
next
  case (snoc e es)
  let ?s = "run_events es s" and ?F = "\<lambda>es. met_since (\<lambda>u. ring_full (mem u)) es s \<or> (\<exists>c. Unregister c \<in> set es)"
  have eq: "run_events (es @ [e]) s = exec_event e ?s" by (simp add: run_events_append)
  have w: "within n ?s" using snoc.prems(2) within_last unfolding eq by blast
  have ok: "refuse_ok (mem ?s) (?F es) (prods ?s i)" using snoc w by simp
  have inv: "csys_inv ?s" using run_inv [OF r n w] by simp
  have F: "?F es \<Longrightarrow> ?F (es @ [e])" using met_since_grows by auto
  have "refuse_ok (mem (exec_event e ?s)) (?F (es @ [e])) (prods (exec_event e ?s) i)"
  proof (cases "\<exists>sp. e = Run_push i sp")
    case True
    then obtain sp where e: "e = Run_push i sp" by blast
    have full: "ring_full (mem ?s) \<Longrightarrow> ?F es" by (rule disjI1, rule met_since_now, simp)
    have "refuse_ok (mem (exec_event e ?s)) (?F es) (prods (exec_event e ?s) i)"
      unfolding e exec_event.simps by (rule refuse_ok_step [OF inv ok full])
    then show ?thesis by (rule refuse_ok_mono) (use F in auto)
  next
    case False
    have pc: "prods (exec_event e ?s) i = prods ?s i" 
      by (rule exec_others(1)) (use snoc.prems(1) False in auto)
    have len: "length (slots (mem (exec_event e ?s))) = length (slots (mem ?s))"
      using run_inv [OF r n snoc.prems(2)] run_inv [OF r n w] unfolding eq by simp
    have lv: "?F (es @ [e]) \<or> (\<forall>c. live (mem ?s) c \<longrightarrow> live (mem (exec_event e ?s)) c)"
      using exec_live_same [of e ?s] by (cases e) auto
    show ?thesis unfolding pc by (rule refuse_ok_mono [OF ok F exec_live len lv])
  qed
  then show ?case unfolding eq .
qed

section \<open>What a pop returns\<close>

text \<open>The position at a consumer's tail cannot be read: nothing claimed, or not yet published.\<close>

definition not_ready :: "u32 \<Rightarrow> 'a csys \<Rightarrow> bool" where
  "not_ready c s \<longleftrightarrow> \<not> live (mem s) c \<or> queue_tail (mem s) c = queue_head (mem s)
     \<or> (\<exists>i. claim_of (prods s i) = Some (unat (queue_tail (mem s) c)))"

fun pop_ok :: "'a list \<Rightarrow> 'a list \<Rightarrow> bool \<Rightarrow> 'a cpc \<Rightarrow> bool" where
  "pop_ok g g' Z C_idle = False"
| "pop_ok g g' Z (C_done None) = (g' = g \<and> Z)"
| "pop_ok g g' Z (C_done (Some x)) = (g' = g @ [x])"
| "pop_ok g g' Z _ = (g' = g)"

lemma pop_ok_mono: "pop_ok g g' Z pc \<Longrightarrow> (Z \<Longrightarrow> Z') \<Longrightarrow> pop_ok g g' Z' pc"
  by (induction g g' Z pc rule: pop_ok.induct) auto

lemma pop_ok_step:
  assumes inv: "csys_inv s" and c: "unat c < 32" and ok: "pop_ok g (got s c) Z (conss s c)" and Z: "not_ready c s \<Longrightarrow> Z"
  shows "pop_ok g (got (do_cons c s) c) Z (conss (do_cons c s) c)"
proof (cases "conss s c")
  case C_load_active
  have "not_ready c s" if "\<not> is_active (mem s) c" using that by (simp add: not_ready_def live_def)
  then show ?thesis using C_load_active ok Z by (auto simp: do_cons_def received_item_def)
next
  case (C_load_seq t)
  note cd = csys_invD [OF inv]
  have lv: "live (mem s) c" and t: "queue_tail (mem s) c = t" using cd(4) [OF c] C_load_seq by simp_all
  have "not_ready c s" if "sequence (slots (mem s) ! slot_index (mem s) t) \<noteq> t"
  proof (rule ccontr)
    assume "\<not> not_ready c s"
    then have ne: "t \<noteq> queue_head (mem s)" and nu: "unat t \<notin> unpublished (prods s)"
      using t by (auto simp: not_ready_def unpublished_def)
    have "unat t < length (hist s)"
      using ne shared_inv_live(1) [OF cd(1) lv] shared_invD(3) [OF cd(1)] t by (metis le_neq_implies_less unsigned_word_eqI)
    then have "sequence (slots (mem s) ! slot_index (mem s) t) = t"
      using shared_inv_published [OF cd(1) _ _ nu] shared_inv_live(2) [OF cd(1) lv] t
        slot_index_mod [OF shared_invD(1) [OF cd(1)], of t] by simp
    then show False using that by simp
  qed
  then show ?thesis using C_load_seq ok Z by (auto simp: do_cons_def received_item_def)
next
  case (C_done r)
  then show ?thesis using ok by (cases r) (simp_all add: do_cons_def received_item_def)
qed (use ok in \<open>simp_all add: do_cons_def received_item_def\<close>)

lemma pop_ok_run:
  assumes r: "reachable n d k s" and n: "valid_size n" and quiet: "\<forall>e \<in> set es. \<not> is_call_pop c e"
    and bound: "within n (run_events es s)" and start: "conss s c = C_load_active" and c: "unat c < 32"
  shows "pop_ok (got s c) (got (run_events es s) c) (met_since (not_ready c) es s) (conss (run_events es s) c)"
  using quiet bound
proof (induction es rule: rev_induct)
  case Nil
  then show ?case using start by simp
next
  case (snoc e es)
  let ?s = "run_events es s"
  have eq: "run_events (es @ [e]) s = exec_event e ?s" by (simp add: run_events_append)
  have w: "within n ?s" using snoc.prems(2) within_last unfolding eq by blast
  have ok: "pop_ok (got s c) (got ?s c) (met_since (not_ready c) es s) (conss ?s c)" using snoc w by simp
  have inv: "csys_inv ?s" using run_inv [OF r n w] by simp
  have "pop_ok (got s c) (got (exec_event e ?s) c) (met_since (not_ready c) es s) (conss (exec_event e ?s) c)"
  proof (cases "e = Run_pop c")
    case True
    show ?thesis
      using pop_ok_step [OF inv c ok met_since_now] c by (simp add: True)
  next
    case False
    then show ?thesis using ok exec_others(2) [of c e ?s] snoc.prems(1) by simp
  qed
  then show ?case unfolding eq by (rule pop_ok_mono) (rule met_since_grows)
qed

section \<open>Properties\<close>

text \<open>C2: What a push returns. Whatever other threads do during a call of \<open>push\<close>: when it returns
  true, its compare-exchange has replaced the head exactly once, at a position the head had
  not passed at the call and has passed now; no other producer has claimed that position; and
  the slot of the position holds its sequence number and the item, unless the head is already
  more than a lap ahead. When it returns false, it has not replaced the head. The position
  is also the place of the item in the order in which consumers receive, so an item accepted is
  delivered once, one refused never, and a producer's items keep the order of its calls.\<close>

theorem push_result_is_position:
  assumes "reachable n d k s" and "valid_size n"
    and "prod_resting (prods s i)" and "\<forall>e \<in> set es. \<not> starts_push i e"
    and "length (hist (run_events (Call_push i x # es) s)) + n < 2 ^ 64 - 1"
    and "prods (run_events (Call_push i x # es) s) i = P_done r"
  shows "let t = run_events (Call_push i x # es) s in
    if r
    then \<exists>p. claimed_by i (Call_push i x # es) s = [p]
        \<and> unat (queue_head (mem s)) \<le> p \<and> p < unat (queue_head (mem t))
        \<and> (\<forall>j. j \<noteq> i \<longrightarrow> p \<notin> set (claimed_by j (Call_push i x # es) s))
        \<and> (unat (queue_head (mem t)) \<le> p + n \<longrightarrow>
             slots (mem t) ! (p mod n) = \<lparr>sequence = of_nat p, data = x\<rparr>)
        \<and> hist t ! p = x
    else claimed_by i (Call_push i x # es) s = []"
proof -
  let ?es = "Call_push i x # es"
  let ?t = "run_events ?es s"
  have w: "within n ?t" using assms(5) by (simp add: within_def)
  have inv: "csys_inv ?t" "length (slots (mem ?t)) = n" using run_inv [OF assms(1,2) w] by blast+
  have hd: "unat (queue_head (mem ?t)) = length (hist ?t)" "unat (queue_head (mem s)) = length (hist s)"
    using csys_head [OF inv(1)] csys_head [of s] run_inv [of n d k s "[]"] assms(1,2) within_before [OF w] by simp_all
  have ok: "push_ok x (length (hist s)) (hist ?t) (unpublished (prods ?t)) (claimed_by i ?es s) (P_done r)"
    using push_ok_run [OF assms(1-4) w] assms(6) unfolding Let_def by simp
  show ?thesis
  proof (cases r)
    case True
    then obtain p where p: "claimed_by i ?es s = [p]" "length (hist s) \<le> p"
      "p < length (hist ?t)" "hist ?t ! p = x" "p \<notin> unpublished (prods ?t)"
      using ok by (auto simp: placed_once_def)
    have mine: "p \<in> set (claimed_by i ?es s)" using p(1) by simp
    have "\<exists>!j. p \<in> set (claimed_by j ?es s)"
      by (rule claimed_by_positions(2) [OF assms(2,1) w]) (use p in simp)
    then have others: "\<forall>j. j \<noteq> i \<longrightarrow> p \<notin> set (claimed_by j ?es s)" using mine by blast
    have "length (hist ?t) \<le> p + n \<longrightarrow> slots (mem ?t) ! (p mod n) = \<lparr>sequence = of_nat p, data = x\<rparr>"
      using shared_inv_published [OF csys_invD(1) [OF inv(1)] p(3) _ p(5)] p(4) inv(2) by simp
    then have "\<exists>p. claimed_by i ?es s = [p] \<and> length (hist s) \<le> p \<and> p < length (hist ?t)
        \<and> (\<forall>j. j \<noteq> i \<longrightarrow> p \<notin> set (claimed_by j ?es s))
        \<and> (length (hist ?t) \<le> p + n \<longrightarrow> slots (mem ?t) ! (p mod n) = \<lparr>sequence = of_nat p, data = x\<rparr>)
        \<and> hist ?t ! p = x"
      using p others by blast
    then show ?thesis unfolding Let_def hd if_P [OF True] .
  next
    case False
    then show ?thesis using ok by (simp add: Let_def)
  qed
qed

definition demo_overtaken :: "nat event list" where
  "demo_overtaken = [Call_push 1 8, Run_push 0 False, Run_push 1 False, Run_push 1 False, Run_push 1 False]
     @ replicate 6 (Run_push 0 False) @ [Run_push 1 False, Run_push 0 False, Run_push 0 False]"

lemma demo_overtaken_result:
  "prods (run_events (Call_push 0 7 # demo_overtaken) (init_csys 16 0 1)) 0 = P_done True"
  "claimed_by 0 (Call_push 0 7 # demo_overtaken) (init_csys 16 0 1) = [1]"
  "length (hist (run_events (Call_push 0 7 # demo_overtaken) (init_csys 16 0 1))) = 2"
  "unat (queue_head (mem (run_events (Call_push 0 7 # demo_overtaken) (init_csys 16 0 1)))) = 2"
  by code_simp+

lemma push_result_is_position_witness:
  "slots (mem (run_events (Call_push 0 7 # demo_overtaken) (init_csys 16 0 1))) ! 1 = \<lparr>sequence = 1, data = 7\<rparr>
    \<and> 1 \<notin> set (claimed_by 1 (Call_push 0 7 # demo_overtaken) (init_csys 16 0 1))"
proof -
  let ?s = "init_csys 16 0 1 :: nat csys"
  have r: "reachable 16 0 1 ?s" by (rule reachable.start)
  have v: "valid_size 16" by (simp add: valid_size_def)
  have rest: "prod_resting (prods ?s 0)" by (simp add: init_csys_def prod_resting_def)
  have quiet: "\<forall>e \<in> set demo_overtaken. \<not> starts_push 0 e" by (simp add: demo_overtaken_def)
  have b: "length (hist (run_events (Call_push 0 7 # demo_overtaken) ?s)) + 16 < 2 ^ 64 - 1"
    unfolding demo_overtaken_result(3) by simp
  show ?thesis
    using push_result_is_position [OF r v rest quiet b demo_overtaken_result(1)]
    unfolding Let_def demo_overtaken_result(2,4) by auto
qed

text \<open>C3: Why a push is refused. When \<open>push\<close> returns false then at some moment of the call the ring
  was full (an active consumer was a whole lap behind the head), or a consumer unregistered
  during the call, or no consumer is active any more: the stale minimum, the stale head and
  the scan that runs while consumers advance never refuse an item for another reason.\<close>

theorem refused_push_had_reason:
  assumes "reachable n d k s" and "valid_size n" and "prod_resting (prods s i)"
    and "\<forall>e \<in> set es. \<not> starts_push i e"
    and "length (hist (run_events (Call_push i x # es) s)) + n < 2 ^ 64 - 1"
    and "prods (run_events (Call_push i x # es) s) i = P_done False"
  shows "(\<exists>fs gs. es = fs @ gs \<and> ring_full (mem (run_events (Call_push i x # fs) s)))
    \<or> (\<exists>c. Unregister c \<in> set es) \<or> none_live (mem (run_events (Call_push i x # es) s))"
proof -
  let ?s = "exec_event (Call_push i x) s"
  have r: "reachable n d k ?s" using reachable_run [OF assms(1), of "[Call_push i x]"] by simp
  have start: "prods ?s i = P_load_head x" using assms(3) by simp
  have w: "within n (run_events es ?s)" using assms(5) by (simp add: within_def)
  have "refuse_ok (mem (run_events es ?s))
      (met_since (\<lambda>u. ring_full (mem u)) es ?s \<or> (\<exists>c. Unregister c \<in> set es)) (P_done False)"
    using refuse_ok_run [OF r assms(2,4) w start] assms(6) by (simp only: run_events.simps)
  then show ?thesis unfolding met_since_def run_events.simps refuse_ok.simps by blast
qed

definition demo_lap :: "nat csys" where
  "demo_lap = run_events (concat (map (\<lambda>x. Call_push 0 x # replicate 5 (Run_push 0 False)) [0..<16])) (init_csys 16 0 1)"

lemma demo_lap_refuses:
  "prod_resting (prods demo_lap 0)"
  "prods (run_events (Call_push 0 16 # replicate 37 (Run_push 0 False)) demo_lap) 0 = P_done False"
  "length (hist (run_events (Call_push 0 16 # replicate 37 (Run_push 0 False)) demo_lap)) = 16"
  "live (mem (run_events (Call_push 0 16 # replicate 37 (Run_push 0 False)) demo_lap)) 0"
  by code_simp+

lemma refused_push_had_reason_witness:
  "\<exists>fs gs. replicate 37 (Run_push 0 False) = fs @ gs \<and> ring_full (mem (run_events (Call_push 0 16 # fs) demo_lap))"
proof -
  have r: "reachable 16 0 1 demo_lap" unfolding demo_lap_def by (rule run_reachable)
  have quiet: "\<forall>e \<in> set (replicate 37 (Run_push 0 False)). \<not> starts_push 0 (e :: nat event)" by simp
  have "\<not> none_live (mem (run_events (Call_push 0 16 # replicate 37 (Run_push 0 False)) demo_lap))"
    using demo_lap_refuses(4) unfolding none_live_def by blast
  moreover have "\<not> (\<exists>c. Unregister c \<in> set (replicate 37 (Run_push 0 False) :: nat event list))" by simp
  moreover have "valid_size 16" by (simp add: valid_size_def)
  moreover have "length (hist (run_events (Call_push 0 16 # replicate 37 (Run_push 0 False)) demo_lap)) + 16 < 2 ^ 64 - 1"
    unfolding demo_lap_refuses(3) by simp
  ultimately show ?thesis
    using refused_push_had_reason [OF r _ demo_lap_refuses(1) quiet _ demo_lap_refuses(2)] by blast
qed

text \<open>C4: What a pop returns. Whatever other threads do during a call of \<open>pop\<close>: when it returns an
  item, the calls of its consumer have returned exactly one item more than before, and it
  is the next one in the order of claims; when it returns none, they have returned no more
  than before, and at a moment of the call the consumer was unregistered, its tail was at the
  head, or the position at its tail was claimed by a push that had not published it yet.\<close>

theorem pop_result_is_next_item:
  assumes "reachable n d k s" and "valid_size n" and "unat c < 32" and "cons_resting (conss s c)"
    and "\<forall>e \<in> set es. \<not> is_call_pop c e"
    and "length (hist (run_events (Call_pop c # es) s)) + n < 2 ^ 64 - 1"
    and "conss (run_events (Call_pop c # es) s) c = C_done r"
  shows "case r of
      Some x \<Rightarrow> got (run_events (Call_pop c # es) s) c = got s c @ [x]
        \<and> length (got s c) < length (hist (run_events (Call_pop c # es) s))
        \<and> x = hist (run_events (Call_pop c # es) s) ! length (got s c)
    | None \<Rightarrow> got (run_events (Call_pop c # es) s) c = got s c
        \<and> (\<exists>fs gs. es = fs @ gs \<and> not_ready c (run_events (Call_pop c # fs) s))"
proof -
  let ?s = "exec_event (Call_pop c) s" and ?t = "run_events (Call_pop c # es) s"
  have r: "reachable n d k ?s" using reachable_run [OF assms(1), of "[Call_pop c]"] by simp
  have start: "conss ?s c = C_load_active" and g: "got ?s c = got s c" using assms(3,4) by simp_all
  have w: "within n (run_events es ?s)" using assms(6) by (simp add: within_def)
  have ok: "pop_ok (got s c) (got ?t c) (met_since (not_ready c) es ?s) (C_done r)"
    using pop_ok_run [OF r assms(2,5) w start assms(3)] assms(7) unfolding g run_events.simps by simp
  have del: "got ?t c = take (unat (queue_tail (mem ?t) c)) (hist ?t)"
    using delivery_in_order [OF reachable_run [OF assms(1)] assms(2) assms(6,3)] by simp
  show ?thesis
  proof (cases r)
    case None
    then show ?thesis using ok by (auto simp: met_since_def)
  next
    case (Some x)
    then have gx: "got ?t c = got s c @ [x]" using ok by simp
    have "length (got ?t c) \<le> length (hist ?t)" unfolding del by simp
    then have lt: "length (got s c) < length (hist ?t)" unfolding gx by simp
    have "got ?t c ! length (got s c) = x" unfolding gx by simp
    moreover have "got ?t c ! length (got s c) = hist ?t ! length (got s c)"
    proof -
      have "length (got s c) < unat (queue_tail (mem ?t) c)"
        using arg_cong [OF del, of length] unfolding gx by simp
      then show ?thesis unfolding del by (rule nth_take)
    qed
    ultimately show ?thesis using gx lt Some by simp
  qed
qed

lemma demo_pop_result:
  "conss (run_events (Call_pop 0 # replicate 5 (Run_pop 0)) demo_unread) 0 = C_done (Some 7)"
  "cons_resting (conss demo_unread 0)" "got demo_unread 0 = []"
  "length (hist (run_events (Call_pop 0 # replicate 5 (Run_pop 0)) demo_unread)) = 1"
  by code_simp+

lemma pop_result_is_next_item_witness:
  "got (run_events (Call_pop 0 # replicate 5 (Run_pop 0)) demo_unread) 0 = [7]"
proof -
  have r: "reachable 16 0 1 demo_unread" unfolding demo_unread_def by (rule run_reachable)
  have quiet: "\<forall>e \<in> set (replicate 5 (Run_pop 0)). \<not> is_call_pop 0 (e :: nat event)" by simp
  have v: "valid_size 16" by (simp add: valid_size_def)
  have c: "unat (0 :: u32) < 32" by simp
  have b: "length (hist (run_events (Call_pop 0 # replicate 5 (Run_pop 0)) demo_unread)) + 16 < 2 ^ 64 - 1"
    unfolding demo_pop_result(4) by simp
  show ?thesis
    using pop_result_is_next_item [OF r v c demo_pop_result(2) quiet b demo_pop_result(1)]
    by (simp add: demo_pop_result(3) del: run_events.simps)
qed

end
