(* ===== verification/Weak_Memory.thy ===== *)
theory Weak_Memory
  imports Mpmc_Correct
begin

text \<open>
  \<open>push\<close>, \<open>pop\<close>, \<open>recompute_and_store_min_tail\<close> and \<open>unregister_consumer\<close> of
  include/mpmc_logger/mpmc_queue.hpp under the memory orders they ask for. \<open>Mpmc_Concurrent\<close> lets every load see the latest store; here a load may return any
  value stored to its location so far, a thread's knowledge of the plain accesses of other
  threads grows only where an acquire load reads a release store, and the plain accesses to
  the slots are checked against that knowledge: an access that is not ordered after a
  conflicting one is a race, and then a copy out of the slot reads an arbitrary item and a copy
  into it leaves one. Proved: no data race on a slot in any execution, and delivery in order
  and exactly once as under sequential consistency.
\<close>

section \<open>Orders, locations, knowledge\<close>

datatype order = Relaxed | Acquire | Release

text \<open>
  The plain accesses: the write of the item of a position, the read of it by a consumer. A
  view is a set of plain accesses, those that happen before a point of the execution.
\<close>

datatype plain = Wr nat | Rd u32 nat

type_synonym view = "plain set"

primrec pos_of :: "plain \<Rightarrow> nat" where
  "pos_of (Wr p) = p"
| "pos_of (Rd c p) = p"

datatype loc = L_head | L_min | L_tail u32 | L_active u32 | L_seq nat

fun write_loc :: "loc \<Rightarrow> u64 \<Rightarrow> 'a MPMCQueue \<Rightarrow> 'a MPMCQueue" where
  "write_loc L_head v q = store_head v q"
| "write_loc L_min v q = store_min_tail v q"
| "write_loc (L_tail c) v q = store_tail c v q"
| "write_loc (L_active c) v q = store_active c (v \<noteq> 0) q"
| "write_loc (L_seq j) v q = store_sequence j v q"

fun read_loc :: "loc \<Rightarrow> 'a MPMCQueue \<Rightarrow> u64" where
  "read_loc L_head q = queue_head q"
| "read_loc L_min q = cached_min q"
| "read_loc (L_tail c) q = queue_tail q c"
| "read_loc (L_active c) q = (if is_active q c then 1 else 0)"
| "read_loc (L_seq j) q = sequence (slots q ! j)"

definition acquired :: "order \<Rightarrow> view \<Rightarrow> view \<Rightarrow> view" where
  "acquired mo V K = (if mo = Acquire then K \<union> V else K)"

definition released :: "order \<Rightarrow> view \<Rightarrow> view" where
  "released mo K = (if mo = Release then K else {})"

section \<open>The atomic accesses of the code and their orders\<close>

text \<open>The location and order of the load a thread performs next, if its next access is a load.\<close>

fun prod_load :: "'a ppc \<Rightarrow> (loc \<times> order) option" where
  "prod_load (P_load_head x) = Some (L_head, Relaxed)"
| "prod_load (P_load_min x h) = Some (L_min, Acquire)"
| "prod_load (P_scan_active x h mt i accs) =
     (if i < unat MAX_CONSUMERS then Some (L_active (of_nat i), Acquire) else None)"
| "prod_load (P_scan_tail x h mt i accs) = Some (L_tail (of_nat i), Acquire)"
| "prod_load pc = None"

fun prod_store :: "'a MPMCQueue \<Rightarrow> 'a ppc \<Rightarrow> (loc \<times> u64 \<times> order) option" where
  "prod_store q (P_store_min x h mt m) = (if m \<noteq> mt then Some (L_min, m, Release) else None)"
| "prod_store q (P_publish x h) = Some (L_seq (slot_index q h), h, Release)"
| "prod_store q pc = None"

fun prod_plain :: "'a ppc \<Rightarrow> plain option" where
  "prod_plain (P_copy x h) = Some (Wr (unat h))"
| "prod_plain pc = None"

text \<open>The compare-exchange, when it succeeds: it reads the latest head and is not a release.\<close>

definition CAS_ORDER :: order where
  "CAS_ORDER = Acquire"

fun claims :: "bool \<Rightarrow> 'a MPMCQueue \<Rightarrow> 'a ppc \<Rightarrow> bool" where
  "claims spurious q (P_cas x h) = (\<not> spurious \<and> queue_head q = h)"
| "claims spurious q pc = False"

text \<open>The same for a thread inside \<open>recompute_and_store_min_tail\<close>.\<close>

fun help_load :: "hpc \<Rightarrow> (loc \<times> order) option" where
  "help_load (H_scan_active i accs) =
     (if i < unat MAX_CONSUMERS then Some (L_active (of_nat i), Acquire) else None)"
| "help_load (H_scan_tail i accs) = Some (L_tail (of_nat i), Acquire)"
| "help_load pc = None"

fun help_store :: "hpc \<Rightarrow> (loc \<times> u64 \<times> order) option" where
  "help_store (H_store m) = Some (L_min, m, Release)"
| "help_store pc = None"

fun cons_load :: "u32 \<Rightarrow> 'a MPMCQueue \<Rightarrow> 'a cpc \<Rightarrow> (loc \<times> order) option" where
  "cons_load c q C_load_active = Some (L_active c, Acquire)"
| "cons_load c q C_load_tail = Some (L_tail c, Relaxed)"
| "cons_load c q (C_load_seq t) = Some (L_seq (slot_index q t), Acquire)"
| "cons_load c q pc = None"

fun cons_store :: "u32 \<Rightarrow> 'a cpc \<Rightarrow> (loc \<times> u64 \<times> order) option" where
  "cons_store c (C_advance t x) = Some (L_tail c, t + 1, Release)"
| "cons_store c pc = None"

fun cons_plain :: "u32 \<Rightarrow> 'a cpc \<Rightarrow> plain option" where
  "cons_plain c (C_copy t) = Some (Rd c (unat t))"
| "cons_plain c pc = None"

definition UNREGISTER_ORDER :: order where
  "UNREGISTER_ORDER = Release"

section \<open>The system\<close>

text \<open>
  \<open>latest\<close> holds the latest values, the threads and the histories. \<open>stores\<close> lists what was
  stored to each location, the latest first, with the view the store released; \<open>performed\<close>
  the plain accesses done so far.
\<close>

record 'a wsys =
  latest :: "'a csys"
  stores :: "loc \<Rightarrow> (u64 \<times> view) list"
  prod_view :: "nat \<Rightarrow> view"
  cons_view :: "u32 \<Rightarrow> view"
  help_view :: "nat \<Rightarrow> view"
  performed :: view

text \<open>Two plain accesses conflict when they are to the same slot and one of them is a write.\<close>

primrec is_write :: "plain \<Rightarrow> bool" where
  "is_write (Wr p) = True"
| "is_write (Rd c p) = False"

definition conflict :: "'a MPMCQueue \<Rightarrow> plain \<Rightarrow> plain \<Rightarrow> bool" where
  "conflict q e e' \<longleftrightarrow> slot_index q (of_nat (pos_of e)) = slot_index q (of_nat (pos_of e'))
     \<and> (is_write e \<or> is_write e')"

text \<open>
  A plain access races when a conflicting one was performed that its thread does not know. What
  a racing access reads or leaves in the slot is arbitrary (\<open>junk\<close>).
\<close>

definition races :: "'a wsys \<Rightarrow> plain \<Rightarrow> view \<Rightarrow> bool" where
  "races s e K \<longleftrightarrow> (\<exists>e' \<in> performed s. conflict (mem (latest s)) e' e \<and> e' \<notin> K)"

definition plain_slot :: "'a MPMCQueue \<Rightarrow> plain \<Rightarrow> nat" where
  "plain_slot q e = slot_index q (of_nat (pos_of e))"

text \<open>
  A load of value \<open>v\<close> does what the access does on a queue that has \<open>v\<close> there, and leaves the
  memory alone. Other accesses act on the latest values.
\<close>

definition do_wprod :: "nat \<Rightarrow> bool \<Rightarrow> u64 \<times> view \<Rightarrow> 'a \<Rightarrow> 'a wsys \<Rightarrow> 'a wsys" where
  "do_wprod i spurious msg junk s =
     (let b = latest s; q = mem b; pc = prods b i; K = prod_view s i;
          s1 = s\<lparr>latest := do_prod i spurious b\<rparr>
      in case prod_load pc of
           Some (l, mo) \<Rightarrow>
             s\<lparr>latest := b\<lparr>prods := (prods b)(i := fst (prod_step spurious (write_loc l (fst msg) q) pc))\<rparr>,
               prod_view := (prod_view s)(i := acquired mo (snd msg) K)\<rparr>
         | None \<Rightarrow>
             (case prod_store q pc of
                Some (l, v, mo) \<Rightarrow> s1\<lparr>stores := (stores s)(l := (v, released mo K) # stores s l)\<rparr>
              | None \<Rightarrow>
                  (case prod_plain pc of
                     Some e \<Rightarrow>
                       (if races s e K
                        then s1\<lparr>latest := (latest s1)\<lparr>mem :=
                               store_data (plain_slot q e) junk (mem (latest s1))\<rparr>\<rparr>
                        else s1)\<lparr>performed := insert e (performed s),
                                 prod_view := (prod_view s)(i := insert e K)\<rparr>
                   | None \<Rightarrow>
                       if claims spurious q pc
                       then let V = snd (hd (stores s L_head)); K1 = acquired CAS_ORDER V K
                            in s1\<lparr>stores := (stores s)(L_head :=
                                    (queue_head q + 1, released CAS_ORDER K1 \<union> V) # stores s L_head),
                                  prod_view := (prod_view s)(i := K1)\<rparr>
                       else s1)))"

definition do_wcons :: "u32 \<Rightarrow> u64 \<times> view \<Rightarrow> 'a \<Rightarrow> 'a wsys \<Rightarrow> 'a wsys" where
  "do_wcons c msg junk s =
     (let b = latest s; q = mem b; pc = conss b c; K = cons_view s c;
          s1 = s\<lparr>latest := do_cons c b\<rparr>
      in case cons_load c q pc of
           Some (l, mo) \<Rightarrow>
             s\<lparr>latest := b\<lparr>conss := (conss b)(c := fst (cons_step c (write_loc l (fst msg) q) pc))\<rparr>,
               cons_view := (cons_view s)(c := acquired mo (snd msg) K)\<rparr>
         | None \<Rightarrow>
             (case cons_store c pc of
                Some (l, v, mo) \<Rightarrow> s1\<lparr>stores := (stores s)(l := (v, released mo K) # stores s l)\<rparr>
              | None \<Rightarrow>
                  (case cons_plain c pc of
                     Some e \<Rightarrow>
                       (if races s e K
                        then s\<lparr>latest := b\<lparr>conss := (conss b)(c :=
                               fst (cons_step c (store_data (plain_slot q e) junk q) pc))\<rparr>\<rparr>
                        else s1)\<lparr>performed := insert e (performed s),
                                 cons_view := (cons_view s)(c := insert e K)\<rparr>
                   | None \<Rightarrow> s1)))"

definition do_whelp :: "nat \<Rightarrow> u64 \<times> view \<Rightarrow> 'a wsys \<Rightarrow> 'a wsys" where
  "do_whelp j msg s =
     (let b = latest s; q = mem b; pc = helps b j; K = help_view s j; s1 = s\<lparr>latest := do_help j b\<rparr>
      in case help_load pc of
           Some (l, mo) \<Rightarrow>
             s\<lparr>latest := b\<lparr>helps := (helps b)(j := fst (help_step (write_loc l (fst msg) q) pc))\<rparr>,
               help_view := (help_view s)(j := acquired mo (snd msg) K)\<rparr>
         | None \<Rightarrow>
             (case help_store pc of
                Some (l, v, mo) \<Rightarrow> s1\<lparr>stores := (stores s)(l := (v, released mo K) # stores s l)\<rparr>
              | None \<Rightarrow> s1))"

text \<open>
  A producer's load may return any store to its location, and so may that of a thread
  recomputing the minimum (a consumer's thread that recomputes reads fewer stores and knows
  more, so it is covered). So may a consumer's, except that it
  reads its own tail and flag, which only its thread stores, as it left them.
\<close>

definition prod_msg_ok :: "'a wsys \<Rightarrow> nat \<Rightarrow> u64 \<times> view \<Rightarrow> bool" where
  "prod_msg_ok s i msg \<longleftrightarrow>
     (case prod_load (prods (latest s) i) of Some (l, mo) \<Rightarrow> msg \<in> set (stores s l) | None \<Rightarrow> True)"

definition cons_msg_ok :: "'a wsys \<Rightarrow> u32 \<Rightarrow> u64 \<times> view \<Rightarrow> bool" where
  "cons_msg_ok s c msg \<longleftrightarrow>
     (case cons_load c (mem (latest s)) (conss (latest s) c) of
        Some (l, mo) \<Rightarrow> (if l = L_tail c \<or> l = L_active c then stores s l \<noteq> [] \<and> msg = hd (stores s l)
                       else msg \<in> set (stores s l))
      | None \<Rightarrow> True)"

definition help_msg_ok :: "'a wsys \<Rightarrow> nat \<Rightarrow> u64 \<times> view \<Rightarrow> bool" where
  "help_msg_ok s j msg \<longleftrightarrow>
     (case help_load (helps (latest s) j) of Some (l, mo) \<Rightarrow> msg \<in> set (stores s l) | None \<Rightarrow> True)"

inductive wstep :: "'a wsys \<Rightarrow> 'a wsys \<Rightarrow> bool" where
  w_call_push: "prod_resting (prods (latest s) i) \<Longrightarrow>
     wstep s (s\<lparr>latest := (latest s)\<lparr>prods := (prods (latest s))(i := P_load_head x)\<rparr>\<rparr>)"
| w_run_push: "prod_msg_ok s i msg \<Longrightarrow> wstep s (do_wprod i spurious msg junk s)"
| w_call_pop: "cons_resting (conss (latest s) c) \<Longrightarrow> unat c < 32 \<Longrightarrow>
     wstep s (s\<lparr>latest := (latest s)\<lparr>conss := (conss (latest s))(c := C_load_active)\<rparr>\<rparr>)"
| w_run_pop: "unat c < 32 \<Longrightarrow> cons_msg_ok s c msg \<Longrightarrow> wstep s (do_wcons c msg junk s)"
| w_unregister: "cons_resting (conss (latest s) c) \<Longrightarrow> unat c < 32 \<Longrightarrow>
     wstep s (s\<lparr>latest := (latest s)\<lparr>mem := unregister_consumer c (mem (latest s))\<rparr>,
       stores := (stores s)(L_active c :=
         (0, released UNREGISTER_ORDER (cons_view s c)) # stores s (L_active c))\<rparr>)"
| w_call_recompute: "helps (latest s) j = H_idle \<Longrightarrow>
     wstep s (s\<lparr>latest := (latest s)\<lparr>helps := (helps (latest s))(j :=
       H_scan_active 0 [INVALID_POS, INVALID_POS, INVALID_POS, INVALID_POS])\<rparr>\<rparr>)"
| w_run_recompute: "help_msg_ok s j msg \<Longrightarrow> wstep s (do_whelp j msg s)"

text \<open>The threads start after construction and registration, so they know everything so far.\<close>

definition init_wsys :: "nat \<Rightarrow> 'a \<Rightarrow> nat \<Rightarrow> 'a wsys" where
  "init_wsys n d k =
     \<lparr>latest = init_csys n d k, stores = (\<lambda>l. [(read_loc l (mem (init_csys n d k)), {})]),
      prod_view = (\<lambda>_. {}), cons_view = (\<lambda>_. {}), help_view = (\<lambda>_. {}), performed = {}\<rparr>"

inductive wreachable :: "nat \<Rightarrow> 'a \<Rightarrow> nat \<Rightarrow> 'a wsys \<Rightarrow> bool" for n d k where
  w_start: "wreachable n d k (init_wsys n d k)"
| w_step: "wreachable n d k s \<Longrightarrow> wstep s t \<Longrightarrow> wreachable n d k t"

section \<open>The invariant\<close>

text \<open>\<open>known A m K\<close>: the view \<open>K\<close> has every performed access to a position below \<open>m\<close>.\<close>

definition known :: "view \<Rightarrow> nat \<Rightarrow> view \<Rightarrow> bool" where
  "known A m K \<longleftrightarrow> (\<forall>e \<in> A. pos_of e < m \<longrightarrow> e \<in> K)"

definition read_upto :: "u32 \<Rightarrow> nat \<Rightarrow> view \<Rightarrow> bool" where
  "read_upto c m V \<longleftrightarrow> (\<forall>p < m. Wr p \<in> V \<and> Rd c p \<in> V)"

text \<open>What a stored value and the view released with it guarantee to the loads that read them.\<close>

fun msg_ok :: "'a MPMCQueue \<Rightarrow> nat set \<Rightarrow> view \<Rightarrow> loc \<Rightarrow> u64 \<times> view \<Rightarrow> bool" where
  "msg_ok q U A L_head (v, V) = (unat v \<le> unat (queue_head q))"
| "msg_ok q U A L_min (v, V) = (below_marks q U (unat v) \<and> known A (unat v) V)"
| "msg_ok q U A (L_tail c) (v, V) =
     (unat c < 32 \<longrightarrow> unat v \<le> unat (queue_tail q c) \<and> read_upto c (unat v) V)"
| "msg_ok q U A (L_active c) (v, V) =
     (unat c < 32 \<and> v = 0 \<longrightarrow> \<not> live q c \<and> (\<forall>p. Rd c p \<in> A \<longrightarrow> Rd c p \<in> V))"
| "msg_ok q U A (L_seq j) (v, V) =
     (j < length (slots q) \<longrightarrow>
        v = INVALID_POS \<or> unat v < unat (queue_head q) \<and> unat v \<notin> U \<and> Wr (unat v) \<in> V)"

definition own_ok :: "'a MPMCQueue \<Rightarrow> (loc \<Rightarrow> (u64 \<times> view) list) \<Rightarrow> bool" where
  "own_ok q S \<longleftrightarrow> (\<forall>c. unat c < 32 \<longrightarrow> fst (hd (S (L_tail c))) = queue_tail q c
     \<and> (fst (hd (S (L_active c))) \<noteq> 0 \<longleftrightarrow> is_active q c))"

definition store_inv :: "'a MPMCQueue \<Rightarrow> nat set \<Rightarrow> view \<Rightarrow> (loc \<Rightarrow> (u64 \<times> view) list) \<Rightarrow> bool" where
  "store_inv q U A S \<longleftrightarrow> (\<forall>l. \<forall>m \<in> set (S l). msg_ok q U A l m) \<and> own_ok q S"

definition plain_inv :: "'a MPMCQueue \<Rightarrow> nat set \<Rightarrow> view \<Rightarrow> bool" where
  "plain_inv q U A \<longleftrightarrow> (\<forall>e \<in> A. pos_of e < unat (queue_head q)
     \<and> (case e of Wr p \<Rightarrow> True | Rd c p \<Rightarrow> p \<notin> U \<and> unat c < 32))"

text \<open>What a scan knows: the reads of the consumers seen, and the writes they read.\<close>

definition scan_known :: "view \<Rightarrow> nat \<Rightarrow> u64 list \<Rightarrow> view \<Rightarrow> bool" where
  "scan_known A i accs K \<longleftrightarrow>
     (\<forall>c p. unat c < i \<and> Rd c p \<in> A \<and> (\<forall>a \<in> set accs. p < unat a) \<longrightarrow> Rd c p \<in> K)
   \<and> ((\<exists>a \<in> set accs. a \<noteq> INVALID_POS) \<longrightarrow>
        (\<forall>p. Wr p \<in> A \<and> (\<forall>a \<in> set accs. p < unat a) \<longrightarrow> Wr p \<in> K))"

text \<open>A claim of position \<open>h\<close>: the accesses to all positions a lap and more behind are known.\<close>

definition room_known :: "'a MPMCQueue \<Rightarrow> nat set \<Rightarrow> view \<Rightarrow> u64 \<Rightarrow> view \<Rightarrow> bool" where
  "room_known q U A h K \<longleftrightarrow>
     (\<exists>m. unat h < m + length (slots q) \<and> below_marks q U m \<and> known A m K)"

fun prod_hb :: "'a MPMCQueue \<Rightarrow> nat set \<Rightarrow> view \<Rightarrow> view \<Rightarrow> 'a ppc \<Rightarrow> bool" where
  "prod_hb q U A K (P_scan_active x h mt i accs) = (known A (unat mt) K \<and> scan_known A i accs K)"
| "prod_hb q U A K (P_scan_tail x h mt i accs) = (known A (unat mt) K \<and> scan_known A i accs K)"
| "prod_hb q U A K (P_store_min x h mt m) = (known A (unat mt) K \<and> known A (unat m) K)"
| "prod_hb q U A K (P_cas x h) = room_known q U A h K"
| "prod_hb q U A K (P_copy x h) = (room_known q U A h K \<and> Wr (unat h) \<notin> A)"
| "prod_hb q U A K (P_publish x h) = (Wr (unat h) \<in> K)"
| "prod_hb q U A K _ = True"

fun help_hb :: "view \<Rightarrow> view \<Rightarrow> hpc \<Rightarrow> bool" where
  "help_hb A K H_idle = True"
| "help_hb A K (H_scan_active i accs) = scan_known A i accs K"
| "help_hb A K (H_scan_tail i accs) = scan_known A i accs K"
| "help_hb A K (H_store m) = known A (unat m) K"

definition cons_hb :: "'a MPMCQueue \<Rightarrow> view \<Rightarrow> u32 \<Rightarrow> view \<Rightarrow> 'a cpc \<Rightarrow> bool" where
  "cons_hb q A c K pc \<longleftrightarrow> (\<forall>p. Rd c p \<in> A \<longrightarrow> Rd c p \<in> K) \<and> read_upto c (unat (queue_tail q c)) K
     \<and> (case pc of C_copy t \<Rightarrow> Wr (unat t) \<in> K
        | C_advance t x \<Rightarrow> Wr (unat t) \<in> K \<and> Rd c (unat t) \<in> K | _ \<Rightarrow> True)"

definition winv :: "'a wsys \<Rightarrow> bool" where
  "winv s \<longleftrightarrow>
     (let b = latest s; q = mem b; U = unpublished (prods b); A = performed s
      in csys_inv b \<and> store_inv q U A (stores s) \<and> plain_inv q U A
       \<and> (\<forall>i. prod_hb q U A (prod_view s i) (prods b i))
       \<and> (\<forall>j. help_hb A (help_view s j) (helps b j))
       \<and> (\<forall>c. unat c < 32 \<longrightarrow> cons_hb q A c (cons_view s c) (conss b c)))"

section \<open>Knowledge is stable\<close>

text \<open>
  The plain accesses a step may perform: a claimed position is written, the position at a
  consumer's tail is read. Neither is below a bound no mark is below.
\<close>

fun fresh_plain :: "'a MPMCQueue \<Rightarrow> nat set \<Rightarrow> plain \<Rightarrow> bool" where
  "fresh_plain q U (Wr p) = (p \<in> U)"
| "fresh_plain q U (Rd c p) = (readable q U c (queue_tail q c) \<and> p = unat (queue_tail q c) \<and> unat c < 32)"

definition moves ::
  "'a MPMCQueue \<Rightarrow> 'a list \<Rightarrow> nat set \<Rightarrow> view \<Rightarrow> 'a MPMCQueue \<Rightarrow> 'a list \<Rightarrow> nat set \<Rightarrow> view \<Rightarrow> bool" where
  "moves q hs U A q' hs' U' A' \<longleftrightarrow> advances q hs U q' hs' U'
     \<and> (A' = A \<or> (\<exists>e. A' = insert e A \<and> fresh_plain q U e))"

lemma movesD:
  assumes "moves q hs U A q' hs' U' A'"
  shows "advances q hs U q' hs' U'" "A \<subseteq> A'" "e \<in> A' \<Longrightarrow> e \<notin> A \<Longrightarrow> fresh_plain q U e"
  using assms by (auto simp: moves_def)

lemma fresh_above:
  assumes "fresh_plain q U e" and "below_marks q U m"
  shows "m \<le> pos_of e"
proof (cases e)
  case (Wr p)
  then show ?thesis using assms low_marksI(2) [of p U q] by (simp add: below_marks_def)
next
  case (Rd c p)
  then show ?thesis using assms low_marksI(3) [of q c U] by (simp add: below_marks_def readable_def)
qed

lemma known_view: "known A m K \<Longrightarrow> K \<subseteq> K' \<Longrightarrow> known A m K'"
  by (auto simp: known_def)

lemma known_moves:
  assumes "moves q hs U A q' hs' U' A'" and "known A m K" and "below_marks q U m"
  shows "known A' m K"
  using assms movesD(3) [OF assms(1)] fresh_above [OF _ assms(3)] unfolding known_def
  by (meson linorder_not_less)

lemma scan_known_moves:
  assumes mv: "moves q hs U A q' hs' U' A'" and k: "scan_known A i accs K" and sc: "scan_inv q U i accs"
  shows "scan_known A' i accs K"
proof -
  have "Rd c p \<in> K" if "unat c < i" "Rd c p \<in> A'" "\<forall>a \<in> set accs. p < unat a" for c p
  proof (cases "Rd c p \<in> A")
    case True
    then show ?thesis using k that by (auto simp: scan_known_def)
  next
    case False
    then have f: "live q c" "p = unat (queue_tail q c)"
      using movesD(3) [OF mv that(2)] by (auto simp: readable_def)
    have "\<exists>a \<in> set accs. unat a \<le> unat (queue_tail q c)" if "unat c < i"
      using sc f(1) that by (simp add: scan_inv_def)
    then show ?thesis using that(1,3) f(2) by fastforce
  qed
  moreover have "Wr p \<in> K"
    if "a \<in> set accs" "a \<noteq> INVALID_POS" "Wr p \<in> A'" "\<forall>a \<in> set accs. p < unat a" for a p
  proof (cases "Wr p \<in> A")
    case True
    then show ?thesis using k that by (auto simp: scan_known_def)
  next
    case False
    then have "p \<in> U" using movesD(3) [OF mv that(3)] by simp
    then have "unat a \<le> p" using sc that(1,2) by (auto simp: scan_inv_def)
    then show ?thesis using that(1,4) by fastforce
  qed
  ultimately show ?thesis by (auto simp: scan_known_def)
qed

lemma room_known_moves:
  assumes "moves q hs U A q' hs' U' A'" and "room_known q U A h K"
  shows "room_known q' U' A' h K"
proof -
  obtain m where m: "unat h < m + length (slots q)" "below_marks q U m" "known A m K"
    using assms(2) by (auto simp: room_known_def)
  have "length (slots q') = length (slots q)" using movesD(1) [OF assms(1)] by (simp add: advances_def)
  then show ?thesis
    using m known_moves [OF assms(1) m(3,2)] below_marks_advances [OF movesD(1) [OF assms(1)] m(2)]
    by (auto simp: room_known_def)
qed

lemma prod_hb_moves:
  assumes mv: "moves q hs U A q' hs' U' A'" and hb: "prod_hb q U A K pc" and inv: "prod_inv q hs U pc"
    and new: "\<And>x h. pc = P_copy x h \<Longrightarrow> Wr (unat h) \<notin> A'"
  shows "prod_hb q' U' A' K pc"
  using hb inv known_moves [OF mv] scan_known_moves [OF mv] room_known_moves [OF mv] new
  by (cases pc) auto

lemma help_hb_moves:
  assumes mv: "moves q hs U A q' hs' U' A'" and hb: "help_hb A K pc" and inv: "help_inv q U pc"
  shows "help_hb A' K pc"
  using hb inv known_moves [OF mv] scan_known_moves [OF mv] by (cases pc) auto

lemma msg_ok_moves:
  assumes mv: "moves q hs U A q' hs' U' A'" and ok: "msg_ok q U A l m"
    and tails: "\<And>c. unat c < 32 \<Longrightarrow> unat (queue_tail q c) \<le> unat (queue_tail q' c)"
  shows "msg_ok q' U' A' l m"
proof -
  obtain v V where m: "m = (v, V)" by fastforce
  have adv: "advances q hs U q' hs' U'" by (rule movesD(1) [OF mv])
  then have a: "unat (queue_head q) \<le> unat (queue_head q')" "\<And>c. live q' c \<Longrightarrow> live q c"
    "U' \<subseteq> insert (unat (queue_head q)) U" "length (slots q') = length (slots q)"
    by (auto simp: advances_def)
  show ?thesis
  proof (cases l)
    case L_head
    then show ?thesis using ok a(1) by (simp add: m)
  next
    case L_min
    then show ?thesis using ok known_moves [OF mv] below_marks_advances [OF adv] by (simp add: m)
  next
    case (L_tail c)
    then show ?thesis using ok tails [of c] by (auto simp: m)
  next
    case (L_active c)
    have "Rd c p \<in> A" if "\<not> live q c" "Rd c p \<in> A'" for p
      using movesD(3) [OF mv that(2)] that(1) by (auto simp: readable_def)
    then show ?thesis using ok a(2) L_active by (auto simp: m)
  next
    case (L_seq j)
    then show ?thesis using ok a(1,3,4) by (auto simp: m)
  qed
qed

lemma store_inv_moves:
  assumes "moves q hs U A q' hs' U' A'" and "store_inv q U A S"
    and "\<And>c. unat c < 32 \<Longrightarrow> unat (queue_tail q c) \<le> unat (queue_tail q' c)" and "own_ok q' S"
  shows "store_inv q' U' A' S"
  using assms msg_ok_moves [OF assms(1)] by (auto simp: store_inv_def)

lemma store_inv_push:
  assumes "store_inv q' U' A' S" and "msg_ok q' U' A' l m" and "own_ok q' (S(l := m # S l))"
  shows "store_inv q' U' A' (S(l := m # S l))"
  using assms by (auto simp: store_inv_def)

lemma plain_inv_moves:
  assumes mv: "moves q hs U A q' hs' U' A'" and inv: "plain_inv q U A" and sh: "shared_inv q hs U"
  shows "plain_inv q' U' A'"
proof -
  have a: "unat (queue_head q) \<le> unat (queue_head q')" "U' \<subseteq> insert (unat (queue_head q)) U"
    using movesD(1) [OF mv] by (auto simp: advances_def)
  have "pos_of e < unat (queue_head q) \<and> (case e of Wr p \<Rightarrow> True | Rd c p \<Rightarrow> p \<notin> U \<and> unat c < 32)"
    if "e \<in> A'" for e
  proof (cases "e \<in> A")
    case True
    then show ?thesis using inv by (auto simp: plain_inv_def)
  next
    case False
    then show ?thesis
      using movesD(3) [OF mv that] shared_inv_claimed(1) [OF sh] shared_invD(3) [OF sh]
      by (cases e) (auto simp: readable_def)
  qed
  then show ?thesis using a unfolding plain_inv_def by (fastforce split: plain.splits)
qed

lemma cons_hb_same:
  assumes "cons_hb q A c K pc" and "queue_tail q' c = queue_tail q c"
    and "\<And>p. Rd c p \<in> A' \<Longrightarrow> Rd c p \<in> A"
  shows "cons_hb q' A' c K pc"
  using assms by (auto simp: cons_hb_def)

section \<open>Frames\<close>

lemma winvD:
  assumes "winv s"
  shows "csys_inv (latest s)"
    "store_inv (mem (latest s)) (unpublished (prods (latest s))) (performed s) (stores s)"
    "plain_inv (mem (latest s)) (unpublished (prods (latest s))) (performed s)"
    "prod_hb (mem (latest s)) (unpublished (prods (latest s))) (performed s) (prod_view s i) (prods (latest s) i)"
    "unat c < 32 \<Longrightarrow> cons_hb (mem (latest s)) (performed s) c (cons_view s c) (conss (latest s) c)"
    "help_hb (performed s) (help_view s j) (helps (latest s) j)"
  using assms by (auto simp: winv_def Let_def)

lemma winvI:
  assumes "csys_inv (latest s)"
    and "store_inv (mem (latest s)) (unpublished (prods (latest s))) (performed s) (stores s)"
    and "plain_inv (mem (latest s)) (unpublished (prods (latest s))) (performed s)"
    and "\<And>i. prod_hb (mem (latest s)) (unpublished (prods (latest s))) (performed s) (prod_view s i) (prods (latest s) i)"
    and "\<And>c. unat c < 32 \<Longrightarrow> cons_hb (mem (latest s)) (performed s) c (cons_view s c) (conss (latest s) c)"
    and "\<And>j. help_hb (performed s) (help_view s j) (helps (latest s) j)"
  shows "winv s"
  using assms by (auto simp: winv_def Let_def)

lemma store_invD:
  assumes "store_inv q U A S"
  shows "m \<in> set (S l) \<Longrightarrow> msg_ok q U A l m" "own_ok q S"
  using assms by (auto simp: store_inv_def)

lemma winv_copyD: "winv s \<Longrightarrow> prods (latest s) j = P_copy x h \<Longrightarrow> Wr (unat h) \<notin> performed s"
  using winvD(4) [of s j] by simp

lemma plain_readers: "winv s \<Longrightarrow> Rd c p \<in> performed s \<Longrightarrow> unat c < 32"
  using winvD(3) [of s] by (fastforce simp: plain_inv_def)

lemma moves_refl: "moves q hs U A q hs U A"
  by (simp add: moves_def advances_refl)

text \<open>What remains to show of a producer step, and of a consumer step.\<close>

lemma winv_prodI:
  assumes inv: "winv s"
    and t: "latest t = b" "stores t = S" "prod_view t = (prod_view s)(i := K)" "cons_view t = cons_view s"
      "help_view t = help_view s" "performed t = A"
    and b: "prods b = (prods (latest s))(i := pc)" "conss b = conss (latest s)" "helps b = helps (latest s)" and csys: "csys_inv b"
    and mv: "moves (mem (latest s)) (hist (latest s)) (unpublished (prods (latest s))) (performed s)
      (mem b) (hist b) (unpublished (prods b)) A"
    and st: "store_inv (mem b) (unpublished (prods b)) A S"
    and mine: "prod_hb (mem b) (unpublished (prods b)) A K pc"
    and others: "\<And>j x h. j \<noteq> i \<Longrightarrow> prods (latest s) j = P_copy x h \<Longrightarrow> Wr (unat h) \<notin> A"
    and tails: "queue_tail (mem b) = queue_tail (mem (latest s))"
    and reads: "\<And>c p. Rd c p \<in> A \<Longrightarrow> Rd c p \<in> performed s"
  shows "winv t"
proof (rule winvI)
  note d = winvD [OF inv]
  show "csys_inv (latest t)" using csys t by simp
  show "store_inv (mem (latest t)) (unpublished (prods (latest t))) (performed t) (stores t)"
    using st t by simp
  show "plain_inv (mem (latest t)) (unpublished (prods (latest t))) (performed t)"
    using plain_inv_moves [OF mv d(3) csys_invD(1) [OF d(1)]] t by simp
  show "prod_hb (mem (latest t)) (unpublished (prods (latest t))) (performed t) (prod_view t j) (prods (latest t) j)" for j
  proof (cases "j = i")
    case True
    then show ?thesis using mine t b by simp
  next
    case False
    show ?thesis
      using prod_hb_moves [OF mv d(4) [of j] csys_invD(2) [OF d(1)]] others [OF False] False t b by auto
  qed
  show "cons_hb (mem (latest t)) (performed t) c (cons_view t c) (conss (latest t) c)" if "unat c < 32" for c
    using cons_hb_same [OF d(5) [OF that], of "mem b" A] tails reads t b by simp
  show "help_hb (performed t) (help_view t j) (helps (latest t) j)" for j
    using help_hb_moves [OF mv d(6) [of j] csys_invD(6) [OF d(1)]] t b by simp
qed

lemma winv_consI:
  assumes inv: "winv s"
    and t: "latest t = b" "stores t = S" "prod_view t = prod_view s" "cons_view t = (cons_view s)(c := K)"
      "help_view t = help_view s" "performed t = A"
    and b: "prods b = prods (latest s)" "conss b = (conss (latest s))(c := pc)" "helps b = helps (latest s)" and csys: "csys_inv b"
    and mv: "moves (mem (latest s)) (hist (latest s)) (unpublished (prods (latest s))) (performed s)
      (mem b) (hist b) (unpublished (prods b)) A"
    and st: "store_inv (mem b) (unpublished (prods b)) A S"
    and mine: "unat c < 32 \<Longrightarrow> cons_hb (mem b) A c K pc"
    and tails: "\<And>e. e \<noteq> c \<Longrightarrow> queue_tail (mem b) e = queue_tail (mem (latest s)) e"
    and reads: "\<And>e p. e \<noteq> c \<Longrightarrow> Rd e p \<in> A \<Longrightarrow> Rd e p \<in> performed s"
    and writes: "\<And>p. Wr p \<in> A \<Longrightarrow> Wr p \<in> performed s"
  shows "winv t"
proof (rule winvI)
  note d = winvD [OF inv]
  show "csys_inv (latest t)" using csys t by simp
  show "store_inv (mem (latest t)) (unpublished (prods (latest t))) (performed t) (stores t)"
    using st t by simp
  show "plain_inv (mem (latest t)) (unpublished (prods (latest t))) (performed t)"
    using plain_inv_moves [OF mv d(3) csys_invD(1) [OF d(1)]] t by simp
  show "prod_hb (mem (latest t)) (unpublished (prods (latest t))) (performed t) (prod_view t j) (prods (latest t) j)" for j
  proof -
    have "Wr (unat h) \<notin> A" if "prods (latest s) j = P_copy x h" for x h
      using d(4) [of j] that writes by auto
    then show ?thesis
      using prod_hb_moves [OF mv d(4) [of j] csys_invD(2) [OF d(1)]] t b by auto
  qed
  show "cons_hb (mem (latest t)) (performed t) e (cons_view t e) (conss (latest t) e)" if "unat e < 32" for e
  proof (cases "e = c")
    case True
    then show ?thesis using mine that t b by simp
  next
    case False
    then show ?thesis
      using cons_hb_same [OF d(5) [OF that], of "mem b" A] tails [OF False] reads [OF False] t b by simp
  qed
  show "help_hb (performed t) (help_view t j) (helps (latest t) j)" for j
    using help_hb_moves [OF mv d(6) [of j] csys_invD(6) [OF d(1)]] t b by simp
qed

lemma winv_helpI:
  assumes inv: "winv s"
    and t: "latest t = b" "stores t = S" "prod_view t = prod_view s" "cons_view t = cons_view s"
      "help_view t = (help_view s)(j := K)" "performed t = performed s"
    and b: "prods b = prods (latest s)" "conss b = conss (latest s)" "helps b = (helps (latest s))(j := pc)"
      and csys: "csys_inv b"
    and mv: "moves (mem (latest s)) (hist (latest s)) (unpublished (prods (latest s))) (performed s)
      (mem b) (hist b) (unpublished (prods b)) (performed s)"
    and st: "store_inv (mem b) (unpublished (prods b)) (performed s) S"
    and mine: "help_hb (performed s) K pc" and tails: "queue_tail (mem b) = queue_tail (mem (latest s))"
  shows "winv t"
proof (rule winvI)
  note d = winvD [OF inv]
  show "csys_inv (latest t)" using csys t by simp
  show "store_inv (mem (latest t)) (unpublished (prods (latest t))) (performed t) (stores t)"
    using st t by simp
  show "plain_inv (mem (latest t)) (unpublished (prods (latest t))) (performed t)"
    using plain_inv_moves [OF mv d(3) csys_invD(1) [OF d(1)]] t by simp
  show "prod_hb (mem (latest t)) (unpublished (prods (latest t))) (performed t) (prod_view t i) (prods (latest t) i)" for i
    using prod_hb_moves [OF mv d(4) [of i] csys_invD(2) [OF d(1)]] winv_copyD [OF inv] t b by auto
  show "cons_hb (mem (latest t)) (performed t) c (cons_view t c) (conss (latest t) c)" if "unat c < 32" for c
    using cons_hb_same [OF d(5) [OF that], of "mem b"] tails t b by simp
  show "help_hb (performed t) (help_view t i) (helps (latest t) i)" for i
    using mine d(6) [of i] t b by simp
qed

lemma winv_help_local:
  assumes inv: "winv s" and P: "help_inv (mem (latest s)) (unpublished (prods (latest s))) pc"
    and hb: "help_hb (performed s) K pc"
  shows "winv (s\<lparr>latest := (latest s)\<lparr>helps := (helps (latest s))(j := pc)\<rparr>, help_view := (help_view s)(j := K)\<rparr>)"
proof -
  note d = winvD [OF inv]
  have "csys_inv ((latest s)\<lparr>helps := (helps (latest s))(j := pc)\<rparr>)"
    using csys_inv_helpI [OF d(1) csys_invD(1) [OF d(1)] disjI1 [OF refl] P, of j] by simp
  then show ?thesis
    by (intro winv_helpI [OF inv, where b = "(latest s)\<lparr>helps := (helps (latest s))(j := pc)\<rparr>"])
      (use d(2) hb in \<open>auto simp: moves_refl\<close>)
qed

lemma winv_prod_local:
  assumes inv: "winv s" and cl: "claim_of pc = claim_of (prods (latest s) i)"
    and P: "prod_inv (mem (latest s)) (hist (latest s)) (unpublished (prods (latest s))) pc"
    and hb: "prod_hb (mem (latest s)) (unpublished (prods (latest s))) (performed s) K pc"
  shows "winv (s\<lparr>latest := (latest s)\<lparr>prods := (prods (latest s))(i := pc)\<rparr>, prod_view := (prod_view s)(i := K)\<rparr>)"
proof -
  note d = winvD [OF inv]
  have U: "unpublished ((prods (latest s))(i := pc)) = unpublished (prods (latest s))"
    using cl by (auto simp: unpublished_def)
  show ?thesis
    by (rule winv_prodI [OF inv, where b = "(latest s)\<lparr>prods := (prods (latest s))(i := pc)\<rparr>"])
      (use csys_inv_prod_localI [OF d(1) cl P] d(2) hb winv_copyD [OF inv] in \<open>auto simp: U moves_refl\<close>)
qed

lemma winv_cons_local:
  assumes inv: "winv s" and c: "unat c < 32"
    and C: "cons_inv (mem (latest s)) (hist (latest s)) (unpublished (prods (latest s))) c pc"
    and hb: "cons_hb (mem (latest s)) (performed s) c K pc"
  shows "winv (s\<lparr>latest := (latest s)\<lparr>conss := (conss (latest s))(c := pc)\<rparr>, cons_view := (cons_view s)(c := K)\<rparr>)"
proof -
  note d = winvD [OF inv]
  have "csys_inv ((latest s)\<lparr>mem := mem (latest s), conss := (conss (latest s))(c := pc),
      got := (got (latest s))(c := got (latest s) c @ [])\<rparr>)"
    by (rule csys_inv_consI [OF d(1) csys_invD(1) [OF d(1)] advances_refl])
      (use C csys_invD(5) [OF d(1) c] in auto)
  then have "csys_inv ((latest s)\<lparr>conss := (conss (latest s))(c := pc)\<rparr>)" by simp
  then show ?thesis
    by (intro winv_consI [OF inv, where b = "(latest s)\<lparr>conss := (conss (latest s))(c := pc)\<rparr>"])
      (use d(2) hb in \<open>auto simp: moves_refl\<close>)
qed

section \<open>The loads\<close>

lemma scan_known_start: "scan_known A 0 [INVALID_POS, INVALID_POS, INVALID_POS, INVALID_POS] K"
  by (simp add: scan_known_def)

lemma of_nat_u32: "i < 32 \<Longrightarrow> unat (of_nat i :: u32) = i"
  by (simp add: unat_of_nat take_bit_nat_eq_self)

lemma unat_eq_of_nat: "unat (c :: u32) = i \<Longrightarrow> c = of_nat i"
  by auto

text \<open>A consumer seen inactive makes no more reads, and its reads were released with the flag.\<close>

lemma scan_known_skip:
  assumes k: "scan_known A i accs K" and rd: "\<And>p. Rd (of_nat i) p \<in> A \<Longrightarrow> Rd (of_nat i) p \<in> V"
  shows "scan_known A (i + 1) accs (K \<union> V)"
proof -
  have "Rd c p \<in> K \<union> V" if "unat c < i + 1" "Rd c p \<in> A" "\<forall>a \<in> set accs. p < unat a" for c p
  proof (cases "unat c = i")
    case True
    then show ?thesis using rd that unat_eq_of_nat [OF True] by simp
  next
    case False
    then show ?thesis using k that by (auto simp: scan_known_def)
  qed
  then show ?thesis using k by (auto simp: scan_known_def)
qed

text \<open>A consumer seen at tail \<open>v\<close> has released its reads below \<open>v\<close> and what they read.\<close>

lemma scan_known_take:
  assumes k: "scan_known A i accs K" and len: "length accs = 4"
    and rd: "read_upto (of_nat i) (unat v) V"
  shows "scan_known A (i + 1) (accs[i mod 4 := min (accs ! (i mod 4)) v]) (K \<union> V)"
proof -
  let ?k = "i mod 4" and ?m = "min (accs ! (i mod 4)) v"
  have mem: "?m \<in> set (accs[?k := ?m])" using len by (simp add: set_update_memI)
  have le: "unat ?m \<le> unat v" "unat ?m \<le> unat (accs ! ?k)"
    by (simp_all only: word_le_nat_alt [symmetric] min.cobounded1 min.cobounded2)
  have old: "\<forall>a \<in> set accs. p < unat a" if "\<forall>a \<in> set (accs[?k := ?m]). p < unat a" for p
  proof
    fix a assume "a \<in> set accs"
    then obtain j where j: "j < length accs" "a = accs ! j" by (auto simp: in_set_conv_nth)
    show "p < unat a"
    proof (cases "j = ?k")
      case True
      then show ?thesis using that mem le(2) j by fastforce
    next
      case False
      then have "a \<in> set (accs[?k := ?m])" using j by (metis length_list_update nth_list_update_neq nth_mem)
      then show ?thesis using that by blast
    qed
  qed
  have new: "p < unat v" if "\<forall>a \<in> set (accs[?k := ?m]). p < unat a" for p
    using that mem le(1) by fastforce
  have reads: "Rd c p \<in> K \<union> V"
    if "unat c < i + 1" "Rd c p \<in> A" "\<forall>a \<in> set (accs[?k := ?m]). p < unat a" for c p
  proof (cases "unat c = i")
    case True
    then show ?thesis using rd new [OF that(3)] unat_eq_of_nat [OF True] by (simp add: read_upto_def)
  next
    case False
    then show ?thesis using k that(1,2) old [OF that(3)] by (auto simp: scan_known_def)
  qed
  have writes: "Wr p \<in> K \<union> V" if "\<forall>a \<in> set (accs[?k := ?m]). p < unat a" for p
    using rd new [OF that] by (simp add: read_upto_def)
  show ?thesis unfolding scan_known_def using reads writes by blast
qed

text \<open>At the end of a scan, everything below the merged minimum is known.\<close>

lemma scan_known_finish:
  assumes k: "scan_known A 32 accs K" and len: "length accs = 4"
    and A: "\<And>c p. Rd c p \<in> A \<Longrightarrow> unat c < 32"
  shows "known A (unat (merge_accs accs)) K"
proof (cases "merge_accs accs = 0")
  case True
  then show ?thesis by (simp add: known_def)
next
  case False
  let ?m = "merge_accs accs"
  have m: "?m \<in> set accs" using merge_accs_min(1) [OF len] False by simp
  have ni: "?m \<noteq> INVALID_POS"
    by (auto simp: merge_accs_def merge_mins_def Let_def INVALID_POS_def split: if_splits)
  have low: "p < unat a" if "p < unat ?m" "a \<in> set accs" for a p
  proof (cases "a = INVALID_POS")
    case True
    then show ?thesis using that(1) word_order.extremum [of ?m] by (simp add: INVALID_POS_def word_le_nat_alt)
  next
    case False
    then have "?m \<le> a" by (rule merge_accs_min(2) [OF len that(2)])
    then show ?thesis using that(1) by (simp add: word_le_nat_alt)
  qed
  have "e \<in> K" if "e \<in> A" "pos_of e < unat ?m" for e
  proof (cases e)
    case (Wr p)
    then show ?thesis using k m ni low that unfolding scan_known_def by fastforce
  next
    case (Rd c p)
    then show ?thesis using k low that A unfolding scan_known_def by fastforce
  qed
  then show ?thesis by (simp add: known_def)
qed

text \<open>The two loads of a scan, whatever store they read.\<close>

lemma scan_load_active:
  assumes sh: "shared_inv q hs U" and k: "k < 32"
  shows "active (consumers (store_active (of_nat k) b q) ! k) = b"
    and "scan_inv q U k accs \<Longrightarrow> scan_known A k accs K \<Longrightarrow> msg_ok q U A (L_active (of_nat k)) (0, V) \<Longrightarrow>
      scan_inv q U (k + 1) accs \<and> scan_known A (k + 1) accs (K \<union> V)"
proof -
  let ?c = "of_nat k :: u32"
  have c: "unat ?c = k" using k by (rule of_nat_u32)
  show "active (consumers (store_active ?c b q) ! k) = b" using k c shared_invD(2) [OF sh] by simp
  assume sc: "scan_inv q U k accs" and kn: "scan_known A k accs K" and ok: "msg_ok q U A (L_active ?c) (0, V)"
  have "\<not> live q ?c" and rd: "\<And>p. Rd ?c p \<in> A \<Longrightarrow> Rd ?c p \<in> V" using ok k c by auto
  then have "\<not> active (consumers q ! k)" using c k shared_invD(2) [OF sh] by (simp add: live_def is_active_def)
  then show "scan_inv q U (k + 1) accs \<and> scan_known A (k + 1) accs (K \<union> V)"
    using scan_inv_skip [OF sc k] scan_known_skip [OF kn rd] by blast
qed

lemma scan_load_tail:
  assumes sh: "shared_inv q hs U" and k: "k < 32"
  shows "tail (consumers (store_tail (of_nat k) v q) ! k) = v"
    and "scan_inv q U k accs \<Longrightarrow> scan_known A k accs K \<Longrightarrow> msg_ok q U A (L_tail (of_nat k)) (v, V) \<Longrightarrow>
      scan_inv q U (k + 1) (accs[k mod 4 := min (accs ! (k mod 4)) v])
      \<and> scan_known A (k + 1) (accs[k mod 4 := min (accs ! (k mod 4)) v]) (K \<union> V)"
proof -
  let ?c = "of_nat k :: u32"
  have c: "unat ?c = k" using k by (rule of_nat_u32)
  show "tail (consumers (store_tail ?c v q) ! k) = v" using k c shared_invD(2) [OF sh] by simp
  assume sc: "scan_inv q U k accs" and kn: "scan_known A k accs K" and ok: "msg_ok q U A (L_tail ?c) (v, V)"
  have le: "unat v \<le> unat (queue_tail q ?c)" and rd: "read_upto ?c (unat v) V" using ok k c by auto
  have low: "\<forall>u \<in> insert (unat (queue_head q)) U. unat v \<le> u"
    using le shared_inv_tail [OF sh, of ?c] k c shared_invD(3) [OF sh] order_trans by fastforce
  have "unat v \<le> unat (queue_tail q e)" if "unat e = k" for e
    using le unat_eq_of_nat [OF that] by simp
  moreover have "length accs = 4" using sc by (simp add: scan_inv_def)
  ultimately show "scan_inv q U (k + 1) (accs[k mod 4 := min (accs ! (k mod 4)) v])
      \<and> scan_known A (k + 1) (accs[k mod 4 := min (accs ! (k mod 4)) v]) (K \<union> V)"
    using scan_inv_take [OF sh sc k _ low] scan_known_take [OF kn _ rd] by blast
qed

lemma prod_msg_okD:
  assumes "winv s" and "prod_load (prods (latest s) i) = Some (l, mo)" and "prod_msg_ok s i msg"
  shows "msg_ok (mem (latest s)) (unpublished (prods (latest s))) (performed s) l msg"
  using store_invD(1) [OF winvD(2) [OF assms(1)]] assms(2,3) by (simp add: prod_msg_ok_def)

lemma winv_prod_load:
  assumes inv: "winv s" and ok: "prod_msg_ok s i msg" and pl: "prod_load (prods (latest s) i) \<noteq> None"
  shows "winv (do_wprod i sp msg junk s)"
proof -
  obtain v V where msg: "msg = (v, V)" by fastforce
  let ?q = "mem (latest s)" and ?U = "unpublished (prods (latest s))" and ?A = "performed s"
  note d = winvD [OF inv] and cd = csys_invD [OF winvD(1) [OF inv]]
  note loc = winv_prod_local [OF inv] and sh = cd(1) and mok = prod_msg_okD [OF inv _ ok]
  have P: "prod_inv ?q (hist (latest s)) ?U (prods (latest s) i)" by (rule cd(2))
  have hb: "prod_hb ?q ?U ?A (prod_view s i) (prods (latest s) i)" by (rule d(4))
  show ?thesis
  proof (cases "prods (latest s) i")
    case (P_load_head x)
    then show ?thesis
      using loc [of "P_load_min x v" i] mok by (simp add: do_wprod_def msg Let_def)
  next
    case (P_load_min x h)
    let ?pc = "if h \<ge> v + SIZE ?q then P_scan_active x h v 0 [INVALID_POS, INVALID_POS, INVALID_POS, INVALID_POS]
      else P_cas x h"
    have h: "unat h \<le> unat (queue_head ?q)" using P P_load_min by simp
    have m: "below_marks ?q ?U (unat v)" and k: "known ?A (unat v) (prod_view s i \<union> V)"
      using mok P_load_min by (auto simp: msg known_def)
    have P': "prod_inv ?q (hist (latest s)) ?U ?pc"
      using cas_guard [OF sh m h] h m by (simp add: scan_inv_start)
    have "\<not> h \<ge> v + SIZE ?q \<Longrightarrow> room_known ?q ?U ?A h (prod_view s i \<union> V)"
      using unat_size_guard [OF sh below_marks_head [OF m]] m k
      unfolding room_known_def by (intro exI [of _ "unat v"]) simp
    then have "prod_hb ?q ?U ?A (prod_view s i \<union> V) ?pc"
      using k by (simp add: scan_known_start)
    moreover have "SIZE (store_min_tail v ?q) = SIZE ?q" by (simp add: SIZE_def)
    ultimately show ?thesis
      using loc [OF _ P', where i = i] P_load_min
      by (cases "h \<ge> v + SIZE ?q") (simp_all add: do_wprod_def msg acquired_def Let_def)
  next
    case (P_scan_active x h mt k accs)
    then have k: "k < 32" using pl by (simp split: if_splits)
    have sc: "scan_inv ?q ?U k accs" and kn: "scan_known ?A k accs (prod_view s i)"
      using P hb P_scan_active by simp_all
    have mt: "known ?A (unat mt) (prod_view s i \<union> V)" using hb P_scan_active by (auto simp: known_def)
    note act = scan_load_active(1) [OF sh k]
    show ?thesis
    proof (cases "v = 0")
      case True
      then have "msg_ok ?q ?U ?A (L_active (of_nat k)) (0, V)"
        using mok P_scan_active k by (simp add: msg del: msg_ok.simps)
      then have "scan_inv ?q ?U (k + 1) accs \<and> scan_known ?A (k + 1) accs (prod_view s i \<union> V)"
        by (rule scan_load_active(2) [OF sh k sc kn])
      then show ?thesis
        using loc [of "P_scan_active x h mt (k + 1) accs" i "prod_view s i \<union> V"] P_scan_active P mt k act True
        by (simp add: do_wprod_def msg acquired_def Let_def)
    next
      case False
      have "scan_known ?A k accs (prod_view s i \<union> V)" using kn by (auto simp: scan_known_def)
      then show ?thesis
        using loc [of "P_scan_tail x h mt k accs" i "prod_view s i \<union> V"] P_scan_active P mt k act False
        by (simp add: do_wprod_def msg acquired_def Let_def)
    qed
  next
    case (P_scan_tail x h mt k accs)
    then have k: "k < 32" and sc: "scan_inv ?q ?U k accs" and kn: "scan_known ?A k accs (prod_view s i)"
      using P hb by simp_all
    have mt: "known ?A (unat mt) (prod_view s i \<union> V)" using hb P_scan_tail by (auto simp: known_def)
    have "msg_ok ?q ?U ?A (L_tail (of_nat k)) (v, V)"
      using mok P_scan_tail by (simp add: msg del: msg_ok.simps)
    note next_scan = scan_load_tail(2) [OF sh k sc kn this]
    show ?thesis
      using loc [of "P_scan_active x h mt (k + 1) (accs[k mod 4 := min (accs ! (k mod 4)) v])" i
          "prod_view s i \<union> V"] P_scan_tail P mt scan_load_tail(1) [OF sh k] next_scan
      by (simp add: do_wprod_def msg acquired_def Let_def)
  qed (use pl in simp_all)
qed

section \<open>The stores and plain accesses of the producers\<close>

lemma room_known_view: "room_known q U A h K \<Longrightarrow> K \<subseteq> K' \<Longrightarrow> room_known q U A h K'"
  by (auto simp: room_known_def intro: known_view)

lemma is_active_frame [simp]:
  "is_active (store_min_tail m q) c = is_active q c" "is_active (store_head v q) c = is_active q c"
  "is_active (store_data j x q) c = is_active q c" "is_active (store_sequence j v q) c = is_active q c"
  by (simp_all add: is_active_def)

lemma own_ok_frame:
  assumes "own_ok q S" and "queue_tail q' = queue_tail q" and "\<And>c. is_active q' c = is_active q c"
    and "\<And>c. S' (L_tail c) = S (L_tail c)" and "\<And>c. S' (L_active c) = S (L_active c)"
  shows "own_ok q' S'"
  using assms by (simp add: own_ok_def)

lemma winv_store_min:
  assumes inv: "winv s" and pc: "prods (latest s) i = P_store_min x h mt m"
    and cs: "csys_inv (do_prod i sp (latest s))"
  shows "winv (do_wprod i sp msg junk s)"
proof -
  let ?q = "mem (latest s)" and ?U = "unpublished (prods (latest s))" and ?A = "performed s" and ?K = "prod_view s i"
  note d = winvD [OF inv] and cd = csys_invD [OF winvD(1) [OF inv]]
  have P: "unat h \<le> unat (queue_head ?q)" "below_marks ?q ?U (unat m)"
    using cd(2) [of i] pc by simp_all
  have K: "known ?A (unat m) ?K" using d(4) [of i] pc by simp
  let ?pc = "if h \<ge> m + SIZE ?q then P_done False else P_cas x h"
  have P': "prod_inv ?q (hist (latest s)) ?U ?pc"
    using cas_guard [OF cd(1) P(2,1)] by simp
  have "\<not> h \<ge> m + SIZE ?q \<Longrightarrow> room_known ?q ?U ?A h ?K"
    using unat_size_guard [OF cd(1) below_marks_head [OF P(2)]] P(2) K
    unfolding room_known_def by (intro exI [of _ "unat m"]) simp
  then have hb: "prod_hb ?q ?U ?A ?K ?pc" by simp
  show ?thesis
  proof (cases "m = mt")
    case True
    then show ?thesis
      using winv_prod_local [OF inv _ P' hb, where i = i] pc
      by (simp add: do_wprod_def do_prod_def claimed_item_def Let_def)
  next
    case False
    let ?b = "(latest s)\<lparr>mem := store_min_tail m ?q, prods := (prods (latest s))(i := ?pc)\<rparr>"
    let ?S = "(stores s)(L_min := (m, ?K) # stores s L_min)"
    have dp: "do_prod i sp (latest s) = ?b"
      using False pc by (simp add: do_prod_def claimed_item_def Let_def)
    have U: "unpublished ((prods (latest s))(i := ?pc)) = ?U"
      using unpublished_update [of "prods (latest s)" i] cd(3) by (simp add: pc)
    have mv: "moves ?q (hist (latest s)) ?U ?A (store_min_tail m ?q) (hist (latest s)) ?U ?A"
      by (simp add: moves_def advances_store_min)
    have st: "store_inv (store_min_tail m ?q) ?U ?A (stores s)"
      by (rule store_inv_moves [OF mv d(2)])
        (simp, rule own_ok_frame [OF store_invD(2) [OF d(2)]], simp_all)
    have ok: "msg_ok (store_min_tail m ?q) ?U ?A L_min (m, ?K)"
      using below_marks_advances [OF advances_store_min P(2)] K by simp
    have st': "store_inv (store_min_tail m ?q) ?U ?A ?S"
      by (rule store_inv_push [OF st ok])
        (rule own_ok_frame [OF store_invD(2) [OF st]], simp_all)
    have mine: "prod_hb (store_min_tail m ?q) ?U ?A ?K ?pc"
      by (rule prod_hb_moves [OF mv hb P']) (simp split: if_splits)
    have t: "do_wprod i sp msg junk s = s\<lparr>latest := ?b, stores := ?S\<rparr>"
      using pc False by (simp add: do_wprod_def dp Let_def released_def)
    show ?thesis
      unfolding t
      by (rule winv_prodI [OF inv, where b = ?b and i = i and K = ?K and pc = ?pc])
        (use cs mv st' mine winv_copyD [OF inv] in \<open>auto simp: U dp\<close>)
  qed
qed

lemma winv_claim:
  assumes inv: "winv s" and pc: "prods (latest s) i = P_cas x (queue_head (mem (latest s)))"
    and cs: "csys_inv (do_prod i False (latest s))"
    and bound: "length (hist (latest s)) + 1 + length (slots (mem (latest s))) < 2 ^ 64 - 1"
  shows "winv (do_wprod i False msg junk s)"
proof -
  let ?q = "mem (latest s)" and ?U = "unpublished (prods (latest s))" and ?A = "performed s" and ?K = "prod_view s i"
  let ?h = "queue_head ?q" and ?hs = "hist (latest s)" and ?V = "snd (hd (stores s L_head))"
  note d = winvD [OF inv] and cd = csys_invD [OF winvD(1) [OF inv]]
  let ?q' = "store_head (?h + 1) ?q" and ?U' = "insert (length ?hs) ?U"
  let ?b = "(latest s)\<lparr>mem := ?q', prods := (prods (latest s))(i := P_copy x ?h), hist := ?hs @ [x]\<rparr>"
  let ?K' = "?K \<union> ?V" and ?S = "(stores s)(L_head := (?h + 1, ?V) # stores s L_head)"
  have hd: "unat ?h = length ?hs" by (rule shared_invD(3) [OF cd(1)])
  have room: "prod_inv ?q ?hs ?U (P_cas x ?h)" using cd(2) [of i] pc by simp
  note cl = shared_inv_claim [OF cd(1) room bound]
  have U: "unpublished ((prods (latest s))(i := P_copy x ?h)) = ?U'"
    using unpublished_update [of "prods (latest s)" i] cd(3) by (simp add: pc hd)
  have dp: "do_prod i False (latest s) = ?b" using pc by (simp add: do_prod_def claimed_item_def)
  have mv: "moves ?q ?hs ?U ?A ?q' (?hs @ [x]) ?U' ?A" using cl(2) by (simp add: moves_def)
  have st: "store_inv ?q' ?U' ?A (stores s)"
    by (rule store_inv_moves [OF mv d(2)])
      (simp, rule own_ok_frame [OF store_invD(2) [OF d(2)]], simp_all)
  have st': "store_inv ?q' ?U' ?A ?S"
    by (rule store_inv_push [OF st]) (simp, rule own_ok_frame [OF store_invD(2) [OF st]], simp_all)
  have hb: "room_known ?q ?U ?A ?h ?K" using d(4) [of i] pc by simp
  have "Wr (unat ?h) \<notin> ?A" using d(3) by (auto simp: plain_inv_def)
  then have mine: "prod_hb ?q' ?U' ?A ?K' (P_copy x ?h)"
    using room_known_moves [OF mv room_known_view [OF hb]] by simp
  have t: "do_wprod i False msg junk s = s\<lparr>latest := ?b, stores := ?S, prod_view := (prod_view s)(i := ?K')\<rparr>"
    using pc by (simp add: do_wprod_def dp Let_def released_def acquired_def CAS_ORDER_def)
  show ?thesis
    unfolding t
    by (rule winv_prodI [OF inv, where b = ?b and i = i and K = ?K' and pc = "P_copy x ?h"])
      (use cs mv st' mine winv_copyD [OF inv] in \<open>auto simp: U dp\<close>)
qed

section \<open>No access races\<close>

lemma conflict_mod:
  assumes "shared_inv q hs U" and "conflict q e e'" and "pos_of e < length hs" and "pos_of e' < length hs"
  shows "pos_of e mod length (slots q) = pos_of e' mod length (slots q)"
proof -
  note d = shared_invD [OF assms(1)]
  have "unat (of_nat p :: u64) = p" if "p < length hs" for p
    using that d(4) by (simp add: unat_of_nat64)
  then show ?thesis using assms(2-4) slot_index_mod [OF d(1)] by (simp add: conflict_def)
qed

text \<open>A position of the same slot that is not a whole lap above is at or a lap below.\<close>

lemma lap_below:
  fixes a b n :: nat
  assumes "a mod n = b mod n" and "a < b + n" and "a \<noteq> b"
  shows "a + n \<le> b"
proof (rule ccontr)
  assume "\<not> a + n \<le> b"
  then consider "a \<le> b" "b < a + n" | "b \<le> a" "a < b + n" using assms(2) by linarith
  then show False
    using mod_lap_eq [OF assms(1)] mod_lap_eq [OF assms(1) [symmetric]] assms(3) by cases auto
qed

lemma producer_race_free:
  assumes inv: "winv s" and pc: "prods (latest s) i = P_copy x h" and e: "e \<in> performed s"
    and same: "pos_of e mod length (slots (mem (latest s))) = unat h mod length (slots (mem (latest s)))"
  shows "e \<in> prod_view s i"
proof -
  let ?q = "mem (latest s)" and ?U = "unpublished (prods (latest s))" and ?n = "length (slots (mem (latest s)))"
  note d = winvD [OF inv] and cd = csys_invD [OF winvD(1) [OF inv]]
  have u: "unat h \<in> ?U" using cd(2) [of i] pc by simp
  obtain m where m: "unat h < m + ?n" "known (performed s) m (prod_view s i)"
    using d(4) [of i] pc by (auto simp: room_known_def)
  have p: "pos_of e < length (hist (latest s))"
    using d(3) e shared_invD(3) [OF cd(1)] by (simp add: plain_inv_def)
  have ne: "pos_of e \<noteq> unat h"
    using d(3) e u winv_copyD [OF inv pc] by (cases e) (fastforce simp: plain_inv_def)+
  have "pos_of e < unat h + ?n" using p shared_inv_claimed(2) [OF cd(1) u] by simp
  then have "pos_of e + ?n \<le> unat h" by (rule lap_below [OF same _ ne])
  then show ?thesis using m e by (simp add: known_def)
qed

lemma consumer_race_free:
  assumes inv: "winv s" and c: "unat c < 32" and pc: "conss (latest s) c = C_copy t" and e: "Wr p \<in> performed s"
    and same: "p mod length (slots (mem (latest s))) = unat t mod length (slots (mem (latest s)))"
  shows "Wr p \<in> cons_view s c"
proof -
  let ?q = "mem (latest s)" and ?U = "unpublished (prods (latest s))" and ?n = "length (slots (mem (latest s)))"
  note d = winvD [OF inv] and cd = csys_invD [OF winvD(1) [OF inv]]
  have rd: "readable ?q ?U c t" using cd(4) [OF c] pc by simp
  have hb: "read_upto c (unat t) (cons_view s c)" "Wr (unat t) \<in> cons_view s c"
    using d(5) [OF c] pc rd by (simp_all add: cons_hb_def readable_def)
  have "p < length (hist (latest s))"
    using d(3) e shared_invD(3) [OF cd(1)] by (fastforce simp: plain_inv_def)
  then have p: "p < unat t + ?n"
    using shared_inv_live(2) [OF cd(1), of c] rd by (simp add: readable_def)
  show ?thesis
    using lap_below [OF same p] hb by (cases "p = unat t") (auto simp: read_upto_def)
qed

lemma copy_no_race:
  assumes inv: "winv s" and pc: "prods (latest s) i = P_copy x h"
  shows "\<not> races s (Wr (unat h)) (prod_view s i)"
proof
  assume "races s (Wr (unat h)) (prod_view s i)"
  then obtain e where e: "e \<in> performed s" "conflict (mem (latest s)) e (Wr (unat h))" "e \<notin> prod_view s i"
    by (auto simp: races_def)
  note cd = csys_invD [OF winvD(1) [OF inv]]
  have "pos_of e < length (hist (latest s))"
    using winvD(3) [OF inv] e(1) shared_invD(3) [OF cd(1)] by (simp add: plain_inv_def)
  moreover have "unat h < length (hist (latest s))"
    using cd(2) [of i] shared_inv_claimed(1) [OF cd(1)] pc by simp
  ultimately show False
    using producer_race_free [OF inv pc e(1)] conflict_mod [OF cd(1) e(2)] e(3) by simp
qed

lemma read_no_race:
  assumes inv: "winv s" and c: "unat c < 32" and pc: "conss (latest s) c = C_copy t"
  shows "\<not> races s (Rd c (unat t)) (cons_view s c)"
proof
  assume "races s (Rd c (unat t)) (cons_view s c)"
  then obtain e where e: "e \<in> performed s" "conflict (mem (latest s)) e (Rd c (unat t))" "e \<notin> cons_view s c"
    by (auto simp: races_def)
  note cd = csys_invD [OF winvD(1) [OF inv]]
  obtain p where w: "e = Wr p" using e(2) by (cases e) (auto simp: conflict_def)
  have "pos_of e < length (hist (latest s))"
    using winvD(3) [OF inv] e(1) shared_invD(3) [OF cd(1)] by (simp add: plain_inv_def)
  moreover have "unat t < length (hist (latest s))"
    using cd(4) [OF c] pc shared_invD(3) [OF cd(1)] by (simp add: readable_def)
  ultimately show False
    using consumer_race_free [OF inv c pc] conflict_mod [OF cd(1) e(2)] e w by simp
qed

section \<open>The plain accesses and the stores\<close>

lemma winv_copy:
  assumes inv: "winv s" and pc: "prods (latest s) i = P_copy x h" and cs: "csys_inv (do_prod i sp (latest s))"
  shows "winv (do_wprod i sp msg junk s)"
proof -
  let ?q = "mem (latest s)" and ?U = "unpublished (prods (latest s))" and ?A = "performed s" and ?K = "prod_view s i"
  let ?hs = "hist (latest s)" and ?q' = "store_data (slot_index (mem (latest s)) h) x (mem (latest s))"
  let ?b = "(latest s)\<lparr>mem := ?q', prods := (prods (latest s))(i := P_publish x h)\<rparr>"
  let ?A' = "insert (Wr (unat h)) ?A" and ?K' = "insert (Wr (unat h)) ?K"
  note d = winvD [OF inv] and cd = csys_invD [OF winvD(1) [OF inv]]
  have u: "unat h \<in> ?U" using cd(2) [of i] pc by simp
  note cp = shared_inv_copy [OF cd(1) u, where x = x]
  have U: "unpublished ((prods (latest s))(i := P_publish x h)) = ?U"
    using unpublished_update [of "prods (latest s)" i] cd(3) u by (auto simp: pc)
  have dp: "do_prod i sp (latest s) = ?b" using pc by (simp add: do_prod_def claimed_item_def)
  have mv: "moves ?q ?hs ?U ?A ?q' ?hs ?U ?A'" using cp(2) u unfolding moves_def by fastforce
  have st: "store_inv ?q' ?U ?A' (stores s)"
    by (rule store_inv_moves [OF mv d(2)])
      (simp, rule own_ok_frame [OF store_invD(2) [OF d(2)]], simp_all)
  have others: "Wr (unat g) \<notin> ?A'" if "j \<noteq> i" "prods (latest s) j = P_copy y g" for j y g
    using winv_copyD [OF inv that(2)] cd(3) [of j "unat g" i] that pc by auto
  have t: "do_wprod i sp msg junk s = s\<lparr>latest := ?b, performed := ?A', prod_view := (prod_view s)(i := ?K')\<rparr>"
    using pc copy_no_race [OF inv pc] by (simp add: do_wprod_def dp Let_def)
  show ?thesis
    unfolding t
    by (rule winv_prodI [OF inv, where b = ?b and i = i and K = ?K' and pc = "P_publish x h" and A = ?A'])
      (use cs mv st others in \<open>auto simp: U dp\<close>)
qed

lemma winv_publish:
  assumes inv: "winv s" and pc: "prods (latest s) i = P_publish x h" and cs: "csys_inv (do_prod i sp (latest s))"
  shows "winv (do_wprod i sp msg junk s)"
proof -
  let ?q = "mem (latest s)" and ?U = "unpublished (prods (latest s))" and ?A = "performed s" and ?K = "prod_view s i"
  let ?hs = "hist (latest s)" and ?j = "slot_index (mem (latest s)) h"
  let ?q' = "store_sequence ?j h ?q" and ?U' = "?U - {unat h}"
  let ?b = "(latest s)\<lparr>mem := ?q', prods := (prods (latest s))(i := P_done True)\<rparr>"
  let ?S = "(stores s)(L_seq ?j := (h, ?K) # stores s (L_seq ?j))"
  note d = winvD [OF inv] and cd = csys_invD [OF winvD(1) [OF inv]]
  have u: "unat h \<in> ?U" and x: "data (slots ?q ! (unat h mod length (slots ?q))) = ?hs ! unat h"
    using cd(2) [of i] pc by auto
  note pb = shared_inv_publish [OF cd(1) u x]
  have U: "unpublished ((prods (latest s))(i := P_done True)) = ?U'"
    using unpublished_update [of "prods (latest s)" i] cd(3) u by (auto simp: pc)
  have dp: "do_prod i sp (latest s) = ?b" using pc by (simp add: do_prod_def claimed_item_def)
  have mv: "moves ?q ?hs ?U ?A ?q' ?hs ?U' ?A" using pb(2) by (simp add: moves_def)
  have st: "store_inv ?q' ?U' ?A (stores s)"
    by (rule store_inv_moves [OF mv d(2)])
      (simp, rule own_ok_frame [OF store_invD(2) [OF d(2)]], simp_all)
  have "unat h < unat (queue_head ?q)" "Wr (unat h) \<in> ?K"
    using shared_inv_claimed(1) [OF cd(1) u] shared_invD(3) [OF cd(1)] d(4) [of i] pc by simp_all
  then have st': "store_inv ?q' ?U' ?A ?S"
    by (intro store_inv_push [OF st]) (simp, rule own_ok_frame [OF store_invD(2) [OF st]], simp_all)
  have t: "do_wprod i sp msg junk s = s\<lparr>latest := ?b, stores := ?S\<rparr>"
    using pc by (simp add: do_wprod_def dp Let_def released_def)
  show ?thesis
    unfolding t
    by (rule winv_prodI [OF inv, where b = ?b and i = i and K = ?K and pc = "P_done True"])
      (use cs mv st' winv_copyD [OF inv] in \<open>auto simp: U dp\<close>)
qed

lemma winv_prod:
  assumes inv: "winv s" and ok: "prod_msg_ok s i msg"
    and bound: "length (hist (do_prod i sp (latest s))) + length (slots (mem (latest s))) < 2 ^ 64 - 1"
  shows "winv (do_wprod i sp msg junk s)"
proof (cases "prod_load (prods (latest s) i) = None")
  case False
  then show ?thesis using winv_prod_load [OF inv ok] by blast
next
  case none: True
  let ?q = "mem (latest s)" and ?U = "unpublished (prods (latest s))" and ?A = "performed s" and ?K = "prod_view s i"
  note d = winvD [OF inv] and cd = csys_invD [OF winvD(1) [OF inv]]
  have cs: "csys_inv (do_prod i sp (latest s))" by (rule csys_inv_do_prod [OF d(1) bound])
  note loc = winv_prod_local [OF inv, where i = i and K = ?K]
  show ?thesis
  proof (cases "prods (latest s) i")
    case P_idle
    then show ?thesis using loc [of P_idle] by (simp add: do_wprod_def do_prod_def claimed_item_def Let_def)
  next
    case (P_done r)
    then show ?thesis using loc [of "P_done r"] by (simp add: do_wprod_def do_prod_def claimed_item_def Let_def)
  next
    case (P_scan_active x h mt k accs)
    have P: "unat h \<le> unat (queue_head ?q)" "below_marks ?q ?U (unat mt)" "scan_inv ?q ?U k accs"
      and hb: "known ?A (unat mt) ?K" "scan_known ?A k accs ?K"
      using cd(2) [of i] d(4) [of i] P_scan_active by simp_all
    have k: "k = 32" using none P(3) P_scan_active by (simp add: scan_inv_def split: if_splits)
    have len: "length accs = 4" using P(3) by (simp add: scan_inv_def)
    show ?thesis
      using loc [of "P_store_min x h mt (merge_accs accs)"] P_scan_active P hb
        scan_inv_finish [OF cd(1)] scan_known_finish [OF _ len plain_readers [OF inv]]
      by (simp add: do_wprod_def do_prod_def claimed_item_def Let_def k)
  next
    case (P_store_min x h mt m)
    then show ?thesis using winv_store_min [OF inv _ cs] by simp
  next
    case (P_cas x h)
    show ?thesis
    proof (cases "sp \<or> queue_head ?q \<noteq> h")
      case True
      then show ?thesis
        by (elim disjE)
          (use loc [of "P_load_head x"] P_cas in \<open>simp_all add: do_wprod_def do_prod_def claimed_item_def Let_def\<close>)
    next
      case False
      then have "length (hist (do_prod i sp (latest s))) = length (hist (latest s)) + 1"
        using P_cas by (simp add: do_prod_def claimed_item_def)
      then show ?thesis using winv_claim [OF inv, of i x msg] P_cas False cs bound by simp
    qed
  next
    case (P_copy x h)
    then show ?thesis using winv_copy [OF inv _ cs] by simp
  next
    case (P_publish x h)
    then show ?thesis using winv_publish [OF inv _ cs] by simp
  qed (use none in simp_all)
qed

section \<open>The steps of a recomputation\<close>

lemma winv_help_load:
  assumes inv: "winv s" and ok: "help_msg_ok s j msg" and hl: "help_load (helps (latest s) j) \<noteq> None"
  shows "winv (do_whelp j msg s)"
proof -
  obtain v V where msg: "msg = (v, V)" by fastforce
  let ?q = "mem (latest s)" and ?U = "unpublished (prods (latest s))" and ?A = "performed s"
  note d = winvD [OF inv] and cd = csys_invD [OF winvD(1) [OF inv]]
  note loc = winv_help_local [OF inv, where j = j] and sh = cd(1)
  have H: "help_inv ?q ?U (helps (latest s) j)" by (rule cd(6))
  have hb: "help_hb ?A (help_view s j) (helps (latest s) j)" by (rule d(6))
  have mok: "msg_ok ?q ?U ?A l (v, V)" if "help_load (helps (latest s) j) = Some (l, mo)" for l mo
    using store_invD(1) [OF d(2)] ok that by (simp add: help_msg_ok_def msg)
  show ?thesis
  proof (cases "helps (latest s) j")
    case (H_scan_active k accs)
    then have k: "k < 32" using hl by (simp split: if_splits)
    have sc: "scan_inv ?q ?U k accs" and kn: "scan_known ?A k accs (help_view s j)"
      using H hb H_scan_active by simp_all
    note act = scan_load_active(1) [OF sh k]
    show ?thesis
    proof (cases "v = 0")
      case True
      then have "msg_ok ?q ?U ?A (L_active (of_nat k)) (0, V)"
        using mok H_scan_active k by (simp del: msg_ok.simps)
      then have "scan_inv ?q ?U (k + 1) accs \<and> scan_known ?A (k + 1) accs (help_view s j \<union> V)"
        by (rule scan_load_active(2) [OF sh k sc kn])
      then show ?thesis
        using loc [of "H_scan_active (k + 1) accs" "help_view s j \<union> V"] H_scan_active k act True
        by (simp add: do_whelp_def msg acquired_def Let_def)
    next
      case False
      have "scan_known ?A k accs (help_view s j \<union> V)" using kn by (auto simp: scan_known_def)
      then show ?thesis
        using loc [of "H_scan_tail k accs" "help_view s j \<union> V"] H_scan_active sc k act False
        by (simp add: do_whelp_def msg acquired_def Let_def)
    qed
  next
    case (H_scan_tail k accs)
    then have k: "k < 32" and sc: "scan_inv ?q ?U k accs" and kn: "scan_known ?A k accs (help_view s j)"
      using H hb by simp_all
    have "msg_ok ?q ?U ?A (L_tail (of_nat k)) (v, V)"
      using mok H_scan_tail by (simp del: msg_ok.simps)
    note next_scan = scan_load_tail(2) [OF sh k sc kn this]
    show ?thesis
      using loc [of "H_scan_active (k + 1) (accs[k mod 4 := min (accs ! (k mod 4)) v])" "help_view s j \<union> V"]
        H_scan_tail scan_load_tail(1) [OF sh k] next_scan
      by (simp add: do_whelp_def msg acquired_def Let_def)
  qed (use hl in simp_all)
qed

lemma winv_help_store:
  assumes inv: "winv s" and pc: "helps (latest s) j = H_store m"
  shows "winv (do_whelp j msg s)"
proof -
  let ?q = "mem (latest s)" and ?U = "unpublished (prods (latest s))" and ?A = "performed s" and ?K = "help_view s j"
  let ?b = "(latest s)\<lparr>mem := store_min_tail m ?q, helps := (helps (latest s))(j := H_idle)\<rparr>"
  let ?S = "(stores s)(L_min := (m, ?K) # stores s L_min)"
  note d = winvD [OF inv] and cd = csys_invD [OF winvD(1) [OF inv]]
  have m: "below_marks ?q ?U (unat m)" and K: "known ?A (unat m) ?K"
    using cd(6) [of j] d(6) [of j] pc by simp_all
  have dh: "do_help j (latest s) = ?b" using pc by (simp add: do_help_def)
  have mv: "moves ?q (hist (latest s)) ?U ?A (store_min_tail m ?q) (hist (latest s)) ?U ?A"
    by (simp add: moves_def advances_store_min)
  have st: "store_inv (store_min_tail m ?q) ?U ?A (stores s)"
    by (rule store_inv_moves [OF mv d(2)])
      (simp, rule own_ok_frame [OF store_invD(2) [OF d(2)]], simp_all)
  have st': "store_inv (store_min_tail m ?q) ?U ?A ?S"
    by (rule store_inv_push [OF st])
      (use below_marks_advances [OF advances_store_min m] K in simp,
        rule own_ok_frame [OF store_invD(2) [OF st]], simp_all)
  have t: "do_whelp j msg s = s\<lparr>latest := ?b, stores := ?S\<rparr>"
    using pc by (simp add: do_whelp_def dh Let_def released_def)
  show ?thesis
    unfolding t
    by (rule winv_helpI [OF inv, where b = ?b and j = j and K = ?K and pc = H_idle])
      (use csys_inv_do_help [OF d(1), of j] dh mv st' in auto)
qed

lemma winv_help:
  assumes inv: "winv s" and ok: "help_msg_ok s j msg"
  shows "winv (do_whelp j msg s)"
proof (cases "help_load (helps (latest s) j) = None")
  case False
  then show ?thesis using winv_help_load [OF inv ok] by blast
next
  case none: True
  note d = winvD [OF inv] and cd = csys_invD [OF winvD(1) [OF inv]]
  show ?thesis
  proof (cases "helps (latest s) j")
    case H_idle
    then show ?thesis
      using winv_help_local [OF inv, of H_idle "help_view s j" j] by (simp add: do_whelp_def do_help_def Let_def)
  next
    case (H_scan_active k accs)
    have sc: "scan_inv (mem (latest s)) (unpublished (prods (latest s))) k accs"
      and kn: "scan_known (performed s) k accs (help_view s j)"
      using cd(6) [of j] d(6) [of j] H_scan_active by simp_all
    have k: "k = 32" using none sc H_scan_active by (simp add: scan_inv_def split: if_splits)
    have len: "length accs = 4" using sc by (simp add: scan_inv_def)
    show ?thesis
      using winv_help_local [OF inv, of "H_store (merge_accs accs)" "help_view s j" j] H_scan_active sc kn
        scan_inv_finish [OF cd(1)] scan_known_finish [OF _ len plain_readers [OF inv]]
      by (simp add: do_whelp_def do_help_def Let_def k)
  next
    case (H_store m)
    then show ?thesis by (rule winv_help_store [OF inv])
  qed (use none in simp_all)
qed

section \<open>The consumer steps\<close>

lemma winv_cons_load:
  assumes inv: "winv s" and c: "unat c < 32" and ok: "cons_msg_ok s c msg"
    and cl: "cons_load c (mem (latest s)) (conss (latest s) c) \<noteq> None"
  shows "winv (do_wcons c msg junk s)"
proof -
  obtain v V where msg: "msg = (v, V)" by fastforce
  let ?q = "mem (latest s)" and ?U = "unpublished (prods (latest s))" and ?A = "performed s" and ?K = "cons_view s c"
  note d = winvD [OF inv] and cd = csys_invD [OF winvD(1) [OF inv]]
  note loc = winv_cons_local [OF inv c] and sh = cd(1)
  note own = store_invD(2) [OF d(2), unfolded own_ok_def, rule_format, OF c]
  have C: "cons_inv ?q (hist (latest s)) ?U c (conss (latest s) c)" by (rule cd(4) [OF c])
  have len: "unat c < length (consumers ?q)" using c shared_invD(2) [OF sh] by simp
  have hb: "cons_hb ?q ?A c K pc" if "K = ?K \<or> K = ?K \<union> V" "\<And>t. pc = C_copy t \<Longrightarrow> Wr (unat t) \<in> K"
    "\<And>t x. pc \<noteq> C_advance t x" for K pc
    using d(5) [OF c] that by (cases pc) (auto simp: cons_hb_def read_upto_def)
  show ?thesis
  proof (cases "conss (latest s) c")
    case C_load_active
    then have "hd (stores s (L_active c)) = (v, V)" using ok by (auto simp: cons_msg_ok_def msg)
    then have v: "(v \<noteq> 0) = is_active ?q c" using own by simp
    have act: "is_active (store_active c (v \<noteq> 0) ?q) c = (v \<noteq> 0)" using len by (simp add: is_active_def)
    show ?thesis
      using loc [OF _ hb, of "if v \<noteq> 0 then C_load_tail else C_done None" "?K \<union> V"] C_load_active v act len
      by (cases "v = 0") (simp_all add: do_wcons_def msg acquired_def live_def Let_def)
  next
    case C_load_tail
    then have "hd (stores s (L_tail c)) = (v, V)" using ok by (auto simp: cons_msg_ok_def msg)
    then have v: "v = queue_tail ?q c" using own by simp
    have "queue_tail (store_tail c v ?q) c = v" using len by (simp add: queue_tail_def)
    then show ?thesis
      using loc [OF _ hb, of "C_load_seq v" ?K] C_load_tail v C
      by (simp add: do_wcons_def msg acquired_def Let_def)
  next
    case (C_load_seq t)
    let ?j = "slot_index ?q t"
    have lv: "live ?q c" and t: "queue_tail ?q c = t" using C C_load_seq by simp_all
    have j: "?j < length (slots ?q)"
      using slot_index_mod [OF shared_invD(1) [OF sh]] shared_invD(6) [OF sh] by simp
    have ix: "slot_index (store_sequence ?j v ?q) t = ?j" by (simp add: slot_index_def INDEX_MASK_def SIZE_def)
    have seq: "sequence (slots (store_sequence ?j v ?q) ! ?j) = v" using j by simp
    have "(v, V) \<in> set (stores s (L_seq ?j))" using ok C_load_seq by (simp add: cons_msg_ok_def msg)
    then have mok: "msg_ok ?q ?U ?A (L_seq ?j) (v, V)" by (rule store_invD(1) [OF d(2)])
    have "unat t < 2 ^ 64 - 1" using shared_inv_live(1) [OF sh lv] t shared_invD(4) [OF sh] by simp
    then have "t \<noteq> INVALID_POS" using unat_INVALID_POS by auto
    then have m: "readable ?q ?U c t" "Wr (unat t) \<in> V" if "v = t"
      using mok that lv t j by (auto simp: readable_def)
    show ?thesis
    proof (cases "v = t")
      case True
      then show ?thesis
        using loc [OF _ hb, of "C_copy t" "?K \<union> V"] C_load_seq m seq ix
        by (simp add: do_wcons_def msg acquired_def Let_def)
    next
      case False
      then show ?thesis
        using loc [OF _ hb, of "C_done None" "?K \<union> V"] C_load_seq seq ix
        by (simp add: do_wcons_def msg acquired_def Let_def)
    qed
  qed (use cl in simp_all)
qed

lemma winv_cons_copy:
  assumes inv: "winv s" and c: "unat c < 32" and pc: "conss (latest s) c = C_copy t"
  shows "winv (do_wcons c msg junk s)"
proof -
  let ?q = "mem (latest s)" and ?U = "unpublished (prods (latest s))" and ?A = "performed s" and ?K = "cons_view s c"
  let ?x = "data (slots ?q ! slot_index ?q t)" and ?A' = "insert (Rd c (unat t)) ?A" and ?K' = "insert (Rd c (unat t)) ?K"
  let ?b = "(latest s)\<lparr>conss := (conss (latest s))(c := C_advance t ?x)\<rparr>"
  note d = winvD [OF inv] and cd = csys_invD [OF winvD(1) [OF inv]]
  have rd: "readable ?q ?U c t" using cd(4) [OF c] pc by simp
  have dc: "do_cons c (latest s) = ?b" using pc by (simp add: do_cons_def received_item_def)
  have mv: "moves ?q (hist (latest s)) ?U ?A ?q (hist (latest s)) ?U ?A'"
    using rd c unfolding moves_def
    by (intro conjI advances_refl disjI2 exI [of _ "Rd c (unat t)"]) (auto simp: readable_def)
  have st: "store_inv ?q ?U ?A' (stores s)"
    by (rule store_inv_moves [OF mv d(2)]) (simp, rule store_invD(2) [OF d(2)])
  have mine: "cons_hb ?q ?A' c ?K' (C_advance t ?x)"
    using d(5) [OF c] pc by (auto simp: cons_hb_def read_upto_def)
  have t: "do_wcons c msg junk s = s\<lparr>latest := ?b, performed := ?A', cons_view := (cons_view s)(c := ?K')\<rparr>"
    using pc read_no_race [OF inv c pc] by (simp add: do_wcons_def dc Let_def)
  show ?thesis
    unfolding t
    by (rule winv_consI [OF inv, where b = ?b and c = c and K = ?K' and pc = "C_advance t ?x" and A = ?A'])
      (use csys_inv_do_cons [OF d(1) c] dc mv st mine in auto)
qed

lemma winv_cons_advance:
  assumes inv: "winv s" and c: "unat c < 32" and pc: "conss (latest s) c = C_advance t x"
  shows "winv (do_wcons c msg junk s)"
proof -
  let ?q = "mem (latest s)" and ?U = "unpublished (prods (latest s))" and ?A = "performed s" and ?K = "cons_view s c"
  let ?q' = "store_tail c (t + 1) ?q" and ?S = "(stores s)(L_tail c := (t + 1, ?K) # stores s (L_tail c))"
  let ?b = "(latest s)\<lparr>mem := ?q', conss := (conss (latest s))(c := C_done (Some x)),
    got := (got (latest s))(c := got (latest s) c @ [x])\<rparr>"
  note d = winvD [OF inv] and cd = csys_invD [OF winvD(1) [OF inv]]
  have rd: "readable ?q ?U c t" using cd(4) [OF c] pc by simp
  note av = shared_inv_advance [OF cd(1) rd]
  have tq: "queue_tail ?q c = t" using rd by (simp add: readable_def)
  have dc: "do_cons c (latest s) = ?b" using pc by (simp add: do_cons_def received_item_def)
  have mv: "moves ?q (hist (latest s)) ?U ?A ?q' (hist (latest s)) ?U ?A" using av(2) by (simp add: moves_def)
  have up: "read_upto c (unat (t + 1)) ?K"
    using d(5) [OF c] pc av(3) tq by (auto simp: cons_hb_def read_upto_def less_Suc_eq)
  note own = store_invD(2) [OF d(2), unfolded own_ok_def, rule_format]
  have own': "own_ok ?q' ?S" using own av(4) by (simp add: own_ok_def is_active_def)
  have ok: "msg_ok ?q' ?U ?A l m" if "m \<in> set (stores s l)" for l m
    by (rule msg_ok_moves [OF mv store_invD(1) [OF d(2) that]]) (use av(3,4) tq in auto)
  have st': "store_inv ?q' ?U ?A ?S"
    unfolding store_inv_def using ok own' av(4) [of c] up by auto
  have mine: "cons_hb ?q' ?A c ?K (C_done (Some x))"
    using d(5) [OF c] av(4) [of c] up by (simp add: cons_hb_def)
  have t: "do_wcons c msg junk s = s\<lparr>latest := ?b, stores := ?S\<rparr>"
    using pc by (simp add: do_wcons_def dc Let_def released_def)
  show ?thesis
    unfolding t
    by (rule winv_consI [OF inv, where b = ?b and c = c and K = ?K and pc = "C_done (Some x)"])
      (use csys_inv_do_cons [OF d(1) c] dc mv st' mine av(4) in auto)
qed

lemma winv_cons:
  assumes inv: "winv s" and c: "unat c < 32" and ok: "cons_msg_ok s c msg"
  shows "winv (do_wcons c msg junk s)"
proof (cases "cons_load c (mem (latest s)) (conss (latest s) c) = None")
  case False
  then show ?thesis using winv_cons_load [OF inv c ok] by blast
next
  case none: True
  note d = winvD [OF inv]
  show ?thesis
  proof (cases "conss (latest s) c")
    case (C_copy t)
    then show ?thesis by (rule winv_cons_copy [OF inv c])
  next
    case (C_advance t x)
    then show ?thesis by (rule winv_cons_advance [OF inv c])
  next
    case C_idle
    then show ?thesis
      using winv_cons_local [OF inv c, of C_idle "cons_view s c"] d(5) [OF c]
      by (simp add: do_wcons_def do_cons_def received_item_def Let_def)
  next
    case (C_done r)
    then show ?thesis
      using winv_cons_local [OF inv c, of "C_done r" "cons_view s c"] d(5) [OF c]
      by (simp add: do_wcons_def do_cons_def received_item_def Let_def)
  qed (use none in simp_all)
qed

lemma winv_unregister:
  assumes inv: "winv s" and c: "unat c < 32" and rest: "cons_resting (conss (latest s) c)"
  shows "winv (s\<lparr>latest := (latest s)\<lparr>mem := unregister_consumer c (mem (latest s))\<rparr>,
    stores := (stores s)(L_active c := (0, released UNREGISTER_ORDER (cons_view s c)) # stores s (L_active c))\<rparr>)"
    (is "winv ?t")
proof -
  let ?q = "mem (latest s)" and ?U = "unpublished (prods (latest s))" and ?A = "performed s" and ?K = "cons_view s c"
  let ?q' = "unregister_consumer c ?q" and ?S = "(stores s)(L_active c := (0, ?K) # stores s (L_active c))"
  let ?b = "(latest s)\<lparr>mem := ?q'\<rparr>"
  note d = winvD [OF inv] and cd = csys_invD [OF winvD(1) [OF inv]]
  note ur = shared_inv_unregister [OF cd(1) c]
  have tl: "queue_tail ?q' = queue_tail ?q" by (simp add: unregister_consumer_def)
  have len: "unat c < length (consumers ?q)" using c shared_invD(2) [OF cd(1)] by simp
  have act: "is_active ?q' e = (if e = c then False else is_active ?q e)" for e
    using len by (cases "e = c") (auto simp: unregister_consumer_def is_active_def nth_list_update word_unat_eq_iff)
  have mv: "moves ?q (hist (latest s)) ?U ?A ?q' (hist (latest s)) ?U ?A" using ur(2) by (simp add: moves_def)
  note own = store_invD(2) [OF d(2), unfolded own_ok_def, rule_format]
  have own': "own_ok ?q' ?S" using own by (simp add: own_ok_def act tl)
  have ok: "msg_ok ?q' ?U ?A l m" if "m \<in> set (stores s l)" for l m
    by (rule msg_ok_moves [OF mv store_invD(1) [OF d(2) that]]) (simp add: tl)
  have new: "msg_ok ?q' ?U ?A (L_active c) (0, ?K)"
    using d(5) [OF c] act [of c] by (simp add: cons_hb_def live_def)
  have st': "store_inv ?q' ?U ?A ?S" unfolding store_inv_def using ok own' new by auto
  show ?thesis
    by (rule winv_consI [OF inv, where b = ?b and c = c and K = ?K and pc = "conss (latest s) c" and S = ?S])
      (use csys_inv_unregister [OF d(1) c rest] mv st' tl d(5) [OF c] in
        \<open>auto simp: released_def UNREGISTER_ORDER_def cons_hb_def\<close>)
qed

section \<open>Reachable states\<close>

lemma init_wsys_fields [simp]:
  "latest (init_wsys n d k) = init_csys n d k" "performed (init_wsys n d k) = {}"
  "stores (init_wsys n d k) l = [(read_loc l (mem (init_csys n d k)), {})]"
  "prod_view (init_wsys n d k) i = {}" "cons_view (init_wsys n d k) c = {}"
  "help_view (init_wsys n d k) j = {}"
  by (simp_all add: init_wsys_def)

lemma winv_init:
  assumes "valid_size n" and "n < 2 ^ 64 - 1"
  shows "winv (init_wsys n d k)"
proof -
  let ?q = "mem (init_csys n d k)"
  have inv: "csys_inv (init_csys n d k)" by (rule csys_inv_init [OF assms])
  note cd = csys_invD [OF inv]
  have z: "queue_tail ?q c = 0" if "unat c < 32" for c
    using fresh_registered [of k n d] that by (simp add: queue_tail_def init_csys_def)
  have U: "unpublished (prods (init_csys n d k)) = {}" by (auto simp: init_csys_def unpublished_def)
  have hist: "hist (init_csys n d k) = []" by (simp add: init_csys_def)
  have min0: "cached_min ?q = 0" by (simp add: init_csys_def fresh_registered(5))
  have lv: "\<not> live ?q c" if "read_loc (L_active c) ?q = 0" for c
    using that by (auto simp: live_def split: if_splits)
  have seq: "sequence (slots ?q ! j) = INVALID_POS" if "j < length (slots ?q)" for j
    using that by (simp add: init_csys_def fresh_registered(4))
  have msg: "msg_ok ?q {} {} l (read_loc l ?q, {})" for l
    using lv z seq min0 by (cases l) (auto simp: below_marks_def known_def read_upto_def)
  have own: "own_ok ?q (stores (init_wsys n d k))" by (auto simp: own_ok_def)
  show ?thesis
  proof (rule winvI)
    show "csys_inv (latest (init_wsys n d k))" using inv by simp
    show "store_inv (mem (latest (init_wsys n d k))) (unpublished (prods (latest (init_wsys n d k))))
        (performed (init_wsys n d k)) (stores (init_wsys n d k))"
      using msg own U by (simp add: store_inv_def)
    show "prod_hb (mem (latest (init_wsys n d k))) (unpublished (prods (latest (init_wsys n d k))))
        (performed (init_wsys n d k)) (prod_view (init_wsys n d k) i) (prods (latest (init_wsys n d k)) i)" for i
      by (simp add: init_csys_def)
    show "cons_hb (mem (latest (init_wsys n d k))) (performed (init_wsys n d k)) c
        (cons_view (init_wsys n d k) c) (conss (latest (init_wsys n d k)) c)" if "unat c < 32" for c
      using z [OF that] by (simp add: cons_hb_def read_upto_def) (simp add: init_csys_def)
    show "help_hb (performed (init_wsys n d k)) (help_view (init_wsys n d k) j) (helps (latest (init_wsys n d k)) j)" for j
      by (simp add: init_csys_def)
  qed (simp add: plain_inv_def)
qed

lemma wstep_grows:
  assumes "wstep s t"
  shows "length (hist (latest s)) \<le> length (hist (latest t))"
    "length (slots (mem (latest t))) = length (slots (mem (latest s)))"
proof -
  have p: "length (hist b) \<le> length (hist (do_prod i sp b)) \<and>
      length (slots (mem (do_prod i sp b))) = length (slots (mem b))" for i sp and b :: "'a csys"
    using csys_step_grows [OF run_push [of b i sp]] by auto
  have c: "length (hist (do_cons c b)) = length (hist b) \<and>
      length (slots (mem (do_cons c b))) = length (slots (mem b))" for c and b :: "'a csys"
    by (cases "conss b c") (simp_all add: do_cons_def)
  have h: "length (hist (do_help j b)) = length (hist b) \<and>
      length (slots (mem (do_help j b))) = length (slots (mem b))" for j and b :: "'a csys"
    by (cases "helps b j") (simp_all add: do_help_def)
  show "length (hist (latest s)) \<le> length (hist (latest t))"
    "length (slots (mem (latest t))) = length (slots (mem (latest s)))"
    using assms p c h
    by (induction rule: wstep.induct)
      (auto simp: do_wprod_def do_wcons_def do_whelp_def Let_def unregister_consumer_def split: option.splits)
qed

lemma winv_step:
  assumes inv: "winv s" and st: "wstep s t"
    and bound: "length (hist (latest t)) + length (slots (mem (latest t))) < 2 ^ 64 - 1"
  shows "winv t"
  using st
proof cases
  case (w_call_push i x)
  then show ?thesis
    using winv_prod_local [OF inv, of "P_load_head x" i "prod_view s i"] claim_of_resting [of "prods (latest s) i"]
    by simp
next
  case (w_run_push i msg sp junk)
  have "length (hist (do_prod i sp (latest s))) + length (slots (mem (latest s))) < 2 ^ 64 - 1"
    if "prod_load (prods (latest s) i) = None"
  proof -
    have "hist (latest t) = hist (do_prod i sp (latest s))"
      using that w_run_push by (auto simp: do_wprod_def Let_def split: option.splits)
    then show ?thesis using bound wstep_grows(2) [OF st] by simp
  qed
  then show ?thesis
    using winv_prod [OF inv, of i msg sp junk] winv_prod_load [OF inv, of i msg sp junk] w_run_push by blast
next
  case (w_call_pop c)
  then show ?thesis
    using winv_cons_local [OF inv, of c C_load_active "cons_view s c"] winvD(5) [OF inv, of c]
    by (simp add: cons_hb_def)
next
  case (w_run_pop c msg junk)
  then show ?thesis using winv_cons [OF inv] by simp
next
  case (w_unregister c)
  then show ?thesis using winv_unregister [OF inv] by simp
next
  case (w_call_recompute j)
  then show ?thesis
    using winv_help_local [OF inv, of "H_scan_active 0 [INVALID_POS, INVALID_POS, INVALID_POS, INVALID_POS]"
      "help_view s j" j] by (simp add: scan_inv_start scan_known_start)
next
  case (w_run_recompute j msg)
  then show ?thesis using winv_help [OF inv] by simp
qed

lemma wreachable_inv:
  assumes "wreachable n d k s" and "valid_size n" and "length (hist (latest s)) + n < 2 ^ 64 - 1"
  shows "winv s \<and> length (slots (mem (latest s))) = n"
  using assms
proof (induction rule: wreachable.induct)
  case w_start
  have "length (slots (mem (init_csys n d k))) = n"
    by (simp add: init_csys_def fresh_registered(4))
  then show ?case using winv_init [of n d k] w_start by simp
next
  case (w_step s t)
  note g = wstep_grows [OF w_step.hyps(2)]
  have s: "winv s \<and> length (slots (mem (latest s))) = n" using w_step g(1) by simp
  then show ?case using winv_step [OF _ w_step.hyps(2)] g(2) w_step.prems by simp
qed

section \<open>Executions as lists of events\<close>

text \<open>
  \<open>k\<close> chooses the store a load reads: 0 is the latest, 1 the one before it; the item is what a
  racing access reads or leaves.
\<close>

datatype 'a wevent =
    W_call_push nat 'a
  | W_push nat bool nat 'a
  | W_call_pop u32
  | W_pop u32 nat 'a
  | W_unregister u32
  | W_call_recompute nat
  | W_recompute nat nat

definition nth_msg :: "'a wsys \<Rightarrow> (loc \<times> order) option \<Rightarrow> nat \<Rightarrow> u64 \<times> view" where
  "nth_msg s ld k = (case ld of None \<Rightarrow> (0, {})
     | Some (l, mo) \<Rightarrow> if k < length (stores s l) then stores s l ! k else hd (stores s l))"

fun exec_wevent :: "'a wevent \<Rightarrow> 'a wsys \<Rightarrow> 'a wsys" where
  "exec_wevent (W_call_push i x) s = (if prod_resting (prods (latest s) i)
     then s\<lparr>latest := (latest s)\<lparr>prods := (prods (latest s))(i := P_load_head x)\<rparr>\<rparr> else s)"
| "exec_wevent (W_push i spurious k junk) s =
     (case prod_load (prods (latest s) i) of
        Some (l, mo) \<Rightarrow> if stores s l = [] then s
          else do_wprod i spurious (nth_msg s (Some (l, mo)) k) junk s
      | None \<Rightarrow> do_wprod i spurious (0, {}) junk s)"
| "exec_wevent (W_call_pop c) s = (if cons_resting (conss (latest s) c) \<and> unat c < 32
     then s\<lparr>latest := (latest s)\<lparr>conss := (conss (latest s))(c := C_load_active)\<rparr>\<rparr> else s)"
| "exec_wevent (W_pop c k junk) s =
     (if unat c < 32
      then case cons_load c (mem (latest s)) (conss (latest s) c) of
             Some (l, mo) \<Rightarrow> if stores s l = [] then s
               else do_wcons c (nth_msg s (Some (l, mo))
                 (if l = L_tail c \<or> l = L_active c then 0 else k)) junk s
           | None \<Rightarrow> do_wcons c (0, {}) junk s
      else s)"
| "exec_wevent (W_unregister c) s = (if cons_resting (conss (latest s) c) \<and> unat c < 32
     then s\<lparr>latest := (latest s)\<lparr>mem := unregister_consumer c (mem (latest s))\<rparr>,
       stores := (stores s)(L_active c :=
         (0, released UNREGISTER_ORDER (cons_view s c)) # stores s (L_active c))\<rparr> else s)"
| "exec_wevent (W_call_recompute j) s = (if helps (latest s) j = H_idle
     then s\<lparr>latest := (latest s)\<lparr>helps := (helps (latest s))(j :=
       H_scan_active 0 [INVALID_POS, INVALID_POS, INVALID_POS, INVALID_POS])\<rparr>\<rparr> else s)"
| "exec_wevent (W_recompute j k) s =
     (case help_load (helps (latest s) j) of
        Some (l, mo) \<Rightarrow> if stores s l = [] then s else do_whelp j (nth_msg s (Some (l, mo)) k) s
      | None \<Rightarrow> do_whelp j (0, {}) s)"

fun run_wevents :: "'a wevent list \<Rightarrow> 'a wsys \<Rightarrow> 'a wsys" where
  "run_wevents [] s = s"
| "run_wevents (e # es) s = run_wevents es (exec_wevent e s)"

lemma nth_msg_mem: "stores s l \<noteq> [] \<Longrightarrow> nth_msg s (Some (l, mo)) k \<in> set (stores s l)"
  by (simp add: nth_msg_def)

lemma nth_msg_latest: "stores s l \<noteq> [] \<Longrightarrow> nth_msg s (Some (l, mo)) 0 = hd (stores s l)"
  by (simp add: nth_msg_def hd_conv_nth)

lemma exec_wevent_step: "exec_wevent e s = s \<or> wstep s (exec_wevent e s)"
proof (cases e)
  case (W_push i sp k junk)
  have "prod_msg_ok s i (nth_msg s (Some (l, mo)) k)"
    if "prod_load (prods (latest s) i) = Some (l, mo)" "stores s l \<noteq> []" for l mo
    using that nth_msg_mem by (simp add: prod_msg_ok_def)
  moreover have "prod_msg_ok s i (0, {})" if "prod_load (prods (latest s) i) = None"
    using that by (simp add: prod_msg_ok_def)
  ultimately show ?thesis
    unfolding W_push by (auto intro!: w_run_push split: option.split)
next
  case (W_pop c k junk)
  have "cons_msg_ok s c (nth_msg s (Some (l, mo)) (if l = L_tail c \<or> l = L_active c then 0 else k))"
    if "cons_load c (mem (latest s)) (conss (latest s) c) = Some (l, mo)" "stores s l \<noteq> []" for l mo
    using that nth_msg_mem [of s l mo k] nth_msg_latest [of s l mo] by (simp add: cons_msg_ok_def)
  moreover have "cons_msg_ok s c (0, {})" if "cons_load c (mem (latest s)) (conss (latest s) c) = None"
    using that by (simp add: cons_msg_ok_def)
  ultimately show ?thesis
    unfolding W_pop
    by (cases "cons_load c (mem (latest s)) (conss (latest s) c)") (auto intro!: w_run_pop)
next
  case (W_call_push i x)
  then show ?thesis using w_call_push [of s i x] by simp
next
  case (W_call_pop c)
  then show ?thesis using w_call_pop [of s c] by simp
next
  case (W_unregister c)
  then show ?thesis using w_unregister [of s c] by simp
next
  case (W_call_recompute j)
  then show ?thesis using w_call_recompute [of s j] by simp
next
  case (W_recompute j k)
  have "help_msg_ok s j (nth_msg s (Some (l, mo)) k)"
    if "help_load (helps (latest s) j) = Some (l, mo)" "stores s l \<noteq> []" for l mo
    using that nth_msg_mem by (simp add: help_msg_ok_def)
  moreover have "help_msg_ok s j (0, {})" if "help_load (helps (latest s) j) = None"
    using that by (simp add: help_msg_ok_def)
  ultimately show ?thesis
    unfolding W_recompute by (auto intro!: w_run_recompute split: option.split)
qed

lemma run_wreachable: "wreachable n d k (run_wevents es (init_wsys n d k))"
proof -
  have "wreachable n d k (run_wevents es s)" if "wreachable n d k s" for s
    using that
  proof (induction es arbitrary: s)
    case (Cons e es)
    have "wreachable n d k (exec_wevent e s)"
      using exec_wevent_step [of e s]
    proof
      assume "exec_wevent e s = s"
      then show ?thesis using Cons.prems by (simp only:)
    qed (rule wreachable.w_step [OF Cons.prems])
    then show ?case unfolding run_wevents.simps by (rule Cons.IH)
  qed simp
  then show ?thesis using wreachable.w_start .
qed

section \<open>Properties\<close>

text \<open>C7: No data race under the memory orders of the code. Take any execution in which loads
  may return stale stores and only an acquire load that reads a release store orders two
  threads. When a producer is about to write the payload of a slot, or a consumer is about to
  read it, every conflicting payload access already performed happens before it. It covers the
  reuse of a slot a lap later: the reads of all consumers happen before the overwrite, also
  those of a consumer that unregistered.\<close>

theorem weak_memory_race_free:
  assumes "wreachable n d k s" and "valid_size n" and "length (hist (latest s)) + n < 2 ^ 64 - 1"
    and "e \<in> performed s" and "conflict (mem (latest s)) e e'"
  shows "(prod_plain (prods (latest s) i) = Some e' \<longrightarrow> e \<in> prod_view s i)
    \<and> (unat c < 32 \<and> cons_plain c (conss (latest s) c) = Some e' \<longrightarrow> e \<in> cons_view s c)"
proof (intro conjI impI)
  have inv: "winv s" using wreachable_inv [OF assms(1-3)] by blast
  note cd = csys_invD [OF winvD(1) [OF inv]]
  have e: "pos_of e < length (hist (latest s))"
    using winvD(3) [OF inv] assms(4) shared_invD(3) [OF cd(1)] by (simp add: plain_inv_def)
  show "e \<in> prod_view s i" if plain: "prod_plain (prods (latest s) i) = Some e'"
  proof -
    obtain x h where pc: "prods (latest s) i = P_copy x h" and e': "e' = Wr (unat h)"
      using plain by (cases "prods (latest s) i") auto
    have "unat h < length (hist (latest s))" using cd(2) [of i] shared_inv_claimed(1) [OF cd(1)] pc by simp
    then show ?thesis
      using producer_race_free [OF inv pc assms(4)] conflict_mod [OF cd(1) assms(5) e] e' by simp
  qed
  show "e \<in> cons_view s c" if plain: "unat c < 32 \<and> cons_plain c (conss (latest s) c) = Some e'"
  proof -
    obtain t where pc: "conss (latest s) c = C_copy t" and e': "e' = Rd c (unat t)"
      using plain by (cases "conss (latest s) c") auto
    obtain p where w: "e = Wr p" using assms(5) e' by (cases e) (auto simp: conflict_def)
    have "unat t < length (hist (latest s))"
      using cd(4) [of c] plain pc shared_invD(3) [OF cd(1)] by (simp add: readable_def)
    then show ?thesis
      using consumer_race_free [OF inv _ pc] conflict_mod [OF cd(1) assms(5) e] e' w plain assms(4) by simp
  qed
qed

text \<open>A producer publishes an item; the consumer first sees the old sequence, then the new one.\<close>

definition demo_weak :: "nat wsys" where
  "demo_weak = run_wevents ([W_call_push 0 7] @ replicate 5 (W_push 0 False 0 99) @
     [W_call_pop 0, W_pop 0 0 99, W_pop 0 0 99, W_pop 0 1 99, W_call_pop 0, W_pop 0 0 99, W_pop 0 0 99, W_pop 0 0 99])
     (init_wsys 16 0 1)"

lemma demo_weak_values:
  "hist (latest demo_weak) = [7]" "conss (latest demo_weak) 0 = C_copy 0" "Wr 0 \<in> performed demo_weak"
  "conflict (mem (latest demo_weak)) (Wr 0) (Rd 0 0)"
  by code_simp+

lemma weak_memory_race_free_witness: "Wr 0 \<in> cons_view demo_weak 0"
proof -
  have "wreachable 16 0 1 demo_weak" unfolding demo_weak_def by (rule run_wreachable)
  then show ?thesis
    using weak_memory_race_free [of 16 0 1 demo_weak "Wr 0" "Rd 0 0" 0 0] demo_weak_values
    by (simp add: valid_size_def)
qed

text \<open>C8: Delivery survives the memory orders of the code. In any execution with stale loads, and
  where a payload access that is not ordered after a conflicting one reads or leaves anything
  at all, what a consumer's calls of \<open>pop\<close> have returned is the prefix, of the length its tail
  says, of the items in the order their positions were claimed; the item a consumer is about to
  copy is the one of its tail's position, the write of it happens before the copy, and so does
  every conflicting write, so that the copy is that item.\<close>

theorem weak_memory_delivery:
  assumes "wreachable n d k s" and "valid_size n" and "length (hist (latest s)) + n < 2 ^ 64 - 1"
    and "unat c < 32"
  shows "got (latest s) c = take (unat (queue_tail (mem (latest s)) c)) (hist (latest s))
    \<and> (\<forall>t. conss (latest s) c = C_copy t \<longrightarrow> t = queue_tail (mem (latest s)) c
        \<and> data (slots (mem (latest s)) ! (unat t mod n)) = hist (latest s) ! unat t
        \<and> Wr (unat t) \<in> cons_view s c \<and> \<not> races s (Rd c (unat t)) (cons_view s c))"
proof -
  have winv: "winv s" and n: "length (slots (mem (latest s))) = n"
    using wreachable_inv [OF assms(1-3)] by blast+
  then have inv: "csys_inv (latest s)" using winvD(1) by blast
  note cd = csys_invD [OF inv]
  have "t = queue_tail (mem (latest s)) c \<and> data (slots (mem (latest s)) ! (unat t mod n)) = hist (latest s) ! unat t"
    if "conss (latest s) c = C_copy t" for t
  proof -
    have rd: "readable (mem (latest s)) (unpublished (prods (latest s))) c t" using cd(4) [OF assms(4)] that by simp
    then have lv: "live (mem (latest s)) c" and t: "queue_tail (mem (latest s)) c = t"
      and lt: "unat t < length (hist (latest s))" and nu: "unat t \<notin> unpublished (prods (latest s))"
      using shared_invD(3) [OF cd(1)] by (simp_all add: readable_def)
    show ?thesis
      using shared_inv_published [OF cd(1) lt _ nu] shared_inv_live(2) [OF cd(1) lv] t n by simp
  qed
  moreover have "Wr (unat t) \<in> cons_view s c" "\<not> races s (Rd c (unat t)) (cons_view s c)"
    if "conss (latest s) c = C_copy t" for t
    using winvD(5) [OF winv assms(4)] that read_no_race [OF winv assms(4) that] by (simp_all add: cons_hb_def)
  ultimately show ?thesis using cd(5) [OF assms(4)] by (simp add: received_ok_def)
qed

definition demo_weak_end :: "nat wsys" where
  "demo_weak_end = run_wevents [W_pop 0 0 99, W_pop 0 0 99] demo_weak"

lemma demo_weak_end_values:
  "hist (latest demo_weak_end) = [7]" "got (latest demo_weak_end) 0 = [7]"
  "queue_tail (mem (latest demo_weak_end)) 0 = 1"
  by code_simp+

lemma run_wevents_append: "run_wevents (es @ fs) s = run_wevents fs (run_wevents es s)"
  by (induction es arbitrary: s) simp_all

lemma weak_memory_delivery_witness:
  "got (latest demo_weak_end) 0 = take (unat (queue_tail (mem (latest demo_weak_end)) 0)) (hist (latest demo_weak_end))
    \<and> got (latest demo_weak_end) 0 = [7]"
proof -
  have "wreachable 16 0 1 demo_weak_end"
    unfolding demo_weak_end_def demo_weak_def run_wevents_append [symmetric] by (rule run_wreachable)
  then show ?thesis
    using weak_memory_delivery [of 16 0 1 demo_weak_end 0] demo_weak_end_values by (simp add: valid_size_def)
qed

end
