(* ===== verification/Memory_Layout.thy ===== *)
theory Memory_Layout
  imports Logger_Prelude
begin

text \<open>
  How the compiler lays out the structs the ring buffers are made of: size, alignment and
  field offsets by the rules of the platform ABI (a field goes to the next multiple of its
  alignment, a struct is as aligned as its strictest field or its \<open>alignas\<close>, and its size is a
  multiple of that). The item type is known by its size and alignment only. Proved: fields
  are aligned, stay inside their struct and do not overlap, where the members of the three
  rings lie, and that the parts of the queue that different threads write never share a cache
  line.
\<close>

section \<open>Sizes, alignments, offsets\<close>

text \<open>Scalars are as aligned as they are long; a struct carries its \<open>alignas\<close> (1 for none).\<close>

datatype ctype =
    Scalar nat
  | Opaque nat nat
  | Array_of ctype nat
  | Struct nat "(string \<times> ctype) list"

definition round_up :: "nat \<Rightarrow> nat \<Rightarrow> nat" where
  "round_up n a = (n + a - 1) div a * a"

fun align_of :: "ctype \<Rightarrow> nat" and fields_align :: "(string \<times> ctype) list \<Rightarrow> nat" where
  "align_of (Scalar s) = s"
| "align_of (Opaque s a) = a"
| "align_of (Array_of t n) = align_of t"
| "align_of (Struct a fs) = max a (fields_align fs)"
| "fields_align [] = 1"
| "fields_align ((f, t) # fs) = max (align_of t) (fields_align fs)"

fun size_of :: "ctype \<Rightarrow> nat" and fields_end :: "nat \<Rightarrow> (string \<times> ctype) list \<Rightarrow> nat" where
  "size_of (Scalar s) = s"
| "size_of (Opaque s a) = s"
| "size_of (Array_of t n) = n * size_of t"
| "size_of (Struct a fs) = round_up (fields_end 0 fs) (max a (fields_align fs))"
| "fields_end off [] = off"
| "fields_end off ((f, t) # fs) = fields_end (round_up off (align_of t) + size_of t) fs"

fun offset_from :: "nat \<Rightarrow> (string \<times> ctype) list \<Rightarrow> string \<Rightarrow> nat option" where
  "offset_from off [] g = None"
| "offset_from off ((f, t) # fs) g =
     (if f = g then Some (round_up off (align_of t))
      else offset_from (round_up off (align_of t) + size_of t) fs g)"

fun offset_of :: "ctype \<Rightarrow> string \<Rightarrow> nat option" where
  "offset_of (Struct a fs) g = offset_from 0 fs g"
| "offset_of t g = None"

text \<open>The scalars and items of an object at address \<open>b\<close>: address, size and alignment of each.\<close>

fun leaves :: "nat \<Rightarrow> ctype \<Rightarrow> (nat \<times> nat \<times> nat) list"
  and field_leaves :: "nat \<Rightarrow> nat \<Rightarrow> (string \<times> ctype) list \<Rightarrow> (nat \<times> nat \<times> nat) list" where
  "leaves b (Scalar s) = [(b, s, s)]"
| "leaves b (Opaque s a) = [(b, s, a)]"
| "leaves b (Array_of t n) = concat (map (\<lambda>i. leaves (b + i * size_of t) t) [0..<n])"
| "leaves b (Struct a fs) = field_leaves b 0 fs"
| "field_leaves b off [] = []"
| "field_leaves b off ((f, t) # fs) =
     leaves (b + round_up off (align_of t)) t
     @ field_leaves b (round_up off (align_of t) + size_of t) fs"

text \<open>Types a compiler accepts: alignments are powers of two, sizes positive multiples of them.\<close>

definition pow2 :: "nat \<Rightarrow> bool" where
  "pow2 a \<longleftrightarrow> (\<exists>k. a = 2 ^ k)"

fun wf_ctype :: "ctype \<Rightarrow> bool" and wf_fields :: "(string \<times> ctype) list \<Rightarrow> bool" where
  "wf_ctype (Scalar s) = pow2 s"
| "wf_ctype (Opaque s a) = (pow2 a \<and> 0 < s \<and> a dvd s)"
| "wf_ctype (Array_of t n) = wf_ctype t"
| "wf_ctype (Struct a fs) = (pow2 a \<and> wf_fields fs)"
| "wf_fields [] = True"
| "wf_fields ((f, t) # fs) = (wf_ctype t \<and> wf_fields fs)"

section \<open>Alignment arithmetic\<close>

lemma pow2_pos [simp]: "pow2 a \<Longrightarrow> 0 < a"
  by (auto simp: pow2_def)

lemma pow2_dvd: "pow2 a \<Longrightarrow> pow2 b \<Longrightarrow> a \<le> b \<Longrightarrow> a dvd b"
  by (auto simp: pow2_def le_imp_power_dvd)

lemma pow2_max: "pow2 a \<Longrightarrow> pow2 b \<Longrightarrow> pow2 (max a b)"
  by (auto simp: max_def)

lemma pow2_dvd_max: "pow2 a \<Longrightarrow> pow2 b \<Longrightarrow> a dvd max a b \<and> b dvd max a b"
  by (auto simp: max_def pow2_dvd)

lemma pow2_power [simp]: "pow2 (2 ^ k)"
  by (auto simp: pow2_def)

lemma pow2_numeral [simp]:
  "pow2 (Suc 0)" "pow2 2" "pow2 4" "pow2 8" "pow2 32" "pow2 64" "pow2 128" "pow2 256"
  using pow2_power [of 0] pow2_power [of 1] pow2_power [of 2] pow2_power [of 3]
    pow2_power [of 5] pow2_power [of 6] pow2_power [of 7] pow2_power [of 8] by simp_all

lemma round_up_ge: "0 < a \<Longrightarrow> n \<le> round_up n a"
  using dividend_less_div_times [of a "n + a - 1"] by (simp add: round_up_def)

lemma round_up_dvd: "a dvd round_up n a"
  by (simp add: round_up_def)

lemma round_up_multiple:
  assumes "0 < a" and "a dvd n"
  shows "round_up n a = n"
proof -
  obtain k where n: "n = k * a" using assms(2) by (metis dvdE mult.commute)
  have "n + a - 1 = a - 1 + k * a" using assms(1) n by simp
  moreover have "(a - 1 + k * a) div a = k" using assms(1) div_mult_self1 [of a "a - 1" k] by simp
  ultimately show ?thesis unfolding round_up_def by (simp add: n)
qed

section \<open>Every layout is sound\<close>

lemma align_pow2:
  "wf_ctype t \<Longrightarrow> pow2 (align_of t)" "wf_fields fs \<Longrightarrow> pow2 (fields_align fs)"
  by (induction t and fs rule: align_of_fields_align.induct) (auto simp: pow2_max)

lemma alignas_dvd: "pow2 a \<Longrightarrow> wf_fields fs \<Longrightarrow> a dvd align_of (Struct a fs)"
  using pow2_dvd_max align_pow2(2) by simp

lemma size_multiple_of_align: "wf_ctype t \<Longrightarrow> align_of t dvd size_of t"
  by (induction t) (auto simp: round_up_dvd)

lemma fields_end_ge: "wf_fields fs \<Longrightarrow> off \<le> fields_end off fs"
proof (induction fs arbitrary: off)
  case (Cons p fs)
  obtain f t where p: "p = (f, t)" by (cases p)
  have "off \<le> round_up off (align_of t)"
    using Cons.prems p by (intro round_up_ge) (simp add: align_pow2)
  also have "\<dots> \<le> round_up off (align_of t) + size_of t" by simp
  also have "\<dots> \<le> fields_end (round_up off (align_of t) + size_of t) fs"
    using Cons p by simp
  finally show ?case by (simp add: p)
qed simp

definition placed :: "nat \<Rightarrow> nat \<Rightarrow> (nat \<times> nat \<times> nat) list \<Rightarrow> bool" where
  "placed lo hi ls \<longleftrightarrow>
     (\<forall>(p, s, a) \<in> set ls. lo \<le> p \<and> p + s \<le> hi \<and> a dvd p)
     \<and> sorted_wrt (\<lambda>(p, s, a) (p', s', a'). p + s \<le> p') ls"

lemma placed_append:
  assumes "placed lo mid xs" and "placed mid hi ys" and "lo \<le> mid" and "mid \<le> hi"
  shows "placed lo hi (xs @ ys)"
  using assms unfolding placed_def sorted_wrt_append by (fastforce dest: order_trans)

lemma placed_weaken: "placed lo hi ls \<Longrightarrow> lo' \<le> lo \<Longrightarrow> hi \<le> hi' \<Longrightarrow> placed lo' hi' ls"
  unfolding placed_def by fastforce

lemma placed_concat:
  assumes "\<And>i. i < n \<Longrightarrow> placed (b + i * s) (b + i * s + s) (f i)"
  shows "placed b (b + n * s) (concat (map f [0..<n]))"
  using assms
proof (induction n)
  case 0
  then show ?case by (simp add: placed_def)
next
  case (Suc n)
  have "placed b (b + n * s) (concat (map f [0..<n]))" using Suc by simp
  moreover have "placed (b + n * s) (b + n * s + s) (f n)" using Suc.prems [of n] by simp
  ultimately have "placed b (b + n * s + s) (concat (map f [0..<n]) @ f n)"
    by (rule placed_append) simp_all
  then show ?case by (simp add: ac_simps)
qed

lemma leaves_placed:
  "wf_ctype t \<Longrightarrow> align_of t dvd b \<Longrightarrow> placed b (b + size_of t) (leaves b t)"
  "wf_fields fs \<Longrightarrow> fields_align fs dvd b \<Longrightarrow>
    placed (b + off) (b + fields_end off fs) (field_leaves b off fs)"
proof (induction b t and b off fs rule: leaves_field_leaves.induct)
  case (1 b s)
  then show ?case by (simp add: placed_def)
next
  case (2 b s a)
  then show ?case by (simp add: placed_def)
next
  case (3 b t n)
  have "placed (b + i * size_of t) (b + i * size_of t + size_of t) (leaves (b + i * size_of t) t)"
    if "i < n" for i
    using 3 that by (simp add: size_multiple_of_align)
  then show ?case using placed_concat [of n b "size_of t"] by simp
next
  case (4 b a fs)
  have w: "pow2 a" "wf_fields fs" using 4 by simp_all
  then have "fields_align fs dvd max a (fields_align fs)"
    using align_pow2(2) pow2_dvd_max by blast
  then have "fields_align fs dvd b" using 4 dvd_trans by fastforce
  then have "placed (b + 0) (b + fields_end 0 fs) (field_leaves b 0 fs)"
    using 4 w by blast
  moreover have "fields_end 0 fs \<le> size_of (Struct a fs)"
    using round_up_ge [of "max a (fields_align fs)"] w by (simp add: less_max_iff_disj)
  ultimately show ?case using placed_weaken by fastforce
next
  case (5 b off)
  then show ?case by (simp add: placed_def)
next
  case (6 b off f t fs)
  have w: "wf_ctype t" "wf_fields fs" using 6 by simp_all
  let ?o = "round_up off (align_of t)"
  have "align_of t dvd b" "fields_align fs dvd b"
    using 6(4) pow2_dvd_max [OF align_pow2(1) [OF w(1)] align_pow2(2) [OF w(2)]] dvd_trans by auto
  then have "placed (b + ?o) (b + ?o + size_of t) (leaves (b + ?o) t)"
    and r: "placed (b + (?o + size_of t)) (b + fields_end (?o + size_of t) fs)
      (field_leaves b (?o + size_of t) fs)"
    using 6 w by (auto simp: round_up_dvd)
  moreover have "off \<le> ?o" using w by (intro round_up_ge) (simp add: align_pow2)
  ultimately have "placed (b + off) (b + (?o + size_of t)) (leaves (b + ?o) t)"
    using placed_weaken [of "b + ?o" "b + ?o + size_of t" _ "b + off" "b + (?o + size_of t)"] by simp
  from placed_append [OF this r] show ?case
    using fields_end_ge [OF w(2), of "?o + size_of t"] \<open>off \<le> ?o\<close> by simp
qed

section \<open>The structs of the queue headers\<close>

text \<open>
  \<open>MarketData\<close> and the class template \<open>MPMC_Queue<T, SIZE>\<close> of mpmc_2.hpp, the item type \<open>T\<close>
  given as a \<open>ctype\<close>.
\<close>

definition CACHE_LINE :: nat where "CACHE_LINE = 64"

definition DOUBLE_CACHE_LINE :: nat where "DOUBLE_CACHE_LINE = 128"

definition market_type :: ctype where
  "market_type = Struct 1
     [(''token'', Scalar 4), (''bids'', Array_of (Scalar 4) 5), (''asks'', Array_of (Scalar 4) 5),
      (''bids_quantity'', Array_of (Scalar 4) 5), (''asks_quantity'', Array_of (Scalar 4) 5),
      (''seq_no'', Scalar 4), (''push_ts_n'', Scalar 8)]"

definition slot_type :: "ctype \<Rightarrow> ctype" where
  "slot_type T = Struct DOUBLE_CACHE_LINE [(''sequence'', Scalar 8), (''data'', T)]"

definition consumer_type :: ctype where
  "consumer_type = Struct CACHE_LINE [(''tail'', Scalar 8), (''active'', Scalar 1)]"

definition producer_type :: ctype where
  "producer_type = Struct DOUBLE_CACHE_LINE [(''head'', Scalar 8)]"

definition meta_type :: ctype where
  "meta_type = Struct DOUBLE_CACHE_LINE
     [(''num_consumers'', Scalar 4), (''min_tail'', Scalar 8), (''purge_lock'', Scalar 1)]"

text \<open>A ring object: its four members in declaration order.\<close>

definition ring_type :: "ctype \<Rightarrow> ctype \<Rightarrow> ctype \<Rightarrow> ctype \<Rightarrow> nat \<Rightarrow> ctype" where
  "ring_type C P M S n = Struct 1
     [(''consumers_'', Array_of C 32), (''producer'', P), (''meta_'', M), (''slots'', Array_of S n)]"

definition queue_type :: "ctype \<Rightarrow> nat \<Rightarrow> ctype" where
  "queue_type T n = ring_type consumer_type producer_type meta_type (slot_type T) n"

text \<open>
  The same for \<open>MPMCQueue<T, SIZE>\<close> of include/mpmc_logger/mpmc_queue.hpp, where the cache
  line \<open>cl\<close> is the compiler's interference size, 128 when it gives none; and \<open>LogEntry\<close>.
\<close>

definition log_entry_type :: ctype where
  "log_entry_type = Struct 64
     [(''timestamp_ns'', Scalar 8), (''thread_id'', Scalar 4), (''level'', Scalar 1),
      (''category'', Scalar 1), (''payload_len'', Scalar 2), (''payload'', Array_of (Scalar 1) 112)]"

definition log_slot_type :: "nat \<Rightarrow> ctype \<Rightarrow> ctype" where
  "log_slot_type cl T = Struct (cl * 2) [(''sequence'', Scalar 8), (''data'', T)]"

definition log_consumer_type :: "nat \<Rightarrow> ctype" where
  "log_consumer_type cl = Struct cl [(''tail'', Scalar 8), (''active'', Scalar 1)]"

definition log_producer_type :: "nat \<Rightarrow> ctype" where
  "log_producer_type cl = Struct (cl * 2) [(''head'', Scalar 8)]"

definition log_meta_type :: "nat \<Rightarrow> ctype" where
  "log_meta_type cl = Struct (cl * 2) [(''num_consumers'', Scalar 4), (''min_tail'', Scalar 8)]"

definition log_queue_type :: "nat \<Rightarrow> ctype \<Rightarrow> nat \<Rightarrow> ctype" where
  "log_queue_type cl T n =
     ring_type (log_consumer_type cl) (log_producer_type cl) (log_meta_type cl) (log_slot_type cl T) n"

text \<open>And for mpmc_queue.hpp, which pads by hand.\<close>

definition v1_market_type :: ctype where
  "v1_market_type = Struct CACHE_LINE
     [(''token'', Scalar 4), (''bids'', Array_of (Scalar 4) 5), (''asks'', Array_of (Scalar 4) 5),
      (''bids_quantity'', Array_of (Scalar 4) 5), (''asks_quantity'', Array_of (Scalar 4) 5),
      (''seq_no'', Scalar 4), (''push_ts_n'', Scalar 8)]"

definition v1_slot_type :: ctype where
  "v1_slot_type = Struct CACHE_LINE [(''sequence'', Scalar 8), (''data'', v1_market_type)]"

definition v1_consumer_type :: ctype where
  "v1_consumer_type = Struct CACHE_LINE
     [(''tail'', Scalar 8), (''active'', Scalar 1), (''_pad'', Array_of (Scalar 1) (CACHE_LINE - 8 - 1))]"

definition v1_producer_type :: ctype where
  "v1_producer_type = Struct CACHE_LINE
     [(''head'', Scalar 8), (''_pad'', Array_of (Scalar 1) (CACHE_LINE - 8))]"

definition v1_meta_type :: ctype where
  "v1_meta_type = Struct CACHE_LINE
     [(''num_consumers'', Scalar 4), (''min_tail'', Scalar 8),
      (''_pad'', Array_of (Scalar 1) (CACHE_LINE - 4 - 3 * 8))]"

definition v1_queue_type :: "nat \<Rightarrow> ctype" where
  "v1_queue_type n = ring_type v1_consumer_type v1_producer_type v1_meta_type v1_slot_type n"

lemmas struct_defs = CACHE_LINE_def DOUBLE_CACHE_LINE_def market_type_def slot_type_def
  consumer_type_def producer_type_def meta_type_def log_entry_type_def log_slot_type_def
  log_consumer_type_def log_producer_type_def log_meta_type_def v1_market_type_def
  v1_slot_type_def v1_consumer_type_def v1_producer_type_def v1_meta_type_def

lemma structs_wf [simp]:
  "wf_ctype market_type" "wf_ctype consumer_type" "wf_ctype producer_type" "wf_ctype meta_type"
  "wf_ctype log_entry_type" "wf_ctype v1_market_type" "wf_ctype v1_slot_type"
  "wf_ctype v1_consumer_type" "wf_ctype v1_producer_type" "wf_ctype v1_meta_type"
  by (simp_all add: struct_defs)

text \<open>The sizes the static assertions ask for, and those of the hand-padded structs.\<close>

lemma struct_sizes:
  "size_of market_type = 96" "align_of market_type = 8"
  "size_of log_entry_type = 128" "align_of log_entry_type = 64"
  "offset_of log_entry_type ''payload'' = Some 16" "size_of v1_market_type = 128"
  "size_of consumer_type = 64" "size_of producer_type = 128" "size_of meta_type = 128"
  "size_of v1_consumer_type = 64" "size_of v1_producer_type = 64" "size_of v1_meta_type = 64"
  "size_of v1_slot_type = 192" "size_of (slot_type market_type) = 128"
  "size_of (log_slot_type 64 log_entry_type) = 256" "size_of (log_slot_type 128 log_entry_type) = 256"
  by (simp_all add: struct_defs round_up_def)

section \<open>Cache lines\<close>

text \<open>
  The parts of a ring that different threads write: the info of each consumer, the head,
  the shared bookkeeping and each slot. Two byte ranges share a line of \<open>w\<close> bytes when both
  have a byte in it; the object itself is aligned, so offsets tell.
\<close>

definition share_line :: "nat \<Rightarrow> nat \<times> nat \<Rightarrow> nat \<times> nat \<Rightarrow> bool" where
  "share_line w p p' \<longleftrightarrow>
     (\<exists>x < snd p. \<exists>y < snd p'. (fst p + x) div w = (fst p' + y) div w)"

definition ring_parts :: "ctype \<Rightarrow> ctype \<Rightarrow> ctype \<Rightarrow> ctype \<Rightarrow> nat \<Rightarrow> (nat \<times> nat) list" where
  "ring_parts C P M S n =
     (let cs = 32 * size_of C; po = round_up cs (align_of P); pe = po + size_of P;
          mo = round_up pe (align_of M); me = mo + size_of M; so = round_up me (align_of S)
      in map (\<lambda>i. (i * size_of C, size_of C)) [0..<32] @ [(po, size_of P), (mo, size_of M)]
         @ map (\<lambda>i. (so + i * size_of S, size_of S)) [0..<n])"

lemma ring_offsets:
  assumes "wf_ctype C"
  shows "offset_of (ring_type C P M S n) ''consumers_'' = Some 0"
    "offset_of (ring_type C P M S n) ''producer'' = Some (round_up (32 * size_of C) (align_of P))"
    "offset_of (ring_type C P M S n) ''meta_'' =
      Some (round_up (round_up (32 * size_of C) (align_of P) + size_of P) (align_of M))"
    "offset_of (ring_type C P M S n) ''slots'' =
      Some (round_up (round_up (round_up (32 * size_of C) (align_of P) + size_of P) (align_of M)
        + size_of M) (align_of S))"
  using round_up_multiple [of "align_of C" 0] align_pow2(1) [OF assms] by (simp_all add: ring_type_def)

text \<open>Disjoint parts that start and end on line boundaries lie on different lines.\<close>

lemma apart_not_shared:
  assumes "0 < w" and "w dvd fst p" and "w dvd fst p'" and "w dvd snd p" and "w dvd snd p'"
    and "fst p + snd p \<le> fst p' \<or> fst p' + snd p' \<le> fst p"
  shows "\<not> share_line w p p'"
proof -
  have sep: "(a + x) div w < (b + y) div w" if "w dvd a" "w dvd s" "w dvd b" "a + s \<le> b" "x < s"
    for a b s x y :: nat
  proof -
    obtain i k j where e: "a = i * w" "s = k * w" "b = j * w"
      using \<open>w dvd a\<close> \<open>w dvd s\<close> \<open>w dvd b\<close> by (metis dvdE mult.commute)
    have "(i * w + x) div w = i + x div w" "(j * w + y) div w = j + y div w"
      using assms(1) by simp_all
    moreover have "x div w < k" using \<open>x < s\<close> e by (simp add: less_mult_imp_div_less)
    moreover have "i + k \<le> j"
      using \<open>a + s \<le> b\<close> assms(1) unfolding e by (simp flip: distrib_right)
    ultimately show ?thesis unfolding e by linarith
  qed
  show ?thesis
    using assms(6) sep [OF assms(2,4,3)] sep [OF assms(3,5,2)] unfolding share_line_def
    by (metis nat_neq_iff)
qed

lemma sorted_parts:
  assumes "sorted_wrt (\<lambda>p p'. fst p + snd p \<le> fst p') ps" and "i < length ps" and "j < length ps"
    and "i \<noteq> j"
  shows "fst (ps ! i) + snd (ps ! i) \<le> fst (ps ! j) \<or> fst (ps ! j) + snd (ps ! j) \<le> fst (ps ! i)"
  using assms sorted_wrt_nth_less [OF assms(1), of i j] sorted_wrt_nth_less [OF assms(1), of j i]
  by (cases i j rule: linorder_cases) auto

lemma block_end: "i < j \<Longrightarrow> i * s + s \<le> j * (s :: nat)"
  by (metis Suc_leI mult_Suc mult_le_mono1 add.commute)

lemma ring_parts_sorted:
  assumes "wf_ctype P" and "wf_ctype M" and "wf_ctype S"
  shows "sorted_wrt (\<lambda>p p'. fst p + snd p \<le> fst p') (ring_parts C P M S n)"
proof -
  have r: "x \<le> round_up x (align_of t)" if "wf_ctype t" for x t
    using that by (simp add: round_up_ge align_pow2)
  let ?po = "round_up (32 * size_of C) (align_of P)"
  let ?mo = "round_up (?po + size_of P) (align_of M)"
  let ?so = "round_up (?mo + size_of M) (align_of S)"
  have o: "32 * size_of C \<le> ?po" "?po + size_of P \<le> ?mo" "?mo + size_of M \<le> ?so"
    using assms r by blast+
  have c: "i * size_of C + size_of C \<le> ?po" if "i < 32" for i
    using order_trans [OF block_end [OF that] o(1)] .
  have s: "sorted_wrt (\<lambda>p p'. fst p + snd p \<le> fst p')
      (map (\<lambda>i. (b + i * z, z)) [0..<k])" for b z k :: nat
    using block_end [of _ _ z] by (simp add: sorted_wrt_map sorted_wrt_iff_nth_less)
  have "sorted_wrt (\<lambda>p p'. fst p + snd p \<le> fst p')
      (map (\<lambda>i. (i * size_of C, size_of C)) [0..<32])"
    using s [of 0 "size_of C" 32] by simp
  then show ?thesis
    using s [of ?so "size_of S" n] c o
    by (fastforce simp: ring_parts_def Let_def sorted_wrt_append intro: order_trans)
qed

lemma ring_parts_isolated:
  assumes "wf_ctype C" "wf_ctype P" "wf_ctype M" "wf_ctype S" and "0 < w"
    and "w dvd align_of C" "w dvd align_of P" "w dvd align_of M" "w dvd align_of S"
    and "i < length (ring_parts C P M S n)" "j < length (ring_parts C P M S n)" "i \<noteq> j"
  shows "\<not> share_line w (ring_parts C P M S n ! i) (ring_parts C P M S n ! j)"
proof -
  let ?ps = "ring_parts C P M S n"
  have "w dvd size_of t" if "t \<in> {C, P, M, S}" for t
    using that assms(1-9) size_multiple_of_align dvd_trans by blast
  moreover have "w dvd round_up x (align_of t)" if "t \<in> {P, M, S}" for x t
    using that assms(7-9) round_up_dvd dvd_trans by blast
  ultimately have "\<forall>p \<in> set ?ps. w dvd fst p \<and> w dvd snd p"
    by (auto simp: ring_parts_def Let_def)
  then show ?thesis
    using apart_not_shared [OF assms(5)] sorted_parts [OF ring_parts_sorted [OF assms(2-4)] assms(10-12)]
      assms(10,11) nth_mem by blast
qed

lemma round_up_8:
  assumes "pow2 a"
  shows "round_up 8 a = max 8 a"
proof (cases "a \<le> 8")
  case True
  then have "a dvd 8" using pow2_dvd [OF assms, of 8] by simp
  then show ?thesis using round_up_multiple [OF pow2_pos [OF assms]] True by simp
next
  case False
  then have "(8 + a - 1) div a = 1" by (intro div_nat_eqI) simp_all
  then show ?thesis using False by (simp add: round_up_def)
qed

text \<open>A ring whose parts follow each other without gaps.\<close>

lemma ring_packed:
  assumes C: "align_of C = a" "32 * size_of C = p" and P: "align_of P = b" "b dvd p" "p + size_of P = m"
    and M: "align_of M = e" "e dvd m" "m + size_of M = l" and S: "align_of S = g" "g dvd l"
    and whole: "align_of (ring_type C P M S n) = w" "w dvd l + n * size_of S"
    and pos: "0 < a" "0 < b" "0 < e" "0 < g" "0 < w"
  shows "map (offset_of (ring_type C P M S n)) [''consumers_'', ''producer'', ''meta_'', ''slots'']
      = map Some [0, p, m, l]"
    "size_of (ring_type C P M S n) = l + n * size_of S"
  using round_up_multiple [of a 0] round_up_multiple [of b p] round_up_multiple [of e m]
    round_up_multiple [of g l] round_up_multiple [of w "l + n * size_of S"] assms
  by (simp_all add: ring_type_def)

section \<open>Properties\<close>

text \<open>Field layout. In any struct, array or queue object built from types the compiler
  accepts and placed at a multiple of its alignment, every scalar and item lies at a multiple
  of its own alignment, inside the object, and before the next one: no two fields overlap.
  So for every item type the atomics of the ring are naturally aligned.\<close>

lemma queue_layout_sound:
  assumes "wf_ctype T" and "align_of (queue_type T n) dvd b"
    and "leaves b (queue_type T n) ! i = (p, s, a)" and "i < j" and "j < length (leaves b (queue_type T n))"
    and "leaves b (queue_type T n) ! j = (p', s', a')"
  shows "b \<le> p \<and> p + s \<le> p' \<and> p' + s' \<le> b + size_of (queue_type T n) \<and> a dvd p \<and> a' dvd p'"
proof -
  let ?ls = "leaves b (queue_type T n)"
  have "wf_ctype (queue_type T n)"
    using assms(1) by (simp add: queue_type_def ring_type_def slot_type_def DOUBLE_CACHE_LINE_def)
  then have pl: "placed b (b + size_of (queue_type T n)) ?ls"
    using leaves_placed(1) assms(2) by blast
  then have "p + s \<le> p'"
    using sorted_wrt_nth_less [of _ ?ls i j] assms(3-6) by (fastforce simp: placed_def)
  moreover have "(p, s, a) \<in> set ?ls" "(p', s', a') \<in> set ?ls"
    using assms(3-6) nth_mem [of i ?ls] nth_mem [of j ?ls] by simp_all
  ultimately show ?thesis using pl by (fastforce simp: placed_def)
qed

lemma queue_layout_sound_witness:
  "leaves 0 (queue_type market_type 2) ! 0 = (0, 8, 8) \<and> (8 :: nat) dvd 0"
proof -
  have l: "leaves 0 (queue_type market_type 2) ! 0 = (0, 8, 8)"
    "leaves 0 (queue_type market_type 2) ! 1 = (8, 1, 1)"
    "1 < length (leaves 0 (queue_type market_type 2))"
    by (simp_all add: queue_type_def ring_type_def struct_defs upt_rec round_up_def)
  then show ?thesis
    using queue_layout_sound [of market_type 2 0 0 0 8 8 1 8 1 1] by simp
qed



text \<open>C23: No false sharing. In the rings of all three headers no cache line holds bytes of
  two of these: the info of two different consumers, the head, the shared bookkeeping, two
  different slots. For mpmc_2.hpp and mpmc_queue.hpp lines are 64 bytes; for the logger's
  queue they are the compiler's interference size. This holds for every item type.\<close>

theorem no_false_sharing:
  assumes "wf_ctype T" and "pow2 cl" and "i \<noteq> j" and "i < 34 + n" and "j < 34 + n"
  shows "\<not> share_line 64 (ring_parts consumer_type producer_type meta_type (slot_type T) n ! i)
      (ring_parts consumer_type producer_type meta_type (slot_type T) n ! j)
    \<and> \<not> share_line cl
      (ring_parts (log_consumer_type cl) (log_producer_type cl) (log_meta_type cl) (log_slot_type cl T) n ! i)
      (ring_parts (log_consumer_type cl) (log_producer_type cl) (log_meta_type cl) (log_slot_type cl T) n ! j)
    \<and> \<not> share_line 64 (ring_parts v1_consumer_type v1_producer_type v1_meta_type v1_slot_type n ! i)
      (ring_parts v1_consumer_type v1_producer_type v1_meta_type v1_slot_type n ! j)"
proof -
  have len: "length (ring_parts C P M S n) = 34 + n" for C P M S
    by (simp add: ring_parts_def Let_def)
  have two: "pow2 (cl * 2)" using assms(2) by (metis pow2_def power_Suc2)
  have d1: "64 dvd align_of consumer_type" "64 dvd align_of producer_type"
    "64 dvd align_of meta_type" "64 dvd align_of v1_consumer_type" "64 dvd align_of v1_producer_type"
    "64 dvd align_of v1_meta_type" "64 dvd align_of v1_slot_type"
    by (simp_all add: struct_defs)
  have "128 dvd align_of (slot_type T)"
    using assms(1) unfolding slot_type_def DOUBLE_CACHE_LINE_def by (intro alignas_dvd) simp_all
  then have d2: "64 dvd align_of (slot_type T)"
    by (rule dvd_trans [rotated]) simp
  have "cl * 2 dvd align_of (log_producer_type cl)" "cl * 2 dvd align_of (log_meta_type cl)"
    "cl * 2 dvd align_of (log_slot_type cl T)"
    unfolding log_producer_type_def log_meta_type_def log_slot_type_def
    by (intro alignas_dvd two; simp add: assms(1))+
  then have "cl dvd align_of (log_producer_type cl)"
    "cl dvd align_of (log_meta_type cl)" "cl dvd align_of (log_slot_type cl T)"
    using dvd_mult_left [of cl 2] by blast+
  moreover have "cl dvd align_of (log_consumer_type cl)"
    unfolding log_consumer_type_def by (rule alignas_dvd [OF assms(2)]) simp
  ultimately have d3: "cl dvd align_of (log_consumer_type cl)" "cl dvd align_of (log_producer_type cl)"
    "cl dvd align_of (log_meta_type cl)" "cl dvd align_of (log_slot_type cl T)"
    by blast+
  have w: "wf_ctype (slot_type T)" "wf_ctype (log_consumer_type cl)" "wf_ctype (log_producer_type cl)"
    "wf_ctype (log_meta_type cl)" "wf_ctype (log_slot_type cl T)"
    using assms(1,2) two by (simp_all add: struct_defs)
  show ?thesis
    using ring_parts_isolated [where w = 64 and n = n, OF _ _ _ w(1) _ d1(1-3) d2]
      ring_parts_isolated [where w = cl and n = n, OF w(2-5) pow2_pos [OF assms(2)] d3]
      ring_parts_isolated [where w = 64 and n = n, OF _ _ _ _ _ d1(4-7)] assms(3-5)
    by (simp add: len)
qed

lemma no_false_sharing_witness:
  "\<not> share_line 64 (ring_parts v1_consumer_type v1_producer_type v1_meta_type v1_slot_type 2 ! 32)
     (ring_parts v1_consumer_type v1_producer_type v1_meta_type v1_slot_type 2 ! 33)"
  using no_false_sharing [of market_type 64 32 33 2] by simp

end
