(* ===== verification/Queue_Memory.thy ===== *)
theory Queue_Memory
  imports Legacy_Queue Memory_Layout
begin

text \<open>
  The class template \<open>MPMC_Queue<T, SIZE>\<close> of mpmc_2.hpp on the bytes it occupies: every
  load, store and copy is at the offset \<open>Memory_Layout\<close> gives its field, and an access outside
  the queue object is \<open>None\<close>. \<open>push\<close> and \<open>pop\<close> take a \<open>MarketData\<close> and copy 96 bytes into or
  out of the \<open>T\<close> of a slot, whatever \<open>T\<close> is. Proved: for every item type but those of 64 bytes
  aligned to 64, the calls never leave the object and do on its bytes what the calls of
  \<open>Legacy_Queue\<close> do on the fields; for the others a push overwrites the sequence number of
  the next slot, or leaves the object at the last slot.
\<close>

section \<open>Field offsets\<close>

definition consumer_at :: "ctype \<Rightarrow> nat \<Rightarrow> nat \<Rightarrow> nat" where
  "consumer_at T n i = the (offset_of (queue_type T n) ''consumers_'') + i * size_of consumer_type"

definition tail_at :: "ctype \<Rightarrow> nat \<Rightarrow> nat \<Rightarrow> nat" where
  "tail_at T n i = consumer_at T n i + the (offset_of consumer_type ''tail'')"

definition active_at :: "ctype \<Rightarrow> nat \<Rightarrow> nat \<Rightarrow> nat" where
  "active_at T n i = consumer_at T n i + the (offset_of consumer_type ''active'')"

definition head_at :: "ctype \<Rightarrow> nat \<Rightarrow> nat" where
  "head_at T n = the (offset_of (queue_type T n) ''producer'') + the (offset_of producer_type ''head'')"

definition meta_at :: "ctype \<Rightarrow> nat \<Rightarrow> string \<Rightarrow> nat" where
  "meta_at T n f = the (offset_of (queue_type T n) ''meta_'') + the (offset_of meta_type f)"

definition slot_size :: "ctype \<Rightarrow> nat" where
  "slot_size T = size_of (slot_type T)"

definition slot_at :: "ctype \<Rightarrow> nat \<Rightarrow> nat \<Rightarrow> nat" where
  "slot_at T n i = the (offset_of (queue_type T n) ''slots'') + i * slot_size T"

definition sequence_at :: "ctype \<Rightarrow> nat \<Rightarrow> nat \<Rightarrow> nat" where
  "sequence_at T n i = slot_at T n i + the (offset_of (slot_type T) ''sequence'')"

definition data_off :: "ctype \<Rightarrow> nat" where
  "data_off T = the (offset_of (slot_type T) ''data'')"

definition data_at :: "ctype \<Rightarrow> nat \<Rightarrow> nat \<Rightarrow> nat" where
  "data_at T n i = slot_at T n i + data_off T"

lemma field_offsets [simp]:
  "consumer_at T n i = 64 * i" "tail_at T n i = 64 * i" "active_at T n i = 64 * i + 8"
  "head_at T n = 2048" "meta_at T n ''num_consumers'' = 2176" "meta_at T n ''min_tail'' = 2184"
  "meta_at T n ''purge_lock'' = 2192" "sequence_at T n i = slot_at T n i"
  by (simp_all add: consumer_at_def tail_at_def active_at_def head_at_def meta_at_def sequence_at_def
      queue_type_def ring_type_def slot_type_def consumer_type_def producer_type_def meta_type_def
      CACHE_LINE_def DOUBLE_CACHE_LINE_def round_up_def)

text \<open>The copy of a \<open>MarketData\<close> stays inside the slot it goes to.\<close>

definition slot_fits :: "ctype \<Rightarrow> bool" where
  "slot_fits T \<longleftrightarrow> data_off T + 96 \<le> slot_size T"

lemma data_off_ge: "wf_ctype T \<Longrightarrow> 8 \<le> data_off T \<and> data_off T + size_of T \<le> slot_size T"
proof -
  assume w: "wf_ctype T"
  have p: "0 < align_of T" using align_pow2(1) [OF w] by simp
  have "data_off T = round_up 8 (align_of T)"
    by (simp add: data_off_def slot_type_def round_up_def)
  moreover have "slot_size T = round_up (round_up 8 (align_of T) + size_of T)
      (max DOUBLE_CACHE_LINE (max 8 (max (align_of T) 1)))"
    by (simp add: slot_size_def slot_type_def round_up_def)
  ultimately show ?thesis
    using round_up_ge [OF p, of 8] round_up_ge [of "max DOUBLE_CACHE_LINE (max 8 (max (align_of T) 1))"]
    by (simp add: DOUBLE_CACHE_LINE_def less_max_iff_disj)
qed

definition slots_base :: "ctype \<Rightarrow> nat \<Rightarrow> nat" where
  "slots_base T n = slot_at T n 0"

lemma slot_at_base: "slot_at T n i = slots_base T n + i * slot_size T"
  by (simp add: slots_base_def slot_at_def)

lemma queue_placement:
  assumes "wf_ctype T"
  shows "slots_base T n = round_up 2304 (align_of (slot_type T))"
    and "size_of (queue_type T n) =
      round_up (slots_base T n + n * slot_size T) (align_of (slot_type T))"
proof -
  let ?al = "align_of (slot_type T)"
  show b: "slots_base T n = round_up 2304 ?al"
    by (simp add: slots_base_def slot_at_def queue_type_def ring_type_def consumer_type_def
        producer_type_def meta_type_def CACHE_LINE_def DOUBLE_CACHE_LINE_def round_up_def)
  have "128 \<le> ?al" by (simp add: slot_type_def DOUBLE_CACHE_LINE_def)
  then have "max 1 (fields_align [(''consumers_'', Array_of consumer_type 32), (''producer'', producer_type),
        (''meta_'', meta_type), (''slots'', Array_of (slot_type T) n)]) = ?al"
    by (simp add: consumer_type_def producer_type_def meta_type_def CACHE_LINE_def DOUBLE_CACHE_LINE_def)
  moreover have "size_of (queue_type T n) = round_up (slots_base T n + n * slot_size T)
      (max 1 (fields_align [(''consumers_'', Array_of consumer_type 32), (''producer'', producer_type),
        (''meta_'', meta_type), (''slots'', Array_of (slot_type T) n)]))"
    by (simp add: b queue_type_def ring_type_def slot_size_def consumer_type_def
        producer_type_def meta_type_def CACHE_LINE_def DOUBLE_CACHE_LINE_def round_up_def)
  ultimately show "size_of (queue_type T n) = round_up (slots_base T n + n * slot_size T) ?al"
    by simp
qed

lemma queue_extent:
  assumes "wf_ctype T"
  shows "2304 \<le> slots_base T n" "slots_base T n + n * slot_size T \<le> size_of (queue_type T n)"
proof -
  have "0 < align_of (slot_type T)" by (simp add: slot_type_def less_max_iff_disj)
  then show "2304 \<le> slots_base T n" "slots_base T n + n * slot_size T \<le> size_of (queue_type T n)"
    using queue_placement [OF assms, of n] round_up_ge by simp_all
qed

section \<open>Loads and stores\<close>

definition load_u64 :: "bytes \<Rightarrow> nat \<Rightarrow> u64 option" where
  "load_u64 m p = map_option (\<lambda>bs. of_nat (le_value bs)) (load_at m p 8)"

definition load_u32 :: "bytes \<Rightarrow> nat \<Rightarrow> u32 option" where
  "load_u32 m p = map_option (\<lambda>bs. of_nat (le_value bs)) (load_at m p 4)"

definition load_bool :: "bytes \<Rightarrow> nat \<Rightarrow> bool option" where
  "load_bool m p = map_option (\<lambda>bs. le_value bs \<noteq> 0) (load_at m p 1)"

definition store_u64 :: "bytes \<Rightarrow> nat \<Rightarrow> u64 \<Rightarrow> bytes option" where
  "store_u64 m p v = store_at m p (le_image 8 (unat v))"

definition store_u32 :: "bytes \<Rightarrow> nat \<Rightarrow> u32 \<Rightarrow> bytes option" where
  "store_u32 m p v = store_at m p (le_image 4 (unat v))"

definition store_bool :: "bytes \<Rightarrow> nat \<Rightarrow> bool \<Rightarrow> bytes option" where
  "store_bool m p v = store_at m p (le_image 1 (of_bool v))"

lemma take_drop_overwrite_apart:
  assumes "p + k \<le> off \<or> off + length ys \<le> p" and "off + length ys \<le> length m"
  shows "take k (drop p (overwrite off ys m)) = take k (drop p m)"
  using assms
proof (elim disjE)
  assume a: "p + k \<le> off" "off + length ys \<le> length m"
  have "take k (drop p (overwrite off ys m)) = drop p (take (p + k) (overwrite off ys m))"
    by (simp add: drop_take)
  also have "take (p + k) (overwrite off ys m) = take (p + k) m"
    using a by (simp add: overwrite_def min_absorb2)
  finally show ?thesis by (simp add: drop_take)
next
  assume a: "off + length ys \<le> p" "off + length ys \<le> length m"
  then have "drop p (overwrite off ys m) = drop p m"
    by (simp add: overwrite_def)
  then show ?thesis by simp
qed

lemma take_drop_overwrite_same:
  assumes "off + length ys \<le> length m"
  shows "take (length ys) (drop off (overwrite off ys m)) = ys"
  using assms by (simp add: overwrite_def)

lemma load_apart [simp]:
  assumes "p + k \<le> off \<or> off + length ys \<le> p" and "off + length ys \<le> length m"
  shows "load_at (overwrite off ys m) p k = load_at m p k"
  using take_drop_overwrite_apart [OF assms] assms(2) by (simp add: load_at_def)

lemma load_same:
  assumes "off + length ys \<le> length m" and "k = length ys"
  shows "load_at (overwrite off ys m) off k = Some ys"
  using take_drop_overwrite_same [OF assms(1)] assms by (simp add: load_at_def)

lemma loads_apart:
  assumes "off + length ys \<le> length m"
  shows "p + 8 \<le> off \<or> off + length ys \<le> p \<Longrightarrow> load_u64 (overwrite off ys m) p = load_u64 m p"
    and "p + 4 \<le> off \<or> off + length ys \<le> p \<Longrightarrow> load_u32 (overwrite off ys m) p = load_u32 m p"
    and "p + 1 \<le> off \<or> off + length ys \<le> p \<Longrightarrow> load_bool (overwrite off ys m) p = load_bool m p"
  using assms by (simp_all add: load_u64_def load_u32_def load_bool_def del: One_nat_def)

lemma loads_same:
  "off + 8 \<le> length m \<Longrightarrow> load_u64 (overwrite off (le_image 8 (unat v)) m) off = Some v"
  "off + 4 \<le> length m \<Longrightarrow> load_u32 (overwrite off (le_image 4 (unat u)) m) off = Some u"
  "off + 1 \<le> length m \<Longrightarrow> load_bool (overwrite off (le_image 1 (of_bool b)) m) off = Some b"
  by (simp_all add: load_u64_def load_u32_def load_bool_def load_same le_value_field
      del: le_image.simps One_nat_def) (cases b; simp)

lemma stores_in:
  "off + 8 \<le> length m \<Longrightarrow> store_u64 m off v = Some (overwrite off (le_image 8 (unat v)) m)"
  "off + 4 \<le> length m \<Longrightarrow> store_u32 m off u = Some (overwrite off (le_image 4 (unat u)) m)"
  "off + 1 \<le> length m \<Longrightarrow> store_bool m off b = Some (overwrite off (le_image 1 (of_bool b)) m)"
  by (simp_all add: store_u64_def store_u32_def store_bool_def store_at_in del: le_image.simps One_nat_def)

lemma loads_in:
  "off + 8 \<le> length m \<Longrightarrow> load_u64 m off = Some (the (load_u64 m off))"
  "off + 4 \<le> length m \<Longrightarrow> load_u32 m off = Some (the (load_u32 m off))"
  "off + 1 \<le> length m \<Longrightarrow> load_bool m off = Some (the (load_bool m off))"
  by (simp_all add: load_u64_def load_u32_def load_bool_def load_at_in)

text \<open>The 96-byte copy between two places, with or without AVX2.\<close>

definition copy_96 :: "bool \<Rightarrow> bytes \<Rightarrow> nat \<Rightarrow> bytes \<Rightarrow> nat \<Rightarrow> bytes option" where
  "copy_96 avx2 dst d src s =
     (if avx2 then do {
        y0 \<leftarrow> load_at src s 32; y1 \<leftarrow> load_at src (s + 32) 32; y2 \<leftarrow> load_at src (s + 64) 32;
        dst \<leftarrow> store_at dst d y0; dst \<leftarrow> store_at dst (d + 32) y1; store_at dst (d + 64) y2 }
      else memcpy dst d src s 96)"

lemma copy_96_memcpy: "copy_96 avx2 dst d src s = memcpy dst d src s 96"
proof (cases "s + 96 \<le> length src \<and> d + 96 \<le> length dst")
  case True
  then have len: "length (take 32 (drop s src)) = 32" "length (take 32 (drop (s + 32) src)) = 32"
    "length (take 32 (drop (s + 64) src)) = 32" by (auto simp: min_def)
  let ?y = "\<lambda>k. take 32 (drop (s + k) src)"
  have "overwrite (d + 64) (?y 64) (overwrite (d + 32) (?y 32) (overwrite d (take 32 (drop s src)) dst))
      = overwrite d (take 32 (drop s src) @ ?y 32 @ ?y 64) dst"
    using overwrite_overwrite [of d "take 32 (drop s src)" dst "?y 32"]
      overwrite_overwrite [of d "take 32 (drop s src) @ ?y 32" dst "?y 64"] len True
    by simp
  moreover have "take 32 (drop s src) @ ?y 32 @ ?y 64 = take 96 (drop s src)"
    using take_add [of 32 64 "drop s src"] take_add [of 32 32 "drop (s + 32) src"]
    by (simp add: add.commute)
  ultimately show ?thesis using True len by (simp add: copy_96_def memcpy_in load_at_in store_at_in del: length_take)
next
  case False
  then show ?thesis
    by (auto simp: copy_96_def memcpy_def load_at_def store_at_def bind_eq_None_conv)
qed

section \<open>The calls on bytes\<close>

definition mem_reg_consumer :: "ctype \<Rightarrow> nat \<Rightarrow> bytes \<Rightarrow> ((queue_error + u32) \<times> bytes) option" where
  "mem_reg_consumer T n m = do {
     c \<leftarrow> load_u32 m (meta_at T n ''num_consumers'');
     m \<leftarrow> store_u32 m (meta_at T n ''num_consumers'') (c + 1);
     if c \<ge> MAX_CONSUMERS then Some (Inl Too_many_consumers, m)
     else do {
       h \<leftarrow> load_u64 m (head_at T n);
       m \<leftarrow> store_u64 m (tail_at T n (unat c)) h;
       m \<leftarrow> store_bool m (active_at T n (unat c)) True;
       Some (Inr c, m) } }"

definition mem_del_consumer :: "ctype \<Rightarrow> nat \<Rightarrow> u32 \<Rightarrow> bytes \<Rightarrow> bytes option" where
  "mem_del_consumer T n c m = store_bool m (active_at T n (unat c)) False"

definition mem_head :: "ctype \<Rightarrow> nat \<Rightarrow> bytes \<Rightarrow> u64 option" where
  "mem_head T n m = load_u64 m (head_at T n)"

definition mem_tail :: "ctype \<Rightarrow> nat \<Rightarrow> u32 \<Rightarrow> bytes \<Rightarrow> u64 option" where
  "mem_tail T n c m = load_u64 m (tail_at T n (unat c))"

definition mem_acc_min :: "ctype \<Rightarrow> nat \<Rightarrow> bytes \<Rightarrow> nat \<Rightarrow> u64 \<Rightarrow> u64 option" where
  "mem_acc_min T n m i mn = do {
     a \<leftarrow> load_bool m (active_at T n i);
     if a then do { t \<leftarrow> load_u64 m (tail_at T n i); Some (min mn t) } else Some mn }"

function mem_min_loop ::
  "ctype \<Rightarrow> nat \<Rightarrow> bytes \<Rightarrow> nat \<Rightarrow> u64 \<times> u64 \<times> u64 \<times> u64 \<Rightarrow> (u64 \<times> u64 \<times> u64 \<times> u64) option" where
  "mem_min_loop T n m i (m0, m1, m2, m3) =
     (if i < unat MAX_CONSUMERS then do {
        m0 \<leftarrow> mem_acc_min T n m i m0;
        m1 \<leftarrow> mem_acc_min T n m (i + 1) m1;
        m2 \<leftarrow> mem_acc_min T n m (i + 2) m2;
        m3 \<leftarrow> mem_acc_min T n m (i + 3) m3;
        mem_min_loop T n m (i + 4) (m0, m1, m2, m3) }
      else Some (m0, m1, m2, m3))"
  by pat_completeness auto
termination
  by (relation "measure (\<lambda>(T, n, m, i, ms). unat MAX_CONSUMERS - i)") auto

declare mem_min_loop.simps [simp del]

definition mem_computeMinTail :: "ctype \<Rightarrow> nat \<Rightarrow> bytes \<Rightarrow> (u64 \<times> bytes) option" where
  "mem_computeMinTail T n m = do {
     r \<leftarrow> mem_min_loop T n m 0 (INVALID_POS, INVALID_POS, INVALID_POS, INVALID_POS);
     let mini = merge_mins r;
     m \<leftarrow> store_u64 m (meta_at T n ''min_tail'') mini;
     Some (mini, m) }"

definition mem_recomputeAndStoreMinTail :: "ctype \<Rightarrow> nat \<Rightarrow> bytes \<Rightarrow> bytes option" where
  "mem_recomputeAndStoreMinTail T n m = do {
     (mini, m) \<leftarrow> mem_computeMinTail T n m;
     store_u64 m (meta_at T n ''min_tail'') mini }"

definition mem_check :: "ctype \<Rightarrow> nat \<Rightarrow> u64 \<Rightarrow> bytes \<Rightarrow> (bool \<times> bytes) option" where
  "mem_check T n h m = do {
     mt \<leftarrow> load_u64 m (meta_at T n ''min_tail'');
     if h \<ge> mt + of_nat n then do {
       (new_min, m) \<leftarrow> mem_computeMinTail T n m;
       m \<leftarrow> (if new_min \<noteq> mt then store_u64 m (meta_at T n ''min_tail'') new_min else Some m);
       let mt = (if new_min \<noteq> mt then new_min else mt);
       Some (h \<ge> mt + of_nat n, m) }
     else Some (False, m) }"

definition mem_index :: "nat \<Rightarrow> u64 \<Rightarrow> nat" where
  "mem_index n p = unat (p AND (of_nat n - 1))"

definition mem_publish :: "bool \<Rightarrow> ctype \<Rightarrow> nat \<Rightarrow> u64 \<Rightarrow> bytes \<Rightarrow> bytes \<Rightarrow> bytes option" where
  "mem_publish avx2 T n h item m = do {
     let index = mem_index n h;
     m \<leftarrow> copy_96 avx2 m (data_at T n index) item 0;
     store_u64 m (sequence_at T n index) h }"

fun mem_push :: "bool \<Rightarrow> ctype \<Rightarrow> nat \<Rightarrow> bool list \<Rightarrow> bytes \<Rightarrow> bytes \<Rightarrow> (bool \<times> bytes) option" where
  "mem_push avx2 T n [] item m = do {
     h \<leftarrow> load_u64 m (head_at T n);
     (full, m) \<leftarrow> mem_check T n h m;
     if full then Some (False, m)
     else do {
       m \<leftarrow> store_u64 m (head_at T n) (h + 1);
       m \<leftarrow> mem_publish avx2 T n h item m;
       Some (True, m) } }"
| "mem_push avx2 T n (spurious # fs) item m = do {
     h \<leftarrow> load_u64 m (head_at T n);
     (full, m) \<leftarrow> mem_check T n h m;
     if full then Some (False, m)
     else if spurious then mem_push avx2 T n fs item m
     else do {
       m \<leftarrow> store_u64 m (head_at T n) (h + 1);
       m \<leftarrow> mem_publish avx2 T n h item m;
       Some (True, m) } }"

text \<open>\<open>pop\<close> copies into the caller's \<open>item\<close>; result, item and queue bytes.\<close>

definition mem_pop ::
  "bool \<Rightarrow> ctype \<Rightarrow> nat \<Rightarrow> u32 \<Rightarrow> bytes \<Rightarrow> bytes \<Rightarrow> (bool \<times> bytes \<times> bytes) option" where
  "mem_pop avx2 T n c item m = do {
     a \<leftarrow> load_bool m (active_at T n (unat c));
     if \<not> a then Some (False, item, m)
     else do {
       t \<leftarrow> load_u64 m (tail_at T n (unat c));
       let index = mem_index n t;
       seq \<leftarrow> load_u64 m (sequence_at T n index);
       if seq \<noteq> t then Some (False, item, m)
       else do {
         item \<leftarrow> copy_96 avx2 item 0 m (data_at T n index);
         m \<leftarrow> store_u64 m (tail_at T n (unat c)) (t + 1);
         Some (True, item, m) } } }"

text \<open>
  The constructor: the body's stores after the default member initialisers, which give the
  same values. \<open>ctor\<close> is the default constructor of \<open>T\<close>, on the bytes of one item.
\<close>

fun mem_init_consumers :: "ctype \<Rightarrow> nat \<Rightarrow> nat list \<Rightarrow> bytes \<Rightarrow> bytes option" where
  "mem_init_consumers T n [] m = Some m"
| "mem_init_consumers T n (i # is) m = do {
     m \<leftarrow> store_u64 m (tail_at T n i) 0;
     m \<leftarrow> store_bool m (active_at T n i) False;
     mem_init_consumers T n is m }"

fun mem_init_items :: "(bytes \<Rightarrow> bytes) \<Rightarrow> ctype \<Rightarrow> nat \<Rightarrow> nat list \<Rightarrow> bytes \<Rightarrow> bytes option" where
  "mem_init_items ctor T n [] m = Some m"
| "mem_init_items ctor T n (i # is) m = do {
     bs \<leftarrow> load_at m (data_at T n i) (size_of T);
     m \<leftarrow> store_at m (data_at T n i) (ctor bs);
     mem_init_items ctor T n is m }"

fun mem_init_slots :: "ctype \<Rightarrow> nat \<Rightarrow> nat list \<Rightarrow> bytes \<Rightarrow> bytes option" where
  "mem_init_slots T n [] m = Some m"
| "mem_init_slots T n (i # is) m = do {
     m \<leftarrow> store_u64 m (sequence_at T n i) INVALID_POS;
     mem_init_slots T n is m }"

definition mem_queue_new :: "(bytes \<Rightarrow> bytes) \<Rightarrow> ctype \<Rightarrow> nat \<Rightarrow> bytes \<Rightarrow> bytes option" where
  "mem_queue_new ctor T n m = do {
     m \<leftarrow> store_u64 m (head_at T n) 0;
     m \<leftarrow> mem_init_items ctor T n [0..<n] m;
     m \<leftarrow> store_u32 m (meta_at T n ''num_consumers'') 0;
     m \<leftarrow> store_u64 m (meta_at T n ''min_tail'') 0;
     m \<leftarrow> store_bool m (meta_at T n ''purge_lock'') False;
     m \<leftarrow> mem_init_consumers T n [0..<32] m;
     mem_init_slots T n [0..<n] m }"

section \<open>The fields the bytes stand for\<close>

definition mem_consumer :: "ctype \<Rightarrow> nat \<Rightarrow> bytes \<Rightarrow> nat \<Rightarrow> ConsumerInfo" where
  "mem_consumer T n m i =
     \<lparr>tail = the (load_u64 m (tail_at T n i)), active = the (load_bool m (active_at T n i))\<rparr>"

definition mem_slot :: "ctype \<Rightarrow> nat \<Rightarrow> bytes \<Rightarrow> nat \<Rightarrow> MarketData Slot" where
  "mem_slot T n m i =
     \<lparr>sequence = the (load_u64 m (sequence_at T n i)),
      data = market_of_image (take 96 (drop (data_at T n i) m))\<rparr>"

definition mem_queue :: "ctype \<Rightarrow> nat \<Rightarrow> bytes \<Rightarrow> MarketData MPMC_Queue" where
  "mem_queue T n m =
     \<lparr>consumers = map (mem_consumer T n m) [0..<32],
      producer = \<lparr>head = the (load_u64 m (head_at T n))\<rparr>,
      meta = \<lparr>num_consumers = the (load_u32 m (meta_at T n ''num_consumers'')),
              min_tail = the (load_u64 m (meta_at T n ''min_tail''))\<rparr>,
      slots = map (mem_slot T n m) [0..<n],
      purge_lock = the (load_bool m (meta_at T n ''purge_lock''))\<rparr>"

text \<open>The bytes of a queue object of a type whose slots hold the copy.\<close>

definition ring_bytes :: "ctype \<Rightarrow> nat \<Rightarrow> bytes \<Rightarrow> bool" where
  "ring_bytes T n m \<longleftrightarrow> wf_ctype T \<and> slot_fits T \<and> (\<exists>k < 64. n = 2 ^ k)
     \<and> length m = size_of (queue_type T n)"

lemma slot_block_end: "i < n \<Longrightarrow> slot_at T n i + slot_size T \<le> slots_base T n + n * slot_size T"
  using block_end [of i n "slot_size T"] by (simp add: slot_at_base)

lemma ring_bytesD:
  assumes "ring_bytes T n m"
  shows "2304 \<le> length m" "i < n \<Longrightarrow> slot_at T n i + slot_size T \<le> length m"
    "2304 \<le> slot_at T n i" "8 \<le> data_off T" "data_off T + 96 \<le> slot_size T" "mem_index n p < n"
    "i \<noteq> j \<Longrightarrow> slot_at T n i + slot_size T \<le> slot_at T n j
      \<or> slot_at T n j + slot_size T \<le> slot_at T n i" "0 < n"
proof -
  have w: "wf_ctype T" and f: "slot_fits T" and len: "length m = size_of (queue_type T n)"
    using assms by (auto simp: ring_bytes_def)
  obtain k where k: "n = 2 ^ k" "k < 64" using assms by (auto simp: ring_bytes_def)
  note e = queue_extent [OF w, of n]
  show "2304 \<le> length m" "2304 \<le> slot_at T n i" using e len by (simp_all add: slot_at_base)
  show "slot_at T n i + slot_size T \<le> length m" if "i < n"
    using order_trans [OF slot_block_end [OF that] e(2)] len by simp
  show "8 \<le> data_off T" "data_off T + 96 \<le> slot_size T"
    using data_off_ge [OF w] f by (simp_all add: slot_fits_def)
  show "0 < n" using k by simp
  then show "mem_index n p < n" using unat_and_mask [OF k, of p] by (simp add: mem_index_def)
  show "slot_at T n i + slot_size T \<le> slot_at T n j \<or> slot_at T n j + slot_size T \<le> slot_at T n i"
    if "i \<noteq> j"
    using that block_end [of i j "slot_size T"] block_end [of j i "slot_size T"]
    by (cases i j rule: linorder_cases) (simp_all add: slot_at_base)
qed

lemma ring_bytes_overwrite:
  "ring_bytes T n m \<Longrightarrow> off + length ys \<le> length m \<Longrightarrow> ring_bytes T n (overwrite off ys m)"
  by (simp add: ring_bytes_def)

lemma map_upt_cong: "(\<And>i. i < n \<Longrightarrow> f i = g i) \<Longrightarrow> map f [0..<n] = map g [0..<n]"
  by simp

lemma map_upt_update:
  assumes "i < n" and "\<And>j. j < n \<Longrightarrow> j \<noteq> i \<Longrightarrow> g j = f j" and "g i = v"
  shows "map g [0..<n] = (map f [0..<n])[i := v]"
  using assms by (intro nth_equalityI) (auto simp: nth_list_update)

subsection \<open>What a store leaves alone\<close>

lemma consumer_apart:
  assumes "off + length ys \<le> length m" and "64 * i + 9 \<le> off \<or> off + length ys \<le> 64 * i"
  shows "mem_consumer T n (overwrite off ys m) i = mem_consumer T n m i"
  using loads_apart(1) [OF assms(1), of "64 * i"] loads_apart(3) [OF assms(1), of "64 * i + 8"] assms(2)
  by (auto simp: mem_consumer_def)

lemma consumers_apart:
  assumes "off + length ys \<le> length m" and "2048 \<le> off"
  shows "map (mem_consumer T n (overwrite off ys m)) [0..<32] = map (mem_consumer T n m) [0..<32]"
  using assms by (intro map_upt_cong consumer_apart) auto

lemma slot_apart:
  assumes "off + length ys \<le> length m"
    and "slot_at T n i + data_off T + 96 \<le> off \<or> off + length ys \<le> slot_at T n i" and "8 \<le> data_off T"
  shows "mem_slot T n (overwrite off ys m) i = mem_slot T n m i"
proof -
  have "load_u64 (overwrite off ys m) (slot_at T n i) = load_u64 m (slot_at T n i)"
    using loads_apart(1) [OF assms(1), of "slot_at T n i"] assms(2,3) by auto
  moreover have "take 96 (drop (data_at T n i) (overwrite off ys m)) = take 96 (drop (data_at T n i) m)"
    using assms by (intro take_drop_overwrite_apart) (auto simp: data_at_def)
  ultimately show ?thesis by (simp add: mem_slot_def)
qed

lemma slots_apart:
  assumes "ring_bytes T n m" and "off + length ys \<le> 2304"
  shows "map (mem_slot T n (overwrite off ys m)) [0..<n] = map (mem_slot T n m) [0..<n]"
  using ring_bytesD [OF assms(1)] assms(2)
  by (intro map_upt_cong slot_apart) (auto intro: order_trans)

lemma front_apart:
  assumes "ring_bytes T n m" and "off + length ys \<le> length m"
  shows "2056 \<le> off \<or> off + length ys \<le> 2048 \<Longrightarrow>
      load_u64 (overwrite off ys m) 2048 = load_u64 m 2048"
    and "2180 \<le> off \<or> off + length ys \<le> 2176 \<Longrightarrow>
      load_u32 (overwrite off ys m) 2176 = load_u32 m 2176"
    and "2192 \<le> off \<or> off + length ys \<le> 2184 \<Longrightarrow>
      load_u64 (overwrite off ys m) 2184 = load_u64 m 2184"
    and "2193 \<le> off \<or> off + length ys \<le> 2192 \<Longrightarrow>
      load_bool (overwrite off ys m) 2192 = load_bool m 2192"
  using loads_apart [OF assms(2)] by simp_all

subsection \<open>What a store changes\<close>

lemma view_tail:
  assumes r: "ring_bytes T n m" and c: "c < 32"
  shows "mem_queue T n (overwrite (64 * c) (le_image 8 (unat v)) m)
    = (mem_queue T n m)\<lparr>consumers := (consumers (mem_queue T n m))
        [c := (consumers (mem_queue T n m) ! c)\<lparr>tail := v\<rparr>]\<rparr>"
proof -
  let ?m = "overwrite (64 * c) (le_image 8 (unat v)) m"
  have b: "64 * c + length (le_image 8 (unat v)) \<le> length m" "64 * c + 9 \<le> 2048"
    using ring_bytesD(1) [OF r] c by simp_all
  have "mem_consumer T n ?m c = (mem_consumer T n m c)\<lparr>tail := v\<rparr>"
    using loads_same(1) [of "64 * c" m v] loads_apart(3) [OF b(1), of "64 * c + 8"] b
    by (simp add: mem_consumer_def)
  moreover have "mem_consumer T n ?m j = mem_consumer T n m j" if "j < 32" "j \<noteq> c" for j
    using that b by (intro consumer_apart) auto
  ultimately have "map (mem_consumer T n ?m) [0..<32] = (map (mem_consumer T n m) [0..<32])
      [c := (mem_consumer T n m c)\<lparr>tail := v\<rparr>]"
    using c by (intro map_upt_update) auto
  then show ?thesis
    using front_apart [OF r b(1)] slots_apart [OF r, of "64 * c" "le_image 8 (unat v)"] b c
    by (simp add: mem_queue_def)
qed

lemma view_active:
  assumes r: "ring_bytes T n m" and c: "c < 32"
  shows "mem_queue T n (overwrite (64 * c + 8) (le_image 1 (of_bool v)) m)
    = (mem_queue T n m)\<lparr>consumers := (consumers (mem_queue T n m))
        [c := (consumers (mem_queue T n m) ! c)\<lparr>active := v\<rparr>]\<rparr>"
proof -
  let ?m = "overwrite (64 * c + 8) (le_image 1 (of_bool v)) m"
  have b: "64 * c + 8 + length (le_image 1 (of_bool v)) \<le> length m" "64 * c + 9 \<le> 2048"
    using ring_bytesD(1) [OF r] c by (simp_all del: le_image.simps One_nat_def)
  have "mem_consumer T n ?m c = (mem_consumer T n m c)\<lparr>active := v\<rparr>"
    using loads_same(3) [of "64 * c + 8" m v] loads_apart(1) [OF b(1), of "64 * c"] b
    by (simp add: mem_consumer_def del: le_image.simps One_nat_def)
  moreover have "mem_consumer T n ?m j = mem_consumer T n m j" if "j < 32" "j \<noteq> c" for j
    using that b by (intro consumer_apart) (auto simp del: le_image.simps One_nat_def)
  ultimately have "map (mem_consumer T n ?m) [0..<32] = (map (mem_consumer T n m) [0..<32])
      [c := (mem_consumer T n m c)\<lparr>active := v\<rparr>]"
    using c by (intro map_upt_update) auto
  then show ?thesis
    using front_apart [OF r b(1)] slots_apart [OF r, of "64 * c + 8" "le_image 1 (of_bool v)"] b c
    by (simp add: mem_queue_def del: le_image.simps One_nat_def)
qed

lemma view_head:
  assumes r: "ring_bytes T n m"
  shows "mem_queue T n (overwrite 2048 (le_image 8 (unat v)) m)
    = (mem_queue T n m)\<lparr>producer := (producer (mem_queue T n m))\<lparr>head := v\<rparr>\<rparr>"
proof -
  have b: "2048 + length (le_image 8 (unat v)) \<le> length m" using ring_bytesD(1) [OF r] by simp
  then show ?thesis
    using front_apart [OF r b] slots_apart [OF r, of 2048 "le_image 8 (unat v)"] loads_same(1) [of 2048 m v]
      consumers_apart [OF b] by (simp add: mem_queue_def)
qed

lemma view_num:
  assumes r: "ring_bytes T n m"
  shows "mem_queue T n (overwrite 2176 (le_image 4 (unat v)) m)
    = (mem_queue T n m)\<lparr>meta := (meta (mem_queue T n m))\<lparr>num_consumers := v\<rparr>\<rparr>"
proof -
  have b: "2176 + length (le_image 4 (unat v)) \<le> length m" using ring_bytesD(1) [OF r] by simp
  then show ?thesis
    using front_apart [OF r b] slots_apart [OF r, of 2176 "le_image 4 (unat v)"] loads_same(2) [of 2176 m v]
      consumers_apart [OF b] by (simp add: mem_queue_def)
qed

lemma view_min:
  assumes r: "ring_bytes T n m"
  shows "mem_queue T n (overwrite 2184 (le_image 8 (unat v)) m)
    = (mem_queue T n m)\<lparr>meta := (meta (mem_queue T n m))\<lparr>min_tail := v\<rparr>\<rparr>"
proof -
  have b: "2184 + length (le_image 8 (unat v)) \<le> length m" using ring_bytesD(1) [OF r] by simp
  then show ?thesis
    using front_apart [OF r b] slots_apart [OF r, of 2184 "le_image 8 (unat v)"] loads_same(1) [of 2184 m v]
      consumers_apart [OF b] by (simp add: mem_queue_def)
qed

lemma view_sequence:
  assumes r: "ring_bytes T n m" and i: "i < n"
  shows "mem_queue T n (overwrite (slot_at T n i) (le_image 8 (unat v)) m)
    = (mem_queue T n m)\<lparr>slots := (slots (mem_queue T n m))
        [i := (slots (mem_queue T n m) ! i)\<lparr>sequence := v\<rparr>]\<rparr>"
proof -
  let ?m = "overwrite (slot_at T n i) (le_image 8 (unat v)) m"
  note d = ring_bytesD [OF r]
  have b: "slot_at T n i + length (le_image 8 (unat v)) \<le> length m"
    using d(2) [OF i] d(4,5) by simp
  have "take 96 (drop (data_at T n i) ?m) = take 96 (drop (data_at T n i) m)"
    using b d(4) by (intro take_drop_overwrite_apart) (auto simp: data_at_def)
  then have "mem_slot T n ?m i = (mem_slot T n m i)\<lparr>sequence := v\<rparr>"
    using loads_same(1) [of "slot_at T n i" m v] b by (simp add: mem_slot_def)
  moreover have "mem_slot T n ?m j = mem_slot T n m j" if "j < n" "j \<noteq> i" for j
    using d(7) [OF that(2)] d(4,5) b by (intro slot_apart) auto
  ultimately have "map (mem_slot T n ?m) [0..<n] = (map (mem_slot T n m) [0..<n])
      [i := (mem_slot T n m i)\<lparr>sequence := v\<rparr>]"
    using i by (intro map_upt_update) auto
  moreover have "2304 \<le> slot_at T n i" using d(3) .
  ultimately show ?thesis
    using front_apart [OF r b] consumers_apart [OF b] i by (simp add: mem_queue_def)
qed

lemma view_data:
  assumes r: "ring_bytes T n m" and i: "i < n" and l: "length item = 96"
  shows "mem_queue T n (overwrite (data_at T n i) item m)
    = (mem_queue T n m)\<lparr>slots := (slots (mem_queue T n m))
        [i := (slots (mem_queue T n m) ! i)\<lparr>data := market_of_image item\<rparr>]\<rparr>"
proof -
  let ?m = "overwrite (data_at T n i) item m"
  note d = ring_bytesD [OF r]
  have b: "data_at T n i + length item \<le> length m"
    using d(2) [OF i] d(5) l by (simp add: data_at_def)
  have "take 96 (drop (data_at T n i) ?m) = item"
    using take_drop_overwrite_same [OF b] l by simp
  moreover have "load_u64 ?m (slot_at T n i) = load_u64 m (slot_at T n i)"
    using loads_apart(1) [OF b, of "slot_at T n i"] d(4) by (simp add: data_at_def)
  ultimately have "mem_slot T n ?m i = (mem_slot T n m i)\<lparr>data := market_of_image item\<rparr>"
    by (simp add: mem_slot_def)
  moreover have "mem_slot T n ?m j = mem_slot T n m j" if "j < n" "j \<noteq> i" for j
    using d(7) [OF that(2)] d(4,5) b l by (intro slot_apart) (auto simp: data_at_def)
  ultimately have "map (mem_slot T n ?m) [0..<n] = (map (mem_slot T n m) [0..<n])
      [i := (mem_slot T n m i)\<lparr>data := market_of_image item\<rparr>]"
    using i by (intro map_upt_update) auto
  moreover have "2304 \<le> data_at T n i" using d(3) [of i] by (simp add: data_at_def)
  ultimately show ?thesis
    using front_apart [OF r b] consumers_apart [OF b] i by (simp add: mem_queue_def)
qed

section \<open>The calls do on the bytes what they do on the fields\<close>

text \<open>A call on bytes succeeds, and leaves the bytes of the fields the call on fields leaves.\<close>

definition realises ::
  "ctype \<Rightarrow> nat \<Rightarrow> ('r \<times> bytes) option \<Rightarrow> 'r \<times> MarketData MPMC_Queue \<Rightarrow> bool" where
  "realises T n res p \<longleftrightarrow> (\<exists>m. res = Some (fst p, m) \<and> ring_bytes T n m \<and> mem_queue T n m = snd p)"

lemma slot_sequence_in:
  assumes "ring_bytes T n m" and "i < n"
  shows "slot_at T n i + 8 \<le> length m"
  using ring_bytesD(2) [OF assms] ring_bytesD(4,5) [OF assms(1)] by simp

lemma loaded:
  assumes r: "ring_bytes T n m"
  shows "c < 32 \<Longrightarrow> load_u64 m (64 * c) = Some (tail (consumers (mem_queue T n m) ! c))"
    and "c < 32 \<Longrightarrow> load_bool m (64 * c + 8) = Some (active (consumers (mem_queue T n m) ! c))"
    and "load_u64 m 2048 = Some (head (producer (mem_queue T n m)))"
    and "load_u32 m 2176 = Some (num_consumers (meta (mem_queue T n m)))"
    and "load_u64 m 2184 = Some (min_tail (meta (mem_queue T n m)))"
    and "i < n \<Longrightarrow> load_u64 m (slot_at T n i) = Some (sequence (slots (mem_queue T n m) ! i))"
  using loads_in ring_bytesD(1) [OF r] loads_in(1) [OF slot_sequence_in [OF r, of i]]
  by (simp_all add: mem_queue_def mem_consumer_def mem_slot_def)

lemma stored:
  assumes r: "ring_bytes T n m"
  shows "c < 32 \<Longrightarrow> \<exists>m'. store_u64 m (64 * c) v = Some m' \<and> ring_bytes T n m' \<and> mem_queue T n m' =
      (mem_queue T n m)\<lparr>consumers := (consumers (mem_queue T n m))
        [c := (consumers (mem_queue T n m) ! c)\<lparr>tail := v\<rparr>]\<rparr>"
    and "c < 32 \<Longrightarrow> \<exists>m'. store_bool m (64 * c + 8) b = Some m' \<and> ring_bytes T n m' \<and> mem_queue T n m' =
      (mem_queue T n m)\<lparr>consumers := (consumers (mem_queue T n m))
        [c := (consumers (mem_queue T n m) ! c)\<lparr>active := b\<rparr>]\<rparr>"
    and "\<exists>m'. store_u64 m 2048 v = Some m' \<and> ring_bytes T n m' \<and> mem_queue T n m' =
      (mem_queue T n m)\<lparr>producer := (producer (mem_queue T n m))\<lparr>head := v\<rparr>\<rparr>"
    and "\<exists>m'. store_u32 m 2176 u = Some m' \<and> ring_bytes T n m' \<and> mem_queue T n m' =
      (mem_queue T n m)\<lparr>meta := (meta (mem_queue T n m))\<lparr>num_consumers := u\<rparr>\<rparr>"
    and "\<exists>m'. store_u64 m 2184 v = Some m' \<and> ring_bytes T n m'
      \<and> mem_queue T n m' = legacy_store_min v (mem_queue T n m)"
    and "i < n \<Longrightarrow> \<exists>m'. store_u64 m (slot_at T n i) v = Some m' \<and> ring_bytes T n m' \<and> mem_queue T n m' =
      (mem_queue T n m)\<lparr>slots := (slots (mem_queue T n m))
        [i := (slots (mem_queue T n m) ! i)\<lparr>sequence := v\<rparr>]\<rparr>"
proof -
  note d = ring_bytesD [OF r]
  show "c < 32 \<Longrightarrow> \<exists>m'. store_u64 m (64 * c) v = Some m' \<and> ring_bytes T n m' \<and> mem_queue T n m' =
      (mem_queue T n m)\<lparr>consumers := (consumers (mem_queue T n m))
        [c := (consumers (mem_queue T n m) ! c)\<lparr>tail := v\<rparr>]\<rparr>"
    using d(1) view_tail [OF r] by (simp add: stores_in ring_bytes_overwrite [OF r])
  show "c < 32 \<Longrightarrow> \<exists>m'. store_bool m (64 * c + 8) b = Some m' \<and> ring_bytes T n m' \<and> mem_queue T n m' =
      (mem_queue T n m)\<lparr>consumers := (consumers (mem_queue T n m))
        [c := (consumers (mem_queue T n m) ! c)\<lparr>active := b\<rparr>]\<rparr>"
    using d(1) view_active [OF r]
    by (simp add: stores_in ring_bytes_overwrite [OF r] del: le_image.simps One_nat_def)
  show "\<exists>m'. store_u64 m 2048 v = Some m' \<and> ring_bytes T n m' \<and> mem_queue T n m' =
      (mem_queue T n m)\<lparr>producer := (producer (mem_queue T n m))\<lparr>head := v\<rparr>\<rparr>"
    using d(1) view_head [OF r] by (simp add: stores_in ring_bytes_overwrite [OF r])
  show "\<exists>m'. store_u32 m 2176 u = Some m' \<and> ring_bytes T n m' \<and> mem_queue T n m' =
      (mem_queue T n m)\<lparr>meta := (meta (mem_queue T n m))\<lparr>num_consumers := u\<rparr>\<rparr>"
    using d(1) view_num [OF r] by (simp add: stores_in ring_bytes_overwrite [OF r])
  show "\<exists>m'. store_u64 m 2184 v = Some m' \<and> ring_bytes T n m'
      \<and> mem_queue T n m' = legacy_store_min v (mem_queue T n m)"
    using d(1) view_min [OF r]
    by (simp add: stores_in ring_bytes_overwrite [OF r] legacy_store_min_def)
  show "i < n \<Longrightarrow> \<exists>m'. store_u64 m (slot_at T n i) v = Some m' \<and> ring_bytes T n m' \<and> mem_queue T n m' =
      (mem_queue T n m)\<lparr>slots := (slots (mem_queue T n m))
        [i := (slots (mem_queue T n m) ! i)\<lparr>sequence := v\<rparr>]\<rparr>"
    using slot_sequence_in [OF r] view_sequence [OF r] by (simp add: stores_in ring_bytes_overwrite [OF r])
qed

lemma MAX_CONSUMERS_nat: "unat MAX_CONSUMERS = 32"
  by (simp add: MAX_CONSUMERS_def)

lemma mem_reg_realises:
  assumes r: "ring_bytes T n m"
  shows "realises T n (mem_reg_consumer T n m) (reg_consumer (mem_queue T n m))"
proof -
  let ?q = "mem_queue T n m" and ?c = "num_consumers (meta (mem_queue T n m))"
  obtain m1 where 1: "store_u32 m 2176 (?c + 1) = Some m1" "ring_bytes T n m1"
    "mem_queue T n m1 = ?q\<lparr>meta := (meta ?q)\<lparr>num_consumers := ?c + 1\<rparr>\<rparr>"
    using stored(4) [OF r, of "?c + 1"] by blast
  show ?thesis
  proof (cases "?c \<ge> MAX_CONSUMERS")
    case True
    then show ?thesis
      using 1 loaded(4) [OF r] by (simp add: realises_def mem_reg_consumer_def reg_consumer_def Let_def)
  next
    case False
    then have c: "unat ?c < 32" by (simp add: MAX_CONSUMERS_def word_le_nat_alt)
    obtain m2 where 2: "store_u64 m1 (64 * unat ?c) (head (producer (mem_queue T n m1))) = Some m2"
      "ring_bytes T n m2" "mem_queue T n m2 = (mem_queue T n m1)\<lparr>consumers := (consumers (mem_queue T n m1))
        [unat ?c := (consumers (mem_queue T n m1) ! unat ?c)\<lparr>tail := head (producer (mem_queue T n m1))\<rparr>]\<rparr>"
      using stored(1) [OF 1(2) c] by blast
    obtain m3 where 3: "store_bool m2 (64 * unat ?c + 8) True = Some m3"
      "ring_bytes T n m3" "mem_queue T n m3 = (mem_queue T n m2)\<lparr>consumers := (consumers (mem_queue T n m2))
        [unat ?c := (consumers (mem_queue T n m2) ! unat ?c)\<lparr>active := True\<rparr>]\<rparr>"
      using stored(2) [OF 2(2) c] by blast
    show ?thesis
      using 1 2 3 False loaded(4) [OF r] loaded(3) [OF 1(2)]
      by (simp add: realises_def mem_reg_consumer_def reg_consumer_def Let_def)
  qed
qed

lemma mem_del_realises:
  assumes "ring_bytes T n m" and "unat c < 32"
  shows "\<exists>m'. mem_del_consumer T n c m = Some m' \<and> ring_bytes T n m'
    \<and> mem_queue T n m' = del_consumer c (mem_queue T n m)"
  using stored(2) [OF assms, of False] by (simp add: mem_del_consumer_def del_consumer_def)

lemma mem_acc_min_eq:
  assumes "ring_bytes T n m" and "i < 32"
  shows "mem_acc_min T n m i mn = Some (acc_min mn (consumers (mem_queue T n m) ! i))"
  using loaded(1,2) [OF assms] by (simp add: mem_acc_min_def acc_min_def)

lemma mem_min_loop_eq:
  assumes "ring_bytes T n m" and "4 dvd i"
  shows "mem_min_loop T n m i ms = Some (min_tail_loop (consumers (mem_queue T n m)) i ms)"
  using assms
proof (induction T n m i ms rule: mem_min_loop.induct)
  case (1 T n m i m0 m1 m2 m3)
  show ?case
  proof (cases "i < 32")
    case True
    then have "i + 4 \<le> 32" using "1.prems"(2) by (auto elim!: dvdE)
    then have a: "mem_acc_min T n m (i + k) mn = Some (acc_min mn (consumers (mem_queue T n m) ! (i + k)))"
      if "k < 4" for k mn
      using mem_acc_min_eq [OF "1.prems"(1), of "i + k"] that by simp
    have a0: "mem_acc_min T n m i mn = Some (acc_min mn (consumers (mem_queue T n m) ! i))" for mn
      using a [of 0] by simp
    show ?thesis
      using True a [of 1] a [of 2] a [of 3] a0 "1.IH" "1.prems"
      by (simp add: mem_min_loop.simps [of T n m i] min_tail_loop.simps [of _ i] MAX_CONSUMERS_nat)
  next
    case False
    then show ?thesis
      by (simp add: mem_min_loop.simps [of T n m i] min_tail_loop.simps [of _ i] MAX_CONSUMERS_nat)
  qed
qed

lemma mem_computeMinTail_realises:
  assumes r: "ring_bytes T n m"
  shows "realises T n (mem_computeMinTail T n m) (computeMinTail (mem_queue T n m))"
proof -
  let ?mini = "merge_mins (min_tail_loop (consumers (mem_queue T n m)) 0
    (INVALID_POS, INVALID_POS, INVALID_POS, INVALID_POS))"
  obtain m1 where "store_u64 m 2184 ?mini = Some m1" "ring_bytes T n m1"
    "mem_queue T n m1 = legacy_store_min ?mini (mem_queue T n m)"
    using stored(5) [OF r, of ?mini] by blast
  then show ?thesis
    using mem_min_loop_eq [OF r, of 0]
    by (simp add: realises_def mem_computeMinTail_def computeMinTail_def Let_def)
qed

lemma mem_recompute_realises:
  assumes r: "ring_bytes T n m"
  shows "\<exists>m'. mem_recomputeAndStoreMinTail T n m = Some m' \<and> ring_bytes T n m'
    \<and> mem_queue T n m' = recomputeAndStoreMinTail (mem_queue T n m)"
proof -
  obtain mini q1 where p: "computeMinTail (mem_queue T n m) = (mini, q1)" by fastforce
  then obtain m1 where 1: "mem_computeMinTail T n m = Some (mini, m1)" "ring_bytes T n m1"
    "mem_queue T n m1 = q1"
    using mem_computeMinTail_realises [OF r] by (auto simp: realises_def)
  then show ?thesis
    using stored(5) [OF 1(2), of mini] p
    by (simp add: mem_recomputeAndStoreMinTail_def recomputeAndStoreMinTail_def)
qed

lemma mem_check_realises:
  assumes r: "ring_bytes T n m"
  shows "realises T n (mem_check T n h m) (legacy_check h (mem_queue T n m))"
proof -
  let ?q = "mem_queue T n m"
  have s: "length (slots ?q) = n" by (simp add: mem_queue_def)
  obtain mini q1 where p: "computeMinTail ?q = (mini, q1)" by fastforce
  then obtain m1 where 1: "mem_computeMinTail T n m = Some (mini, m1)" "ring_bytes T n m1"
    "mem_queue T n m1 = q1"
    using mem_computeMinTail_realises [OF r] by (auto simp: realises_def)
  obtain m2 where 2: "store_u64 m1 2184 mini = Some m2" "ring_bytes T n m2"
    "mem_queue T n m2 = legacy_store_min mini q1"
    using stored(5) [OF 1(2), of mini] 1(3) by auto
  show ?thesis
    using r 1 2 p s loaded(5) [OF r]
    by (simp add: realises_def mem_check_def legacy_check_def Let_def)
qed

lemma length_slots_view [simp]: "length (slots (mem_queue T n m)) = n"
  by (simp add: mem_queue_def)

lemma legacy_mask_view: "legacy_mask (mem_queue T n m) p = mem_index n p"
  by (simp add: legacy_mask_def mem_index_def)

lemma data_in:
  assumes "ring_bytes T n m" and "i < n"
  shows "data_at T n i + 96 \<le> length m"
  using ring_bytesD(2) [OF assms] ring_bytesD(5) [OF assms(1)] by (simp add: data_at_def)

lemma mem_publish_realises:
  assumes r: "ring_bytes T n m" and x: "wf_market x"
  shows "\<exists>m'. mem_publish avx2 T n h (market_image x) m = Some m' \<and> ring_bytes T n m'
    \<and> mem_queue T n m' = legacy_publish h x (mem_queue T n m)"
proof -
  let ?i = "mem_index n h" and ?im = "market_image x"
  have i: "?i < n" by (rule ring_bytesD(6) [OF r])
  have l: "length ?im = 96" using length_market_image [OF x] .
  let ?m1 = "overwrite (data_at T n ?i) ?im m"
  have c: "copy_96 avx2 m (data_at T n ?i) ?im 0 = Some ?m1"
    using data_in [OF r i] l by (simp add: copy_96_memcpy memcpy_in)
  have r1: "ring_bytes T n ?m1" using ring_bytes_overwrite [OF r] data_in [OF r i] l by simp
  have v1: "mem_queue T n ?m1 = (mem_queue T n m)\<lparr>slots := (slots (mem_queue T n m))
      [?i := (slots (mem_queue T n m) ! ?i)\<lparr>data := x\<rparr>]\<rparr>"
    using view_data [OF r i l] market_roundtrip [OF x] by simp
  obtain m2 where "store_u64 ?m1 (slot_at T n ?i) h = Some m2" "ring_bytes T n m2"
    "mem_queue T n m2 = (mem_queue T n ?m1)\<lparr>slots := (slots (mem_queue T n ?m1))
      [?i := (slots (mem_queue T n ?m1) ! ?i)\<lparr>sequence := h\<rparr>]\<rparr>"
    using stored(6) [OF r1 i, of h] by blast
  then show ?thesis
    using c v1 by (simp add: mem_publish_def legacy_publish_def legacy_mask_view Let_def)
qed

lemma mem_claim_realises:
  assumes r: "ring_bytes T n m" and x: "wf_market x"
  shows "realises T n
      (do { m \<leftarrow> store_u64 m 2048 (h + 1);
            m \<leftarrow> mem_publish avx2 T n h (market_image x) m; Some (True, m) })
      (True, legacy_publish h x
        ((mem_queue T n m)\<lparr>producer := (producer (mem_queue T n m))\<lparr>head := h + 1\<rparr>\<rparr>))"
proof -
  obtain m1 where 1: "store_u64 m 2048 (h + 1) = Some m1" "ring_bytes T n m1" "mem_queue T n m1 =
      (mem_queue T n m)\<lparr>producer := (producer (mem_queue T n m))\<lparr>head := h + 1\<rparr>\<rparr>"
    using stored(3) [OF r, of "h + 1"] by blast
  obtain m2 where "mem_publish avx2 T n h (market_image x) m1 = Some m2" "ring_bytes T n m2"
    "mem_queue T n m2 = legacy_publish h x (mem_queue T n m1)"
    using mem_publish_realises [OF 1(2) x, of avx2 h] by blast
  then show ?thesis using 1 by (simp add: realises_def)
qed

lemma mem_push_realises:
  assumes "ring_bytes T n m" and x: "wf_market x"
  shows "realises T n (mem_push avx2 T n fs (market_image x) m) (legacy_push fs x (mem_queue T n m))"
  using assms(1)
proof (induction fs arbitrary: m)
  case (Nil m)
  let ?h = "head (producer (mem_queue T n m))"
  obtain full q1 where c: "legacy_check ?h (mem_queue T n m) = (full, q1)" by fastforce
  then obtain m1 where 1: "mem_check T n ?h m = Some (full, m1)" "ring_bytes T n m1"
    "mem_queue T n m1 = q1"
    using mem_check_realises [OF Nil, of ?h] by (auto simp: realises_def)
  show ?case
  proof (cases full)
    case True
    then show ?thesis using 1 c loaded(3) [OF Nil] by (simp add: realises_def)
  next
    case False
    then show ?thesis
      using mem_claim_realises [OF 1(2) x, of ?h avx2] 1 c loaded(3) [OF Nil] by (simp add: Let_def)
  qed
next
  case (Cons spurious fs m)
  let ?h = "head (producer (mem_queue T n m))"
  obtain full q1 where c: "legacy_check ?h (mem_queue T n m) = (full, q1)" by fastforce
  then obtain m1 where m1: "mem_check T n ?h m = Some (full, m1)" "ring_bytes T n m1"
    "mem_queue T n m1 = q1"
    using mem_check_realises [OF Cons.prems, of ?h] by (auto simp: realises_def)
  consider "full" | "\<not> full" "spurious" | "\<not> full" "\<not> spurious" by blast
  then show ?case
  proof cases
    case 1
    then show ?thesis
      using m1 c loaded(3) [OF Cons.prems] by (simp add: realises_def)
  next
    case 2
    then show ?thesis
      using Cons.IH [OF m1(2)] m1 c loaded(3) [OF Cons.prems] by (simp add: Let_def)
  next
    case 3
    then show ?thesis
      using mem_claim_realises [OF m1(2) x, of ?h avx2] m1 c loaded(3) [OF Cons.prems]
      by (simp add: Let_def)
  qed
qed

text \<open>
  \<open>pop\<close> with the caller's item: on success its 96 bytes are those of the slot and stand for
  the market data popped; otherwise they are unchanged.
\<close>

lemma mem_pop_realises:
  assumes r: "ring_bytes T n m" and c: "unat c < 32" and l: "length item = 96"
  shows "\<exists>item' m'. mem_pop avx2 T n c item m = Some (fst (legacy_pop c (mem_queue T n m)) \<noteq> None, item', m')
    \<and> ring_bytes T n m' \<and> mem_queue T n m' = snd (legacy_pop c (mem_queue T n m)) \<and> length item' = 96
    \<and> (case fst (legacy_pop c (mem_queue T n m)) of
         None \<Rightarrow> item' = item | Some x \<Rightarrow> market_of_image item' = x)"
proof (cases "active (consumers (mem_queue T n m) ! unat c)")
  case False
  then show ?thesis
    using r l loaded(2) [OF r c] by (simp add: mem_pop_def legacy_pop_def)
next
  case True
  let ?q = "mem_queue T n m"
  let ?t = "tail (consumers ?q ! unat c)"
  let ?i = "mem_index n ?t"
  have i: "?i < n" by (rule ring_bytesD(6) [OF r])
  show ?thesis
  proof (cases "sequence (slots ?q ! ?i) = ?t")
    case False
    then show ?thesis
      using r l loaded(1,2) [OF r c] loaded(6) [OF r i] True
      by (simp add: mem_pop_def legacy_pop_def legacy_mask_view Let_def)
  next
    case seq: True
    let ?item = "take 96 (drop (data_at T n ?i) m)"
    have li: "length ?item = 96" using data_in [OF r i] by simp
    have cp: "copy_96 avx2 item 0 m (data_at T n ?i) = Some ?item"
      using data_in [OF r i] l li by (simp add: copy_96_memcpy memcpy_in overwrite_def)
    have "market_of_image ?item = data (slots ?q ! ?i)"
      using i by (simp add: mem_queue_def mem_slot_def)
    moreover obtain m1 where "store_u64 m (64 * unat c) (?t + 1) = Some m1" "ring_bytes T n m1"
      "mem_queue T n m1 = ?q\<lparr>consumers := (consumers ?q)
        [unat c := (consumers ?q ! unat c)\<lparr>tail := ?t + 1\<rparr>]\<rparr>"
      using stored(1) [OF r c, of "?t + 1"] by blast
    ultimately show ?thesis
      using cp li seq True loaded(1,2) [OF r c] loaded(6) [OF r i]
      by (simp add: mem_pop_def legacy_pop_def legacy_mask_view Let_def)
  qed
qed

section \<open>Construction\<close>

lemma fold_update:
  "j \<le> length xs \<Longrightarrow> fold (\<lambda>i xs. xs[i := f (xs ! i)]) [0..<j] xs = map f (take j xs) @ drop j xs"
proof (induction j)
  case (Suc j)
  then have "fold (\<lambda>i xs. xs[i := f (xs ! i)]) [0..<Suc j] xs
      = (map f (take j xs) @ drop j xs)[j := f (xs ! j)]" by (simp add: nth_append)
  also have "\<dots> = map f (take (Suc j) xs) @ drop (Suc j) xs"
    using Suc.prems by (simp add: list_update_append take_Suc_conv_app_nth Cons_nth_drop_Suc [symmetric])
  finally show ?case .
qed simp

lemma mem_init_consumers_view:
  assumes "ring_bytes T n m" and "\<forall>i \<in> set is. i < 32"
  shows "\<exists>m'. mem_init_consumers T n is m = Some m' \<and> ring_bytes T n m'
    \<and> mem_queue T n m' = (mem_queue T n m)\<lparr>consumers :=
        fold (\<lambda>i cs. cs[i := (\<lambda>c. \<lparr>tail = 0, active = False\<rparr>) (cs ! i)]) is (consumers (mem_queue T n m))\<rparr>"
  using assms
proof (induction "is" arbitrary: m)
  case (Cons i "is")
  then have i: "i < 32" by simp
  obtain m1 where 1: "store_u64 m (64 * i) 0 = Some m1" "ring_bytes T n m1"
    "mem_queue T n m1 = (mem_queue T n m)\<lparr>consumers := (consumers (mem_queue T n m))
        [i := (consumers (mem_queue T n m) ! i)\<lparr>tail := 0\<rparr>]\<rparr>"
    using stored(1) [OF Cons.prems(1) i, of 0] by blast
  obtain m2 where 2: "store_bool m1 (64 * i + 8) False = Some m2" "ring_bytes T n m2"
    "mem_queue T n m2 = (mem_queue T n m1)\<lparr>consumers := (consumers (mem_queue T n m1))
        [i := (consumers (mem_queue T n m1) ! i)\<lparr>active := False\<rparr>]\<rparr>"
    using stored(2) [OF 1(2) i, of False] by blast
  have "length (consumers (mem_queue T n m)) = 32" by (simp add: mem_queue_def)
  then have "consumers (mem_queue T n m2) =
      (consumers (mem_queue T n m))[i := \<lparr>tail = 0, active = False\<rparr>]"
    using 1(3) 2(3) i by (cases "consumers (mem_queue T n m) ! i") simp
  moreover have "mem_queue T n m2 = (mem_queue T n m)\<lparr>consumers := consumers (mem_queue T n m2)\<rparr>"
    using 1(3) 2(3) by simp
  moreover obtain m3 where "mem_init_consumers T n is m2 = Some m3" "ring_bytes T n m3"
    "mem_queue T n m3 = (mem_queue T n m2)\<lparr>consumers :=
      fold (\<lambda>i cs. cs[i := (\<lambda>c. \<lparr>tail = 0, active = False\<rparr>) (cs ! i)]) is (consumers (mem_queue T n m2))\<rparr>"
    using Cons.IH [OF 2(2)] Cons.prems(2) by auto
  ultimately show ?case using 1(1) 2(1) by simp
qed simp

lemma mem_init_slots_view:
  assumes "ring_bytes T n m" and "\<forall>i \<in> set is. i < n"
  shows "\<exists>m'. mem_init_slots T n is m = Some m' \<and> ring_bytes T n m'
    \<and> mem_queue T n m' = (mem_queue T n m)\<lparr>slots :=
        fold (\<lambda>i ss. ss[i := (ss ! i)\<lparr>sequence := INVALID_POS\<rparr>]) is (slots (mem_queue T n m))\<rparr>"
  using assms
proof (induction "is" arbitrary: m)
  case (Cons i "is")
  then have i: "i < n" by simp
  obtain m1 where 1: "store_u64 m (slot_at T n i) INVALID_POS = Some m1" "ring_bytes T n m1"
    "mem_queue T n m1 = (mem_queue T n m)\<lparr>slots := (slots (mem_queue T n m))
        [i := (slots (mem_queue T n m) ! i)\<lparr>sequence := INVALID_POS\<rparr>]\<rparr>"
    using stored(6) [OF Cons.prems(1) i, of INVALID_POS] by blast
  moreover obtain m2 where "mem_init_slots T n is m1 = Some m2" "ring_bytes T n m2"
    "mem_queue T n m2 = (mem_queue T n m1)\<lparr>slots :=
      fold (\<lambda>i ss. ss[i := (ss ! i)\<lparr>sequence := INVALID_POS\<rparr>]) is (slots (mem_queue T n m1))\<rparr>"
    using Cons.IH [OF 1(2)] Cons.prems(2) by auto
  ultimately show ?case by simp
qed simp

lemma mem_init_items_bytes:
  assumes "ring_bytes T n m" and "\<forall>i \<in> set is. i < n"
    and "\<And>bs. length bs = size_of T \<Longrightarrow> length (ctor bs) = size_of T"
  shows "\<exists>m'. mem_init_items ctor T n is m = Some m' \<and> ring_bytes T n m'
    \<and> load_u64 m' 2048 = load_u64 m 2048"
  using assms(1,2)
proof (induction "is" arbitrary: m)
  case (Cons i "is")
  have w: "wf_ctype T" using Cons.prems(1) by (simp add: ring_bytes_def)
  have b: "data_at T n i + size_of T \<le> length m"
    using ring_bytesD(2) [OF Cons.prems(1), of i] Cons.prems(2) data_off_ge [OF w]
    by (simp add: data_at_def)
  let ?bs = "take (size_of T) (drop (data_at T n i) m)"
  have lc: "length (ctor ?bs) = size_of T" using b by (intro assms(3)) simp
  then have "load_u64 (overwrite (data_at T n i) (ctor ?bs) m) 2048 = load_u64 m 2048"
    using b ring_bytesD(3) [OF Cons.prems(1), of i] by (intro loads_apart(1)) (simp_all add: data_at_def)
  moreover have "ring_bytes T n (overwrite (data_at T n i) (ctor ?bs) m)"
    "store_at m (data_at T n i) (ctor ?bs) = Some (overwrite (data_at T n i) (ctor ?bs) m)"
    using b lc ring_bytes_overwrite [OF Cons.prems(1)] by (simp_all add: store_at_in)
  ultimately show ?case
    using Cons.IH [of "overwrite (data_at T n i) (ctor ?bs) m"] Cons.prems(2) b by (simp add: load_at_in)
qed simp

lemma view_lock:
  assumes r: "ring_bytes T n m"
  shows "\<exists>m'. store_bool m 2192 b = Some m' \<and> ring_bytes T n m'
    \<and> mem_queue T n m' = (mem_queue T n m)\<lparr>purge_lock := b\<rparr>"
proof -
  have l: "2192 + length (le_image 1 (of_bool b)) \<le> length m"
    using ring_bytesD(1) [OF r] by (simp del: le_image.simps One_nat_def)
  then show ?thesis
    using front_apart [OF r l] slots_apart [OF r, of 2192 "le_image 1 (of_bool b)"]
      loads_same(3) [of 2192 m b] consumers_apart [OF l] ring_bytes_overwrite [OF r l]
    by (simp add: stores_in mem_queue_def del: le_image.simps One_nat_def)
qed

text \<open>On any bytes, the constructor leaves the fields of a fresh queue; the items are \<open>T\<close>'s.\<close>

lemma mem_queue_new_view:
  assumes "ring_bytes T n m" and "\<And>bs. length bs = size_of T \<Longrightarrow> length (ctor bs) = size_of T"
  shows "\<exists>m' ds. mem_queue_new ctor T n m = Some m' \<and> ring_bytes T n m' \<and> length ds = n
    \<and> mem_queue T n m' = (MPMC_Queue_new n d)\<lparr>slots := map (\<lambda>x. \<lparr>sequence = INVALID_POS, data = x\<rparr>) ds\<rparr>"
proof -
  obtain m1 where 1: "store_u64 m 2048 0 = Some m1" "ring_bytes T n m1"
    using stored(3) [OF assms(1), of 0] by blast
  have h1: "load_u64 m1 2048 = Some 0"
    using 1 ring_bytesD(1) [OF assms(1)] loads_same(1) [of 2048 m 0] by (simp add: stores_in)
  obtain m2 where 2: "mem_init_items ctor T n [0..<n] m1 = Some m2" "ring_bytes T n m2"
    "load_u64 m2 2048 = Some 0"
    using mem_init_items_bytes [OF 1(2), of "[0..<n]" ctor] assms(2) h1 by auto
  obtain m3 where 3: "store_u32 m2 2176 0 = Some m3" "ring_bytes T n m3" "mem_queue T n m3 =
      (mem_queue T n m2)\<lparr>meta := (meta (mem_queue T n m2))\<lparr>num_consumers := 0\<rparr>\<rparr>"
    using stored(4) [OF 2(2), of 0] by blast
  obtain m4 where 4: "store_u64 m3 2184 0 = Some m4" "ring_bytes T n m4"
    "mem_queue T n m4 = legacy_store_min 0 (mem_queue T n m3)"
    using stored(5) [OF 3(2), of 0] by blast
  obtain m5 where 5: "store_bool m4 2192 False = Some m5" "ring_bytes T n m5"
    "mem_queue T n m5 = (mem_queue T n m4)\<lparr>purge_lock := False\<rparr>"
    using view_lock [OF 4(2), of False] by blast
  obtain m6 where 6: "mem_init_consumers T n [0..<32] m5 = Some m6" "ring_bytes T n m6"
    "mem_queue T n m6 = (mem_queue T n m5)\<lparr>consumers :=
        fold (\<lambda>i cs. cs[i := (\<lambda>c. \<lparr>tail = 0, active = False\<rparr>) (cs ! i)]) [0..<32] (consumers (mem_queue T n m5))\<rparr>"
    using mem_init_consumers_view [OF 5(2), of "[0..<32]"] by auto
  obtain m7 where 7: "mem_init_slots T n [0..<n] m6 = Some m7" "ring_bytes T n m7"
    "mem_queue T n m7 = (mem_queue T n m6)\<lparr>slots :=
        fold (\<lambda>i ss. ss[i := (ss ! i)\<lparr>sequence := INVALID_POS\<rparr>]) [0..<n] (slots (mem_queue T n m6))\<rparr>"
    using mem_init_slots_view [OF 6(2), of "[0..<n]"] by auto
  have "head (producer (mem_queue T n m2)) = 0" using 2(3) by (simp add: mem_queue_def)
  then have p: "producer (mem_queue T n m7) = \<lparr>head = 0\<rparr>"
    using 3(3) 4(3) 5(3) 6(3) 7(3) by (cases "producer (mem_queue T n m2)") (simp add: legacy_store_min_def)
  have mt: "meta (mem_queue T n m7) = \<lparr>num_consumers = 0, min_tail = 0\<rparr>"
    using 3(3) 4(3) 5(3) 6(3) 7(3) by (cases "meta (mem_queue T n m2)") (simp add: legacy_store_min_def)
  have l: "purge_lock (mem_queue T n m7) = False" using 5(3) 6(3) 7(3) by simp
  have "length (consumers (mem_queue T n m5)) = 32" by (simp add: mem_queue_def)
  then have c: "consumers (mem_queue T n m7) = replicate 32 \<lparr>tail = 0, active = False\<rparr>"
    using 6(3) 7(3) fold_update [of 32 "consumers (mem_queue T n m5)" "\<lambda>c. \<lparr>tail = 0, active = False\<rparr>"]
    by (simp add: map_replicate_const)
  have s: "slots (mem_queue T n m7) = map (\<lambda>x. \<lparr>sequence = INVALID_POS, data = x\<rparr>)
      (map data (slots (mem_queue T n m6)))"
    using 7(3) fold_update [of n "slots (mem_queue T n m6)" "\<lambda>s. s\<lparr>sequence := INVALID_POS\<rparr>"]
    by (simp add: comp_def)
  have "mem_queue T n m7 = (MPMC_Queue_new n d)\<lparr>slots := map (\<lambda>x. \<lparr>sequence = INVALID_POS, data = x\<rparr>)
      (map data (slots (mem_queue T n m6)))\<rparr>"
    using p mt l c s by (simp add: MPMC_Queue_new_def MAX_CONSUMERS_nat)
  moreover have "mem_queue_new ctor T n m = Some m7"
    using 1(1) 2(1) 3(1) 4(1) 5(1) 6(1) 7(1) by (simp add: mem_queue_new_def)
  ultimately show ?thesis using 7(2) by (intro exI [of _ m7] exI [of _ "map data (slots (mem_queue T n m6))"]) simp
qed

section \<open>Item types whose slots are too short\<close>

lemma round_up_pow2: "pow2 a \<Longrightarrow> pow2 b \<Longrightarrow> round_up b a = max b a"
proof (cases "a \<le> b")
  case True
  assume "pow2 a" "pow2 b"
  then show ?thesis using round_up_multiple [of a b] pow2_dvd [of a b] True by simp
next
  case False
  assume p: "pow2 a" "pow2 b"
  obtain b' where b: "b = Suc b'" using pow2_pos [OF p(2)] gr0_implies_Suc by blast
  then have "b + a - 1 = b' + 1 * a" "b' div a = 0" using False by simp_all
  moreover have "(b' + 1 * a) div a = 1 + b' div a"
    using pow2_pos [OF p(1)] by (intro div_mult_self1) simp
  ultimately show ?thesis using False unfolding round_up_def by simp
qed

lemma slot_shape:
  assumes "wf_ctype T" and "0 < size_of T"
  shows "data_off T = max 8 (align_of T)"
    and "slot_size T = round_up (data_off T + size_of T) (max 128 (align_of T))"
    and "pow2 (align_of T)" and "align_of T \<le> size_of T" and "align_of T dvd size_of T"
proof -
  have p: "pow2 (align_of T)" by (rule align_pow2(1) [OF assms(1)])
  then show "pow2 (align_of T)" .
  show d: "data_off T = max 8 (align_of T)"
    using round_up_pow2 [OF p, of 8] by (simp add: data_off_def slot_type_def round_up_def)
  have "0 < align_of T" using p by simp
  then show "slot_size T = round_up (data_off T + size_of T) (max 128 (align_of T))"
    using round_up_pow2 [OF p, of 8]
    by (simp add: d slot_size_def slot_type_def DOUBLE_CACHE_LINE_def round_up_def max_def)
  show "align_of T dvd size_of T" by (rule size_multiple_of_align [OF assms(1)])
  then show "align_of T \<le> size_of T" using assms(2) dvd_imp_le by blast
qed

lemma slot_fits_cases:
  assumes w: "wf_ctype T" and s: "0 < size_of T"
  shows "slot_fits T \<longleftrightarrow> \<not> (size_of T = 64 \<and> align_of T = 64)"
proof -
  note sh = slot_shape [OF assms]
  obtain k where k: "align_of T = 2 ^ k" using sh(3) by (auto simp: pow2_def)
  have up: "data_off T + size_of T \<le> slot_size T" "max 128 (align_of T) dvd slot_size T"
    using round_up_ge [of "max 128 (align_of T)" "data_off T + size_of T"] round_up_dvd
    unfolding sh(2) by (simp_all add: less_max_iff_disj)
  then have at_least: "max 128 (align_of T) \<le> slot_size T"
    using s by (intro dvd_imp_le) simp_all
  consider "k \<le> 5" | "k = 6" | "7 \<le> k" by linarith
  then show ?thesis
  proof cases
    case 1
    then have "(2 :: nat) ^ k \<le> 2 ^ 5" by (intro power_increasing) simp_all
    then show ?thesis using at_least k by (simp add: slot_fits_def sh(1))
  next
    case 2
    then have a: "align_of T = 64" "data_off T = 64" using k by (simp_all add: sh(1))
    show ?thesis
    proof (cases "size_of T = 64")
      case True
      then have "slot_size T = 128"
        using a round_up_multiple [of 128 128] by (simp add: sh(2))
      then show ?thesis using a True by (simp add: slot_fits_def)
    next
      case False
      then have "128 \<le> size_of T" using sh(5) s a by (auto elim!: dvdE)
      then show ?thesis using up(1) a False by (simp add: slot_fits_def)
    qed
  next
    case 3
    then have "(2 :: nat) ^ 7 \<le> 2 ^ k" by (intro power_increasing) simp_all
    then show ?thesis using up(1) k sh(1,4) by (simp add: slot_fits_def)
  qed
qed

lemma word_of_fields:
  assumes "wf_market x"
  shows "le_value (take 8 (drop 64 (market_image x)))
    = unat (asks_quantity x ! 0) + 2 ^ 32 * unat (asks_quantity x ! 1)"
proof -
  obtain a b rest where q: "asks_quantity x = a # b # rest"
    using assms by (auto simp: wf_market_def numeral_eq_Suc length_Suc_conv)
  let ?pre = "le_image 4 (unat (token x)) @ u32s_image (bids x) @ u32s_image (asks x)
    @ u32s_image (bids_quantity x)"
  have "length ?pre = 64" using assms by (simp add: wf_market_def)
  moreover have "market_image x = ?pre @ le_image 4 (unat a) @ le_image 4 (unat b) @ u32s_image rest
      @ le_image 4 (unat (seq_no x)) @ le_image 8 (unat (push_ts_n x))"
    by (simp add: market_image_def q u32s_image_def)
  ultimately have "drop 64 (market_image x) = le_image 4 (unat a) @ le_image 4 (unat b)
      @ u32s_image rest @ le_image 4 (unat (seq_no x)) @ le_image 8 (unat (push_ts_n x))"
    by (metis append_eq_conv_conj)
  then have "take 8 (drop 64 (market_image x)) = le_image 4 (unat a) @ le_image 4 (unat b)" by simp
  moreover have "le_value (xs @ ys) = le_value xs + 256 ^ length xs * le_value ys" for xs ys
    by (induction xs) (simp_all add: algebra_simps)
  moreover have "le_value (le_image 4 (unat a)) = unat a" "le_value (le_image 4 (unat b)) = unat b"
    using le_value_image entry_word_bounds(2) by blast+
  ultimately show ?thesis by (simp add: q)
qed

section \<open>Properties\<close>

text \<open>C14: The queue of mpmc_2.hpp on its bytes. For every ring size and every item type except
  those of 64 bytes aligned to 64, no call on a queue object reads or writes outside it, and
  what it does to the bytes is what the call of the record model does to the fields the
  bytes stand for: \<open>push\<close> (for every pattern of spurious failures, with or without AVX2),
  \<open>pop\<close> with the item it copies out, registration, removal and the recomputation of the
  minimum.\<close>

theorem memory_calls_refine:
  assumes "ring_bytes T n m" and "wf_market x" and "unat c < 32" and "length item = 96"
  shows "realises T n (mem_push avx2 T n fs (market_image x) m) (legacy_push fs x (mem_queue T n m))
    \<and> (\<exists>item' m'. mem_pop avx2 T n c item m
          = Some (fst (legacy_pop c (mem_queue T n m)) \<noteq> None, item', m')
        \<and> ring_bytes T n m' \<and> mem_queue T n m' = snd (legacy_pop c (mem_queue T n m))
        \<and> (case fst (legacy_pop c (mem_queue T n m)) of
             None \<Rightarrow> item' = item | Some y \<Rightarrow> market_of_image item' = y))
    \<and> realises T n (mem_reg_consumer T n m) (reg_consumer (mem_queue T n m))
    \<and> (\<exists>m'. mem_del_consumer T n c m = Some m' \<and> ring_bytes T n m'
        \<and> mem_queue T n m' = del_consumer c (mem_queue T n m))
    \<and> (\<exists>m'. mem_recomputeAndStoreMinTail T n m = Some m' \<and> ring_bytes T n m'
        \<and> mem_queue T n m' = recomputeAndStoreMinTail (mem_queue T n m))"
proof (intro conjI)
  show "realises T n (mem_push avx2 T n fs (market_image x) m) (legacy_push fs x (mem_queue T n m))"
    by (rule mem_push_realises [OF assms(1,2)])
  show "\<exists>item' m'. mem_pop avx2 T n c item m
          = Some (fst (legacy_pop c (mem_queue T n m)) \<noteq> None, item', m')
        \<and> ring_bytes T n m' \<and> mem_queue T n m' = snd (legacy_pop c (mem_queue T n m))
        \<and> (case fst (legacy_pop c (mem_queue T n m)) of
             None \<Rightarrow> item' = item | Some y \<Rightarrow> market_of_image item' = y)"
    using mem_pop_realises [OF assms(1,3,4), of avx2] by (elim exE conjE) (intro exI conjI)
  show "realises T n (mem_reg_consumer T n m) (reg_consumer (mem_queue T n m))"
    by (rule mem_reg_realises [OF assms(1)])
  show "\<exists>m'. mem_del_consumer T n c m = Some m' \<and> ring_bytes T n m'
        \<and> mem_queue T n m' = del_consumer c (mem_queue T n m)"
    by (rule mem_del_realises [OF assms(1,3)])
  show "\<exists>m'. mem_recomputeAndStoreMinTail T n m = Some m' \<and> ring_bytes T n m'
        \<and> mem_queue T n m' = recomputeAndStoreMinTail (mem_queue T n m)"
    by (rule mem_recompute_realises [OF assms(1)])
qed

text \<open>A queue object of 16 slots of market data, all bytes zero.\<close>

definition zero_ring :: bytes where
  "zero_ring = replicate (size_of (queue_type market_type 16)) (CHR 0x00)"

lemma zero_ring_bytes: "ring_bytes market_type 16 zero_ring"
proof -
  have "(16 :: nat) = 2 ^ 4" by simp
  then show ?thesis
    using slot_fits_cases [of market_type] struct_sizes(1,2)
    by (auto simp: ring_bytes_def zero_ring_def intro!: exI [of _ 4])
qed

lemma memory_calls_refine_witness:
  "realises market_type 16 (mem_push True market_type 16 [] (market_image MarketData_new) zero_ring)
     (legacy_push [] MarketData_new (mem_queue market_type 16 zero_ring))"
  using memory_calls_refine [OF zero_ring_bytes, of MarketData_new 0 "replicate 96 (CHR 0x00)" True "[]"]
  by (simp add: MarketData_new_def wf_market_def del: legacy_push.simps mem_push.simps)

text \<open>Where the copy goes. The 96 bytes \<open>push\<close> copies into a slot stay inside the slot for
  every item type (of nonzero size, aligned to a power of two) but one kind: 64-byte types
  aligned to 64.\<close>

lemma copy_stays_in_slot:
  assumes "wf_ctype T" and "0 < size_of T"
  shows "data_at T n i + 96 \<le> slot_at T n (i + 1) \<longleftrightarrow> \<not> (size_of T = 64 \<and> align_of T = 64)"
  using slot_fits_cases [OF assms] by (simp add: slot_fits_def data_at_def slot_at_base)

lemma copy_stays_in_slot_witness: "\<not> data_at (Opaque 64 64) 16 3 + 96 \<le> slot_at (Opaque 64 64) 16 4"
  using copy_stays_in_slot [of "Opaque 64 64" 16 3] by simp

lemma short_slot_offsets:
  assumes "wf_ctype T" and "size_of T = 64" and "align_of T = 64"
  shows "slot_at T n i = 2304 + 128 * i" "data_at T n i = 2368 + 128 * i"
    "size_of (queue_type T n) = 2304 + 128 * n"
proof -
  have s: "slot_size T = 128" "data_off T = 64"
    using slot_shape(1,2) [OF assms(1)] assms(2,3) round_up_multiple [of 128 128] by simp_all
  have r: "round_up 2304 128 = 2304" "round_up (2304 + 128 * n) 128 = 2304 + 128 * n"
    by (intro round_up_multiple; simp)+
  have "align_of (slot_type T) = 128"
    using assms by (simp add: slot_type_def DOUBLE_CACHE_LINE_def)
  then have q: "slots_base T n = 2304" "size_of (queue_type T n) = 2304 + 128 * n"
    using queue_placement [OF assms(1), of n] r s by (simp_all add: mult.commute [of n])
  then show "slot_at T n i = 2304 + 128 * i" "size_of (queue_type T n) = 2304 + 128 * n"
    by (simp_all add: slot_at_base s)
  then show "data_at T n i = 2368 + 128 * i" by (simp add: data_at_def s)
qed

text \<open>C16: The overrun. With an item type of 64 bytes aligned to 64, publishing into a slot
  other than the last puts two of the item's ask quantities where the next slot has its
  sequence number, so a consumer that was to read that slot gets nothing; publishing into
  the last slot writes past the end of the queue object.\<close>

theorem short_slots_overrun:
  assumes "wf_ctype T" and "size_of T = 64" and "align_of T = 64"
    and "length m = size_of (queue_type T n)" and "wf_market x" and "i < n" and "mem_index n h = i"
  shows "if i + 1 = n then mem_publish avx2 T n h (market_image x) m = None
    else \<exists>m'. mem_publish avx2 T n h (market_image x) m = Some m' \<and>
      (let junk = of_nat (unat (asks_quantity x ! 0) + 2 ^ 32 * unat (asks_quantity x ! 1))
       in load_u64 m' (sequence_at T n (i + 1)) = Some junk
        \<and> (\<forall>c t. unat c < 32 \<and> load_bool m (active_at T n (unat c)) = Some True
            \<and> load_u64 m (tail_at T n (unat c)) = Some t \<and> mem_index n t = i + 1 \<and> t \<noteq> junk
            \<longrightarrow> mem_pop avx2 T n c item m' = Some (False, item, m')))"
proof -
  let ?im = "market_image x"
  have l: "length ?im = 96" by (rule length_market_image [OF assms(5)])
  note o = short_slot_offsets [OF assms(1-3), of n]
  have len: "length m = 2304 + 128 * n" using assms(4) o(3) by simp
  show ?thesis
  proof (cases "i + 1 = n")
    case True
    then have "length m < data_at T n i + 96" using len by (simp add: o)
    then have "memcpy m (data_at T n i) ?im 0 96 = None"
      using l by (simp add: memcpy_def load_at_def store_at_def)
    then show ?thesis using True assms(7) by (simp add: mem_publish_def copy_96_memcpy Let_def)
  next
    case False
    then have i: "i + 1 < n" using assms(6) by simp
    let ?m1 = "overwrite (data_at T n i) ?im m"
    let ?m2 = "overwrite (slot_at T n i) (le_image 8 (unat h)) ?m1"
    have b: "data_at T n i + 96 \<le> length m" "slot_at T n i + 8 \<le> length m"
      using i len by (simp_all add: o)
    have p: "mem_publish avx2 T n h ?im m = Some ?m2"
      using assms(7) b l by (simp add: mem_publish_def copy_96_memcpy memcpy_in stores_in Let_def)
    have "take 8 (drop (slot_at T n (i + 1)) ?m2) = take 8 (drop (slot_at T n (i + 1)) ?m1)"
      using b l by (intro take_drop_overwrite_apart) (simp_all add: o)
    also have "\<dots> = take 8 (drop 64 ?im)"
    proof -
      have "drop (data_at T n i + 64) ?m1 = drop 64 ?im @ drop (data_at T n i + 96) m"
        using b l by (simp add: overwrite_def)
      moreover have "data_at T n i + 64 = slot_at T n (i + 1)" by (simp add: o)
      ultimately show ?thesis using l by simp
    qed
    finally have s: "load_u64 ?m2 (sequence_at T n (i + 1))
        = Some (of_nat (unat (asks_quantity x ! 0) + 2 ^ 32 * unat (asks_quantity x ! 1)))"
      using b l len i unfolding load_u64_def load_at_def by (simp add: o word_of_fields [OF assms(5)])
    have front: "load_bool ?m2 (64 * c + 8) = load_bool m (64 * c + 8)"
      "load_u64 ?m2 (64 * c) = load_u64 m (64 * c)" if "c < 32" for c
      using that b l loads_apart [of "data_at T n i" ?im m]
        loads_apart [of "slot_at T n i" "le_image 8 (unat h)" ?m1] by (simp_all add: o)
    have "mem_pop avx2 T n c item ?m2 = Some (False, item, ?m2)"
      if "unat c < 32" "load_bool m (64 * unat c + 8) = Some True" "load_u64 m (64 * unat c) = Some t"
        "mem_index n t = i + 1"
        "t \<noteq> of_nat (unat (asks_quantity x ! 0) + 2 ^ 32 * unat (asks_quantity x ! 1))" for c t
      using that s front [OF that(1)] by (simp add: mem_pop_def Let_def)
    then show ?thesis using False p s by (simp add: Let_def) blast
  qed
qed

lemma short_slots_overrun_witness:
  "mem_publish True (Opaque 64 64) 1 0 (market_image MarketData_new) (replicate 2432 (CHR 0x00)) = None"
  using short_slots_overrun [of "Opaque 64 64" "replicate 2432 (CHR 0x00)" 1 MarketData_new 0 0 True]
  by (simp add: short_slot_offsets(3) MarketData_new_def wf_market_def mem_index_def)

section \<open>The image of an entry in the logger's ring\<close>

lemma log_entry_offsets:
  "map (offset_of log_entry_type)
      [''timestamp_ns'', ''thread_id'', ''level'', ''category'', ''payload_len'', ''payload'']
    = map Some [0, 8, 12, 13, 14, 16]"
  by code_simp

text \<open>The image of an entry has each field where the layout puts it.\<close>

lemma entry_image_at_offsets:
  "map (\<lambda>(f, k). take k (drop (the (offset_of log_entry_type f)) (entry_image e)))
      [(''timestamp_ns'', 8), (''thread_id'', 4), (''level'', 1), (''category'', 1), (''payload_len'', 2)]
    = [le_image 8 (unat (timestamp_ns e)), le_image 4 (unat (thread_id e)), le_image 1 (unat (level e)),
       le_image 1 (unat (category e)), le_image 2 (unat (payload_len e))]
    \<and> drop (the (offset_of log_entry_type ''payload'')) (entry_image e) = payload e"
proof -
  have "map (\<lambda>(p, k). take k (drop p (entry_image e))) [(0, 8), (8, 4), (12, 1), (13, 1), (14, 2)]
    = [le_image 8 (unat (timestamp_ns e)), le_image 4 (unat (thread_id e)), le_image 1 (unat (level e)),
       le_image 1 (unat (category e)), le_image 2 (unat (payload_len e))]
    \<and> drop 16 (entry_image e) = payload e"
    by (simp add: entry_image_def del: le_image.simps)
  then show ?thesis using log_entry_offsets by (simp del: le_image.simps offset_of.simps)
qed

end
