(* ===== verification/Shm_World.thy ===== *)
theory Shm_World
  imports Shm_Queue Queue_Memory
begin

text \<open>
  The shared-memory manager and the queue together: which object a name, a descriptor and a
  mapped address stand for, and what bytes it holds. Proved: a process that attaches after
  the creator's constructor works on the creator's queue, so what one pushes the other
  pops; one that attaches between the sizing of the object and the construction finds
  zero bytes, pops an item nobody pushed, and loses its registration when the creator
  constructs the queue.
\<close>

section \<open>What the calls do to objects\<close>

text \<open>
  Objects are numbered. \<open>store_laws\<close> is what POSIX documents of a shared-memory object: a
  name is bound to an object until it is unlinked, opening an unbound name with \<open>O_CREAT\<close>
  makes an empty object nobody else refers to, \<open>ftruncate\<close> fills up with zero bytes, and a
  \<open>MAP_SHARED\<close> mapping shows the object of its descriptor. A call that fails changes
  nothing. \<open>ctor\<close> is what the constructor of the queue does to the bytes at its address.
\<close>

record 'w shm_store =
  named :: "'w \<Rightarrow> string \<Rightarrow> nat option"
  opened :: "'w \<Rightarrow> int \<Rightarrow> nat option"
  mapped :: "'w \<Rightarrow> u64 \<Rightarrow> nat option"
  object :: "'w \<Rightarrow> nat \<Rightarrow> bytes"

definition same_store :: "'w shm_store \<Rightarrow> 'w \<Rightarrow> 'w \<Rightarrow> bool" where
  "same_store st w w' \<longleftrightarrow> named st w' = named st w \<and> opened st w' = opened st w
     \<and> mapped st w' = mapped st w \<and> object st w' = object st w"

definition unlink_law :: "'w shm_os \<Rightarrow> 'w shm_store \<Rightarrow> bool" where
  "unlink_law os st \<longleftrightarrow> (\<forall>w nm. let w' = os_shm_unlink os nm w
     in named st w' = (named st w)(nm := None) \<and> opened st w' = opened st w
        \<and> mapped st w' = mapped st w \<and> object st w' = object st w)"

definition open_law :: "'w shm_os \<Rightarrow> 'w shm_store \<Rightarrow> bool" where
  "open_law os st \<longleftrightarrow> (\<forall>w nm create. let (d, w') = os_shm_open os nm create w
     in if d < 0 then same_store st w w'
        else mapped st w' = mapped st w \<and>
          (case named st w nm of
             Some ob \<Rightarrow> named st w' = named st w \<and> object st w' = object st w
               \<and> opened st w' = (opened st w)(d \<mapsto> ob)
           | None \<Rightarrow> create \<and> (\<exists>ob. ob \<notin> ran (named st w) \<and> ob \<notin> ran (opened st w)
               \<and> ob \<notin> ran (mapped st w) \<and> named st w' = (named st w)(nm \<mapsto> ob)
               \<and> object st w' = (object st w)(ob := []) \<and> opened st w' = (opened st w)(d \<mapsto> ob))))"

definition truncated :: "nat \<Rightarrow> bytes \<Rightarrow> bytes" where
  "truncated n bs = take n bs @ replicate (n - length bs) (CHR 0x00)"

definition ftruncate_law :: "'w shm_os \<Rightarrow> 'w shm_store \<Rightarrow> bool" where
  "ftruncate_law os st \<longleftrightarrow> (\<forall>w d n ob. opened st w d = Some ob \<longrightarrow>
     (let (r, w') = os_ftruncate os d n w
      in if r < 0 then same_store st w w'
         else named st w' = named st w \<and> opened st w' = opened st w \<and> mapped st w' = mapped st w
           \<and> object st w' = (object st w)(ob := truncated n (object st w ob))))"

definition mmap_law :: "'w shm_os \<Rightarrow> 'w shm_store \<Rightarrow> bool" where
  "mmap_law os st \<longleftrightarrow> (\<forall>w d n ob. opened st w d = Some ob \<longrightarrow>
     (case os_mmap os n d w of
        (None, w') \<Rightarrow> same_store st w w'
      | (Some a, w') \<Rightarrow> mapped st w a = None \<and> named st w' = named st w \<and> opened st w' = opened st w
           \<and> mapped st w' = (mapped st w)(a \<mapsto> ob) \<and> object st w' = object st w))"

definition quiet_law :: "'w shm_os \<Rightarrow> 'w shm_store \<Rightarrow> bool" where
  "quiet_law os st \<longleftrightarrow> (\<forall>w n a. same_store st w (os_usleep os n w)
     \<and> same_store st w (snd (os_mlock os a n w)))"

definition ctor_law :: "'w shm_os \<Rightarrow> (bytes \<Rightarrow> bytes option) \<Rightarrow> 'w shm_store \<Rightarrow> bool" where
  "ctor_law os ctor st \<longleftrightarrow> (\<forall>w a ob m. mapped st w a = Some ob \<and> ctor (object st w ob) = Some m \<longrightarrow>
     (let w' = queue_ctor os a w
      in named st w' = named st w \<and> opened st w' = opened st w \<and> mapped st w' = mapped st w
         \<and> object st w' = (object st w)(ob := m)))"

definition store_laws :: "'w shm_os \<Rightarrow> (bytes \<Rightarrow> bytes option) \<Rightarrow> 'w shm_store \<Rightarrow> bool" where
  "store_laws os ctor st \<longleftrightarrow> unlink_law os st \<and> open_law os st \<and> ftruncate_law os st
     \<and> mmap_law os st \<and> quiet_law os st \<and> ctor_law os ctor st"

text \<open>A call of the queue at address \<open>a\<close>: it reads and replaces the bytes of the mapped object.\<close>

definition call_at ::
  "'w shm_store \<Rightarrow> u64 \<Rightarrow> (bytes \<Rightarrow> ('r \<times> bytes) option) \<Rightarrow> 'w \<Rightarrow> 'r \<Rightarrow> 'w \<Rightarrow> bool" where
  "call_at st a f w r w' \<longleftrightarrow> (\<exists>ob m. mapped st w a = Some ob \<and> f (object st w ob) = Some (r, m)
     \<and> named st w' = named st w \<and> opened st w' = opened st w \<and> mapped st w' = mapped st w
     \<and> object st w' = (object st w)(ob := m))"

section \<open>The manager's calls on objects\<close>

lemma same_storeD:
  "same_store st w w' \<Longrightarrow> named st w' = named st w \<and> opened st w' = opened st w
     \<and> mapped st w' = mapped st w \<and> object st w' = object st w"
  by (simp add: same_store_def)

lemma open_lawD:
  assumes "store_laws os ctor st" and "os_shm_open os nm create w = (d, w')"
  shows "d < 0 \<Longrightarrow> same_store st w w'"
    and "0 \<le> d \<Longrightarrow> mapped st w' = mapped st w"
    and "0 \<le> d \<Longrightarrow> named st w nm = Some ob \<Longrightarrow> named st w' = named st w \<and> object st w' = object st w
      \<and> opened st w' = (opened st w)(d \<mapsto> ob)"
    and "0 \<le> d \<Longrightarrow> named st w nm = None \<Longrightarrow> \<exists>ob. ob \<notin> ran (named st w) \<and> ob \<notin> ran (opened st w)
      \<and> ob \<notin> ran (mapped st w) \<and> named st w' = (named st w)(nm \<mapsto> ob)
      \<and> object st w' = (object st w)(ob := []) \<and> opened st w' = (opened st w)(d \<mapsto> ob)"
proof -
  have "open_law os st" using assms(1) by (simp add: store_laws_def)
  note law = this [unfolded open_law_def, THEN spec [of _ w], THEN spec [of _ nm],
      THEN spec [of _ create],
      unfolded assms(2) Let_def prod.case]
  show "d < 0 \<Longrightarrow> same_store st w w'" "0 \<le> d \<Longrightarrow> mapped st w' = mapped st w"
    "0 \<le> d \<Longrightarrow> named st w nm = Some ob \<Longrightarrow> named st w' = named st w \<and> object st w' = object st w
      \<and> opened st w' = (opened st w)(d \<mapsto> ob)"
    "0 \<le> d \<Longrightarrow> named st w nm = None \<Longrightarrow> \<exists>ob. ob \<notin> ran (named st w) \<and> ob \<notin> ran (opened st w)
      \<and> ob \<notin> ran (mapped st w) \<and> named st w' = (named st w)(nm \<mapsto> ob)
      \<and> object st w' = (object st w)(ob := []) \<and> opened st w' = (opened st w)(d \<mapsto> ob)"
    using law by simp_all
qed

text \<open>Attaching to a bound name opens its object, whatever attempt succeeds.\<close>

lemma attach_loop_store:
  assumes laws: "store_laws os ctor st" and "named st w nm = Some ob"
    and "attach_loop os nm k d w = (d', w')" and "d < 0" and "0 \<le> d'"
  shows "named st w' = named st w \<and> mapped st w' = mapped st w \<and> object st w' = object st w
    \<and> opened st w' = (opened st w)(d' \<mapsto> ob)"
  using assms(2-4)
proof (induction k arbitrary: d w)
  case 0
  then show ?case using assms(5) by simp
next
  case (Suc k)
  obtain d1 w1 where o1: "os_shm_open os nm False w = (d1, w1)" by fastforce
  note ol = open_lawD [OF laws o1]
  show ?case
  proof (cases "d1 < 0")
    case True
    let ?w2 = "os_usleep os 10000 w1"
    have "same_store st w1 ?w2" using laws by (simp add: store_laws_def quiet_law_def)
    then have s: "same_store st w ?w2" using ol(1) [OF True] by (simp add: same_store_def)
    then have n2: "named st ?w2 nm = Some ob" using Suc.prems(1) by (simp add: same_store_def)
    have "attach_loop os nm k d1 ?w2 = (d', w')" using Suc.prems(2) o1 True by simp
    from Suc.IH [OF n2 this True] show ?thesis
      using s unfolding same_store_def by metis
  next
    case False
    then show ?thesis using ol(2) ol(3) [OF _ Suc.prems(1)] Suc.prems(2) o1 by simp
  qed
qed

text \<open>Creating binds the name to a fresh object of the asked size, all bytes zero.\<close>

lemma shm_create_store:
  assumes laws: "store_laws os ctor st" and "shm_obtain os sz nm True w = (Inr d, w')"
  shows "\<exists>ob. ob \<notin> ran (mapped st w) \<and> ob \<notin> ran (opened st w) \<and> mapped st w' = mapped st w
    \<and> named st w' = (named st w)(nm \<mapsto> ob) \<and> opened st w' = (opened st w)(d \<mapsto> ob)
    \<and> object st w' = (object st w)(ob := replicate sz (CHR 0x00))"
proof -
  let ?w1 = "os_shm_unlink os nm w"
  obtain d2 w2 where o2: "os_shm_open os nm True ?w1 = (d2, w2)" by fastforce
  obtain r w3 where t3: "os_ftruncate os d2 sz w2 = (r, w3)" by fastforce
  have d: "\<not> d2 < 0" "\<not> r < 0" "d = d2" "w' = w3"
    using assms(2) o2 t3 by (auto simp: shm_obtain_def Let_def split: if_splits)
  have u: "named st ?w1 = (named st w)(nm := None)" "opened st ?w1 = opened st w"
    "mapped st ?w1 = mapped st w" "object st ?w1 = object st w"
    using laws by (simp_all add: store_laws_def unlink_law_def Let_def)
  have "0 \<le> d2" "named st ?w1 nm = None" using d(1) u(1) by simp_all
  then obtain ob where ob: "ob \<notin> ran (opened st w)" "ob \<notin> ran (mapped st w)"
    "named st w2 = (named st w)(nm \<mapsto> ob)" "object st w2 = (object st w)(ob := [])"
    "opened st w2 = (opened st w)(d2 \<mapsto> ob)" and mp: "mapped st w2 = mapped st w"
    using open_lawD(2,4) [OF laws o2] u by auto
  have "opened st w2 d2 = Some ob" using ob(5) by simp
  moreover have "ftruncate_law os st" using laws by (simp add: store_laws_def)
  ultimately have "named st w3 = named st w2 \<and> opened st w3 = opened st w2 \<and> mapped st w3 = mapped st w2
      \<and> object st w3 = (object st w2)(ob := truncated sz (object st w2 ob))"
    using t3 d(2) by (auto simp: ftruncate_law_def Let_def split: prod.splits)
  moreover have "truncated sz [] = replicate sz (CHR 0x00)" by (simp add: truncated_def)
  ultimately show ?thesis using ob mp u d by (intro exI [of _ ob]) simp
qed

lemma shm_map_store:
  assumes laws: "store_laws os ctor st" and "opened st w d = Some ob" and "os_mmap os sz d w = (Some a, w1)"
  shows "named st (snd (os_mlock os a sz w1)) = named st w \<and> opened st (snd (os_mlock os a sz w1)) = opened st w
    \<and> mapped st (snd (os_mlock os a sz w1)) = (mapped st w)(a \<mapsto> ob)
    \<and> object st (snd (os_mlock os a sz w1)) = object st w \<and> mapped st w a = None"
proof -
  have "mmap_law os st" using laws by (simp add: store_laws_def)
  note law = this [unfolded mmap_law_def, THEN spec [of _ w], THEN spec [of _ d], THEN spec [of _ sz],
      THEN spec [of _ ob], THEN mp, OF assms(2)]
  have "mapped st w a = None \<and> named st w1 = named st w \<and> opened st w1 = opened st w
      \<and> mapped st w1 = (mapped st w)(a \<mapsto> ob) \<and> object st w1 = object st w"
    using law assms(3) by simp
  moreover have "same_store st w1 (snd (os_mlock os a sz w1))"
    using laws by (simp add: store_laws_def quiet_law_def)
  ultimately show ?thesis by (simp add: same_store_def)
qed

lemma manager_parts:
  assumes "ShmQueueManager_new os sz nm create w = (Inr mg, w')"
  obtains d a w1 w2 where "shm_obtain os sz nm create w = (Inr d, w1)" "os_mmap os sz d w1 = (Some a, w2)"
    "shm_get mg = Some a"
    "w' = (if create then queue_ctor os a (snd (os_mlock os a sz w2)) else snd (os_mlock os a sz w2))"
  using assms
  by (auto simp: ShmQueueManager_new_def shm_get_def Let_def split: prod.splits sum.splits option.splits)

text \<open>The creator's address shows a fresh object that holds what the constructor makes of zeros.\<close>

lemma creator_store:
  assumes laws: "store_laws os ctor st" and c: "ShmQueueManager_new os sz nm True w = (Inr mg, w')"
    and m: "ctor (replicate sz (CHR 0x00)) = Some m"
  shows "\<exists>a ob. shm_get mg = Some a \<and> ob \<notin> ran (mapped st w) \<and> named st w' nm = Some ob
    \<and> mapped st w' = (mapped st w)(a \<mapsto> ob) \<and> object st w' = (object st w)(ob := m)"
proof -
  obtain d a w1 w2 where p0: "shm_obtain os sz nm True w = (Inr d, w1)" "os_mmap os sz d w1 = (Some a, w2)"
    "shm_get mg = Some a" "w' = (if True then queue_ctor os a (snd (os_mlock os a sz w2)) else snd (os_mlock os a sz w2))"
    by (rule manager_parts [OF c])
  note p = p0 [simplified]
  obtain ob where o1: "ob \<notin> ran (mapped st w)" "mapped st w1 = mapped st w"
    "named st w1 = (named st w)(nm \<mapsto> ob)" "opened st w1 = (opened st w)(d \<mapsto> ob)"
    "object st w1 = (object st w)(ob := replicate sz (CHR 0x00))"
    using shm_create_store [OF laws p(1)] by blast
  have "opened st w1 d = Some ob" using o1(4) by simp
  note s = shm_map_store [OF laws this p(2)]
  have "ctor (object st (snd (os_mlock os a sz w2)) ob) = Some m" using s o1(5) m by simp
  moreover have "mapped st (snd (os_mlock os a sz w2)) a = Some ob" using s by simp
  ultimately have "named st w' = named st (snd (os_mlock os a sz w2))
      \<and> mapped st w' = mapped st (snd (os_mlock os a sz w2))
      \<and> object st w' = (object st (snd (os_mlock os a sz w2)))(ob := m)"
    using laws unfolding store_laws_def ctor_law_def p(4) by (simp add: Let_def)
  then show ?thesis using s o1 p(3) by (intro exI [of _ a] exI [of _ ob]) simp
qed

text \<open>The attacher's address shows the object the name is bound to.\<close>

lemma attacher_store:
  assumes laws: "store_laws os ctor st" and c: "ShmQueueManager_new os sz nm False w = (Inr mg, w')"
    and n: "named st w nm = Some ob"
  shows "\<exists>a d. shm_get mg = Some a \<and> mapped st w a = None \<and> named st w' = named st w
    \<and> mapped st w' = (mapped st w)(a \<mapsto> ob) \<and> object st w' = object st w
    \<and> opened st w' = (opened st w)(d \<mapsto> ob)"
proof -
  obtain d a w1 w2 where p0: "shm_obtain os sz nm False w = (Inr d, w1)" "os_mmap os sz d w1 = (Some a, w2)"
    "shm_get mg = Some a" "w' = (if False then queue_ctor os a (snd (os_mlock os a sz w2)) else snd (os_mlock os a sz w2))"
    by (rule manager_parts [OF c])
  note p = p0 [simplified]
  obtain d1 w1' where l: "attach_loop os nm 50 (-1) w = (d1, w1')" by fastforce
  then have d: "d1 = d" "w1' = w1" "0 \<le> d" using p(1) by (auto simp: shm_obtain_def split: if_splits)
  have o1: "named st w1 = named st w \<and> mapped st w1 = mapped st w \<and> object st w1 = object st w
      \<and> opened st w1 = (opened st w)(d \<mapsto> ob)"
    using attach_loop_store [OF laws n] l d by (metis neg_less_0_iff_less zero_less_one)
  then have "opened st w1 d = Some ob" by simp
  note s = shm_map_store [OF laws this p(2)]
  then show ?thesis using o1 p(3,4) by (intro exI [of _ a] exI [of _ d]) simp
qed

section \<open>Fresh and zero-filled queue objects\<close>

lemma fresh_view:
  assumes n: "valid_size n" "n + b < 2 ^ 64 - 1" and l: "length ds = n"
    and q: "q = (MPMC_Queue_new n d)\<lparr>slots := map (\<lambda>x. \<lparr>sequence = INVALID_POS, data = x\<rparr>) ds\<rparr>"
  shows "queue_inv b (core q)" "abs_queue (core q) = Map.empty" "queue_num_consumers (core q) = 0"
proof -
  show "queue_inv b (core q)" using n l
    by (simp add: q queue_inv_def queue_head_def cached_min_def MPMC_Queue_new_def)
  show "abs_queue (core q) = Map.empty"
    by (auto simp: q abs_queue_def live_def is_active_def MPMC_Queue_new_def fun_eq_iff)
  show "queue_num_consumers (core q) = 0"
    by (simp add: q queue_num_consumers_def MPMC_Queue_new_def)
qed

lemma zero_loads:
  "p + 8 \<le> k \<Longrightarrow> load_u64 (replicate k (CHR 0x00)) p = Some 0"
  "p + 4 \<le> k \<Longrightarrow> load_u32 (replicate k (CHR 0x00)) p = Some 0"
  "p + 1 \<le> k \<Longrightarrow> load_bool (replicate k (CHR 0x00)) p = Some False"
  by (simp_all add: load_u64_def load_u32_def load_bool_def load_at_def min_def del: One_nat_def)

lemma zero_u32s: "u32s_of_image k (replicate j (CHR 0x00)) = replicate k 0"
  by (induction k arbitrary: j) simp_all

lemma zero_market: "market_of_image (replicate 96 (CHR 0x00)) = MarketData_new"
  by (simp add: market_of_image_def MarketData_new_def zero_u32s)

lemma zero_view:
  assumes "ring_bytes T n (replicate k (CHR 0x00))"
  shows "mem_queue T n (replicate k (CHR 0x00)) =
    \<lparr>consumers = replicate 32 \<lparr>tail = 0, active = False\<rparr>, producer = \<lparr>head = 0\<rparr>,
     meta = \<lparr>num_consumers = 0, min_tail = 0\<rparr>,
     slots = replicate n \<lparr>sequence = 0, data = MarketData_new\<rparr>, purge_lock = False\<rparr>"
proof -
  let ?m = "replicate k (CHR 0x00)"
  have k: "2304 \<le> k" using ring_bytesD(1) [OF assms] by simp
  have "mem_consumer T n ?m i = \<lparr>tail = 0, active = False\<rparr>" if "i < 32" for i
    using that k zero_loads(1) [of "64 * i" k] zero_loads(3) [of "64 * i + 8" k]
    by (simp add: mem_consumer_def)
  then have "map (mem_consumer T n ?m) [0..<32] = replicate 32 \<lparr>tail = 0, active = False\<rparr>"
    by (intro nth_equalityI) simp_all
  moreover have "mem_slot T n ?m i = \<lparr>sequence = 0, data = MarketData_new\<rparr>" if "i < n" for i
  proof -
    have "take 96 (drop (data_at T n i) ?m) = replicate 96 (CHR 0x00)"
      using data_in [OF assms that] by (simp add: min_def)
    then show ?thesis
      using zero_loads(1) [of "slot_at T n i" k] slot_sequence_in [OF assms that] zero_market
      by (simp add: mem_slot_def)
  qed
  then have "map (mem_slot T n ?m) [0..<n] = replicate n \<lparr>sequence = 0, data = MarketData_new\<rparr>"
    by (intro nth_equalityI) simp_all
  ultimately show ?thesis
    using k zero_loads(1) [of 2048 k] zero_loads(1) [of 2184 k] zero_loads(2) [of 2176 k]
      zero_loads(3) [of 2192 k] by (simp add: mem_queue_def)
qed

section \<open>Properties\<close>

lemma call_atD:
  assumes "call_at st a f w r w'" and "mapped st w a = Some ob"
  shows "\<exists>m. f (object st w ob) = Some (r, m) \<and> object st w' = (object st w)(ob := m)
    \<and> mapped st w' = mapped st w \<and> named st w' = named st w \<and> opened st w' = opened st w"
  using assms by (auto simp: call_at_def)

definition pop_call ::
  "bool \<Rightarrow> ctype \<Rightarrow> nat \<Rightarrow> u32 \<Rightarrow> bytes \<Rightarrow> bytes \<Rightarrow> ((bool \<times> bytes) \<times> bytes) option" where
  "pop_call avx2 T n c item m = map_option (\<lambda>(ok, item', m'). ((ok, item'), m')) (mem_pop avx2 T n c item m)"

lemma pop_call_realises:
  assumes "ring_bytes T n m" and "unat c < 32" and "length item = 96"
    and "pop_call avx2 T n c item m = Some ((ok, item'), m')"
  shows "ok = (fst (legacy_pop c (mem_queue T n m)) \<noteq> None) \<and> ring_bytes T n m'
    \<and> mem_queue T n m' = snd (legacy_pop c (mem_queue T n m))
    \<and> (case fst (legacy_pop c (mem_queue T n m)) of
         None \<Rightarrow> item' = item | Some x \<Rightarrow> market_of_image item' = x)"
proof -
  obtain i2 m2 where p: "mem_pop avx2 T n c item m = Some (fst (legacy_pop c (mem_queue T n m)) \<noteq> None, i2, m2)"
    "ring_bytes T n m2" "mem_queue T n m2 = snd (legacy_pop c (mem_queue T n m))"
    "case fst (legacy_pop c (mem_queue T n m)) of None \<Rightarrow> i2 = item | Some x \<Rightarrow> market_of_image i2 = x"
    using mem_pop_realises [OF assms(1-3), of avx2] by (elim exE conjE) (rule that; assumption)
  then have "ok = (fst (legacy_pop c (mem_queue T n m)) \<noteq> None)" "item' = i2" "m' = m2"
    using assms(4) by (simp_all add: pop_call_def)
  then show ?thesis using p(2-4) by (simp split: option.splits)
qed

text \<open>The calls on the fields, from a fresh queue: register, push, pop.\<close>

lemma fresh_exchange:
  assumes inv: "queue_inv 1 (core q)" "abs_queue (core q) = Map.empty" "queue_num_consumers (core q) = 0"
    and q1: "reg_consumer q = (r, q1)" and q2: "legacy_push fs x q1 = (ok, q2)"
  shows "r = Inr 0 \<and> ok \<and> fst (legacy_pop 0 q2) = Some x"
proof -
  have few: "queue_num_consumers (core q) < MAX_CONSUMERS" using inv(3) by (simp add: MAX_CONSUMERS_def)
  have "register_consumer (core q) = (r, core q1)"
    using core_reg [of q] q1 by (simp add: id_def)
  then have 1: "r = Inr 0" "queue_inv 1 (core q1)" "abs_queue (core q1) = [0 \<mapsto> []]"
    using register_refines [OF inv(1) few] inv(2,3) by simp_all
  have "live (core q1) 0"
    using 1(3) by (metis abs_queue_def fun_upd_same option.distinct(1))
  moreover have "push fs x (core q1) = (ok, core q2)"
    using core_push [of fs x q1] q2 by (simp add: id_def del: push.simps)
  moreover have "queue_inv (Suc 0) (core q1)" using 1(2) by simp
  ultimately have 2: "spec_push (ring_capacity (core q1)) x [0 \<mapsto> []] = (ok, abs_queue (core q2))"
    "queue_inv 0 (core q2)"
    using push_refines_spec [of 0 "core q1" 0 fs x ok "core q2"] 1(3) by simp_all
  have "0 < ring_capacity (core q1)" using queue_invD(5) [OF 1(2)] by (simp add: ring_capacity_def)
  then have "spec_push (ring_capacity (core q1)) x [0 \<mapsto> []] = (True, [0 \<mapsto> [x]])"
    by (auto simp: spec_push_def fun_eq_iff split: if_splits)
  then have ok: "ok" "abs_queue (core q2) = [0 \<mapsto> [x]]" using 2(1) by simp_all
  obtain r2 q3 where p: "pop 0 (core q2) = (r2, q3)" by fastforce
  then have "spec_pop 0 [0 \<mapsto> [x]] = (r2, abs_queue q3)"
    using pop_refines_spec [OF 2(2) _ p] ok(2) by simp
  then have "r2 = Some x" by (simp add: spec_pop_def)
  moreover have "fst (legacy_pop 0 q2) = r2"
    using core_pop [of 0 q2] p by (metis fst_conv fst_map_prod id_apply)
  ultimately show ?thesis using 1(1) ok(1) by simp
qed

text \<open>C17: Two processes, one queue. When a process attaches to a name after the creator's
  constructor has returned, the addresses both managers give stand for one object that holds a
  fresh queue; so a consumer registered through the attacher gets id 0, a push through the
  creator succeeds, and a pop through the attacher delivers that item. This holds for every
  item type whose slots hold the copy.\<close>

theorem attached_process_shares_queue:
  assumes laws: "store_laws os (mem_queue_new ctor T n) st"
    and T: "wf_ctype T" "slot_fits T" "valid_size n" "n = 2 ^ k" "k < 63"
    and ctor: "\<And>bs. length bs = size_of T \<Longrightarrow> length (ctor bs) = size_of T"
    and create: "ShmQueueManager_new os (size_of (queue_type T n)) nm True w0 = (Inr cm, w1)"
    and attach: "ShmQueueManager_new os (size_of (queue_type T n)) nm False w1 = (Inr am, w2)"
    and addrs: "shm_get cm = Some a1" "shm_get am = Some a2"
    and x: "wf_market x" "length item = 96"
    and calls: "call_at st a2 (mem_reg_consumer T n) w2 r w3"
      "call_at st a1 (mem_push avx2 T n fs (market_image x)) w3 ok w4"
      "call_at st a2 (pop_call avx2 T n 0 item) w4 (got, item') w5"
  shows "mapped st w2 a1 = mapped st w2 a2 \<and> r = Inr 0 \<and> ok \<and> got \<and> market_of_image item' = x"
proof -
  let ?sz = "size_of (queue_type T n)"
  have n: "n + 1 < 2 ^ 64 - 1"
  proof -
    have "n \<le> 2 ^ 62" using T(4,5) power_increasing [of k 62 "2 :: nat"] by simp
    then show ?thesis by simp
  qed
  have rz: "ring_bytes T n (replicate ?sz (CHR 0x00))"
    using T by (auto simp: ring_bytes_def intro!: exI [of _ k])
  obtain m ds where m: "mem_queue_new ctor T n (replicate ?sz (CHR 0x00)) = Some m" "ring_bytes T n m"
    "length ds = n" "mem_queue T n m = (MPMC_Queue_new n (MarketData_new))\<lparr>slots :=
      map (\<lambda>x. \<lparr>sequence = INVALID_POS, data = x\<rparr>) ds\<rparr>"
    using mem_queue_new_view [OF rz, of ctor] ctor by blast
  note f = fresh_view [OF T(3) n m(3,4)]
  obtain ob where o1: "named st w1 nm = Some ob" "mapped st w1 a1 = Some ob" "object st w1 ob = m"
    using creator_store [OF laws create m(1)] addrs(1) by auto
  have o2: "mapped st w2 a2 = Some ob" "mapped st w2 a1 = Some ob" "object st w2 ob = m"
    using attacher_store [OF laws attach o1(1)] addrs(2) o1(2,3) by auto
  obtain m3 where c3: "mem_reg_consumer T n m = Some (r, m3)" "object st w3 ob = m3"
    "mapped st w3 = mapped st w2"
    using call_atD [OF calls(1) o2(1)] o2(3) by auto
  have r3: "ring_bytes T n m3" "reg_consumer (mem_queue T n m) = (r, mem_queue T n m3)"
    using mem_reg_realises [OF m(2)] c3(1) by (auto simp: realises_def)
  have "mapped st w3 a1 = Some ob" using c3(3) o2(2) by simp
  then obtain m4 where c4: "mem_push avx2 T n fs (market_image x) m3 = Some (ok, m4)" "object st w4 ob = m4"
    "mapped st w4 = mapped st w3"
    using call_atD [OF calls(2)] c3(2) by auto
  have r4: "ring_bytes T n m4" "legacy_push fs x (mem_queue T n m3) = (ok, mem_queue T n m4)"
    using mem_push_realises [OF r3(1) x(1), of avx2 fs] c4(1) by (auto simp: realises_def)
  note e = fresh_exchange [OF f r3(2) r4(2)]
  have "mapped st w4 a2 = Some ob" using c3(3) c4(3) o2(1) by simp
  then obtain m5 where c5: "pop_call avx2 T n 0 item m4 = Some ((got, item'), m5)"
    using call_atD [OF calls(3)] c4(2) by auto
  have "got \<and> market_of_image item' = x"
    using pop_call_realises [OF r4(1) _ x(2) c5] e by simp
  then show ?thesis using e o2 by simp
qed

text \<open>A concrete world for the witnesses: tables, the bytes of the objects, the next numbers.\<close>

record sim_world =
  w_names :: "string \<rightharpoonup> nat"
  w_fds :: "int \<rightharpoonup> nat"
  w_maps :: "u64 \<rightharpoonup> nat"
  w_objs :: "nat \<Rightarrow> bytes"
  w_next :: nat

definition sim_open :: "string \<Rightarrow> bool \<Rightarrow> sim_world \<Rightarrow> int \<times> sim_world" where
  "sim_open nm create w =
     (case w_names w nm of
        Some ob \<Rightarrow> (int (w_next w), w\<lparr>w_fds := (w_fds w)(int (w_next w) \<mapsto> ob), w_next := w_next w + 1\<rparr>)
      | None \<Rightarrow>
          if \<not> create \<or> w_next w \<in> ran (w_names w) \<union> ran (w_fds w) \<union> ran (w_maps w) then (-1, w)
          else (int (w_next w),
            w\<lparr>w_names := (w_names w)(nm \<mapsto> w_next w), w_fds := (w_fds w)(int (w_next w) \<mapsto> w_next w),
              w_objs := (w_objs w)(w_next w := []), w_next := w_next w + 1\<rparr>))"

definition sim_os :: "(bytes \<Rightarrow> bytes option) \<Rightarrow> sim_world shm_os" where
  "sim_os ctor =
     \<lparr>os_shm_unlink = (\<lambda>n w. w\<lparr>w_names := (w_names w)(n := None)\<rparr>),
      os_shm_open = sim_open,
      os_ftruncate = (\<lambda>d n w. case w_fds w d of None \<Rightarrow> (-1, w)
        | Some ob \<Rightarrow> (0, w\<lparr>w_objs := (w_objs w)(ob := truncated n (w_objs w ob))\<rparr>)),
      os_usleep = (\<lambda>n w. w),
      os_mmap = (\<lambda>n d w. case w_fds w d of None \<Rightarrow> (None, w)
        | Some ob \<Rightarrow> if w_maps w (of_nat (w_next w)) \<noteq> None then (None, w)
            else (Some (of_nat (w_next w)), w\<lparr>w_maps := (w_maps w)(of_nat (w_next w) \<mapsto> ob), w_next := w_next w + 1\<rparr>)),
      os_mlock = (\<lambda>a n w. (0, w)), os_munlock = (\<lambda>a n w. w),
      os_munmap = (\<lambda>a n w. w\<lparr>w_maps := (w_maps w)(a := None)\<rparr>),
      os_close = (\<lambda>d w. w\<lparr>w_fds := (w_fds w)(d := None)\<rparr>),
      queue_ctor = (\<lambda>a w. case w_maps w a of None \<Rightarrow> w
        | Some ob \<Rightarrow> (case ctor (w_objs w ob) of None \<Rightarrow> w | Some m \<Rightarrow> w\<lparr>w_objs := (w_objs w)(ob := m)\<rparr>))\<rparr>"

definition sim_store :: "sim_world shm_store" where
  "sim_store = \<lparr>named = w_names, opened = w_fds, mapped = w_maps, object = w_objs\<rparr>"

definition sim_start :: sim_world where
  "sim_start = \<lparr>w_names = Map.empty, w_fds = Map.empty, w_maps = Map.empty, w_objs = (\<lambda>_. []), w_next = 3\<rparr>"

lemma sim_store_laws: "store_laws (sim_os ctor) ctor sim_store"
proof -
  have "unlink_law (sim_os ctor) sim_store" "quiet_law (sim_os ctor) sim_store"
    by (simp_all add: unlink_law_def quiet_law_def same_store_def sim_os_def sim_store_def)
  moreover have "open_law (sim_os ctor) sim_store"
    by (auto simp: open_law_def same_store_def sim_os_def sim_store_def sim_open_def Let_def
        split: option.splits)
  moreover have "ftruncate_law (sim_os ctor) sim_store"
    by (auto simp: ftruncate_law_def same_store_def sim_os_def sim_store_def split: option.splits)
  moreover have "mmap_law (sim_os ctor) sim_store"
    by (auto simp: mmap_law_def same_store_def sim_os_def sim_store_def split: option.splits)
  moreover have "ctor_law (sim_os ctor) ctor sim_store"
    by (auto simp: ctor_law_def sim_os_def sim_store_def split: option.splits)
  ultimately show ?thesis by (simp add: store_laws_def)
qed

lemma sim_creator:
  assumes "ctor (replicate sz (CHR 0x00)) = Some m"
  shows "ShmQueueManager_new (sim_os ctor) sz nm True sim_start =
    (Inr \<lparr>shm_name = nm, shm_fd = 3, shm_queue = Some 4, is_creator = True\<rparr>,
     \<lparr>w_names = [nm \<mapsto> 3], w_fds = [3 \<mapsto> 3], w_maps = [4 \<mapsto> 3], w_objs = (\<lambda>_. [])(3 := m), w_next = 5\<rparr>)"
  using assms
  by (simp add: ShmQueueManager_new_def shm_obtain_def sim_os_def sim_open_def sim_start_def truncated_def)

lemma sim_attacher:
  "ShmQueueManager_new (sim_os ctor) sz nm False
     \<lparr>w_names = [nm \<mapsto> 3], w_fds = [3 \<mapsto> 3], w_maps = [4 \<mapsto> 3], w_objs = objs, w_next = 5\<rparr> =
    (Inr \<lparr>shm_name = nm, shm_fd = 5, shm_queue = Some 6, is_creator = False\<rparr>,
     \<lparr>w_names = [nm \<mapsto> 3], w_fds = [3 \<mapsto> 3, 5 \<mapsto> 3], w_maps = [4 \<mapsto> 3, 6 \<mapsto> 3], w_objs = objs, w_next = 7\<rparr>)"
  by (simp add: ShmQueueManager_new_def shm_obtain_def sim_os_def sim_open_def
      attach_loop.simps(2) [of _ _ 49, simplified])

lemma attached_process_shares_queue_witness:
  "\<exists>w2 w3 w4 w5 item'. call_at sim_store 6 (mem_reg_consumer market_type 16) w2 (Inr 0) w3
    \<and> call_at sim_store 4 (mem_push True market_type 16 [] (market_image MarketData_new)) w3 True w4
    \<and> call_at sim_store 6 (pop_call True market_type 16 0 (replicate 96 (CHR 0x00))) w4 (True, item') w5
    \<and> market_of_image item' = MarketData_new"
proof -
  let ?sz = "size_of (queue_type market_type 16)" and ?T = market_type
  have fits: "slot_fits ?T" using slot_fits_cases [of ?T] struct_sizes(1,2) by simp
  obtain m where m: "mem_queue_new (\<lambda>bs. bs) ?T 16 (replicate ?sz (CHR 0x00)) = Some m"
    "ring_bytes ?T 16 m"
    using mem_queue_new_view [OF zero_ring_bytes [unfolded zero_ring_def], of "\<lambda>bs. bs"] by blast
  let ?w = "\<lambda>ob_bytes. \<lparr>w_names = [''q'' \<mapsto> 3], w_fds = [3 \<mapsto> 3, 5 \<mapsto> 3],
    w_maps = [4 \<mapsto> 3, 6 \<mapsto> 3], w_objs = (\<lambda>_. [])(3 := ob_bytes), w_next = 7\<rparr> :: sim_world"
  have x: "wf_market MarketData_new" by (simp add: MarketData_new_def wf_market_def)
  obtain r m3 where 3: "mem_reg_consumer ?T 16 m = Some (r, m3)" "ring_bytes ?T 16 m3"
    using mem_reg_realises [OF m(2)] by (auto simp: realises_def)
  obtain ok m4 where 4: "mem_push True ?T 16 [] (market_image MarketData_new) m3 = Some (ok, m4)"
    "ring_bytes ?T 16 m4"
    using mem_push_realises [OF 3(2) x, of True "[]"] by (auto simp: realises_def)
  obtain got item' m5 where 5: "mem_pop True ?T 16 0 (replicate 96 (CHR 0x00)) m4 = Some (got, item', m5)"
    using mem_pop_realises [OF 4(2), of 0 "replicate 96 (CHR 0x00)" True] by auto
  have c: "call_at sim_store 6 (mem_reg_consumer ?T 16) (?w m) r (?w m3)"
    "call_at sim_store 4 (mem_push True ?T 16 [] (market_image MarketData_new)) (?w m3) ok (?w m4)"
    "call_at sim_store 6 (pop_call True ?T 16 0 (replicate 96 (CHR 0x00))) (?w m4) (got, item') (?w m5)"
    using 3 4 5 by (simp_all add: call_at_def sim_store_def pop_call_def)
  have n: "valid_size 16" "(16 :: nat) = 2 ^ 4" by (simp_all add: valid_size_def)
  have "mapped sim_store (?w m) 4 = mapped sim_store (?w m) 6 \<and> r = Inr 0 \<and> ok \<and> got
      \<and> market_of_image item' = MarketData_new"
  proof (rule attached_process_shares_queue)
    show "store_laws (sim_os (mem_queue_new (\<lambda>bs. bs) ?T 16)) (mem_queue_new (\<lambda>bs. bs) ?T 16) sim_store"
      by (rule sim_store_laws)
    show "ShmQueueManager_new (sim_os (mem_queue_new (\<lambda>bs. bs) ?T 16)) ?sz ''q'' True sim_start =
        (Inr \<lparr>shm_name = ''q'', shm_fd = 3, shm_queue = Some 4, is_creator = True\<rparr>,
         \<lparr>w_names = [''q'' \<mapsto> 3], w_fds = [3 \<mapsto> 3], w_maps = [4 \<mapsto> 3], w_objs = (\<lambda>_. [])(3 := m),
          w_next = 5\<rparr>)"
      by (rule sim_creator, rule m(1))
    show "ShmQueueManager_new (sim_os (mem_queue_new (\<lambda>bs. bs) ?T 16)) ?sz ''q'' False
         \<lparr>w_names = [''q'' \<mapsto> 3], w_fds = [3 \<mapsto> 3], w_maps = [4 \<mapsto> 3], w_objs = (\<lambda>_. [])(3 := m),
          w_next = 5\<rparr> =
        (Inr \<lparr>shm_name = ''q'', shm_fd = 5, shm_queue = Some 6, is_creator = False\<rparr>, ?w m)"
      by (rule sim_attacher)
    show "wf_ctype ?T" "(4 :: nat) < 63" "length (replicate 96 (CHR 0x00)) = 96" by simp_all
    show "shm_get \<lparr>shm_name = ''q'', shm_fd = 3, shm_queue = Some 4, is_creator = True\<rparr> = Some 4"
      "shm_get \<lparr>shm_name = ''q'', shm_fd = 5, shm_queue = Some 6, is_creator = False\<rparr> = Some 6"
      by (simp_all add: shm_get_def)
  qed (rule fits n x c | assumption)+
  then have e: "r = Inr 0" "ok = True" "got = True" "market_of_image item' = MarketData_new" by simp_all
  show ?thesis by (intro exI conjI) (rule c [unfolded e(1-3)] e(4))+
qed

text \<open>C18: Attaching too early. The creator sizes the object before it constructs the queue in
  it, and attaching waits for the name only. A process that attaches in between finds zero
  bytes: its registration gets id 0, and its first pop delivers an item of zeros nobody
  pushed, because sequence number 0 is what an empty position 0 never has but zeroed memory
  does. When the creator then constructs the queue, the registration is gone: no consumer is
  active, the count of consumers is back at zero, and the pops of the attached process fail.\<close>

theorem early_attach_reads_phantom:
  assumes laws: "store_laws os (mem_queue_new ctor T n) st"
    and T: "wf_ctype T" "slot_fits T" "valid_size n" "n = 2 ^ k" "k < 63"
    and ctor: "\<And>bs. length bs = size_of T \<Longrightarrow> length (ctor bs) = size_of T"
    and sized: "shm_obtain os (size_of (queue_type T n)) nm True w0 = (Inr d, w1)"
    and attach: "ShmQueueManager_new os (size_of (queue_type T n)) nm False w1 = (Inr am, w2)"
    and addr: "shm_get am = Some a2" and i: "length item = 96"
    and calls: "call_at st a2 (mem_reg_consumer T n) w2 r w3"
      "call_at st a2 (pop_call avx2 T n 0 item) w3 (got, item') w4"
    and construct: "os_mmap os (size_of (queue_type T n)) d w4 = (Some a1, w5)"
      "w6 = queue_ctor os a1 (snd (os_mlock os a1 (size_of (queue_type T n)) w5))"
    and again: "call_at st a2 (pop_call avx2 T n 0 item) w6 (got2, item2) w7"
  shows "r = Inr 0 \<and> got \<and> market_of_image item' = MarketData_new \<and> \<not> got2 \<and> item2 = item
    \<and> (\<exists>ob. mapped st w4 a2 = Some ob \<and> mapped st w6 a2 = Some ob
        \<and> active (consumers (mem_queue T n (object st w4 ob)) ! 0)
        \<and> num_consumers (meta (mem_queue T n (object st w4 ob))) = 1
        \<and> (\<forall>x \<in> set (consumers (mem_queue T n (object st w6 ob))). \<not> active x)
        \<and> num_consumers (meta (mem_queue T n (object st w6 ob))) = 0)"
proof -
  let ?sz = "size_of (queue_type T n)" and ?z = "replicate (size_of (queue_type T n)) (CHR 0x00)"
  have rz: "ring_bytes T n ?z" using T by (auto simp: ring_bytes_def intro!: exI [of _ k])
  obtain ob where o1: "named st w1 nm = Some ob" "opened st w1 d = Some ob" "object st w1 ob = ?z"
    using shm_create_store [OF laws sized] by auto
  have o2: "mapped st w2 a2 = Some ob" "object st w2 ob = ?z" "opened st w2 d = Some ob"
    using attacher_store [OF laws attach o1(1)] addr o1 by auto
  obtain m3 where c3: "mem_reg_consumer T n ?z = Some (r, m3)" "object st w3 ob = m3"
    "mapped st w3 = mapped st w2" "opened st w3 = opened st w2"
    using call_atD [OF calls(1) o2(1)] o2(2) by auto
  have r3: "ring_bytes T n m3" "reg_consumer (mem_queue T n ?z) = (r, mem_queue T n m3)"
    using mem_reg_realises [OF rz] c3(1) by (auto simp: realises_def)
  have "0 < n" by (rule ring_bytesD(8) [OF rz])
  have q3: "r = Inr 0" "mem_queue T n m3 =
      \<lparr>consumers = (replicate 32 \<lparr>tail = 0, active = False\<rparr>)[0 := \<lparr>tail = 0, active = True\<rparr>],
       producer = \<lparr>head = 0\<rparr>, meta = \<lparr>num_consumers = 1, min_tail = 0\<rparr>,
       slots = replicate n \<lparr>sequence = 0, data = MarketData_new\<rparr>, purge_lock = False\<rparr>"
    using r3(2) unfolding zero_view [OF rz] by (auto simp: reg_consumer_def MAX_CONSUMERS_def Let_def)
  have p3: "fst (legacy_pop 0 (mem_queue T n m3)) = Some MarketData_new"
    using \<open>0 < n\<close> unfolding q3(2) by (simp add: legacy_pop_def legacy_mask_def Let_def)
  have "mapped st w3 a2 = Some ob" using c3(3) o2(1) by simp
  then obtain m4 where c4: "pop_call avx2 T n 0 item m3 = Some ((got, item'), m4)" "object st w4 ob = m4"
    "mapped st w4 = mapped st w3" "opened st w4 = opened st w3"
    using call_atD [OF calls(2)] c3(2) by auto
  have r4: "ring_bytes T n m4" "got" "market_of_image item' = MarketData_new"
    "mem_queue T n m4 = snd (legacy_pop 0 (mem_queue T n m3))"
    using pop_call_realises [OF r3(1) _ i c4(1)] p3 by simp_all
  have v4: "active (consumers (mem_queue T n m4) ! 0)" "num_consumers (meta (mem_queue T n m4)) = 1"
    using \<open>0 < n\<close> unfolding r4(4) q3(2) by (simp_all add: legacy_pop_def legacy_mask_def Let_def)
  have "opened st w4 d = Some ob" using c4(4) c3(4) o2(3) by simp
  note s5 = shm_map_store [OF laws this construct(1)]
  let ?w5 = "snd (os_mlock os a1 ?sz w5)"
  obtain m6 ds where m6: "mem_queue_new ctor T n m4 = Some m6" "ring_bytes T n m6"
    "mem_queue T n m6 = (MPMC_Queue_new n (MarketData_new))\<lparr>slots :=
      map (\<lambda>x. \<lparr>sequence = INVALID_POS, data = x\<rparr>) ds\<rparr>"
    using mem_queue_new_view [OF r4(1), of ctor] ctor by blast
  have "mapped st ?w5 a1 = Some ob" "mem_queue_new ctor T n (object st ?w5 ob) = Some m6"
    using s5 c4(2) m6(1) by simp_all
  then have w6: "mapped st w6 = mapped st ?w5" "object st w6 ob = m6"
    using laws unfolding store_laws_def ctor_law_def construct(2) by (simp_all add: Let_def)
  have a4: "mapped st w4 a2 = Some ob" using c4(3) c3(3) o2(1) by simp
  then have a6: "mapped st w6 a2 = Some ob" using w6(1) s5 by auto
  then obtain m7 where c7: "pop_call avx2 T n 0 item m6 = Some ((got2, item2), m7)"
    using call_atD [OF again] w6(2) by auto
  have "fst (legacy_pop 0 (mem_queue T n m6)) = None"
    unfolding m6(3) by (simp add: legacy_pop_def MPMC_Queue_new_def MAX_CONSUMERS_nat)
  then have "\<not> got2 \<and> item2 = item" using pop_call_realises [OF m6(2) _ i c7] by simp
  moreover have "(\<forall>x \<in> set (consumers (mem_queue T n m6)). \<not> active x) \<and> num_consumers (meta (mem_queue T n m6)) = 0"
    unfolding m6(3) by (simp add: MPMC_Queue_new_def)
  ultimately show ?thesis
    using q3(1) r4(2,3) a4 a6 v4 c4(2) w6(2) by auto
qed

lemma sim_sized:
  "shm_obtain (sim_os ctor) sz nm True sim_start =
    (Inr 3, \<lparr>w_names = [nm \<mapsto> 3], w_fds = [3 \<mapsto> 3], w_maps = Map.empty,
       w_objs = (\<lambda>_. [])(3 := replicate sz (CHR 0x00)), w_next = 4\<rparr>)"
  by (simp add: shm_obtain_def sim_os_def sim_open_def sim_start_def truncated_def)

lemma sim_early_attacher:
  "ShmQueueManager_new (sim_os ctor) sz nm False
     \<lparr>w_names = [nm \<mapsto> 3], w_fds = [3 \<mapsto> 3], w_maps = Map.empty, w_objs = objs, w_next = 4\<rparr> =
    (Inr \<lparr>shm_name = nm, shm_fd = 4, shm_queue = Some 5, is_creator = False\<rparr>,
     \<lparr>w_names = [nm \<mapsto> 3], w_fds = [3 \<mapsto> 3, 4 \<mapsto> 3], w_maps = [5 \<mapsto> 3], w_objs = objs, w_next = 6\<rparr>)"
  by (simp add: ShmQueueManager_new_def shm_obtain_def sim_os_def sim_open_def
      attach_loop.simps(2) [of _ _ 49, simplified])

lemma early_attach_reads_phantom_witness:
  "\<exists>w3 w4 item'. call_at sim_store 5 (pop_call True market_type 16 0 (replicate 96 (CHR 0x01)))
      w3 (True, item') w4 \<and> market_of_image item' = MarketData_new"
proof -
  let ?sz = "size_of (queue_type market_type 16)" and ?T = market_type
  let ?z = "replicate ?sz (CHR 0x00)" and ?i = "replicate 96 (CHR 0x01)"
  let ?c = "mem_queue_new (\<lambda>bs. bs) ?T 16"
  have rz: "ring_bytes ?T 16 ?z" by (rule zero_ring_bytes [unfolded zero_ring_def])
  have fits: "slot_fits ?T" using rz by (simp add: ring_bytes_def)
  have n: "valid_size 16" "(16 :: nat) = 2 ^ 4" by (simp_all add: valid_size_def)
  let ?w = "\<lambda>maps nxt b. \<lparr>w_names = [''q'' \<mapsto> 3], w_fds = [3 \<mapsto> 3, 4 \<mapsto> 3],
    w_maps = maps, w_objs = (\<lambda>_. [])(3 := b), w_next = nxt\<rparr> :: sim_world"
  let ?w5 = "?w [5 \<mapsto> 3] 6" and ?w6 = "?w [5 \<mapsto> 3, 6 \<mapsto> 3] 7"
  obtain r m3 where 3: "mem_reg_consumer ?T 16 ?z = Some (r, m3)" "ring_bytes ?T 16 m3"
    using mem_reg_realises [OF rz] by (auto simp: realises_def)
  obtain got item' m4 where 4: "mem_pop True ?T 16 0 ?i m3 = Some (got, item', m4)" "ring_bytes ?T 16 m4"
    using mem_pop_realises [OF 3(2), of 0 ?i True] by auto
  obtain m6 where 6: "?c m4 = Some m6" "ring_bytes ?T 16 m6"
    using mem_queue_new_view [OF 4(2), of "\<lambda>bs. bs"] by blast
  obtain got2 item2 m7 where 7: "mem_pop True ?T 16 0 ?i m6 = Some (got2, item2, m7)"
    using mem_pop_realises [OF 6(2), of 0 ?i True] by auto
  have c: "call_at sim_store 5 (mem_reg_consumer ?T 16) (?w5 ?z) r (?w5 m3)"
    "call_at sim_store 5 (pop_call True ?T 16 0 ?i) (?w5 m3) (got, item') (?w5 m4)"
    "call_at sim_store 5 (pop_call True ?T 16 0 ?i) (?w6 m6) (got2, item2) (?w6 m7)"
    using 3 4 7 by (simp_all add: call_at_def sim_store_def pop_call_def)
  have "r = Inr 0 \<and> got \<and> market_of_image item' = MarketData_new \<and> \<not> got2 \<and> item2 = ?i
    \<and> (\<exists>ob. mapped sim_store (?w5 m4) 5 = Some ob \<and> mapped sim_store (?w6 m6) 5 = Some ob
        \<and> active (consumers (mem_queue ?T 16 (object sim_store (?w5 m4) ob)) ! 0)
        \<and> num_consumers (meta (mem_queue ?T 16 (object sim_store (?w5 m4) ob))) = 1
        \<and> (\<forall>x \<in> set (consumers (mem_queue ?T 16 (object sim_store (?w6 m6) ob))). \<not> active x)
        \<and> num_consumers (meta (mem_queue ?T 16 (object sim_store (?w6 m6) ob))) = 0)"
  proof (rule early_attach_reads_phantom)
    show "store_laws (sim_os ?c) ?c sim_store" by (rule sim_store_laws)
    show "shm_obtain (sim_os ?c) ?sz ''q'' True sim_start = (Inr 3,
        \<lparr>w_names = [''q'' \<mapsto> 3], w_fds = [3 \<mapsto> 3], w_maps = Map.empty,
         w_objs = (\<lambda>_. [])(3 := ?z), w_next = 4\<rparr>)" by (rule sim_sized)
    show "ShmQueueManager_new (sim_os ?c) ?sz ''q'' False \<lparr>w_names = [''q'' \<mapsto> 3], w_fds = [3 \<mapsto> 3],
        w_maps = Map.empty, w_objs = (\<lambda>_. [])(3 := ?z), w_next = 4\<rparr> =
       (Inr \<lparr>shm_name = ''q'', shm_fd = 4, shm_queue = Some 5, is_creator = False\<rparr>, ?w5 ?z)"
      by (rule sim_early_attacher)
    show "shm_get \<lparr>shm_name = ''q'', shm_fd = 4, shm_queue = Some 5, is_creator = False\<rparr> = Some 5"
      by (simp add: shm_get_def)
    show "os_mmap (sim_os ?c) ?sz 3 (?w5 m4) = (Some 6, ?w6 m4)" by (simp add: sim_os_def)
    show "?w6 m6 = queue_ctor (sim_os ?c) 6 (snd (os_mlock (sim_os ?c) 6 ?sz (?w6 m4)))"
      using 6(1) by (simp add: sim_os_def)
    show "wf_ctype ?T" "(4 :: nat) < 63" "length ?i = 96" by simp_all
  qed (rule fits n c | assumption)+
  then have e: "got = True" "market_of_image item' = MarketData_new" by blast+
  show ?thesis by (intro exI conjI) (rule c(2) [unfolded e(1)] e(2))+
qed

end
