(* ===== verification/Log_Rotation.thy ===== *)
theory Log_Rotation
  imports Mmap_Sink
begin

text \<open>
  The sink of src/mmap_sink.cpp over many files: \<open>write\<close> fills regions, extends the file, and
  when the file has reached its maximal size moves it aside and goes on in a new one. Proved:
  after any number of records, which of them each rotated file holds, that the newest files
  are kept in order without a gap, and what is dropped.
\<close>

section \<open>Files and their names\<close>

text \<open>
  \<open>files\<close> is the directory with the bytes of each file, \<open>at\<close> the name under which the open file
  is still found (\<open>None\<close> when it is not known). As long as it is found there, what is stored
  through the descriptor or the mapping is stored in the file of that name.
\<close>

definition keeps_dir ::
  "('w \<Rightarrow> bytes) \<Rightarrow> ('w \<Rightarrow> string \<rightharpoonup> bytes) \<Rightarrow> ('w \<Rightarrow> string option) \<Rightarrow> 'w \<Rightarrow> 'w \<Rightarrow> bool" where
  "keeps_dir view files at w w' \<longleftrightarrow>
     (\<forall>p. at w = Some p \<longrightarrow> at w' = Some p \<and> files w' = (files w)(p \<mapsto> view w'))"

definition opened_as ::
  "('w \<Rightarrow> bytes) \<Rightarrow> ('w \<Rightarrow> string \<rightharpoonup> bytes) \<Rightarrow> ('w \<Rightarrow> string option) \<Rightarrow> string \<Rightarrow> 'w \<Rightarrow> 'w \<Rightarrow> bool" where
  "opened_as view files at p w w' \<longleftrightarrow>
     (let c = (case files w p of None \<Rightarrow> [] | Some c \<Rightarrow> c)
      in at w' = Some p \<and> files w' = (files w)(p \<mapsto> c) \<and> view w' = c)"

definition dir_laws ::
  "'w posix \<Rightarrow> ('w \<Rightarrow> bytes) \<Rightarrow> ('w \<Rightarrow> string \<rightharpoonup> bytes) \<Rightarrow> ('w \<Rightarrow> string option) \<Rightarrow> bool" where
  "dir_laws ps view files at \<longleftrightarrow>
     (\<forall>p w. 0 \<le> fst (sys_open ps p w) \<longrightarrow> opened_as view files at p w (snd (sys_open ps p w)))
   \<and> (\<forall>p w. at w = Some p \<longrightarrow> files w p = Some (view w))
   \<and> (\<forall>d n w. keeps_dir view files at w (snd (sys_ftruncate ps d n w)))
   \<and> (\<forall>d n off w. keeps_dir view files at w (snd (sys_mmap ps d n off w)))
   \<and> (\<forall>a n w. keeps_dir view files at w (sys_madvise ps a n w))
   \<and> (\<forall>a n w. keeps_dir view files at w (sys_munmap ps a n w))
   \<and> (\<forall>a n b w. keeps_dir view files at w (sys_msync ps a n b w))
   \<and> (\<forall>a i ys w. keeps_dir view files at w (mem_store ps a i ys w))
   \<and> (\<forall>d w. files (sys_close ps d w) = files w)"

lemma dir_lawsD:
  assumes "dir_laws ps view files at"
  shows "keeps_dir view files at w (snd (sys_ftruncate ps d n w))"
    "keeps_dir view files at w (snd (sys_mmap ps d n off w))"
    "keeps_dir view files at w (sys_madvise ps a n w)" "keeps_dir view files at w (sys_munmap ps a n w)"
    "keeps_dir view files at w (sys_msync ps a n b w)" "keeps_dir view files at w (mem_store ps a i ys w)"
    "files (sys_close ps d w) = files w" "at w = Some p \<Longrightarrow> files w p = Some (view w)"
  using assms by (simp_all add: dir_laws_def)

lemma dir_laws_open:
  assumes "dir_laws ps view files at" and "sys_open ps p w = (d, w')" and "0 \<le> d"
  shows "at w' = Some p \<and> files w' = (files w)(p \<mapsto> (case files w p of None \<Rightarrow> [] | Some c \<Rightarrow> c))
    \<and> view w' = (case files w p of None \<Rightarrow> [] | Some c \<Rightarrow> c)"
proof -
  have "opened_as view files at p w (snd (sys_open ps p w))"
    using assms unfolding dir_laws_def by (metis fst_conv)
  then show ?thesis using assms(2) by (simp add: opened_as_def Let_def)
qed

lemma keeps_dir_trans [trans]:
  "keeps_dir view files at u v \<Longrightarrow> keeps_dir view files at v w \<Longrightarrow> keeps_dir view files at u w"
  unfolding keeps_dir_def by simp

lemma keeps_dir_refl:
  assumes "dir_laws ps view files at"
  shows "keeps_dir view files at w w"
  using dir_lawsD(8) [OF assms, of w] by (auto simp: keeps_dir_def)

lemma keeps_dirD:
  assumes "keeps_dir view files at w w'" and "at w = Some p"
  shows "at w' = Some p" "q \<noteq> p \<Longrightarrow> files w' q = files w q" "files w' p = Some (view w')"
  using assms by (simp_all add: keeps_dir_def)

lemma map_region_dir:
  assumes "dir_laws ps view files at" and "map_region ps s w = (t, w')"
  shows "keeps_dir view files at w w'"
proof -
  note l = dir_lawsD [OF assms(1)] and refl = keeps_dir_refl [OF assms(1)]
  obtain ok w1 where tr: "sys_ftruncate ps (fd s) (file_offset s + region_size s) w = (ok, w1)" by fastforce
  obtain p w2 where mm: "sys_mmap ps (fd s) (region_size s) (file_offset s) w1 = (p, w2)" by fastforce
  have k1: "keeps_dir view files at w w1" using l(1) [of w "fd s" "file_offset s + region_size s"] tr by simp
  have k2: "keeps_dir view files at w w2"
    by (rule keeps_dir_trans [OF k1]) (use l(2) [of w1 "fd s" "region_size s" "file_offset s"] mm in simp)
  have k3: "keeps_dir view files at w (sys_madvise ps a n w2)" for a n
    by (rule keeps_dir_trans [OF k2 l(3)])
  have "w' = w \<or> w' = w1 \<or> w' = w2 \<or> (\<exists>a n. w' = sys_madvise ps a n w2)"
    using assms(2) tr mm by (auto simp: map_region_def Let_def split: if_splits option.splits)
  then show ?thesis by (elim disjE exE) (use refl k1 k2 k3 in simp_all)
qed

lemma unmap_region_dir:
  assumes "dir_laws ps view files at" and "unmap_region ps s w = (t, w')"
  shows "keeps_dir view files at w w'"
  using assms(2) dir_lawsD(4) [OF assms(1)] keeps_dir_refl [OF assms(1)]
  by (auto simp: unmap_region_def split: option.splits)

section \<open>A write without rotation\<close>

lemma write_here_dir:
  assumes "dir_laws ps view files at" and "sink_ok s" and "mmap_ptr s = Some a" and "d \<noteq> []"
    and "unat (mmap_offset s) + length d \<le> unat (region_size s)" and "sink_write ps d s w = Inr (k, t, w')"
  shows "keeps_dir view files at w w'" "rotation_count t = rotation_count s"
    "unat (mmap_offset t) = unat (mmap_offset s) + length d"
proof -
  have w: "w' = mem_store ps a (unat (mmap_offset s)) d w"
    and t: "t = s\<lparr>mmap_offset := mmap_offset s + of_nat (length d),
        file_offset := file_offset s + of_nat (length d),
        total_bytes_written := total_bytes_written s + of_nat (length d)\<rparr>"
    using write_fits [OF assms(2-5), of ps w] assms(6) by auto
  show "keeps_dir view files at w w'" unfolding w by (rule dir_lawsD(6) [OF assms(1)])
  show "rotation_count t = rotation_count s" by (simp add: t)
  show "unat (mmap_offset t) = unat (mmap_offset s) + length d"
    using assms(2,5) unat_of_nat64 [of "length d"] by (simp add: t unat_add_pos sink_ok_def)
qed

lemma next_region_dir:
  assumes "dir_laws ps view files at" and "next_region ps len s w = Inr (t, w')"
    and "\<not> max_file_size s < file_offset s + len"
  shows "keeps_dir view files at w w'" "rotation_count t = rotation_count s"
proof -
  let ?w1 = "case mmap_ptr s of
      Some a \<Rightarrow> if mmap_offset s > 0 then sys_msync ps a (mmap_offset s) False w else w | None \<Rightarrow> w"
  obtain s2 w2 where u: "unmap_region ps s ?w1 = (s2, w2)" by fastforce
  note us = unmap_region_state [OF u]
  have m: "map_region ps s2 w2 = (t, w')"
    using assms(2,3) u us by (simp add: next_region_def same_config_def)
  have "keeps_dir view files at w ?w1"
    using dir_lawsD(5) [OF assms(1)] keeps_dir_refl [OF assms(1)] by (auto split: option.split)
  also have "keeps_dir view files at ?w1 w2" by (rule unmap_region_dir [OF assms(1) u])
  also have "keeps_dir view files at w2 w'" by (rule map_region_dir [OF assms(1) m])
  finally show "keeps_dir view files at w w'" .
  show "rotation_count t = rotation_count s" using map_region_state [OF m] us by simp
qed

section \<open>A write with rotation\<close>

lemma next_region_rotates:
  assumes laws: "posix_file_ok ps page view base" and names: "names_ok ps files"
    and dir: "dir_laws ps view files at" and avail: "regions_available ps page"
    and h: "holds view base xs s w" and at: "at w = Some (base_path s)"
    and full: "mmap_offset s = region_size s" and big: "max_file_size s < file_offset s + len"
    and rot: "max_rotated s \<noteq> 0"
  defines "n \<equiv> rotated_name (base_path s)"
  shows "\<exists>t w'. next_region ps len s w = Inr (t, w') \<and> holds view base [] t w' \<and> mmap_offset t = 0
    \<and> same_config s t \<and> at w' = Some (base_path s) \<and> rotation_count t = rotation_count s + 1
    \<and> files w' (n 1) = Some xs
    \<and> (\<forall>i. 2 \<le> i \<and> i \<le> unat (max_rotated s) \<longrightarrow> files w' (n i) = files w (n (i - 1)))
    \<and> (\<forall>p. p \<noteq> base_path s \<and> (\<forall>i. 1 \<le> i \<and> i \<le> unat (max_rotated s) \<longrightarrow> p \<noteq> n i) \<longrightarrow> files w' p = files w p)"
proof -
  have st: "sink_ok s" "length xs = base w + unat (region_size s)"
    "view w = xs @ replicate (base w + unat (region_size s) - length xs) (CHR 0x00)"
    using h full by (simp_all add: holds_def)
  obtain a where a: "mmap_ptr s = Some a" using h by (auto simp: holds_def)
  let ?w1 = "if mmap_offset s > 0 then sys_msync ps a (mmap_offset s) False w else w"
  obtain s2 w2 where u: "unmap_region ps s ?w1 = (s2, w2)" by fastforce
  note us = unmap_region_state [OF u]
  have k: "keeps_dir view files at w w2"
    by (rule keeps_dir_trans [OF _ unmap_region_dir [OF dir u]])
      (use dir_lawsD(5) [OF dir] keeps_dir_refl [OF dir] in simp)
  have "view w2 = view w" using u laws a by (auto simp: unmap_region_def posix_file_ok_def)
  then have v2: "view w2 = xs" using st(2,3) by simp
  obtain s3 w3 where c: "close_file ps s2 w2 = (s3, w3)" by fastforce
  have f3: "files w3 = files w2" using c dir_lawsD(7) [OF dir] by (auto simp: close_file_def split: if_splits)
  note cs = close_file_state [OF c]
  obtain s4 w4 where r: "rotate_files ps s3 w3 = (s4, w4)" by fastforce
  note rs = rotate_files_state [OF r]
  have cfg: "same_config s s3" using us cs same_config_trans by blast
  then have b3: "base_path s3 = base_path s" "max_rotated s3 = max_rotated s" by (simp_all add: same_config_def)
  note rn = rotate_files_names [OF names _ r, unfolded b3, OF rot, folded n_def]
  obtain dd w5 where o: "sys_open ps (base_path s4) w4 = (dd, w5)" by fastforce
  have d0: "0 \<le> dd" using avail o unfolding regions_available_def by (metis fst_conv)
  have b4: "base_path s4 = base_path s" using rs b3 by simp
  have none: "files w4 (base_path s) = None" using rn by blast
  have op: "at w5 = Some (base_path s)" "files w5 = (files w4)(base_path s \<mapsto> [])" "view w5 = []"
    using dir_laws_open [OF dir o d0] none by (simp_all add: b4)
  let ?s5 = "s4\<lparr>fd := dd, file_offset := 0\<rparr>"
  have fs: "sys_fstat ps dd w5 = Some 0" using laws op(3) by (simp add: posix_file_ok_def)
  have of: "open_file ps s4 w4 = Inr (?s5, w5)" using o d0 fs by (simp add: open_file_def)
  obtain t w' where m: "map_region ps ?s5 w5 = (t, w')" by fastforce
  have s5: "mmap_ptr ?s5 = None" "mmap_offset ?s5 = 0" "region_size ?s5 = region_size s" "same_config s ?s5"
    using us cs rs cfg by (simp_all add: same_config_def)
  have "mmap_ptr t \<noteq> None" by (rule map_region_available [OF avail m]) (use d0 in simp_all)
  then obtain b where b: "mmap_ptr t = Some b" by auto
  note ms = map_region_state [OF m s5(1,2)]
  have "view w' = view w5 @ replicate (unat (file_offset ?s5) + unat (region_size ?s5) - length (view w5)) (CHR 0x00)
      \<and> base w' = unat (file_offset ?s5) \<and> mmap_offset t = 0 \<and> region_size t = region_size ?s5"
    by (rule map_region_view [OF laws m s5(1) b]) (use op(3) in simp_all)
  then have hold: "holds view base [] t w'"
    using b ms s5(3) op(3) d0 st(1) by (simp add: holds_def sink_ok_def)
  have kd: "keeps_dir view files at w5 w'" by (rule map_region_dir [OF dir m])
  have keep: "files w' q = files w4 q" if "q \<noteq> base_path s" for q
    using keeps_dirD(2) [OF kd op(1) that] op(2) that by simp
  have old: "files w3 q = files w q" if "q \<noteq> base_path s" for q
    using keeps_dirD(2) [OF k at that] f3 by simp
  have this_file: "files w3 (base_path s) = Some xs" using keeps_dirD(3) [OF k at] f3 v2 by simp
  have ne: "n i \<noteq> base_path s" for i by (simp add: n_def)
  have nx: "next_region ps len s w = Inr (t, w')"
  proof -
    have "max_file_size s2 < file_offset s2 + len" using big us by (simp add: same_config_def)
    then show ?thesis using a u c r of m by (simp add: next_region_def Let_def)
  qed
  have "files w' (n 1) = Some xs" using keep [OF ne] rn this_file by simp
  moreover have "files w' (n i) = files w (n (i - 1))" if "2 \<le> i" "i \<le> unat (max_rotated s)" for i
    using keep [OF ne] rn old [OF ne] that by simp
  moreover have "files w' p = files w p"
    if "p \<noteq> base_path s" "\<forall>i. 1 \<le> i \<and> i \<le> unat (max_rotated s) \<longrightarrow> p \<noteq> n i" for p
    using keep [OF that(1)] rn old [OF that(1)] that by simp
  moreover have "rotation_count t = rotation_count s + 1" using ms us cs rs by simp
  moreover have "same_config s t" using ms s5(4) same_config_trans by blast
  ultimately show ?thesis
    using nx hold ms keeps_dirD(1) [OF kd op(1)] by blast
qed

section \<open>The rotating log\<close>

text \<open>
  What the sink promises to a client that appends records: a current file and the older
  ones, newest first. A record goes to a new file exactly when the current one ends a region
  and would pass the maximal size.
\<close>

type_synonym rot_log = "bytes \<times> bytes list"

definition log_full :: "nat \<Rightarrow> nat \<Rightarrow> nat \<Rightarrow> bytes \<Rightarrow> bool" where
  "log_full R M len cur \<longleftrightarrow> cur \<noteq> [] \<and> length cur mod R = 0 \<and> M < length cur + len"

fun log_append :: "nat \<Rightarrow> nat \<Rightarrow> rot_log \<Rightarrow> bytes \<Rightarrow> rot_log" where
  "log_append R M (cur, old) d =
     (if log_full R M (length d) cur then (d, cur # old) else (cur @ d, old))"

text \<open>Nothing is lost or reordered in it.\<close>

lemma log_append_contents:
  "concat (rev (fst (log_append R M l d) # snd (log_append R M l d))) = concat (rev (fst l # snd l)) @ d"
  by (cases l) simp

lemma log_contents:
  "foldl (log_append R M) l ds = (cur, old) \<Longrightarrow> concat (rev old) @ cur = concat (rev (snd l)) @ fst l @ concat ds"
proof (induction ds arbitrary: l)
  case (Cons d ds)
  show ?case using Cons.IH [of "log_append R M l d"] Cons.prems log_append_contents [of R M l d] by simp
qed simp

definition log_files ::
  "('w \<Rightarrow> string \<rightharpoonup> bytes) \<Rightarrow> (string \<rightharpoonup> bytes) \<Rightarrow> bytes list \<Rightarrow> MMapSink \<Rightarrow> 'w \<Rightarrow> bool" where
  "log_files files files0 old s w \<longleftrightarrow>
     (\<forall>i. 1 \<le> i \<and> i \<le> unat (max_rotated s) \<longrightarrow> files w (rotated_name (base_path s) i) =
        (if i \<le> length old then Some (old ! (i - 1))
         else files0 (rotated_name (base_path s) (i - length old))))
   \<and> (\<forall>p. p \<noteq> base_path s \<and> (\<forall>i. 1 \<le> i \<and> i \<le> unat (max_rotated s) \<longrightarrow> p \<noteq> rotated_name (base_path s) i)
        \<longrightarrow> files w p = files0 p)"

lemma log_filesD:
  assumes "log_files files files0 old s w"
  shows "1 \<le> i \<Longrightarrow> i \<le> unat (max_rotated s) \<Longrightarrow> files w (rotated_name (base_path s) i) =
      (if i \<le> length old then Some (old ! (i - 1)) else files0 (rotated_name (base_path s) (i - length old)))"
    "p \<noteq> base_path s \<Longrightarrow> \<forall>i. 1 \<le> i \<and> i \<le> unat (max_rotated s) \<longrightarrow> p \<noteq> rotated_name (base_path s) i
      \<Longrightarrow> files w p = files0 p"
  using assms unfolding log_files_def by blast+

text \<open>How a sink and its world stand for such a log.\<close>

definition log_state ::
  "('w \<Rightarrow> bytes) \<Rightarrow> ('w \<Rightarrow> nat) \<Rightarrow> ('w \<Rightarrow> string \<rightharpoonup> bytes) \<Rightarrow> ('w \<Rightarrow> string option)
    \<Rightarrow> (string \<rightharpoonup> bytes) \<Rightarrow> u64 \<Rightarrow> rot_log \<Rightarrow> MMapSink \<Rightarrow> 'w \<Rightarrow> bool" where
  "log_state view base files at files0 rc l s w \<longleftrightarrow>
     holds view base (fst l) s w \<and> at w = Some (base_path s) \<and> base w \<le> unat (max_file_size s)
   \<and> (fst l \<noteq> [] \<longrightarrow> mmap_offset s \<noteq> 0) \<and> log_files files files0 (snd l) s w
   \<and> rotation_count s = rc + of_nat (length (snd l))"

text \<open>The sizes under which the records fill the regions exactly.\<close>

definition rotating_room :: "nat \<Rightarrow> nat \<Rightarrow> MMapSink \<Rightarrow> bool" where
  "rotating_room page r s \<longleftrightarrow>
     0 < r \<and> r \<le> unat (region_size s) \<and> r dvd unat (region_size s) \<and> r dvd unat (mmap_offset s)
     \<and> page dvd unat (region_size s) \<and> max_rotated s \<noteq> 0
     \<and> unat (max_file_size s) + 2 * unat (region_size s) < 2 ^ 64"

lemma rotating_room_step:
  "rotating_room page r s \<Longrightarrow> same_config s (t\<lparr>total_bytes_written := total_bytes_written s\<rparr>)
    \<Longrightarrow> r dvd unat (mmap_offset t) \<Longrightarrow> rotating_room page r t"
  by (simp add: rotating_room_def same_config_def)

lemma log_files_keep:
  assumes "log_files files files0 old s w" and "keeps_dir view files at w w'"
    and "at w = Some (base_path s)" and "base_path t = base_path s" "max_rotated t = max_rotated s"
  shows "log_files files files0 old t w'"
  using assms(1) keeps_dirD(2) [OF assms(2,3)] by (simp add: log_files_def assms(4,5))

text \<open>A region is full exactly when the current file ends one.\<close>

lemma region_full_iff:
  assumes "holds view base cur s w" and "cur \<noteq> [] \<longrightarrow> mmap_offset s \<noteq> 0" and "0 < unat (region_size s)"
  shows "mmap_offset s = region_size s \<longleftrightarrow> cur \<noteq> [] \<and> length cur mod unat (region_size s) = 0"
proof -
  let ?R = "unat (region_size s)" and ?o = "unat (mmap_offset s)"
  have h: "base w mod ?R = 0" "length cur = base w + ?o" "?o \<le> ?R"
    using assms(1) by (auto simp: holds_def sink_ok_def)
  have m: "length cur mod ?R = ?o mod ?R" using h(1,2) mod_add_left_eq [of "base w" ?R ?o] by simp
  have "?o = ?R \<longleftrightarrow> cur \<noteq> [] \<and> ?o mod ?R = 0"
  proof
    assume "?o = ?R"
    then show "cur \<noteq> [] \<and> ?o mod ?R = 0" using h(2) assms(3) by auto
  next
    assume c: "cur \<noteq> [] \<and> ?o mod ?R = 0"
    then have "0 < ?o" using assms(2) by (simp add: unat_gt_0)
    then show "?o = ?R" using c h(3) mod_less [of ?o ?R] by (cases "?o < ?R") auto
  qed
  then show ?thesis by (simp only: m word_unat_eq_iff)
qed

section \<open>One record\<close>

lemma log_record_mapped:
  assumes laws: "posix_file_ok ps page view base" and dir: "dir_laws ps view files at"
    and hold: "holds view base cur s w" and at: "at w = Some (base_path s)"
    and start: "base w \<le> unat (max_file_size s)" and fs: "log_files files files0 old s w"
    and rc: "rotation_count s = rc + of_nat (length old)" and rr: "rotating_room page r s"
    and len: "length d = r" and room: "unat (mmap_offset s) + r \<le> unat (region_size s)"
  shows "\<exists>t w'. sink_write ps d s w = Inr (of_nat r, t, w')
    \<and> log_state view base files at files0 rc (cur @ d, old) t w' \<and> rotating_room page r t
    \<and> same_config s (t\<lparr>total_bytes_written := total_bytes_written s\<rparr>)"
proof -
  have r: "0 < r" "r dvd unat (mmap_offset s)"
    "unat (max_file_size s) + 2 * unat (region_size s) < 2 ^ 64"
    using rr by (simp_all add: rotating_room_def)
  have h: "sink_ok s" "length cur = base w + unat (mmap_offset s)" using hold by (simp_all add: holds_def)
  obtain a where a: "mmap_ptr s = Some a" using hold by (auto simp: holds_def)
  have ne: "d \<noteq> []" using len r(1) by auto
  have size: "length cur + length d < 2 ^ 64" using h(2) start room len r(3) by simp
  obtain t w' where t: "sink_write ps d s w = Inr (of_nat (length d), t, w')"
    "holds view base (cur @ d) t w'" "same_config s (t\<lparr>total_bytes_written := total_bytes_written s\<rparr>)"
    using holds_step [OF laws hold room [folded len] ne size] by blast
  note wd = write_here_dir [OF dir h(1) a ne room [folded len] t(1)]
  have cfg: "base_path t = base_path s" "max_rotated t = max_rotated s" "max_file_size t = max_file_size s"
    using t(3) by (simp_all add: same_config_def)
  have off: "unat (mmap_offset t) = unat (mmap_offset s) + r" using wd(3) len by simp
  have "base w' = base w" using t(2) h(2) off len by (simp add: holds_def)
  moreover have "mmap_offset t \<noteq> 0" using off r(1) by auto
  ultimately have "log_state view base files at files0 rc (cur @ d, old) t w'"
    using t(2) start rc keeps_dirD(1) [OF wd(1) at] log_files_keep [OF fs wd(1) at cfg(1,2)] wd(2) cfg
    by (simp add: log_state_def)
  moreover have "rotating_room page r t" by (rule rotating_room_step [OF rr t(3)]) (simp add: off r(2))
  ultimately show ?thesis using t(1,3) len by auto
qed

text \<open>Opening the next region, in the same file or in a new one.\<close>

lemma log_next_region:
  assumes laws: "posix_file_ok ps page view base" and dir: "dir_laws ps view files at"
    and names: "names_ok ps files" and avail: "regions_available ps page"
    and st: "log_state view base files at files0 rc (cur, old) s w" and rr: "rotating_room page r s"
    and full: "mmap_offset s = region_size s"
    and new: "(cur', old') = (if unat (max_file_size s) < length cur + r then ([], cur # old) else (cur, old))"
  shows "\<exists>t w'. next_region ps (of_nat r) s w = Inr (t, w') \<and> holds view base cur' t w'
    \<and> mmap_offset t = 0 \<and> same_config s t \<and> at w' = Some (base_path s)
    \<and> base w' \<le> unat (max_file_size s) \<and> log_files files files0 old' t w'
    \<and> rotation_count t = rc + of_nat (length old')"
proof -
  have l: "holds view base cur s w" "at w = Some (base_path s)" "base w \<le> unat (max_file_size s)"
    "log_files files files0 old s w" "rotation_count s = rc + of_nat (length old)"
    using st by (simp_all add: log_state_def)
  have r: "r \<le> unat (region_size s)" "page dvd unat (region_size s)" "max_rotated s \<noteq> 0"
    "unat (max_file_size s) + 2 * unat (region_size s) < 2 ^ 64"
    using rr by (simp_all add: rotating_room_def)
  have h: "length cur = base w + unat (region_size s)" "unat (file_offset s) = length cur"
    using l(1) full by (simp_all add: holds_def)
  have foff: "unat (file_offset s + of_nat r) = length cur + r"
    using h l(3) r(1,4) unat_of_nat64 [of r] by (simp add: unat_add_pos)
  show ?thesis
  proof (cases "unat (max_file_size s) < length cur + r")
    case False
    then have fits: "file_offset s + of_nat r \<le> max_file_size s" by (simp add: word_le_nat_alt foff)
    have size: "length cur + unat (region_size s) < 2 ^ 64" using h(1) l(3) r(4) by simp
    obtain t w' where t: "next_region ps (of_nat r) s w = Inr (t, w')" "holds view base cur t w'"
      "mmap_offset t = 0" "same_config s t"
      using next_region_holds [OF laws avail l(1) full r(2) fits size] by blast
    note nd = next_region_dir [OF dir t(1) leD [OF fits]]
    have cfg: "base_path t = base_path s" "max_rotated t = max_rotated s"
      using t(4) by (simp_all add: same_config_def)
    have "base w' \<le> unat (max_file_size s)" using t(2,3) False by (simp add: holds_def)
    then show ?thesis
      using t keeps_dirD(1) [OF nd(1) l(2)] log_files_keep [OF l(4) nd(1) l(2) cfg] nd(2) l(5) new False
      by auto
  next
    case True
    then have big: "max_file_size s < file_offset s + of_nat r" by (simp add: word_less_nat_alt foff)
    have new': "cur' = []" "old' = cur # old" using new True by simp_all
    obtain t w' where t: "next_region ps (of_nat r) s w = Inr (t, w')" "holds view base [] t w'"
      "mmap_offset t = 0" "same_config s t" "at w' = Some (base_path s)"
      "rotation_count t = rotation_count s + 1"
      and f1: "files w' (rotated_name (base_path s) 1) = Some cur"
      and fi: "\<forall>i. 2 \<le> i \<and> i \<le> unat (max_rotated s) \<longrightarrow>
          files w' (rotated_name (base_path s) i) = files w (rotated_name (base_path s) (i - 1))"
      and fo: "\<forall>p. p \<noteq> base_path s \<and> (\<forall>i. 1 \<le> i \<and> i \<le> unat (max_rotated s) \<longrightarrow>
          p \<noteq> rotated_name (base_path s) i) \<longrightarrow> files w' p = files w p"
      using next_region_rotates [OF laws names dir avail l(1,2) full big r(3)] by blast
    have cfg: "base_path t = base_path s" "max_rotated t = max_rotated s"
      using t(4) by (simp_all add: same_config_def)
    have shift: "files w' (rotated_name (base_path s) i) =
        (if i \<le> length (cur # old) then Some ((cur # old) ! (i - 1))
         else files0 (rotated_name (base_path s) (i - length (cur # old))))"
      if i: "1 \<le> i" "i \<le> unat (max_rotated s)" for i
    proof (cases "i = 1")
      case False
      then have "files w' (rotated_name (base_path s) i) = files w (rotated_name (base_path s) (i - 1))"
        using fi i by simp
      also have "\<dots> = (if i - 1 \<le> length old then Some (old ! (i - 1 - 1))
          else files0 (rotated_name (base_path s) (i - 1 - length old)))"
        by (rule log_filesD(1) [OF l(4)]) (use i False in simp_all)
      finally show ?thesis using i False by (auto simp: nth_Cons')
    next
      case True
      then show ?thesis using f1 by simp
    qed
    have "log_files files files0 (cur # old) t w'"
      using shift fo l(4) unfolding log_files_def cfg by simp
    moreover have "base w' = 0" using t(2) by (simp add: holds_def)
    ultimately show ?thesis using t l(5) unfolding new' by auto
  qed
qed

lemma log_record:
  assumes laws: "posix_file_ok ps page view base" and dir: "dir_laws ps view files at"
    and names: "names_ok ps files" and avail: "regions_available ps page"
    and st: "log_state view base files at files0 rc l s w" and rr: "rotating_room page r s"
    and len: "length d = r"
  shows "\<exists>t w'. sink_write ps d s w = Inr (of_nat r, t, w')
    \<and> log_state view base files at files0 rc
        (log_append (unat (region_size s)) (unat (max_file_size s)) l d) t w' \<and> rotating_room page r t
    \<and> same_config s (t\<lparr>total_bytes_written := total_bytes_written s\<rparr>)"
proof -
  obtain cur old where l: "l = (cur, old)" by fastforce
  let ?R = "unat (region_size s)" and ?M = "unat (max_file_size s)"
  have h: "holds view base cur s w" "cur \<noteq> [] \<longrightarrow> mmap_offset s \<noteq> 0"
    using st by (simp_all add: l log_state_def)
  then have ok: "sink_ok s" "mmap_ptr s \<noteq> None" by (simp_all add: holds_def)
  have b: "0 < r" "r \<le> ?R" "r dvd ?R" "r dvd unat (mmap_offset s)" using rr by (simp_all add: rotating_room_def)
  have r63: "r < 2 ^ 63" using b(2) ok(1) by (simp add: sink_ok_def)
  have "0 < ?R" using b(1,2) by simp
  note full_iff = region_full_iff [OF h this]
  show ?thesis
  proof (cases "unat (mmap_offset s) + r \<le> ?R")
    case True
    then have "mmap_offset s \<noteq> region_size s" using b(1) by auto
    then have "log_append ?R ?M l d = (cur @ d, old)" using full_iff by (auto simp: l log_full_def)
    then show ?thesis
      using log_record_mapped [OF laws dir h(1) _ _ _ _ rr len True] st by (simp add: l log_state_def)
  next
    case False
    have "r dvd ?R - unat (mmap_offset s)" using b(3,4) by (rule dvd_diff_nat)
    then have "unat (mmap_offset s) = ?R"
      using False ok by (auto simp: sink_ok_def dest: dvd_imp_le)
    then have full: "mmap_offset s = region_size s" by (simp add: word_unat_eq_iff)
    obtain cur' old' where n: "(cur', old') = (if ?M < length cur + r then ([], cur # old) else (cur, old))"
      by (metis surj_pair)
    obtain t v where t: "next_region ps (of_nat r) s w = Inr (t, v)" "holds view base cur' t v"
      "mmap_offset t = 0" "same_config s t" "at v = Some (base_path s)" "base v \<le> ?M"
      "log_files files files0 old' t v" "rotation_count t = rc + of_nat (length old')"
      using log_next_region [OF laws dir names avail st [unfolded l] rr full n] by blast
    have cfg: "base_path t = base_path s" "max_file_size t = max_file_size s" "region_size t = region_size s"
      using t(4) by (simp_all add: same_config_def)
    have rt: "rotating_room page r t"
      by (rule rotating_room_step [OF rr]) (use t(3,4) in \<open>simp_all add: same_config_def\<close>)
    have room: "unat (mmap_offset t) + r \<le> unat (region_size t)" using t(3) cfg b(2) by simp
    have okt: "sink_ok t" "mmap_ptr t \<noteq> None" using t(2) by (simp_all add: holds_def)
    obtain u w' where u: "sink_write ps d t v = Inr (of_nat r, u, w')"
      "log_state view base files at files0 rc (cur' @ d, old') u w'" "rotating_room page r u"
      "same_config t (u\<lparr>total_bytes_written := total_bytes_written t\<rparr>)"
      using log_record_mapped [OF laws dir t(2) _ _ t(7,8) rt len room] t(5,6) cfg by auto
    have "sink_write ps d s w = sink_write ps d t v"
    proof (rule write_after_next [OF ok(2)])
      show "d \<noteq> []" "length d < 2 ^ 63" using len b(1) r63 by auto
      show "mmap_offset s + of_nat (length d) > region_size s"
        using False region_test [OF ok, of d] len r63 by simp
      show "next_region ps (of_nat (length d)) s w = Inr (t, v)" using t(1) len by simp
      show "mmap_ptr t \<noteq> None" "\<not> mmap_offset t + of_nat (length d) > region_size t"
        using okt region_test [OF okt, of d] room len r63 by simp_all
    qed
    moreover have "log_append ?R ?M l d = (cur' @ d, old')"
      using full full_iff n len by (auto simp: l log_full_def split: if_splits)
    moreover have "same_config s (u\<lparr>total_bytes_written := total_bytes_written s\<rparr>)"
      using t(4) u(4) by (simp add: same_config_def)
    ultimately show ?thesis using u by simp
  qed
qed

lemma log_records:
  assumes laws: "posix_file_ok ps page view base" "dir_laws ps view files at" "names_ok ps files"
      "regions_available ps page"
    and "log_state view base files at files0 rc l s w" and "rotating_room page r s"
    and "\<forall>d \<in> set ds. length d = r"
  shows "\<exists>t w'. write_all ps ds s w = Inr (replicate (length ds) (of_nat r), t, w')
    \<and> log_state view base files at files0 rc
        (foldl (log_append (unat (region_size s)) (unat (max_file_size s))) l ds) t w'
    \<and> same_config s (t\<lparr>total_bytes_written := total_bytes_written s\<rparr>)"
  using assms(5-)
proof (induction ds arbitrary: l s w)
  case Nil
  then show ?case by (simp add: same_config_def)
next
  case (Cons d ds)
  have "length d = r" using Cons.prems(3) by simp
  from log_record [OF laws Cons.prems(1,2) this]
  obtain t v where t: "sink_write ps d s w = Inr (of_nat r, t, v)"
    "log_state view base files at files0 rc
      (log_append (unat (region_size s)) (unat (max_file_size s)) l d) t v"
    "rotating_room page r t" "same_config s (t\<lparr>total_bytes_written := total_bytes_written s\<rparr>)" by blast
  have cfg: "region_size t = region_size s" "max_file_size t = max_file_size s"
    using t(4) by (simp_all add: same_config_def)
  have "\<forall>d \<in> set ds. length d = r" using Cons.prems(3) by simp
  from Cons.IH [OF t(2,3) this]
  obtain u w' where u: "write_all ps ds t v = Inr (replicate (length ds) (of_nat r), u, w')"
    "log_state view base files at files0 rc
      (foldl (log_append (unat (region_size s)) (unat (max_file_size s))) l (d # ds)) u w'"
    "same_config t (u\<lparr>total_bytes_written := total_bytes_written t\<rparr>)"
    unfolding cfg by auto
  have "same_config s (u\<lparr>total_bytes_written := total_bytes_written s\<rparr>)"
    using t(4) u(3) by (simp add: same_config_def)
  then show ?case using t(1) u(1,2) by auto
qed

text \<open>A file is moved aside only when it is full.\<close>

lemma log_full_files:
  assumes "\<forall>d \<in> set ds. length d = r" and "\<forall>c \<in> set (snd l). log_full R M r c"
  shows "\<forall>c \<in> set (snd (foldl (log_append R M) l ds)). log_full R M r c"
  using assms
proof (induction ds arbitrary: l)
  case (Cons d ds)
  have "\<forall>c \<in> set (snd (log_append R M l d)). log_full R M r c"
    using Cons.prems by (cases l) auto
  then show ?case using Cons by simp
qed simp

section \<open>Properties\<close>

text \<open>C19: What is on the disk after any number of records. When the system calls succeed,
  records of one size that divides the page-aligned region size are all written in full,
  through every region and every rotation: the sink implements the log \<open>log_append\<close>. The
  file of the base name holds its current file and zeros up to the end of the last region,
  suffix \<open>i\<close> holds its \<open>i\<close>-th older file (a file of an earlier run is found as many
  suffixes further), suffixes beyond \<open>max_rotated\<close> and all other names are untouched, the
  older files and the current one are the records in order without a gap, only
  full files are moved aside, and the rotation counter counts them.\<close>

theorem rotated_files_hold_records:
  assumes laws: "posix_file_ok ps page view base" "dir_laws ps view files at" "names_ok ps files"
      "regions_available ps page"
    and start: "holds view base [] s w" "at w = Some (base_path s)" and rr: "rotating_room page r s"
    and ds: "\<forall>d \<in> set ds. length d = r"
    and log: "foldl (log_append (unat (region_size s)) (unat (max_file_size s))) ([], []) ds = (cur, old)"
  shows "\<exists>t w' m. write_all ps ds s w = Inr (replicate (length ds) (of_nat r), t, w')
    \<and> files w' (base_path s) = Some (cur @ replicate m (CHR 0x00))
    \<and> m \<le> unat (region_size s) \<and> unat (region_size s) dvd length cur + m
    \<and> (\<forall>i. 1 \<le> i \<and> i \<le> unat (max_rotated s) \<longrightarrow> files w' (rotated_name (base_path s) i) =
        (if i \<le> length old then Some (old ! (i - 1)) else files w (rotated_name (base_path s) (i - length old))))
    \<and> (\<forall>p. p \<noteq> base_path s \<and> (\<forall>i. 1 \<le> i \<and> i \<le> unat (max_rotated s) \<longrightarrow> p \<noteq> rotated_name (base_path s) i)
        \<longrightarrow> files w' p = files w p)
    \<and> concat (rev old) @ cur = concat ds
    \<and> (\<forall>c \<in> set old. log_full (unat (region_size s)) (unat (max_file_size s)) r c)
    \<and> rotation_count t = rotation_count s + of_nat (length old)"
proof -
  have "log_state view base files at (files w) (rotation_count s) ([], []) s w"
    using start by (simp add: log_state_def log_files_def holds_def)
  from log_records [OF laws this rr ds]
  obtain t w' where t: "write_all ps ds s w = Inr (replicate (length ds) (of_nat r), t, w')"
    "log_state view base files at (files w) (rotation_count s) (cur, old) t w'"
    "same_config s (t\<lparr>total_bytes_written := total_bytes_written s\<rparr>)"
    unfolding log by blast
  have cfg: "base_path t = base_path s" "max_rotated t = max_rotated s" "region_size t = region_size s"
    using t(3) by (simp_all add: same_config_def)
  have st: "holds view base cur t w'" "at w' = Some (base_path s)" "log_files files (files w) old t w'"
    "rotation_count t = rotation_count s + of_nat (length old)"
    using t(2) by (simp_all add: log_state_def cfg)
  obtain m where m: "view w' = cur @ replicate m (CHR 0x00)" "m \<le> unat (region_size s)"
    "unat (region_size s) dvd length cur + m"
    using holds_padding [OF st(1)] unfolding cfg by blast
  have "files w' (base_path s) = Some (cur @ replicate m (CHR 0x00))"
    using dir_lawsD(8) [OF laws(2) st(2)] m(1) by simp
  moreover have "concat (rev old) @ cur = concat ds" using log_contents [OF log] by simp
  moreover have "\<forall>c \<in> set old. log_full (unat (region_size s)) (unat (max_file_size s)) r c"
    using log_full_files [OF ds, of "([], [])"] log by simp
  ultimately show ?thesis
    using t(1) m(2,3) st(3,4) unfolding log_files_def cfg by blast
qed

text \<open>The simulated file system knows the open file by the name it was opened under.\<close>

definition sim_at :: "sim \<Rightarrow> string option" where
  "sim_at w = (if sim_files w (sim_open w) = None then None else Some (sim_open w))"

lemma sim_dir_laws: "dir_laws (sim_posix page) sim_view sim_files sim_at"
  by (auto simp: dir_laws_def sim_posix_def keeps_dir_def opened_as_def sim_at_def sim_view_def
      sim_set_def Let_def split: option.splits)

definition demo_small_sink :: MMapSink where
  "demo_small_sink = demo_sink\<lparr>max_file_size := 16\<rparr>"

lemma rotated_files_hold_records_witness:
  "\<exists>t w'. write_all (sim_posix 8) [''record-1'', ''record-2'', ''record-3'', ''record-4'', ''record-5'']
        demo_small_sink demo_world = Inr (replicate 5 8, t, w')
    \<and> sim_files w' ''a'' = Some (''record-5'' @ replicate 8 (CHR 0x00))
    \<and> sim_files w' (rotated_name ''a'' 1) = Some ''record-3record-4''
    \<and> sim_files w' (rotated_name ''a'' 2) = Some ''record-1record-2'' \<and> rotation_count t = 2"
proof -
  let ?ds = "[''record-1'', ''record-2'', ''record-3'', ''record-4'', ''record-5'']"
  let ?s = demo_small_sink
  have c: "region_size ?s = 16" "max_file_size ?s = 16" "max_rotated ?s = 2" "base_path ?s = ''a''"
    "mmap_offset ?s = 0" "mmap_ptr ?s = Some 65536" "fd ?s = 3" "file_offset ?s = 0" "rotation_count ?s = 0"
    by (simp_all add: demo_small_sink_def demo_sink_def)
  have h: "holds sim_view sim_base [] ?s demo_world" by (simp add: holds_def sink_ok_def c demo_view)
  have a: "sim_at demo_world = Some (base_path ?s)" by (simp add: sim_at_def demo_world_def c)
  have r: "rotating_room 8 8 ?s" by (simp add: rotating_room_def c)
  have av: "regions_available (sim_posix 8) 8" by (simp add: regions_available_def sim_posix_def)
  have d: "\<forall>d \<in> set ?ds. length d = 8" by simp
  have l: "foldl (log_append (unat (region_size ?s)) (unat (max_file_size ?s))) ([], []) ?ds
      = (''record-5'', [''record-3record-4'', ''record-1record-2''])"
    by (simp add: c log_full_def)
  obtain t w' m where w: "write_all (sim_posix 8) ?ds ?s demo_world = Inr (replicate (length ?ds) (of_nat 8), t, w')"
    "sim_files w' (base_path ?s) = Some (''record-5'' @ replicate m (CHR 0x00))"
    "m \<le> unat (region_size ?s)" "unat (region_size ?s) dvd length ''record-5'' + m"
    "\<forall>i. 1 \<le> i \<and> i \<le> unat (max_rotated ?s) \<longrightarrow> sim_files w' (rotated_name (base_path ?s) i) =
        (if i \<le> length [''record-3record-4'', ''record-1record-2'']
         then Some ([''record-3record-4'', ''record-1record-2''] ! (i - 1))
         else sim_files demo_world (rotated_name (base_path ?s) (i - length [''record-3record-4'', ''record-1record-2''])))"
    "rotation_count t = rotation_count ?s + of_nat (length [''record-3record-4'', ''record-1record-2''])"
    using rotated_files_hold_records [OF sim_file_ok sim_dir_laws sim_names_ok av h a r d l] by blast
  have "length ''record-5'' = (8 :: nat)" by simp
  then have "m \<le> 16 \<and> 16 dvd 8 + m" using w(3,4) by (simp only: c) simp
  then have m: "m = 8" by presburger
  have "sim_files w' (rotated_name ''a'' 1) = Some ''record-3record-4''"
    using w(5) [rule_format, of 1] by (simp add: c)
  moreover have "sim_files w' (rotated_name ''a'' 2) = Some ''record-1record-2''"
    using w(5) [rule_format, of 2] by (simp add: c)
  ultimately show ?thesis
    using w(1,2,6) unfolding m by (simp add: c numeral_eq_Suc)
qed

end
