(* ===== verification/Bench_Threads.thy ===== *)
theory Bench_Threads
  imports Mpmc_Results Mpmc_Calls Log_Entry "HOL-Library.Multiset" "HOL-Library.Sublist"
begin

text \<open>
  The threads of bench/bench_contention.cpp as programs over the interleaved queue of
  \<open>Mpmc_Concurrent\<close>: each turn of a thread is one memory access of the call it is in, or the
  local step between two calls. A list of turns is a schedule. Proved for
  \<open>BM_ConsumerScaling\<close>, which never fills its ring: every push is accepted, every consumer
  that ends has received every item once and in the same order, and every schedule that
  gives each thread its bounded number of turns brings all threads to their end.
\<close>

section \<open>The threads\<close>

text \<open>
  A producer: \<open>for\<close> with the number of pushes still to make, and inside it
  \<open>while (!q.push(entry)) yield()\<close>.
\<close>

datatype worker = W_loop nat | W_push nat | W_end

fun worker_turn :: "'a \<Rightarrow> nat \<Rightarrow> bool \<Rightarrow> 'a csys \<Rightarrow> worker \<Rightarrow> 'a csys \<times> worker" where
  "worker_turn x i spurious s (W_loop 0) = (s, W_end)"
| "worker_turn x i spurious s (W_loop (Suc k)) = (exec_event (Call_push i x) s, W_push k)"
| "worker_turn x i spurious s (W_push k) =
     (case prods s i of
        P_done True \<Rightarrow> (s, W_loop k)
      | P_done False \<Rightarrow> (exec_event (Call_push i x) s, W_push k)
      | _ \<Rightarrow> (exec_event (Run_push i spurious) s, W_push k))"
| "worker_turn x i spurious s W_end = (s, W_end)"

text \<open>A consumer: \<open>while (count < TOTAL)\<close> around one \<open>pop\<close>, which may find nothing.\<close>

datatype counter = K_loop nat | K_pop nat | K_end nat

fun counter_turn :: "u32 \<Rightarrow> nat \<Rightarrow> bool \<Rightarrow> 'a csys \<Rightarrow> counter \<Rightarrow> 'a csys \<times> counter" where
  "counter_turn c tot dn s (K_loop k) =
     (if k < tot then (exec_event (Call_pop c) s, K_pop k) else (s, K_end k))"
| "counter_turn c tot dn s (K_pop k) =
     (case conss s c of
        C_done (Some x) \<Rightarrow> (s, K_loop (k + 1))
      | C_done None \<Rightarrow> (s, if dn \<and> k \<ge> tot then K_end k else K_loop k)
      | _ \<Rightarrow> (exec_event (Run_pop c) s, K_pop k))"
| "counter_turn c tot dn s (K_end k) = (s, K_end k)"

text \<open>The helper: recompute until the flag is seen, then a thousand times more.\<close>

datatype refresher = R_loop | R_run | R_last nat | R_last_run nat | R_end

definition LAST_REFRESHES :: nat where
  "LAST_REFRESHES = 1000"

fun refresher_turn :: "bool \<Rightarrow> 'a csys \<Rightarrow> refresher \<Rightarrow> 'a csys \<times> refresher" where
  "refresher_turn dn s R_loop =
     (if \<not> dn then (exec_event (Call_recompute 0) s, R_run) else (s, R_last LAST_REFRESHES))"
| "refresher_turn dn s R_run =
     (if helps s 0 = H_idle then (s, R_loop) else (exec_event (Run_recompute 0) s, R_run))"
| "refresher_turn dn s (R_last 0) = (s, R_end)"
| "refresher_turn dn s (R_last (Suc k)) = (exec_event (Call_recompute 0) s, R_last_run k)"
| "refresher_turn dn s (R_last_run k) =
     (if helps s 0 = H_idle then (s, R_last k) else (exec_event (Run_recompute 0) s, R_last_run k))"
| "refresher_turn dn s R_end = (s, R_end)"

section \<open>One iteration of BM_ConsumerScaling\<close>

record 'a scaling =
  shared :: "'a csys"
  workers :: "nat \<Rightarrow> worker"
  counters :: "u32 \<Rightarrow> counter"
  refreshing :: refresher
  producers_done :: bool

datatype turn = Producer nat bool | Consumer u32 | Refresher | Main

text \<open>
  The main thread registers the consumers, starts everything, joins the producers and sets the
  flag. The entry a producer pushes is an argument, since its payload is indeterminate
  after the bytes set.
\<close>

definition scaling_start :: "nat \<Rightarrow> 'a \<Rightarrow> nat \<Rightarrow> nat \<Rightarrow> 'a scaling" where
  "scaling_start n d nc ops =
     \<lparr>shared = init_csys n d nc, workers = (\<lambda>i. W_loop ops), counters = (\<lambda>c. K_loop 0),
      refreshing = R_loop, producers_done = False\<rparr>"

text \<open>The numbers of the benchmark and its entry.\<close>

definition SCALING_SLOTS :: nat where
  "SCALING_SLOTS = 2 ^ 20"

definition NUM_PRODUCERS :: nat where
  "NUM_PRODUCERS = 4"

definition OPS_PER_PRODUCER :: nat where
  "OPS_PER_PRODUCER = 200000"

definition cons_entry :: "bytes \<Rightarrow> LogEntry" where
  "cons_entry p =
     (LogEntry_new p)\<lparr>timestamp_ns := 0, thread_id := 1, level := LVL_INFO, payload_len := 4,
       payload := overwrite 0 ''cons'' p\<rparr>"

fun scaling_turn :: "nat \<Rightarrow> nat \<Rightarrow> nat \<Rightarrow> (nat \<Rightarrow> 'a) \<Rightarrow> turn \<Rightarrow> 'a scaling \<Rightarrow> 'a scaling" where
  "scaling_turn np nc tot entries (Producer i spurious) b =
     (if i < np
      then let (s, w) = worker_turn (entries i) i spurious (shared b) (workers b i)
           in b\<lparr>shared := s, workers := (workers b)(i := w)\<rparr>
      else b)"
| "scaling_turn np nc tot entries (Consumer c) b =
     (if unat c < nc
      then let (s, k) = counter_turn c tot (producers_done b) (shared b) (counters b c)
           in b\<lparr>shared := s, counters := (counters b)(c := k)\<rparr>
      else b)"
| "scaling_turn np nc tot entries Refresher b =
     (let (s, r) = refresher_turn (producers_done b) (shared b) (refreshing b)
      in b\<lparr>shared := s, refreshing := r\<rparr>)"
| "scaling_turn np nc tot entries Main b =
     (if \<forall>i \<in> set [0..<np]. workers b i = W_end then b\<lparr>producers_done := True\<rparr> else b)"

fun scaling_turns :: "nat \<Rightarrow> nat \<Rightarrow> nat \<Rightarrow> (nat \<Rightarrow> 'a) \<Rightarrow> turn list \<Rightarrow> 'a scaling \<Rightarrow> 'a scaling" where
  "scaling_turns np nc tot entries [] b = b"
| "scaling_turns np nc tot entries (t # ts) b =
     scaling_turns np nc tot entries ts (scaling_turn np nc tot entries t b)"

lemma scaling_turns_append:
  "scaling_turns np nc tot entries (ts @ us) b
    = scaling_turns np nc tot entries us (scaling_turns np nc tot entries ts b)"
  by (induction ts arbitrary: b) simp_all

section \<open>Every turn is an execution of the queue\<close>

lemma worker_turn_event:
  "worker_turn x i sp s w = (s', w') \<Longrightarrow> s' = s \<or> s' = exec_event (Call_push i x) s \<or> s' = exec_event (Run_push i sp) s"
  by (induction x i sp s w rule: worker_turn.induct) (auto split: ppc.splits bool.splits)

lemma counter_turn_event:
  "counter_turn c tot dn s k = (s', k') \<Longrightarrow> s' = s \<or> s' = exec_event (Call_pop c) s \<or> s' = exec_event (Run_pop c) s"
  by (induction c tot dn s k rule: counter_turn.induct) (auto split: cpc.splits option.splits if_splits)

lemma refresher_turn_event:
  "refresher_turn dn s r = (s', r') \<Longrightarrow> s' = s \<or> s' = exec_event (Call_recompute 0) s \<or> s' = exec_event (Run_recompute 0) s"
  by (induction dn s r rule: refresher_turn.induct) (auto split: if_splits)

text \<open>The event of the queue in a turn, if any: never an unregistration.\<close>

lemma scaling_turn_event:
  "shared (scaling_turn np nc tot entries t b) = shared b
   \<or> (\<exists>e. shared (scaling_turn np nc tot entries t b) = exec_event e (shared b) \<and> (\<forall>c. e \<noteq> Unregister c))"
proof (cases t)
  case (Producer i sp)
  obtain s w where w: "worker_turn (entries i) i sp (shared b) (workers b i) = (s, w)" by fastforce
  have "shared (scaling_turn np nc tot entries t b) = (if i < np then s else shared b)" by (simp add: Producer w)
  then show ?thesis using worker_turn_event [OF w] by (auto simp del: exec_event.simps)
next
  case (Consumer c)
  obtain s k where k: "counter_turn c tot (producers_done b) (shared b) (counters b c) = (s, k)" by fastforce
  have "shared (scaling_turn np nc tot entries t b) = (if unat c < nc then s else shared b)" by (simp add: Consumer k)
  then show ?thesis using counter_turn_event [OF k] by (auto simp del: exec_event.simps)
next
  case Refresher
  obtain s r where r: "refresher_turn (producers_done b) (shared b) (refreshing b) = (s, r)" by fastforce
  have "shared (scaling_turn np nc tot entries t b) = s" by (simp add: Refresher r)
  then show ?thesis using refresher_turn_event [OF r] by (auto simp del: exec_event.simps)
qed simp

lemma scaling_reachable:
  assumes "reachable n d nc (shared b)"
  shows "reachable n d nc (shared (scaling_turn np nc tot entries t b))"
  using scaling_turn_event [of np nc tot entries t b] assms
    exec_event_step [of _ "shared b"] reachable.step [OF assms]
  by (metis (no_types))

lemma scaling_reachable_turns:
  "reachable n d nc (shared b) \<Longrightarrow> reachable n d nc (shared (scaling_turns np nc tot entries ts b))"
  by (induction ts arbitrary: b) (simp_all add: scaling_reachable del: scaling_turn.simps)

lemma scaling_live:
  "live (mem (shared (scaling_turns np nc tot entries ts b))) c = live (mem (shared b)) c"
proof (induction ts arbitrary: b)
  case (Cons t ts)
  have "live (mem (shared (scaling_turn np nc tot entries t b))) c = live (mem (shared b)) c"
    using scaling_turn_event [of np nc tot entries t b] exec_live_same [of _ "shared b" c] by metis
  then show ?case using Cons.IH by simp
qed simp

section \<open>What the producers have placed\<close>

text \<open>The pushes a producer thread has placed so far, out of \<open>ops\<close>.\<close>

definition has_claimed :: "'a ppc \<Rightarrow> bool" where
  "has_claimed pc \<longleftrightarrow> (case pc of P_copy _ _ \<Rightarrow> True | P_publish _ _ \<Rightarrow> True | P_done r \<Rightarrow> r | _ \<Rightarrow> False)"

fun placed :: "nat \<Rightarrow> worker \<Rightarrow> 'a ppc \<Rightarrow> nat" where
  "placed ops (W_loop k) pc = ops - k"
| "placed ops (W_push k) pc = ops - Suc k + (if has_claimed pc then 1 else 0)"
| "placed ops W_end pc = ops"

text \<open>Its item, as long as it is inside \<open>push\<close>.\<close>

fun carries :: "'a \<Rightarrow> 'a ppc \<Rightarrow> bool" where
  "carries x (P_load_head y) = (y = x)"
| "carries x (P_load_min y h) = (y = x)"
| "carries x (P_scan_active y h mt k accs) = (y = x)"
| "carries x (P_scan_tail y h mt k accs) = (y = x)"
| "carries x (P_store_min y h mt m) = (y = x)"
| "carries x (P_cas y h) = (y = x)"
| "carries x (P_copy y h) = (y = x)"
| "carries x (P_publish y h) = (y = x)"
| "carries x (P_done r) = True"
| "carries x P_idle = False"

fun worker_ok :: "nat \<Rightarrow> 'a \<Rightarrow> worker \<Rightarrow> 'a ppc \<Rightarrow> bool" where
  "worker_ok ops x (W_loop k) pc = (k \<le> ops \<and> prod_resting pc)"
| "worker_ok ops x (W_push k) pc = (k < ops \<and> carries x pc)"
| "worker_ok ops x W_end pc = prod_resting pc"

lemma worker_turn_frame:
  assumes "worker_turn x i sp s w = (s', w')"
  shows "(\<forall>j. j \<noteq> i \<longrightarrow> prods s' j = prods s j) \<and> conss s' = conss s \<and> got s' = got s \<and> helps s' = helps s"
  using assms
  by (induction x i sp s w rule: worker_turn.induct) (auto simp: do_prod_def split: ppc.splits bool.splits prod.splits)

lemma worker_turn_places:
  assumes ok: "worker_ok ops x w (prods s i)" and t: "worker_turn x i sp s w = (s', w')"
  shows "worker_ok ops x w' (prods s' i)
    \<and> mset (hist s') + replicate_mset (placed ops w (prods s i)) x
      = mset (hist s) + replicate_mset (placed ops w' (prods s' i)) x"
proof (cases w)
  case (W_loop k)
  then show ?thesis
    using ok t by (cases k) (auto simp: has_claimed_def Suc_diff_Suc prod_resting_def)
next
  case (W_push k)
  show ?thesis
  proof (cases "prods s i")
    case (P_store_min y h mt m)
    then show ?thesis
      using ok t W_push by (auto simp: do_prod_def has_claimed_def claimed_item_def Let_def)
  next
    case (P_done r)
    then show ?thesis
      using ok t W_push by (cases r) (auto simp: has_claimed_def prod_resting_def Suc_diff_Suc)
  qed (use ok t W_push in \<open>auto simp: do_prod_def has_claimed_def claimed_item_def Let_def split: if_splits\<close>)
next
  case W_end
  then show ?thesis using ok t by simp
qed

text \<open>
  A producer never scans, and is never refused, as long as less was placed than the ring
  has slots: the first full check passes.
\<close>

definition unrefused :: "'a ppc \<Rightarrow> bool" where
  "unrefused pc \<longleftrightarrow> (case pc of
     P_scan_active _ _ _ _ _ \<Rightarrow> False | P_scan_tail _ _ _ _ _ \<Rightarrow> False | P_store_min _ _ _ _ \<Rightarrow> False
   | P_done r \<Rightarrow> r | _ \<Rightarrow> True)"

lemma first_check_passes:
  assumes inv: "csys_inv s" and pc: "prods s i = P_load_min x h"
    and room: "length (hist s) < length (slots (mem s))"
  shows "\<not> h \<ge> cached_min (mem s) + SIZE (mem s)"
proof -
  note sh = csys_invD(1) [OF inv]
  have m: "unat (cached_min (mem s)) \<le> unat (queue_head (mem s))"
    by (rule below_marks_head [OF shared_invD(5) [OF sh]])
  have "unat h \<le> unat (queue_head (mem s))" using csys_invD(2) [OF inv, of i] pc by simp
  then show ?thesis using unat_size_guard [OF sh m, of h] shared_invD(3) [OF sh] room by simp
qed

lemma worker_turn_unrefused:
  assumes ok: "unrefused (prods s i)" and inv: "csys_inv s"
    and room: "length (hist s) < length (slots (mem s))" and t: "worker_turn x i sp s w = (s', w')"
  shows "unrefused (prods s' i)"
proof (cases w)
  case (W_push k)
  show ?thesis
  proof (cases "prods s i")
    case (P_load_min y h)
    then show ?thesis
      using t W_push first_check_passes [OF inv P_load_min room] by (auto simp: do_prod_def unrefused_def Let_def)
  qed (use ok t W_push in \<open>auto simp: do_prod_def unrefused_def split: if_splits\<close>)
next
  case (W_loop k)
  then show ?thesis using ok t by (cases k) (auto simp: unrefused_def)
qed (use ok t in simp)

section \<open>What the consumers have counted\<close>

fun counter_ok :: "nat \<Rightarrow> counter \<Rightarrow> 'a cpc \<Rightarrow> 'a list \<Rightarrow> bool" where
  "counter_ok tot (K_loop k) pc xs = (k \<le> tot \<and> cons_resting pc \<and> length xs = k)"
| "counter_ok tot (K_pop k) pc xs =
     (k < tot \<and> pc \<noteq> C_idle \<and> length xs = (case pc of C_done (Some x) \<Rightarrow> Suc k | _ \<Rightarrow> k))"
| "counter_ok tot (K_end k) pc xs = (k = tot \<and> cons_resting pc \<and> length xs = k)"

lemma counter_turn_counts:
  assumes ok: "counter_ok tot k (conss s c) (got s c)" and c: "unat c < 32"
    and t: "counter_turn c tot dn s k = (s', k')"
  shows "counter_ok tot k' (conss s' c) (got s' c) \<and> prods s' = prods s \<and> hist s' = hist s \<and> helps s' = helps s
    \<and> (\<forall>d. d \<noteq> c \<longrightarrow> conss s' d = conss s d \<and> got s' d = got s d)"
proof (cases k)
  case (K_loop j)
  then show ?thesis using ok t c by (auto simp: cons_resting_def split: if_splits)
next
  case (K_pop j)
  show ?thesis
  proof (cases "conss s c")
    case (C_done r)
    then show ?thesis
      using ok t K_pop by (cases r) (auto simp: cons_resting_def split: if_splits)
  qed (use ok t K_pop c in \<open>auto simp: do_cons_def received_item_def split: if_splits\<close>)
next
  case (K_end j)
  then show ?thesis using ok t by auto
qed

text \<open>The helper touches the cached minimum only.\<close>

fun refresher_ok :: "refresher \<Rightarrow> hpc \<Rightarrow> bool" where
  "refresher_ok R_run pc = True"
| "refresher_ok (R_last_run k) pc = (k < LAST_REFRESHES)"
| "refresher_ok (R_last k) pc = (pc = H_idle \<and> k \<le> LAST_REFRESHES)"
| "refresher_ok r pc = (pc = H_idle)"

lemma refresher_turn_keeps:
  assumes ok: "refresher_ok r (helps s 0)" and t: "refresher_turn dn s r = (s', r')"
  shows "refresher_ok r' (helps s' 0) \<and> prods s' = prods s \<and> hist s' = hist s \<and> conss s' = conss s \<and> got s' = got s"
  using t ok
  by (induction dn s r rule: refresher_turn.induct) (auto simp: do_help_def split: if_splits prod.splits)

section \<open>The invariant of the benchmark\<close>

text \<open>The items the producers have placed, with their number.\<close>

definition placed_items :: "nat \<Rightarrow> nat \<Rightarrow> (nat \<Rightarrow> 'a) \<Rightarrow> (nat \<Rightarrow> worker) \<Rightarrow> (nat \<Rightarrow> 'a ppc) \<Rightarrow> 'a multiset" where
  "placed_items np ops entries ws pcs = (\<Sum>i<np. replicate_mset (placed ops (ws i) (pcs i)) (entries i))"

definition scaling_inv :: "nat \<Rightarrow> 'a \<Rightarrow> nat \<Rightarrow> nat \<Rightarrow> nat \<Rightarrow> (nat \<Rightarrow> 'a) \<Rightarrow> 'a scaling \<Rightarrow> bool" where
  "scaling_inv n d np nc ops entries b \<longleftrightarrow>
     reachable n d nc (shared b)
   \<and> (\<forall>i<np. worker_ok ops (entries i) (workers b i) (prods (shared b) i))
   \<and> (\<forall>i. np \<le> i \<longrightarrow> prods (shared b) i = P_idle)
   \<and> mset (hist (shared b)) = placed_items np ops entries (workers b) (prods (shared b))
   \<and> (\<forall>c. unat c < nc \<longrightarrow> counter_ok (np * ops) (counters b c) (conss (shared b) c) (got (shared b) c))
   \<and> refresher_ok (refreshing b) (helps (shared b) 0)
   \<and> (producers_done b \<longrightarrow> (\<forall>i<np. workers b i = W_end))
   \<and> (\<forall>i. unrefused (prods (shared b) i))"

lemma scaling_invD:
  assumes "scaling_inv n d np nc ops entries b"
  shows "reachable n d nc (shared b)"
    "i < np \<Longrightarrow> worker_ok ops (entries i) (workers b i) (prods (shared b) i)"
    "np \<le> i \<Longrightarrow> prods (shared b) i = P_idle"
    "mset (hist (shared b)) = placed_items np ops entries (workers b) (prods (shared b))"
    "unat c < nc \<Longrightarrow> counter_ok (np * ops) (counters b c) (conss (shared b) c) (got (shared b) c)"
    "refresher_ok (refreshing b) (helps (shared b) 0)"
    "producers_done b \<Longrightarrow> i < np \<Longrightarrow> workers b i = W_end"
    "unrefused (prods (shared b) i)"
  using assms by (simp_all add: scaling_inv_def)

lemma placed_bound: "worker_ok ops x w pc \<Longrightarrow> placed ops w pc \<le> ops"
  by (cases w) auto

lemma scaling_hist_length:
  assumes "scaling_inv n d np nc ops entries b"
  shows "length (hist (shared b)) = (\<Sum>i<np. placed ops (workers b i) (prods (shared b) i))"
proof -
  have "length (hist (shared b)) = size (placed_items np ops entries (workers b) (prods (shared b)))"
    using scaling_invD(4) [OF assms] by (metis size_mset)
  then show ?thesis by (simp add: placed_items_def size_multiset_sum)
qed

lemma scaling_hist_bound:
  assumes "scaling_inv n d np nc ops entries b"
  shows "length (hist (shared b)) \<le> np * ops"
proof -
  have "length (hist (shared b)) \<le> (\<Sum>i<np. ops)"
    unfolding scaling_hist_length [OF assms]
    by (rule sum_mono) (simp add: placed_bound [OF scaling_invD(2) [OF assms]])
  then show ?thesis by simp
qed

text \<open>The sizes: the benchmark never fills its ring.\<close>

definition roomy :: "nat \<Rightarrow> nat \<Rightarrow> nat \<Rightarrow> nat \<Rightarrow> bool" where
  "roomy n np nc ops \<longleftrightarrow> valid_size n \<and> np * ops < n \<and> nc \<le> 32 \<and> n + np * ops < 2 ^ 64 - 1"

lemma benchmark_roomy: "nc \<le> 32 \<Longrightarrow> roomy SCALING_SLOTS NUM_PRODUCERS nc OPS_PER_PRODUCER"
proof -
  have "(2 :: nat) ^ 20 = 1048576" by simp
  then have "valid_size SCALING_SLOTS" unfolding valid_size_def SCALING_SLOTS_def by (intro conjI exI [of _ 20]) simp_all
  then show "nc \<le> 32 \<Longrightarrow> roomy SCALING_SLOTS NUM_PRODUCERS nc OPS_PER_PRODUCER"
    by (simp add: roomy_def SCALING_SLOTS_def NUM_PRODUCERS_def OPS_PER_PRODUCER_def)
qed

lemma scaling_csys:
  assumes "scaling_inv n d np nc ops entries b" and "roomy n np nc ops"
  shows "csys_inv (shared b)" "length (slots (mem (shared b))) = n"
    "length (hist (shared b)) < length (slots (mem (shared b)))"
proof -
  note r = scaling_invD(1) [OF assms(1)] and h = scaling_hist_bound [OF assms(1)]
  have v: "valid_size n" and lt: "length (hist (shared b)) + n < 2 ^ 64 - 1" "np * ops < n"
    using assms(2) h by (simp_all add: roomy_def)
  show "csys_inv (shared b)" "length (slots (mem (shared b))) = n"
    using reachable_inv [OF r v lt(1)] by simp_all
  then show "length (hist (shared b)) < length (slots (mem (shared b)))" using h lt(2) by simp
qed

text \<open>One summand of the items changes.\<close>

lemma placed_items_update:
  assumes i: "i < np" and same: "\<forall>j. j \<noteq> i \<longrightarrow> ws' j = ws j \<and> pcs' j = pcs j"
    and step: "A + replicate_mset (placed ops (ws i) (pcs i)) (entries i)
      = placed_items np ops entries ws pcs + replicate_mset (placed ops (ws' i) (pcs' i)) (entries i)"
  shows "A = placed_items np ops entries ws' pcs'"
proof -
  have r: "placed_items np ops entries vs qs = replicate_mset (placed ops (vs i) (qs i)) (entries i)
      + (\<Sum>j \<in> {..<np} - {i}. replicate_mset (placed ops (vs j) (qs j)) (entries j))" for vs and qs :: "nat \<Rightarrow> 'a ppc"
    unfolding placed_items_def by (rule sum.remove) (use i in simp_all)
  have "(\<Sum>j \<in> {..<np} - {i}. replicate_mset (placed ops (ws' j) (pcs' j)) (entries j))
      = (\<Sum>j \<in> {..<np} - {i}. replicate_mset (placed ops (ws j) (pcs j)) (entries j))"
    by (rule sum.cong) (use same in auto)
  then show ?thesis using step unfolding r [of ws pcs] r [of ws' pcs'] by (simp add: ac_simps)
qed

lemma scaling_inv_start: "scaling_inv n d np nc ops entries (scaling_start n d nc ops)"
proof -
  have "init_csys n d nc = run_events [] (init_csys n d nc)" by simp
  then have "reachable n d nc (init_csys n d nc)" using reachable.start by simp
  then show ?thesis
    by (simp add: scaling_inv_def scaling_start_def init_csys_def prod_resting_def cons_resting_def
        placed_items_def unrefused_def)
qed

lemma scaling_inv_turn:
  assumes inv: "scaling_inv n d np nc ops entries b" and room: "roomy n np nc ops"
  shows "scaling_inv n d np nc ops entries (scaling_turn np nc (np * ops) entries t b)"
proof -
  note D = scaling_invD [OF inv] and cs = scaling_csys [OF inv room]
  have r: "reachable n d nc (shared (scaling_turn np nc (np * ops) entries t b))"
    by (rule scaling_reachable [OF D(1)])
  show ?thesis
  proof (cases t)
    case (Producer i sp)
    show ?thesis
    proof (cases "i < np")
      case False
      then show ?thesis using inv by (simp add: Producer)
    next
      case True
      obtain s w where w: "worker_turn (entries i) i sp (shared b) (workers b i) = (s, w)" by fastforce
      let ?b = "b\<lparr>shared := s, workers := (workers b)(i := w)\<rparr>"
      have eq: "scaling_turn np nc (np * ops) entries t b = ?b" using True by (simp add: Producer w)
      note p = worker_turn_places [OF D(2) [OF True] w] worker_turn_frame [OF w]
        worker_turn_unrefused [OF D(8) cs(1,3) w]
      have "mset (hist s) + replicate_mset (placed ops (workers b i) (prods (shared b) i)) (entries i)
          = placed_items np ops entries (workers b) (prods (shared b))
            + replicate_mset (placed ops (((workers b)(i := w)) i) (prods s i)) (entries i)"
        using p unfolding D(4) [symmetric] by simp
      then have "mset (hist s) = placed_items np ops entries ((workers b)(i := w)) (prods s)"
        by (rule placed_items_update [OF True, rotated]) (use p in auto)
      moreover have "w = W_end" if "producers_done b" using w D(7) [OF that True] by simp
      moreover have "unrefused (prods s j)" for j using p D(8) [of j] by (cases "j = i") auto
      ultimately show ?thesis using r inv p True unfolding eq scaling_inv_def by (auto simp: D(7))
    qed
  next
    case (Consumer c)
    show ?thesis
    proof (cases "unat c < nc")
      case False
      then show ?thesis using inv by (simp add: Consumer)
    next
      case True
      obtain s k where k: "counter_turn c (np * ops) (producers_done b) (shared b) (counters b c) = (s, k)" by fastforce
      have eq: "scaling_turn np nc (np * ops) entries t b = b\<lparr>shared := s, counters := (counters b)(c := k)\<rparr>"
        using True by (simp add: Consumer k)
      have "unat c < 32" using True room by (simp add: roomy_def)
      note q = counter_turn_counts [OF D(5) [OF True] this k]
      show ?thesis using r inv q unfolding eq scaling_inv_def by auto
    qed
  next
    case Refresher
    obtain s f where f: "refresher_turn (producers_done b) (shared b) (refreshing b) = (s, f)" by fastforce
    have eq: "scaling_turn np nc (np * ops) entries t b = b\<lparr>shared := s, refreshing := f\<rparr>" by (simp add: Refresher f)
    show ?thesis using r inv refresher_turn_keeps [OF D(6) f] unfolding eq scaling_inv_def by auto
  next
    case Main
    then show ?thesis using inv by (auto simp: scaling_inv_def)
  qed
qed

lemma scaling_inv_turns:
  assumes "scaling_inv n d np nc ops entries b" and "roomy n np nc ops"
  shows "scaling_inv n d np nc ops entries (scaling_turns np nc (np * ops) entries ts b)"
  using assms(1)
proof (induction ts arbitrary: b)
  case (Cons t ts)
  show ?case using Cons.IH [OF scaling_inv_turn [OF Cons.prems assms(2)]] by simp
qed simp

text \<open>A consumer that has ended has received everything.\<close>

lemma ended_consumer:
  assumes inv: "scaling_inv n d np nc ops entries b" and room: "roomy n np nc ops"
    and c: "unat c < nc" and e: "counters b c = K_end k"
  shows "k = np * ops \<and> got (shared b) c = hist (shared b) \<and> length (hist (shared b)) = np * ops"
proof -
  have "k = np * ops" and len: "length (got (shared b) c) = k"
    using scaling_invD(5) [OF inv c] e by simp_all
  moreover have "got (shared b) c = take (unat (queue_tail (mem (shared b)) c)) (hist (shared b))"
  proof -
    have "unat c < 32" using c room by (simp add: roomy_def)
    then show ?thesis
      using csys_invD(5) [OF scaling_csys(1) [OF inv room]] by (simp add: received_ok_def)
  qed
  ultimately show ?thesis using scaling_hist_bound [OF inv] by simp
qed

text \<open>All items placed: the multiset of what each producer was to push.\<close>

definition all_items :: "nat \<Rightarrow> nat \<Rightarrow> (nat \<Rightarrow> 'a) \<Rightarrow> 'a multiset" where
  "all_items np ops entries = (\<Sum>i<np. replicate_mset ops (entries i))"

lemma all_placed:
  assumes inv: "scaling_inv n d np nc ops entries b" and full: "length (hist (shared b)) = np * ops"
  shows "mset (hist (shared b)) = all_items np ops entries"
proof -
  let ?p = "\<lambda>i. placed ops (workers b i) (prods (shared b) i)"
  have le: "?p i \<le> ops" if "i < np" for i by (rule placed_bound [OF scaling_invD(2) [OF inv that]])
  have sum: "(\<Sum>i<np. ?p i) = (\<Sum>i<np. ops)" using full scaling_hist_length [OF inv] by simp
  have "?p i = ops" if "i < np" for i
  proof (rule ccontr)
    assume "?p i \<noteq> ops"
    then have "(\<Sum>i<np. ?p i) < (\<Sum>i<np. ops)"
      using le that by (intro sum_strict_mono_ex1) (auto simp: le_less)
    then show False using sum by simp
  qed
  then show ?thesis unfolding scaling_invD(4) [OF inv] placed_items_def all_items_def by simp
qed

section \<open>The turns a thread needs\<close>

text \<open>
  A quantity that goes down with every turn of one kind, goes up by at most two with
  every turn of another kind, and does not go up with the other turns.
\<close>

lemma turns_decrease:
  fixes f :: "'a scaling \<Rightarrow> nat" and P S :: "turn \<Rightarrow> bool"
  assumes step: "\<And>t b. I b \<Longrightarrow> I (scaling_turn np nc tot entries t b)
      \<and> (if P t then f (scaling_turn np nc tot entries t b) \<le> f b - 1
         else if S t then f b = 0 \<and> f (scaling_turn np nc tot entries t b) = 0
           \<or> f (scaling_turn np nc tot entries t b) \<le> f b + 2 \<and> 0 < f b
         else f (scaling_turn np nc tot entries t b) \<le> f b)"
    and "I b" and "\<And>t. P t \<Longrightarrow> \<not> S t"
  shows "I (scaling_turns np nc tot entries ts b)
    \<and> f (scaling_turns np nc tot entries ts b) \<le> f b + 2 * length (filter S ts) - length (filter P ts)"
proof (induction ts rule: rev_induct)
  case Nil
  then show ?case using assms(2) by simp
next
  case (snoc t ts)
  let ?b = "scaling_turns np nc tot entries ts b"
  have eq: "scaling_turns np nc tot entries (ts @ [t]) b = scaling_turn np nc tot entries t ?b"
    by (simp add: scaling_turns_append)
  show ?case
    unfolding eq using snoc step [of ?b t] assms(3) [of t] by (auto split: if_splits)
qed

section \<open>The turns of a producer\<close>

fun push_left :: "'a ppc \<Rightarrow> nat" where
  "push_left (P_load_head x) = 6"
| "push_left (P_load_min x h) = 5"
| "push_left (P_cas x h) = 4"
| "push_left (P_copy x h) = 3"
| "push_left (P_publish x h) = 2"
| "push_left (P_done r) = 1"
| "push_left pc = 0"

text \<open>The head the producer saw last: the exchange fails at most once for each later claim.\<close>

fun seen_head :: "'a csys \<Rightarrow> 'a ppc \<Rightarrow> nat" where
  "seen_head s (P_load_min x h) = unat h"
| "seen_head s (P_cas x h) = unat h"
| "seen_head s pc = length (hist s)"

fun worker_left :: "nat \<Rightarrow> 'a csys \<Rightarrow> worker \<Rightarrow> 'a ppc \<Rightarrow> nat" where
  "worker_left tot s W_end pc = 0"
| "worker_left tot s (W_loop k) pc = 7 * k + 1 + 3 * (tot - length (hist s))"
| "worker_left tot s (W_push k) pc = 7 * k + 1 + push_left pc + 3 * (tot - seen_head s pc)"

lemma worker_left_others:
  "length (hist s) \<le> length (hist s') \<Longrightarrow> worker_left tot s' w pc \<le> worker_left tot s w pc"
  by (cases w; cases pc) auto

lemma worker_left_own:
  assumes ok: "worker_ok ops x w (prods s i)" "unrefused (prods s i)" and inv: "csys_inv s"
    and room: "length (hist s) < length (slots (mem s))"
    and t: "worker_turn x i sp s w = (s', w')" and bound: "length (hist s') \<le> tot"
  shows "if \<not> sp then worker_left tot s' w' (prods s' i) \<le> worker_left tot s w (prods s i) - 1
    else worker_left tot s w (prods s i) = 0 \<and> worker_left tot s' w' (prods s' i) = 0
      \<or> worker_left tot s' w' (prods s' i) \<le> worker_left tot s w (prods s i) + 2
        \<and> 0 < worker_left tot s w (prods s i)"
proof (cases w)
  case (W_loop k)
  then show ?thesis using ok t by (cases k) auto
next
  case (W_push k)
  have hd: "unat (queue_head (mem s)) = length (hist s)" using shared_invD(3) [OF csys_invD(1) [OF inv]] .
  note P = csys_invD(2) [OF inv, of i]
  show ?thesis
  proof (cases "prods s i")
    case (P_load_min y h)
    then show ?thesis
      using t W_push first_check_passes [OF inv P_load_min room] by (auto simp: do_prod_def claimed_item_def Let_def)
  next
    case (P_cas y h)
    have le: "unat h \<le> length (hist s)" using P P_cas hd by simp
    show ?thesis
    proof (cases "sp \<or> queue_head (mem s) \<noteq> h")
      case True
      have "sp \<or> unat h < length (hist s)"
        using True le hd by (metis le_neq_implies_less unsigned_word_eqI)
      then show ?thesis
        using t W_push P_cas True le bound by (auto simp: do_prod_def claimed_item_def)
    next
      case False
      then show ?thesis using t W_push P_cas hd by (auto simp: do_prod_def claimed_item_def)
    qed
  next
    case (P_load_head y)
    then show ?thesis using t W_push hd by (auto simp: do_prod_def claimed_item_def)
  qed (use ok t W_push in \<open>auto simp: do_prod_def claimed_item_def unrefused_def\<close>)
next
  case W_end
  then show ?thesis using t by simp
qed

definition producer_left :: "nat \<Rightarrow> nat \<Rightarrow> 'a scaling \<Rightarrow> nat" where
  "producer_left tot i b = worker_left tot (shared b) (workers b i) (prods (shared b) i)"

lemma scaling_hist_grows: "length (hist (shared b)) \<le> length (hist (shared (scaling_turn np nc tot entries t b)))"
  using scaling_turn_event [of np nc tot entries t b] exec_grows [of _ "shared b"]
  by (metis le_add1 length_append order_refl)

lemma producer_left_turn:
  fixes t :: turn
  assumes inv: "scaling_inv n d np nc ops entries b" and room: "roomy n np nc ops" and i: "i < np"
  defines "b' \<equiv> scaling_turn np nc (np * ops) entries t b"
  shows "if t = Producer i False then producer_left (np * ops) i b' \<le> producer_left (np * ops) i b - 1
    else if t = Producer i True then producer_left (np * ops) i b = 0 \<and> producer_left (np * ops) i b' = 0
      \<or> producer_left (np * ops) i b' \<le> producer_left (np * ops) i b + 2 \<and> 0 < producer_left (np * ops) i b
    else producer_left (np * ops) i b' \<le> producer_left (np * ops) i b"
proof -
  note D = scaling_invD [OF inv] and cs = scaling_csys [OF inv room]
  have bound: "length (hist (shared b')) \<le> np * ops"
    unfolding b'_def by (rule scaling_hist_bound [OF scaling_inv_turn [OF inv room]])
  show ?thesis
  proof (cases "\<exists>sp. t = Producer i sp")
    case True
    then obtain sp where t: "t = Producer i sp" by blast
    obtain s w where w: "worker_turn (entries i) i sp (shared b) (workers b i) = (s, w)" by fastforce
    have b': "b' = b\<lparr>shared := s, workers := (workers b)(i := w)\<rparr>" using i by (simp add: b'_def t w)
    show ?thesis
      using worker_left_own [OF D(2) [OF i] D(8) cs(1,3) w, of "np * ops"] bound
      by (cases sp) (simp_all add: producer_left_def t b')
  next
    case False
    have "workers b' i = workers b i \<and> prods (shared b') i = prods (shared b) i"
    proof (cases t)
      case (Producer j sp)
      obtain s w where w: "worker_turn (entries j) j sp (shared b) (workers b j) = (s, w)" by fastforce
      show ?thesis
        using worker_turn_frame [OF w] False by (auto simp: b'_def Producer w)
    next
      case (Consumer c)
      obtain s k where k: "counter_turn c (np * ops) (producers_done b) (shared b) (counters b c) = (s, k)" by fastforce
      show ?thesis
      proof (cases "unat c < nc")
        case True
        then have "unat c < 32" using room by (simp add: roomy_def)
        then show ?thesis
          using counter_turn_counts [OF D(5) [OF True] _ k] by (auto simp: b'_def Consumer k)
      qed (simp add: b'_def Consumer)
    next
      case Refresher
      obtain s f where f: "refresher_turn (producers_done b) (shared b) (refreshing b) = (s, f)" by fastforce
      show ?thesis using refresher_turn_keeps [OF D(6) f] by (simp add: b'_def Refresher f)
    qed (simp add: b'_def)
    then show ?thesis
      using worker_left_others [OF scaling_hist_grows] False
      unfolding producer_left_def b'_def by auto
  qed
qed

section \<open>The turns of a consumer once the producers are joined\<close>

definition joined :: "nat \<Rightarrow> 'a \<Rightarrow> nat \<Rightarrow> nat \<Rightarrow> nat \<Rightarrow> (nat \<Rightarrow> 'a) \<Rightarrow> 'a scaling \<Rightarrow> bool" where
  "joined n d np nc ops entries b \<longleftrightarrow> scaling_inv n d np nc ops entries b \<and> producers_done b
     \<and> (\<forall>c. unat c < nc \<longrightarrow> live (mem (shared b)) c)"

lemma joined_turn:
  assumes "joined n d np nc ops entries b" and "roomy n np nc ops"
  shows "joined n d np nc ops entries (scaling_turn np nc (np * ops) entries t b)"
proof -
  have "producers_done (scaling_turn np nc (np * ops) entries t b)"
    using assms(1) by (cases t) (auto simp: joined_def split: prod.splits)
  moreover have "live (mem (shared (scaling_turn np nc (np * ops) entries t b))) c" if "unat c < nc" for c
    using scaling_live [of np nc "np * ops" entries "[t]" b c] assms(1) that by (simp add: joined_def)
  ultimately show ?thesis using scaling_inv_turn [OF _ assms(2), of d entries b t] assms(1) unfolding joined_def by blast
qed

lemma joined_state:
  assumes "joined n d np nc ops entries b"
  shows "length (hist (shared b)) = np * ops" "unpublished (prods (shared b)) = {}"
proof -
  have inv: "scaling_inv n d np nc ops entries b" and dn: "producers_done b"
    using assms by (simp_all add: joined_def)
  note D = scaling_invD [OF inv]
  show "length (hist (shared b)) = np * ops" unfolding scaling_hist_length [OF inv] by (simp add: D(7) [OF dn])
  have "claim_of (prods (shared b) i) = None" for i
    using D(2) [of i] D(3) [of i] D(7) [OF dn, of i] claim_of_resting [of "prods (shared b) i"]
    by (cases "i < np") auto
  then show "unpublished (prods (shared b)) = {}" by (simp add: unpublished_def)
qed

fun counter_left :: "nat \<Rightarrow> counter \<Rightarrow> 'a cpc \<Rightarrow> nat" where
  "counter_left tot (K_loop k) pc = 7 * (tot - k) + 1"
| "counter_left tot (K_pop k) pc =
     (if pc = C_done None then 7 * (tot - k) + 2 else 7 * (tot - Suc k) + 2 + pop_rank pc)"
| "counter_left tot (K_end k) pc = 0"

text \<open>Every position is published, so each of its calls finds an item.\<close>

lemma pop_finds_item:
  assumes inv: "csys_inv s" and lv: "live (mem s) c" and none: "unpublished (prods s) = {}"
    and pc: "conss s c = C_load_seq t" and lt: "length (got s c) < length (hist s)"
  shows "sequence (slots (mem s) ! slot_index (mem s) t) = t"
proof -
  note cd = csys_invD [OF inv] and lb = shared_inv_live [OF csys_invD(1) [OF inv] lv]
  have t: "queue_tail (mem s) c = t" using cd(4) [OF lb(4)] pc by simp
  have "length (got s c) = unat t" using cd(5) [OF lb(4)] t by (auto simp: received_ok_def)
  then show ?thesis
    using shared_inv_published [OF cd(1), of "unat t"] lb(2) lt none t
      slot_index_mod [OF shared_invD(1) [OF cd(1)], of t] by simp
qed

lemma counter_left_own:
  assumes ok: "counter_ok tot k (conss s c) (got s c)" and inv: "csys_inv s" and lv: "live (mem s) c"
    and none: "unpublished (prods s) = {}" and full: "length (hist s) = tot"
    and t: "counter_turn c tot dn s k = (s', k')"
  shows "counter_left tot k' (conss s' c) \<le> counter_left tot k (conss s c) - 1"
proof -
  have c: "unat c < 32" by (rule shared_inv_live(4) [OF csys_invD(1) [OF inv] lv])
  show ?thesis
  proof (cases k)
    case (K_pop j)
    show ?thesis
    proof (cases "conss s c")
      case (C_load_seq p)
      have "length (got s c) < length (hist s)" using ok K_pop C_load_seq full by simp
      then show ?thesis
        using pop_finds_item [OF inv lv none C_load_seq] t K_pop C_load_seq c by (auto simp: do_cons_def)
    next
      case C_load_active
      then show ?thesis using t K_pop c lv by (auto simp: do_cons_def live_def)
    next
      case (C_done r)
      then show ?thesis using ok t K_pop by (cases r) auto
    qed (use ok t K_pop c in \<open>auto simp: do_cons_def\<close>)
  qed (use ok t c in \<open>auto split: if_splits\<close>)
qed

definition consumer_left :: "nat \<Rightarrow> u32 \<Rightarrow> 'a scaling \<Rightarrow> nat" where
  "consumer_left tot c b = counter_left tot (counters b c) (conss (shared b) c)"

lemma consumer_left_turn:
  assumes j: "joined n d np nc ops entries b" and room: "roomy n np nc ops" and c: "unat c < nc"
  shows "consumer_left (np * ops) c (scaling_turn np nc (np * ops) entries t b)
    \<le> consumer_left (np * ops) c b - (if t = Consumer c then 1 else 0)"
proof -
  have inv: "scaling_inv n d np nc ops entries b" and lv: "live (mem (shared b)) c"
    using j c by (simp_all add: joined_def)
  note D = scaling_invD [OF inv] and cs = scaling_csys [OF inv room] and js = joined_state [OF j]
  show ?thesis
  proof (cases t)
    case (Producer i sp)
    obtain s w where w: "worker_turn (entries i) i sp (shared b) (workers b i) = (s, w)" by fastforce
    then show ?thesis
      using worker_turn_frame [OF w] by (auto simp: consumer_left_def Producer)
  next
    case (Consumer e)
    obtain s k where k: "counter_turn e (np * ops) (producers_done b) (shared b) (counters b e) = (s, k)" by fastforce
    show ?thesis
    proof (cases "e = c")
      case True
      then show ?thesis
        using counter_left_own [OF D(5) [OF c] cs(1) lv js(2,1)] k c by (simp add: consumer_left_def Consumer)
    next
      case False
      have "conss s c = conss (shared b) c" if "unat e < nc"
        using counter_turn_counts [OF D(5) [OF that] _ k] that room False by (simp add: roomy_def)
      then show ?thesis using False k by (auto simp: consumer_left_def Consumer)
    qed
  next
    case Refresher
    obtain s f where f: "refresher_turn (producers_done b) (shared b) (refreshing b) = (s, f)" by fastforce
    show ?thesis using refresher_turn_keeps [OF D(6) f] by (simp add: consumer_left_def Refresher f)
  qed (simp add: consumer_left_def)
qed

section \<open>The turns of the helper\<close>

fun recompute_left :: "hpc \<Rightarrow> nat" where
  "recompute_left H_idle = 0"
| "recompute_left (H_scan_active i accs) = 2 * (32 - i) + 2"
| "recompute_left (H_scan_tail i accs) = 2 * (32 - i) + 1"
| "recompute_left (H_store m) = 1"

fun refresher_left :: "refresher \<Rightarrow> hpc \<Rightarrow> nat" where
  "refresher_left R_end pc = 0"
| "refresher_left (R_last k) pc = 68 * k + 1"
| "refresher_left (R_last_run k) pc = 68 * k + 2 + recompute_left pc"
| "refresher_left R_loop pc = 68 * LAST_REFRESHES + 2"
| "refresher_left R_run pc = 68 * LAST_REFRESHES + 3 + recompute_left pc"

lemma refresher_left_own:
  assumes ok: "refresher_ok r (helps s 0)" and inv: "csys_inv s" and t: "refresher_turn True s r = (s', r')"
  shows "refresher_left r' (helps s' 0) \<le> refresher_left r (helps s 0) - 1"
proof -
  have step: "recompute_left (helps (do_help 0 s) 0) \<le> recompute_left (helps s 0) - 1" 
    using csys_invD(6) [OF inv, of 0] by (cases "helps s 0") (auto simp: do_help_def scan_inv_def)
  have pos: "helps s 0 \<noteq> H_idle \<Longrightarrow> 0 < recompute_left (helps s 0)" by (cases "helps s 0") auto
  show ?thesis
  proof (cases r)
    case (R_last k)
    then show ?thesis using ok t by (cases k) auto
  qed (use ok t step pos in \<open>auto split: if_splits\<close>)
qed

lemma recompute_left_bound: "recompute_left pc \<le> 66"
  by (cases pc) auto

definition helper_left :: "'a scaling \<Rightarrow> nat" where
  "helper_left b = refresher_left (refreshing b) (helps (shared b) 0)"

lemma helper_left_turn:
  assumes j: "joined n d np nc ops entries b" and room: "roomy n np nc ops"
  shows "helper_left (scaling_turn np nc (np * ops) entries t b) \<le> helper_left b - (if t = Refresher then 1 else 0)"
proof -
  have inv: "scaling_inv n d np nc ops entries b" and dn: "producers_done b"
    using j by (simp_all add: joined_def)
  note D = scaling_invD [OF inv] and cs = scaling_csys [OF inv room]
  show ?thesis
  proof (cases t)
    case (Producer i sp)
    obtain s w where w: "worker_turn (entries i) i sp (shared b) (workers b i) = (s, w)" by fastforce
    then show ?thesis using worker_turn_frame [OF w] by (auto simp: helper_left_def Producer)
  next
    case (Consumer e)
    obtain s k where k: "counter_turn e (np * ops) (producers_done b) (shared b) (counters b e) = (s, k)" by fastforce
    have "helps s = helps (shared b)" if "unat e < nc"
      using counter_turn_counts [OF D(5) [OF that] _ k] that room by (simp add: roomy_def)
    then show ?thesis using k by (auto simp: helper_left_def Consumer)
  next
    case Refresher
    obtain s f where f: "refresher_turn True (shared b) (refreshing b) = (s, f)" by fastforce
    show ?thesis using refresher_left_own [OF D(6) cs(1) f] f dn by (simp add: helper_left_def Refresher)
  qed (simp add: helper_left_def)
qed

section \<open>The start\<close>

lemma register_many_all: "register_many k q = register_all k q"
proof -
  have swap: "register_many k (snd (register_consumer q)) = snd (register_consumer (register_many k q))" for k and q :: "'a MPMCQueue"
    by (induction k arbitrary: q) simp_all
  show ?thesis by (induction k) (simp_all add: swap)
qed

lemma scaling_start_live:
  assumes "roomy n np nc ops" and "unat c < nc"
  shows "live (mem (shared (scaling_start n d nc ops))) c"
proof -
  have "valid_size n" "n + 0 < 2 ^ 64 - 1" "nc \<le> 32" using assms(1) by (simp_all add: roomy_def)
  then show ?thesis
    using new_queue_registered(2) [of n 0 nc c d] assms(2)
    by (simp add: scaling_start_def init_csys_def register_many_all)
qed

lemma consumer_left_bound:
  assumes "joined n d np nc ops entries b" and "unat c < nc"
  shows "consumer_left (np * ops) c b \<le> 7 * (np * ops) + 2"
proof -
  have ok: "counter_ok (np * ops) (counters b c) (conss (shared b) c) (got (shared b) c)"
    using assms scaling_invD(5) by (auto simp: joined_def)
  have r: "pop_rank pc \<le> 5" for pc :: "'a cpc" by (cases pc) simp_all
  show ?thesis
  proof (cases "counters b c")
    case (K_pop k)
    then have "k < np * ops" using ok by simp
    then have "7 * (np * ops - Suc k) + 7 \<le> 7 * (np * ops)" by linarith
    then show ?thesis using r [of "conss (shared b) c"] by (auto simp: consumer_left_def K_pop)
  qed (auto simp: consumer_left_def)
qed

lemma helper_left_bound:
  assumes "joined n d np nc ops entries b"
  shows "helper_left b \<le> 68 * LAST_REFRESHES + 69"
proof -
  have "refresher_ok (refreshing b) (helps (shared b) 0)"
    using assms scaling_invD(6) by (auto simp: joined_def)
  then show ?thesis
    using recompute_left_bound [of "helps (shared b) 0"] by (cases "refreshing b") (auto simp: helper_left_def)
qed

text \<open>The two phases: up to the join of the producers, and after it.\<close>

lemma producers_end:
  assumes room: "roomy n np nc ops" and i: "i < np"
    and turns: "7 * ops + 3 * (np * ops) + 1 + 2 * count_list es (Producer i True) \<le> count_list es (Producer i False)"
  shows "workers (scaling_turns np nc (np * ops) entries es (scaling_start n d nc ops)) i = W_end"
proof -
  let ?start = "scaling_start n d nc ops" and ?f = "producer_left (np * ops) i"
  let ?b = "scaling_turns np nc (np * ops) entries es ?start"
  have "scaling_inv n d np nc ops entries ?b
      \<and> ?f ?b \<le> ?f ?start + 2 * length (filter ((=) (Producer i True)) es) - length (filter ((=) (Producer i False)) es)"
  proof (rule turns_decrease [where I = "scaling_inv n d np nc ops entries" and f = ?f
        and P = "(=) (Producer i False)" and S = "(=) (Producer i True)"])
    fix t and b :: "'a scaling"
    assume inv: "scaling_inv n d np nc ops entries b"
    let ?t = "scaling_turn np nc (np * ops) entries t b"
    have "if (=) (Producer i False) t then ?f ?t \<le> ?f b - 1
      else if (=) (Producer i True) t then ?f b = 0 \<and> ?f ?t = 0 \<or> ?f ?t \<le> ?f b + 2 \<and> 0 < ?f b
      else ?f ?t \<le> ?f b"
      using producer_left_turn [OF inv room i, of t] by (simp only: eq_commute)
    then show "scaling_inv n d np nc ops entries ?t \<and> (if (=) (Producer i False) t then ?f ?t \<le> ?f b - 1
      else if (=) (Producer i True) t then ?f b = 0 \<and> ?f ?t = 0 \<or> ?f ?t \<le> ?f b + 2 \<and> 0 < ?f b
      else ?f ?t \<le> ?f b)"
      using scaling_inv_turn [OF inv room] by blast
  qed (use scaling_inv_start in auto)
  moreover have "?f ?start = 7 * ops + 1 + 3 * (np * ops)"
    by (simp add: producer_left_def scaling_start_def init_csys_def)
  ultimately have "?f ?b = 0" using turns by (simp add: count_list_eq_length_filter)
  then show ?thesis by (cases "workers ?b i") (simp_all add: producer_left_def)
qed

lemma joined_turns:
  assumes j: "joined n d np nc ops entries b" and room: "roomy n np nc ops"
    and f: "\<And>t b. joined n d np nc ops entries b \<Longrightarrow>
      f (scaling_turn np nc (np * ops) entries t b) \<le> f b - (if t = u then 1 else 0)"
    and turns: "f b \<le> count_list fs u"
  shows "joined n d np nc ops entries (scaling_turns np nc (np * ops) entries fs b)
    \<and> f (scaling_turns np nc (np * ops) entries fs b) = (0 :: nat)"
proof -
  have "joined n d np nc ops entries (scaling_turns np nc (np * ops) entries fs b)
      \<and> f (scaling_turns np nc (np * ops) entries fs b)
        \<le> f b + 2 * length (filter (\<lambda>t. False) fs) - length (filter ((=) u) fs)"
  proof (rule turns_decrease)
    fix t and b :: "'a scaling"
    assume "joined n d np nc ops entries b"
    then show "joined n d np nc ops entries (scaling_turn np nc (np * ops) entries t b)
      \<and> (if (=) u t then f (scaling_turn np nc (np * ops) entries t b) \<le> f b - 1
         else if False then f b = 0 \<and> f (scaling_turn np nc (np * ops) entries t b) = 0
           \<or> f (scaling_turn np nc (np * ops) entries t b) \<le> f b + 2 \<and> 0 < f b
         else f (scaling_turn np nc (np * ops) entries t b) \<le> f b)"
      using joined_turn [OF _ room, of d entries b t] f [of b t] by (cases "t = u") simp_all
  qed (use j in auto)
  then show ?thesis using turns by (simp add: count_list_eq_length_filter)
qed

section \<open>Properties\<close>

text \<open>C28: No item is missed or refused. In a benchmark whose items fit the ring, after any
  schedule of single accesses: no producer has seen \<open>push\<close> return false, every consumer has
  received as many items as it counted, the first ones in the order of claims, and as soon
  as one consumer has ended, all items are placed and it has received all of them, each
  as often as the producers push it.\<close>

theorem consumer_scaling_exact:
  assumes "roomy n np nc ops"
  shows "let b = scaling_turns np nc (np * ops) entries ts (scaling_start n d nc ops) in
    (\<forall>i. prods (shared b) i \<noteq> P_done False)
    \<and> (\<forall>c. unat c < nc \<longrightarrow> prefix (got (shared b) c) (hist (shared b)))
    \<and> (\<forall>c k. unat c < nc \<and> counters b c = K_loop k \<longrightarrow> length (got (shared b) c) = k)
    \<and> (\<forall>c k. unat c < nc \<and> counters b c = K_end k \<longrightarrow> k = np * ops
        \<and> got (shared b) c = hist (shared b) \<and> mset (hist (shared b)) = all_items np ops entries)"
proof -
  let ?b = "scaling_turns np nc (np * ops) entries ts (scaling_start n d nc ops)"
  have inv: "scaling_inv n d np nc ops entries ?b" by (rule scaling_inv_turns [OF scaling_inv_start assms])
  note D = scaling_invD [OF inv]
  have "prods (shared ?b) i \<noteq> P_done False" for i using D(8) [of i] by (auto simp: unrefused_def)
  moreover have "prefix (got (shared ?b) c) (hist (shared ?b))" if "unat c < nc" for c
    using csys_invD(5) [OF scaling_csys(1) [OF inv assms], of c] that assms
    by (simp add: received_ok_def roomy_def take_is_prefix)
  moreover have "length (got (shared ?b) c) = k" if "unat c < nc" "counters ?b c = K_loop k" for c k
    using D(5) [OF that(1)] that(2) by simp
  moreover note ended_consumer [OF inv assms] all_placed [OF inv]
  ultimately show ?thesis unfolding Let_def by blast
qed

definition demo_turns :: "turn list" where
  "demo_turns = concat (replicate 40 [Producer 0 False, Producer 1 False, Consumer 0, Consumer 1, Refresher, Main])"

lemma demo_turns_end:
  "counters (scaling_turns 2 2 4 (\<lambda>i. i + 7) demo_turns (scaling_start 16 (0 :: nat) 2 2)) 0 = K_end 4"
  by code_simp

lemma consumer_scaling_exact_witness:
  "got (shared (scaling_turns 2 2 4 (\<lambda>i. i + 7) demo_turns (scaling_start 16 (0 :: nat) 2 2))) 0
    = hist (shared (scaling_turns 2 2 4 (\<lambda>i. i + 7) demo_turns (scaling_start 16 (0 :: nat) 2 2)))"
proof -
  have "roomy 16 2 2 2" by (simp add: roomy_def valid_size_def)
  note r = consumer_scaling_exact [OF this, of "\<lambda>i. i + 7" demo_turns "0 :: nat"]
  have "unat (0 :: u32) < 2" and four: "2 * 2 = (4 :: nat)" by simp_all
  then show ?thesis using r demo_turns_end unfolding Let_def four by blast
qed

text \<open>C26: An iteration of \<open>BM_ConsumerScaling\<close> ends. Let the producers get their turns first,
  each at most \<open>7 ops + 3 TOTAL + 1\<close> of them and two more for every turn in which its exchange may
  fail spuriously, however the others are scheduled in between. Then the main thread joins them, and
  afterwards \<open>7 TOTAL + 2\<close> turns of a consumer and a bounded number of the helper bring
  these threads to their end too: all threads are joined, and every consumer has received
  the items of all producers.\<close>

theorem consumer_scaling_ends:
  assumes "roomy n np nc ops"
    and "\<forall>i<np. 7 * ops + 3 * (np * ops) + 1 + 2 * count_list es (Producer i True) \<le> count_list es (Producer i False)"
    and "\<forall>c. unat c < nc \<longrightarrow> 7 * (np * ops) + 2 \<le> count_list fs (Consumer c)"
    and "68 * LAST_REFRESHES + 69 \<le> count_list fs Refresher"
  shows "let b = scaling_turns np nc (np * ops) entries (es @ Main # fs) (scaling_start n d nc ops) in
    (\<forall>i<np. workers b i = W_end) \<and> refreshing b = R_end
    \<and> (\<forall>c. unat c < nc \<longrightarrow> counters b c = K_end (np * ops) \<and> got (shared b) c = hist (shared b))
    \<and> mset (hist (shared b)) = all_items np ops entries"
proof -
  let ?run = "scaling_turns np nc (np * ops) entries"
  let ?e = "?run es (scaling_start n d nc ops)"
  define m where "m = scaling_turn np nc (np * ops) entries Main ?e"
  have ended: "\<forall>i<np. workers ?e i = W_end"
    by (intro allI impI producers_end [OF assms(1)]) (use assms(2) in auto)
  have "scaling_inv n d np nc ops entries m"
    unfolding m_def by (rule scaling_inv_turn [OF scaling_inv_turns [OF scaling_inv_start assms(1)] assms(1)])
  moreover have "producers_done m" using ended by (simp add: m_def)
  moreover have "live (mem (shared m)) c" if "unat c < nc" for c
    using scaling_start_live [OF assms(1) that, of d] scaling_live [of np nc "np * ops" entries "es @ [Main]" _ c]
    unfolding m_def scaling_turns_append scaling_turns.simps by blast
  ultimately have j: "joined n d np nc ops entries m" by (simp add: joined_def)
  let ?b = "?run fs m"
  have jb: "joined n d np nc ops entries ?b" and "helper_left ?b = 0"
    using joined_turns [where f = helper_left and fs = fs, OF j assms(1) helper_left_turn [where d = d, OF _ assms(1)]]
      helper_left_bound [OF j] assms(4) by simp_all
  then have "refreshing ?b = R_end" by (cases "refreshing ?b") (simp_all add: helper_left_def)
  moreover have inv: "scaling_inv n d np nc ops entries ?b" and "producers_done ?b"
    using jb by (simp_all add: joined_def)
  moreover have "counters ?b c = K_end (np * ops) \<and> got (shared ?b) c = hist (shared ?b)" if c: "unat c < nc" for c
  proof -
    have "consumer_left (np * ops) c m \<le> count_list fs (Consumer c)"
      using consumer_left_bound [OF j c] assms(3) c by (meson order_trans)
    then have "consumer_left (np * ops) c ?b = 0"
      using joined_turns [where f = "consumer_left (np * ops) c" and fs = fs, OF j assms(1) consumer_left_turn [where d = d, OF _ assms(1) c]]
      by blast
    then obtain k where "counters ?b c = K_end k"
      by (cases "counters ?b c") (auto simp: consumer_left_def split: if_splits)
    then show ?thesis using ended_consumer [OF inv assms(1) c] by simp
  qed
  moreover have "mset (hist (shared ?b)) = all_items np ops entries"
    by (rule all_placed [OF inv joined_state(1) [OF jb]])
  moreover have "?run (es @ Main # fs) (scaling_start n d nc ops) = ?b"
    by (simp add: scaling_turns_append m_def del: scaling_turn.simps)
  ultimately show ?thesis using scaling_invD(7) [OF inv] by (simp add: Let_def)
qed

lemma count_list_replicate_other: "count_list (replicate n y) x = (if x = y then n else 0)"
  by (induction n) auto

lemma consumer_scaling_ends_witness:
  "\<exists>es fs. mset (got (shared (scaling_turns 2 1 4 (\<lambda>i. i + 7) (es @ Main # fs) (scaling_start 16 (0 :: nat) 1 2))) 0)
    = {#7, 7, 8, 8#}"
proof -
  let ?es = "replicate 29 (Producer 0 False) @ replicate 29 (Producer 1 False) @ [Producer 0 True]"
  let ?fs = "replicate 30 (Consumer 0) @ replicate (68 * LAST_REFRESHES + 69) Refresher"
  have room: "roomy 16 2 1 2" by (simp add: roomy_def valid_size_def)
  have es: "\<forall>i<2. 7 * 2 + 3 * (2 * 2) + 1 + 2 * count_list ?es (Producer i True) \<le> count_list ?es (Producer i False)"
    by (simp add: count_list_replicate_other less_2_cases_iff)
  have fs: "\<forall>c. unat c < 1 \<longrightarrow> 7 * (2 * 2) + 2 \<le> count_list ?fs (Consumer c)"
    by (simp add: count_list_replicate_other unsigned_eq_0_iff)
  have h: "68 * LAST_REFRESHES + 69 \<le> count_list ?fs Refresher" by (simp add: count_list_replicate_other)
  note r = consumer_scaling_ends [OF room es fs h, of "\<lambda>i. i + 7" "0 :: nat"]
  have four: "2 * 2 = (4 :: nat)" and c: "unat (0 :: u32) < 1" by simp_all
  have "all_items 2 2 (\<lambda>i. i + 7) = {#7, 7, 8, 8 :: nat#}"
    by (simp add: all_items_def lessThan_Suc numeral_eq_Suc)
  moreover have "mset (got (shared (scaling_turns 2 1 4 (\<lambda>i. i + 7) (?es @ Main # ?fs) (scaling_start 16 (0 :: nat) 1 2))) 0)
      = all_items 2 2 (\<lambda>i. i + 7)"
    using r c unfolding Let_def four by (elim conjE) (simp only: simp_thms)
  ultimately show ?thesis by metis
qed

end
