(* ===== verification/Bench_Drain.thy ===== *)
theory Bench_Drain
  imports Bench_Threads
begin

text \<open>
  The benchmarks with one drain thread and producers that may find the ring full:
  \<open>BM_ProducerScaling\<close> of bench/bench_contention.cpp, and the push loops of
  bench/bench_queue_throughput.cpp and bench/bench_huge_pages.cpp, again as programs over the
  single accesses of \<open>Mpmc_Concurrent\<close>. Proved: nothing is lost, and every fair schedule
  ends: as long as every thread keeps getting turns, a full ring is drained, the cached
  minimum catches up, and a refused push is accepted when it is retried.
\<close>

section \<open>The threads\<close>

text \<open>
  The drain thread: until the flag is seen, pop everything and refresh the cached minimum;
  \<open>again\<close> tells whether it drains once more afterwards, as in \<open>BM_ProducerScaling\<close>.
\<close>

datatype drain_pc = D_test | D_pop | D_min | D_final | D_end

fun drain_turn :: "bool \<Rightarrow> bool \<Rightarrow> 'a csys \<Rightarrow> drain_pc \<Rightarrow> 'a csys \<times> drain_pc" where
  "drain_turn again stopped s D_test =
     (if \<not> stopped then (exec_event (Call_pop 0) s, D_pop)
      else if again then (exec_event (Call_pop 0) s, D_final) else (s, D_end))"
| "drain_turn again stopped s D_pop =
     (case conss s 0 of
        C_done (Some x) \<Rightarrow> (exec_event (Call_pop 0) s, D_pop)
      | C_done None \<Rightarrow> (exec_event (Call_recompute 0) s, D_min)
      | _ \<Rightarrow> (exec_event (Run_pop 0) s, D_pop))"
| "drain_turn again stopped s D_min =
     (if helps s 0 = H_idle then (s, D_test) else (exec_event (Run_recompute 0) s, D_min))"
| "drain_turn again stopped s D_final =
     (case conss s 0 of
        C_done (Some x) \<Rightarrow> (exec_event (Call_pop 0) s, D_final)
      | C_done None \<Rightarrow> (s, D_end)
      | _ \<Rightarrow> (exec_event (Run_pop 0) s, D_final))"
| "drain_turn again stopped s D_end = (s, D_end)"

section \<open>The benchmark\<close>

text \<open>
  The main thread runs one iteration and \<open>its\<close> more: it starts the producers with the counter at zero, joins
  them, and after the last iteration sets the flag and joins the drain thread.
\<close>

record 'a draining =
  ring :: "'a csys"
  pushers :: "nat \<Rightarrow> worker"
  drain :: drain_pc
  iterations_left :: nat
  total_pushed :: int
  stop :: bool

definition draining_start :: "nat \<Rightarrow> 'a \<Rightarrow> nat \<Rightarrow> nat \<Rightarrow> 'a draining" where
  "draining_start n d ops its =
     \<lparr>ring = init_csys n d 1, pushers = (\<lambda>i. W_loop ops), drain = D_test,
      iterations_left = its, total_pushed = 0, stop = False\<rparr>"

text \<open>The push that has just returned true is counted when its thread leaves the inner loop.\<close>

definition counted :: "worker \<Rightarrow> worker \<Rightarrow> int" where
  "counted w w' = (case (w, w') of (W_push _, W_loop _) \<Rightarrow> 1 | _ \<Rightarrow> 0)"

datatype drain_event = Pusher nat bool | Drainer | Controller

fun draining_turn :: "bool \<Rightarrow> nat \<Rightarrow> nat \<Rightarrow> (nat \<Rightarrow> 'a) \<Rightarrow> drain_event \<Rightarrow> 'a draining \<Rightarrow> 'a draining" where
  "draining_turn again np ops entries (Pusher i spurious) b =
     (if i < np
      then let (s, w) = worker_turn (entries i) i spurious (ring b) (pushers b i)
           in b\<lparr>ring := s, pushers := (pushers b)(i := w),
                total_pushed := total_pushed b + counted (pushers b i) w\<rparr>
      else b)"
| "draining_turn again np ops entries Drainer b =
     (let (s, p) = drain_turn again (stop b) (ring b) (drain b) in b\<lparr>ring := s, drain := p\<rparr>)"
| "draining_turn again np ops entries Controller b =
     (if \<forall>i \<in> set [0..<np]. pushers b i = W_end
      then case iterations_left b of
          Suc k \<Rightarrow> b\<lparr>pushers := (\<lambda>i. W_loop ops), iterations_left := k, total_pushed := 0\<rparr>
        | 0 \<Rightarrow> b\<lparr>stop := True\<rparr>
      else b)"

definition draining_turns ::
  "bool \<Rightarrow> nat \<Rightarrow> nat \<Rightarrow> (nat \<Rightarrow> 'a) \<Rightarrow> drain_event list \<Rightarrow> 'a draining \<Rightarrow> 'a draining" where
  "draining_turns again np ops entries ts b = fold (draining_turn again np ops entries) ts b"

section \<open>Frames\<close>

lemma drain_turn_frame:
  assumes "drain_turn again st s p = (s', p')"
  shows "prods s' = prods s \<and> hist s' = hist s"
  using assms
  by (induction again st s p rule: drain_turn.induct)
    (auto simp: do_cons_def do_help_def split: cpc.splits option.splits if_splits prod.splits)

lemma drain_turn_event:
  "drain_turn again st s p = (s', p') \<Longrightarrow>
    s' = s \<or> (\<exists>e. s' = exec_event e s \<and> (\<forall>c. e \<noteq> Unregister c))"
  by (induction again st s p rule: drain_turn.induct)
    (auto simp del: exec_event.simps split: cpc.splits option.splits if_splits)

lemma worker_turn_event':
  "worker_turn x i sp s w = (s', w') \<Longrightarrow>
    s' = s \<or> (\<exists>e. s' = exec_event e s \<and> (\<forall>c. e \<noteq> Unregister c))"
  using worker_turn_event [of x i sp s w s' w'] by (auto simp del: exec_event.simps)

lemma draining_turn_event:
  "ring (draining_turn again np ops entries t b) = ring b
   \<or> (\<exists>e. ring (draining_turn again np ops entries t b) = exec_event e (ring b) \<and> (\<forall>c. e \<noteq> Unregister c))"
proof (cases t)
  case (Pusher i sp)
  obtain s w where w: "worker_turn (entries i) i sp (ring b) (pushers b i) = (s, w)" by fastforce
  have "ring (draining_turn again np ops entries t b) = (if i < np then s else ring b)" by (simp add: Pusher w)
  then show ?thesis using worker_turn_event' [OF w] by (simp del: exec_event.simps)
next
  case Drainer
  obtain s p where p: "drain_turn again (stop b) (ring b) (drain b) = (s, p)" by fastforce
  have "ring (draining_turn again np ops entries t b) = s" by (simp add: Drainer p)
  then show ?thesis using drain_turn_event [OF p] by simp
qed (simp split: nat.split)

lemma draining_reachable:
  assumes "reachable n d 1 (ring b)"
  shows "reachable n d 1 (ring (draining_turn again np ops entries t b))"
  using draining_turn_event [of again np ops entries t b] assms
    exec_event_step [of _ "ring b"] reachable.step [OF assms] by (metis (no_types))

lemma draining_live:
  "live (mem (ring (draining_turn again np ops entries t b))) c = live (mem (ring b)) c"
  using draining_turn_event [of again np ops entries t b] exec_live_same [of _ "ring b" c] by metis

lemma draining_grows:
  "length (hist (ring b)) \<le> length (hist (ring (draining_turn again np ops entries t b)))"
  using draining_turn_event [of again np ops entries t b] exec_grows [of _ "ring b"]
  by (metis le_add1 length_append order_refl)

section \<open>The invariant\<close>

fun drain_ok :: "drain_pc \<Rightarrow> 'a cpc \<Rightarrow> hpc \<Rightarrow> bool" where
  "drain_ok D_pop pc h = (pc \<noteq> C_idle \<and> h = H_idle)"
| "drain_ok D_final pc h = (pc \<noteq> C_idle \<and> h = H_idle)"
| "drain_ok D_min pc h = cons_resting pc"
| "drain_ok p pc h = (cons_resting pc \<and> h = H_idle)"

lemma drain_turn_ok:
  assumes "drain_ok p (conss s 0) (helps s 0)" and "drain_turn again st s p = (s', p')"
  shows "drain_ok p' (conss s' 0) (helps s' 0)"
proof (cases p)
  case D_pop
  then show ?thesis
    using assms by (cases "conss s 0") (auto simp: do_cons_def cons_resting_def split: option.splits if_splits)
next
  case D_final
  then show ?thesis
    using assms by (cases "conss s 0") (auto simp: do_cons_def cons_resting_def split: option.splits if_splits)
next
  case D_min
  then show ?thesis using assms by (auto simp: do_help_def split: if_splits prod.splits)
qed (use assms in \<open>auto simp: cons_resting_def split: if_splits\<close>)

fun completed :: "nat \<Rightarrow> worker \<Rightarrow> nat" where
  "completed ops (W_loop k) = ops - k"
| "completed ops (W_push k) = ops - Suc k"
| "completed ops W_end = ops"

lemma worker_turn_completed:
  assumes "worker_ok ops x w (prods s i)" and "worker_turn x i sp s w = (s', w')"
  shows "int (completed ops w') = int (completed ops w) + counted w w'"
proof (cases w)
  case (W_loop k)
  then show ?thesis using assms by (cases k) (auto simp: counted_def)
next
  case (W_push k)
  then show ?thesis
    using assms by (cases "prods s i") (auto simp: counted_def Suc_diff_Suc split: bool.splits)
next
  case W_end
  then show ?thesis using assms by (auto simp: counted_def)
qed

text \<open>All items of the finished iterations, then those placed in the current one.\<close>

definition drained_items :: "nat \<Rightarrow> nat \<Rightarrow> nat \<Rightarrow> (nat \<Rightarrow> 'a) \<Rightarrow> 'a draining \<Rightarrow> 'a multiset" where
  "drained_items np ops its entries b =
     repeat_mset (its - iterations_left b) (all_items np ops entries)
     + placed_items np ops entries (pushers b) (prods (ring b))"

definition draining_inv ::
  "nat \<Rightarrow> 'a \<Rightarrow> bool \<Rightarrow> nat \<Rightarrow> nat \<Rightarrow> nat \<Rightarrow> (nat \<Rightarrow> 'a) \<Rightarrow> 'a draining \<Rightarrow> bool" where
  "draining_inv n d again np ops its entries b \<longleftrightarrow>
     reachable n d 1 (ring b) \<and> live (mem (ring b)) 0
   \<and> (\<forall>i<np. worker_ok ops (entries i) (pushers b i) (prods (ring b) i))
   \<and> (\<forall>i. np \<le> i \<longrightarrow> prods (ring b) i = P_idle)
   \<and> iterations_left b \<le> its \<and> mset (hist (ring b)) = drained_items np ops its entries b
   \<and> drain_ok (drain b) (conss (ring b) 0) (helps (ring b) 0)
   \<and> total_pushed b = int (\<Sum>i<np. completed ops (pushers b i))
   \<and> (stop b \<longrightarrow> (\<forall>i<np. pushers b i = W_end) \<and> iterations_left b = 0)
   \<and> (drain b = D_final \<or> drain b = D_end \<longrightarrow> stop b)
   \<and> (drain b = D_final \<and> conss (ring b) 0 = C_done None \<or> drain b = D_end \<and> again
        \<longrightarrow> length (got (ring b) 0) = length (hist (ring b)))
   \<and> (\<forall>c. live (mem (ring b)) c \<longrightarrow> c = 0)"

lemma draining_invD:
  assumes "draining_inv n d again np ops its entries b"
  shows "reachable n d 1 (ring b)" "live (mem (ring b)) 0"
    "i < np \<Longrightarrow> worker_ok ops (entries i) (pushers b i) (prods (ring b) i)"
    "np \<le> i \<Longrightarrow> prods (ring b) i = P_idle"
    "iterations_left b \<le> its" "mset (hist (ring b)) = drained_items np ops its entries b"
    "drain_ok (drain b) (conss (ring b) 0) (helps (ring b) 0)"
    "total_pushed b = int (\<Sum>i<np. completed ops (pushers b i))"
    "stop b \<Longrightarrow> i < np \<Longrightarrow> pushers b i = W_end" "stop b \<Longrightarrow> iterations_left b = 0"
    "drain b = D_final \<or> drain b = D_end \<Longrightarrow> stop b"
    "drain b = D_final \<and> conss (ring b) 0 = C_done None \<or> drain b = D_end \<and> again
      \<Longrightarrow> length (got (ring b) 0) = length (hist (ring b))"
    "live (mem (ring b)) c \<Longrightarrow> c = 0"
  using assms unfolding draining_inv_def by blast+

definition fits_budget :: "nat \<Rightarrow> nat \<Rightarrow> nat \<Rightarrow> nat \<Rightarrow> bool" where
  "fits_budget n np ops its \<longleftrightarrow> valid_size n \<and> n + (its + 1) * (np * ops) < 2 ^ 64 - 1"

lemma size_all_items: "size (all_items np ops entries) = np * ops"
  by (simp add: all_items_def size_multiset_sum)

lemma size_repeat: "size (repeat_mset k A) = k * size A"
  by (induction k) (simp_all add: add.commute)

lemma draining_hist:
  assumes "draining_inv n d again np ops its entries b"
  shows "length (hist (ring b)) = (its - iterations_left b) * (np * ops)
      + (\<Sum>i<np. placed ops (pushers b i) (prods (ring b) i))"
    "length (hist (ring b)) \<le> (its + 1 - iterations_left b) * (np * ops)"
proof -
  note D = draining_invD [OF assms]
  have "length (hist (ring b)) = size (drained_items np ops its entries b)"
    using D(6) by (metis size_mset)
  then show eq: "length (hist (ring b)) = (its - iterations_left b) * (np * ops)
      + (\<Sum>i<np. placed ops (pushers b i) (prods (ring b) i))"
    by (simp add: drained_items_def size_all_items size_repeat placed_items_def size_multiset_sum)
  have "(\<Sum>i<np. placed ops (pushers b i) (prods (ring b) i)) \<le> (\<Sum>i<np. ops)"
    by (rule sum_mono) (simp add: placed_bound [OF D(3)])
  then show "length (hist (ring b)) \<le> (its + 1 - iterations_left b) * (np * ops)"
    unfolding eq using D(5) by (simp add: Suc_diff_le)
qed

lemma draining_csys:
  assumes inv: "draining_inv n d again np ops its entries b" and fit: "fits_budget n np ops its"
  shows "csys_inv (ring b)" "length (slots (mem (ring b))) = n"
proof -
  have "(its + 1 - iterations_left b) * (np * ops) \<le> (its + 1) * (np * ops)" by (rule mult_le_mono1) simp
  then have "length (hist (ring b)) + n < 2 ^ 64 - 1"
    using draining_hist(2) [OF inv] fit unfolding fits_budget_def by linarith
  then show "csys_inv (ring b)" "length (slots (mem (ring b))) = n"
    using reachable_inv [OF draining_invD(1) [OF inv]] fit by (simp_all add: fits_budget_def)
qed

lemma stopped_published:
  assumes "draining_inv n d again np ops its entries b" and "\<forall>i<np. prod_resting (prods (ring b) i)"
  shows "unpublished (prods (ring b)) = {}"
proof -
  have "claim_of (prods (ring b) i) = None" for i
    using draining_invD(4) [OF assms(1), of i] assms(2) claim_of_resting [of "prods (ring b) i"]
    by (cases "i < np") auto
  then show ?thesis by (simp add: unpublished_def)
qed

lemma placed_items_start: "placed_items np ops entries (\<lambda>i. W_loop ops) pcs = {#}"
  by (simp add: placed_items_def)

lemma placed_items_end: "\<forall>i<np. ws i = W_end \<Longrightarrow> placed_items np ops entries ws pcs = all_items np ops entries"
  by (simp add: placed_items_def all_items_def)

lemma draining_inv_start:
  assumes "fits_budget n np ops its"
  shows "draining_inv n d again np ops its entries (draining_start n d ops its)"
proof -
  have v: "valid_size n" "n + 0 < 2 ^ 64 - 1" using assms by (simp_all add: fits_budget_def)
  have z: "queue_num_consumers (MPMCQueue_new n d) = 0" by (simp add: MPMCQueue_new_def queue_num_consumers_def)
  have "abs_queue (register_all 1 (MPMCQueue_new n d)) = (\<lambda>c. if unat c < 1 then Some [] else None)"
    using register_all_spec [OF queue_inv_new [OF v] z new_queue_abs, of 1] by simp
  then have "live (register_all 1 (MPMCQueue_new n d)) c \<longleftrightarrow> unat c < 1" for c
    by (metis abs_queue_def option.distinct(1))
  then have "live (register_many 1 (MPMCQueue_new n d)) c \<longleftrightarrow> c = 0" for c
    by (simp add: register_many_all unat_eq_zero del: register_all.simps)
  then show ?thesis
    unfolding draining_inv_def drained_items_def draining_start_def placed_items_start
    by (simp add: reachable.start init_csys_def prod_resting_def cons_resting_def
        del: register_many.simps) (use reachable.start [of n d 1] in \<open>simp add: init_csys_def placed_items_def\<close>)
qed

text \<open>In the final drain a pop returns nothing only when everything has been received.\<close>

lemma got_bound:
  assumes "csys_inv s" and "unat c < 32"
  shows "length (got s c) \<le> length (hist s)" "length (got s c) = unat (queue_tail (mem s) c)"
    "length (got s c) = length (hist s) \<Longrightarrow> got s c = hist s"
  using csys_invD(5) [OF assms] by (auto simp: received_ok_def)

lemma final_pop_empty:
  assumes inv: "csys_inv s" and lv: "live (mem s) 0" and none: "unpublished (prods s) = {}"
    and pc: "conss s 0 \<noteq> C_done None" and step: "conss (do_cons 0 s) 0 = C_done None"
  shows "length (got (do_cons 0 s) 0) = length (hist s)"
proof (cases "conss s 0")
  case (C_load_seq t)
  have "\<not> length (got s 0) < length (hist s)"
    using pop_finds_item [OF inv lv none C_load_seq] step C_load_seq by (auto simp: do_cons_def)
  then show ?thesis
    using got_bound(1) [OF inv, of 0] C_load_seq by (simp add: do_cons_def received_item_def)
next
  case C_load_active
  then show ?thesis using step lv by (simp add: do_cons_def live_def)
qed (use pc step in \<open>auto simp: do_cons_def\<close>)

lemma drain_turn_final:
  assumes inv: "csys_inv s" and lv: "live (mem s) 0" and none: "st \<Longrightarrow> unpublished (prods s) = {}"
    and ok: "drain_ok p (conss s 0) (helps s 0)" and st: "p = D_final \<or> p = D_end \<Longrightarrow> st"
    and full: "p = D_final \<and> conss s 0 = C_done None \<or> p = D_end \<and> again \<Longrightarrow> length (got s 0) = length (hist s)"
    and t: "drain_turn again st s p = (s', p')"
  shows "(p' = D_final \<or> p' = D_end \<longrightarrow> st)
    \<and> (p' = D_final \<and> conss s' 0 = C_done None \<or> p' = D_end \<and> again \<longrightarrow> length (got s' 0) = length (hist s'))"
proof (cases p)
  case D_final
  then have u: "unpublished (prods s) = {}" using st none by simp
  show ?thesis
  proof (cases "conss s 0")
    case (C_done r)
    then show ?thesis using t D_final full st by (cases r) (auto simp: cons_resting_def)
  next
    case C_idle
    then show ?thesis using ok D_final by simp
  qed (use t D_final st final_pop_empty [OF inv lv u] in \<open>auto simp: do_cons_def\<close>)
next
  case D_pop
  then show ?thesis using t by (auto split: cpc.splits option.splits)
qed (use t full st ok in \<open>auto simp: cons_resting_def split: if_splits\<close>)

lemma draining_inv_pusher:
  assumes inv: "draining_inv n d again np ops its entries b"
  shows "draining_inv n d again np ops its entries (draining_turn again np ops entries (Pusher i sp) b)"
proof (cases "i < np")
  case True
  note D = draining_invD [OF inv]
  let ?t = "Pusher i sp"
  obtain s w where w: "worker_turn (entries i) i sp (ring b) (pushers b i) = (s, w)" by fastforce
  have eq: "draining_turn again np ops entries ?t b = b\<lparr>ring := s, pushers := (pushers b)(i := w),
      total_pushed := total_pushed b + counted (pushers b i) w\<rparr>"
    using True by (simp add: w)
  have r: "reachable n d 1 s" "live (mem s) 0"
    using draining_reachable [OF D(1), of again np ops entries ?t] draining_live [of again np ops entries ?t b 0] D(2)
    unfolding eq by simp_all
  note p = worker_turn_places [OF D(3) [OF True] w] worker_turn_frame [OF w]
  let ?R = "repeat_mset (its - iterations_left b) (all_items np ops entries)"
  obtain A where A: "mset (hist s) = ?R + A"
    "A + replicate_mset (placed ops (pushers b i) (prods (ring b) i)) (entries i)
      = placed_items np ops entries (pushers b) (prods (ring b))
        + replicate_mset (placed ops (((pushers b)(i := w)) i) (prods s i)) (entries i)"
  proof -
    have sub: "?R \<subseteq># mset (hist s)"
    proof -
      obtain xs where "hist s = hist (ring b) @ xs"
        using worker_turn_event' [OF w] exec_grows [of _ "ring b"] by (metis append_Nil2)
      then have "mset (hist s) = mset (hist (ring b)) + mset xs" by simp
      then show ?thesis unfolding D(6) drained_items_def by (simp add: ac_simps)
    qed
    show ?thesis
    proof (rule that)
      show "mset (hist s) = ?R + (mset (hist s) - ?R)" using sub by simp
      show "mset (hist s) - ?R + replicate_mset (placed ops (pushers b i) (prods (ring b) i)) (entries i)
          = placed_items np ops entries (pushers b) (prods (ring b))
            + replicate_mset (placed ops (((pushers b)(i := w)) i) (prods s i)) (entries i)"
        using p(1) sub unfolding D(6) drained_items_def
        by (metis (no_types, lifting) add.assoc add_left_imp_eq fun_upd_same subset_mset.add_diff_inverse)
    qed
  qed
  from A(2) have "A = placed_items np ops entries ((pushers b)(i := w)) (prods s)"
    by (rule placed_items_update [OF True, rotated]) (use p in auto)
  then have items: "mset (hist s) = ?R + placed_items np ops entries ((pushers b)(i := w)) (prods s)"
    using A(1) by simp
  have count: "total_pushed b + counted (pushers b i) w = int (\<Sum>j<np. completed ops (((pushers b)(i := w)) j))"
  proof -
    have rm: "(\<Sum>j<np. completed ops (v j)) = completed ops (v i) + (\<Sum>j \<in> {..<np} - {i}. completed ops (v j))" for v
      by (rule sum.remove) (use True in simp_all)
    have "(\<Sum>j \<in> {..<np} - {i}. completed ops (((pushers b)(i := w)) j))
        = (\<Sum>j \<in> {..<np} - {i}. completed ops (pushers b j))"
      by (rule sum.cong) auto
    then show ?thesis
      using worker_turn_completed [OF D(3) [OF True] w] unfolding D(8) rm by simp
  qed
  have wend: "w = W_end" if "stop b" using w D(9) [OF that True] by simp
  have same: "s = ring b" if "stop b" using w D(9) [OF that True] by simp
  have hist: "hist s = hist (ring b)" if "drain b = D_final \<or> drain b = D_end" using same D(11) [OF that] by simp
  have only: "c = 0" if "live (mem s) c" for c
    using D(13) [of c] that draining_live [of again np ops entries ?t b c] unfolding eq by simp
  show ?thesis
    unfolding eq draining_inv_def drained_items_def
    using r items count p D(3,4,5,7,9-12) wend hist only True by (auto simp: fun_upd_def)
qed (use inv in simp)

lemma stopped_resting:
  assumes "draining_inv n d again np ops its entries b" and "\<forall>i<np. pushers b i = W_end"
  shows "unpublished (prods (ring b)) = {}"
  using draining_invD(3) [OF assms(1)] assms(2) by (intro stopped_published [OF assms(1)]) fastforce

lemma draining_inv_drainer:
  assumes inv: "draining_inv n d again np ops its entries b" and fit: "fits_budget n np ops its"
  shows "draining_inv n d again np ops its entries (draining_turn again np ops entries Drainer b)"
proof -
  note D = draining_invD [OF inv] and cs = draining_csys [OF inv fit]
  obtain s p where p: "drain_turn again (stop b) (ring b) (drain b) = (s, p)" by fastforce
  have eq: "draining_turn again np ops entries Drainer b = b\<lparr>ring := s, drain := p\<rparr>" by (simp add: p)
  have r: "reachable n d 1 s" "live (mem s) 0"
    using draining_reachable [OF D(1), of again np ops entries Drainer] draining_live [of again np ops entries Drainer b 0] D(2)
    unfolding eq by simp_all
  have u: "stop b \<Longrightarrow> unpublished (prods (ring b)) = {}" using stopped_resting [OF inv] D(9) by blast
  have f: "(p = D_final \<or> p = D_end \<longrightarrow> stop b)
      \<and> (p = D_final \<and> conss s 0 = C_done None \<or> p = D_end \<and> again \<longrightarrow> length (got s 0) = length (hist s))"
    by (rule drain_turn_final [OF cs(1) D(2) u D(7) D(11,12) p])
  have only: "c = 0" if "live (mem s) c" for c
    using D(13) [of c] that draining_live [of again np ops entries Drainer b c] unfolding eq by simp
  show ?thesis
    using drain_turn_frame [OF p] drain_turn_ok [OF D(7) p] r inv f only
    unfolding eq draining_inv_def drained_items_def by simp
qed

lemma draining_inv_controller:
  assumes inv: "draining_inv n d again np ops its entries b"
  shows "draining_inv n d again np ops its entries (draining_turn again np ops entries Controller b)"
proof (cases "\<forall>i<np. pushers b i = W_end")
  case True
  note D = draining_invD [OF inv]
  have rest: "prod_resting (prods (ring b) i)" if "i < np" for i using D(3) [OF that] True that by simp
  show ?thesis
  proof (cases "iterations_left b")
    case 0
    then have "draining_turn again np ops entries Controller b = b\<lparr>stop := True\<rparr>" using True by simp
    then show ?thesis using inv True 0 by (simp add: draining_inv_def drained_items_def)
  next
    case (Suc k)
    then have eq: "draining_turn again np ops entries Controller b
        = b\<lparr>pushers := (\<lambda>i. W_loop ops), iterations_left := k, total_pushed := 0\<rparr>" using True by simp
    have nst: "\<not> stop b" using D(10) Suc by auto
    have "its - k = Suc (its - iterations_left b)" using D(5) Suc by simp
    then have "mset (hist (ring b)) = repeat_mset (its - k) (all_items np ops entries)
        + placed_items np ops entries (\<lambda>i. W_loop ops) (prods (ring b))"
      unfolding D(6) drained_items_def placed_items_start placed_items_end [OF True] by simp
    then show ?thesis
      unfolding eq draining_inv_def drained_items_def using D(1,2,4,5,7,11-13) nst rest Suc by auto
  qed
next
  case False
  then have "draining_turn again np ops entries Controller b = b" by auto
  then show ?thesis using inv by simp
qed

lemma draining_inv_turn:
  assumes "draining_inv n d again np ops its entries b" and "fits_budget n np ops its"
  shows "draining_inv n d again np ops its entries (draining_turn again np ops entries t b)"
  using draining_inv_pusher [OF assms(1)] draining_inv_drainer [OF assms] draining_inv_controller [OF assms(1)]
  by (cases t) (simp_all del: draining_turn.simps)

lemma draining_inv_turns:
  assumes "draining_inv n d again np ops its entries b" and "fits_budget n np ops its"
  shows "draining_inv n d again np ops its entries (fold (draining_turn again np ops entries) ts b)"
  using assms(1)
proof (induction ts arbitrary: b)
  case (Cons t ts)
  show ?case using Cons.IH [OF draining_inv_turn [OF Cons.prems assms(2)]] by simp
qed simp

section \<open>Intervals without progress\<close>

text \<open>
  A progress value that never falls, and a quantity that goes down with every turn of one
  thread and never rises as long as the progress value stays the same: enough turns of that
  thread bring the quantity to zero, unless there is progress. \<open>J\<close> holds in such intervals.
\<close>

lemma stage:
  fixes V f :: "'s \<Rightarrow> nat"
  assumes mono: "\<And>t s. I s \<Longrightarrow> I (step t s) \<and> V s \<le> V (step t s)"
    and dec: "\<And>t s. I s \<Longrightarrow> J s \<Longrightarrow> P t \<Longrightarrow> V (step t s) = V s
      \<Longrightarrow> J (step t s) \<and> f (step t s) \<le> f s - (if t = u then 1 else 0)"
    and start: "I s" "J s" and ts: "\<forall>t \<in> set ts. P t" and still: "V (fold step ts s) = V s"
  shows "I (fold step ts s) \<and> J (fold step ts s) \<and> f (fold step ts s) \<le> f s - count_list ts u"
  using start ts still
proof (induction ts arbitrary: s)
  case (Cons t ts)
  have later: "V s \<le> V (fold step ts s)" if "I s" for s
    using that
  proof (induction ts arbitrary: s)
    case (Cons t ts)
    show ?case using Cons.IH [of "step t s"] mono [OF Cons.prems, of t] by simp
  qed simp
  note m = mono [OF Cons.prems(1), of t]
  have same: "V (step t s) = V s" using later [of "step t s"] m Cons.prems(4) by simp
  have P: "P t" "\<forall>t \<in> set ts. P t" using Cons.prems(3) by simp_all
  note d = dec [OF Cons.prems(1,2) P(1) same]
  have still: "V (fold step ts (step t s)) = V (step t s)" using Cons.prems(4) same by simp
  have "I (fold step ts (step t s)) \<and> J (fold step ts (step t s))
      \<and> f (fold step ts (step t s)) \<le> f (step t s) - count_list ts u"
    using Cons.IH [OF _ _ P(2) still] m d by blast
  then show ?case using d by (auto split: if_splits)
qed simp

text \<open>What counts as progress: a claim, the end of an iteration, of all of them, of the drain thread.\<close>

definition progress :: "nat \<Rightarrow> 'a draining \<Rightarrow> nat" where
  "progress its b = length (hist (ring b)) + (its - iterations_left b) + (if stop b then 1 else 0)
     + (if drain b = D_end then 1 else 0)"

lemma turn_monotone:
  assumes "draining_inv n d again np ops its entries b"
  shows "its - iterations_left b \<le> its - iterations_left (draining_turn again np ops entries t b)
    \<and> (stop b \<longrightarrow> stop (draining_turn again np ops entries t b))
    \<and> (drain b = D_end \<longrightarrow> drain (draining_turn again np ops entries t b) = D_end)"
  using draining_invD(10) [OF assms] by (cases t) (auto split: prod.splits nat.splits)

lemma progress_mono:
  assumes "draining_inv n d again np ops its entries b"
  shows "progress its b \<le> progress its (draining_turn again np ops entries t b)"
  using turn_monotone [OF assms, of t] draining_grows [of b again np ops entries t] by (auto simp: progress_def)

lemma progress_same:
  assumes "draining_inv n d again np ops its entries b"
    and "progress its (draining_turn again np ops entries t b) = progress its b"
  shows "length (hist (ring (draining_turn again np ops entries t b))) = length (hist (ring b))"
    "stop (draining_turn again np ops entries t b) = stop b"
    "its - iterations_left (draining_turn again np ops entries t b) = its - iterations_left b"
    "(drain (draining_turn again np ops entries t b) = D_end) = (drain b = D_end)"
  using turn_monotone [OF assms(1), of t] draining_grows [of b again np ops entries t] assms(2)
  by (auto simp: progress_def split: if_splits)

lemma still_others:
  assumes "draining_inv n d again np ops its entries b"
    and "progress its (draining_turn again np ops entries t b) = progress its b"
  shows "\<forall>sp. t \<noteq> Pusher i sp \<Longrightarrow> prods (ring (draining_turn again np ops entries t b)) i = prods (ring b) i
      \<and> pushers (draining_turn again np ops entries t b) i = pushers b i"
    "t \<noteq> Drainer \<Longrightarrow> drain (draining_turn again np ops entries t b) = drain b
      \<and> conss (ring (draining_turn again np ops entries t b)) = conss (ring b)
      \<and> got (ring (draining_turn again np ops entries t b)) = got (ring b)
      \<and> helps (ring (draining_turn again np ops entries t b)) = helps (ring b)"
proof -
  show "prods (ring (draining_turn again np ops entries t b)) i = prods (ring b) i
      \<and> pushers (draining_turn again np ops entries t b) i = pushers b i" if "\<forall>sp. t \<noteq> Pusher i sp"
  proof (cases t)
    case (Pusher j sp)
    obtain s w where w: "worker_turn (entries j) j sp (ring b) (pushers b j) = (s, w)" by fastforce
    show ?thesis using worker_turn_frame [OF w] that by (auto simp: Pusher w)
  next
    case Drainer
    obtain s p where p: "drain_turn again (stop b) (ring b) (drain b) = (s, p)" by fastforce
    show ?thesis using drain_turn_frame [OF p] by (simp add: Drainer p)
  next
    case Controller
    have "its - iterations_left (draining_turn again np ops entries t b) = its - iterations_left b"
      by (rule progress_same(3) [OF assms])
    then show ?thesis
      using draining_invD(5) [OF assms(1)] by (auto simp: Controller split: nat.splits)
  qed
  show "drain (draining_turn again np ops entries t b) = drain b
      \<and> conss (ring (draining_turn again np ops entries t b)) = conss (ring b)
      \<and> got (ring (draining_turn again np ops entries t b)) = got (ring b)
      \<and> helps (ring (draining_turn again np ops entries t b)) = helps (ring b)" if "t \<noteq> Drainer"
  proof (cases t)
    case (Pusher j sp)
    obtain s w where w: "worker_turn (entries j) j sp (ring b) (pushers b j) = (s, w)" by fastforce
    show ?thesis using worker_turn_frame [OF w] by (auto simp: Pusher w)
  qed (use that in \<open>auto split: nat.splits\<close>)
qed

text \<open>An own turn of a producer, as a turn of its thread alone.\<close>

lemma pusher_turn:
  assumes "i < np"
  shows "worker_turn (entries i) i sp (ring b) (pushers b i)
    = (ring (draining_turn again np ops entries (Pusher i sp) b),
       pushers (draining_turn again np ops entries (Pusher i sp) b) i)"
proof -
  obtain s w where "worker_turn (entries i) i sp (ring b) (pushers b i) = (s, w)" by fastforce
  then show ?thesis using assms by simp
qed

section \<open>First stage: claimed positions are published\<close>

fun publish_left :: "'a ppc \<Rightarrow> nat" where
  "publish_left (P_copy x h) = 2"
| "publish_left (P_publish x h) = 1"
| "publish_left pc = 0"

lemma publish_left_own:
  assumes "worker_turn x i sp s w = (s', w')" and "length (hist s') = length (hist s)"
    and "worker_ok ops x w (prods s i)"
  shows "publish_left (prods s' i) \<le> publish_left (prods s i) - 1"
proof (cases w)
  case (W_loop k)
  have "publish_left (prods s i) = 0" using assms(3) W_loop by (cases "prods s i") (simp_all add: prod_resting_def)
  moreover have "prods s' i = prods s i \<or> prods s' i = P_load_head x"
    using assms(1,3) W_loop by (cases k) auto
  ultimately show ?thesis by auto
next
  case (W_push k)
  then show ?thesis
    using assms
    by (cases "prods s i") (auto simp: do_prod_def claimed_item_def Let_def split: bool.splits if_splits)
next
  case W_end
  then show ?thesis using assms by (cases "prods s i") (auto simp: prod_resting_def)
qed

lemma publish_left_turn:
  assumes inv: "draining_inv n d again np ops its entries b" and i: "i < np"
    and same: "progress its (draining_turn again np ops entries t b) = progress its b"
  shows "publish_left (prods (ring (draining_turn again np ops entries t b)) i)
    \<le> publish_left (prods (ring b) i) - (if t = Pusher i False then 1 else 0)"
proof (cases "\<exists>sp. t = Pusher i sp")
  case True
  then obtain sp where t: "t = Pusher i sp" by blast
  show ?thesis
    using publish_left_own [OF pusher_turn [OF i, of entries sp b again ops] _ draining_invD(3) [OF inv i]]
      progress_same(1) [OF inv same]
    unfolding t by (cases sp) simp_all
next
  case False
  then show ?thesis using still_others(1) [OF inv same, of i] by auto
qed

lemma all_published:
  assumes "draining_inv n d again np ops its entries b" and "\<forall>i<np. publish_left (prods (ring b) i) = 0"
  shows "unpublished (prods (ring b)) = {}"
proof -
  have "claim_of (prods (ring b) i) = None" for i
    using draining_invD(4) [OF assms(1), of i] assms(2)
    by (cases "i < np"; cases "prods (ring b) i") force+
  then show ?thesis by (simp add: unpublished_def)
qed

lemma published_publish_left: "unpublished pcs = {} \<Longrightarrow> publish_left (pcs i) = 0"
  using unpublishedI [of pcs i] by (cases "pcs i") fastforce+

lemma published_still:
  assumes inv: "draining_inv n d again np ops its entries b" and fit: "fits_budget n np ops its"
    and same: "progress its (draining_turn again np ops entries t b) = progress its b"
    and u: "unpublished (prods (ring b)) = {}"
  shows "unpublished (prods (ring (draining_turn again np ops entries t b))) = {}"
proof (rule all_published [OF draining_inv_turn [OF inv fit]], intro allI impI)
  fix i assume "i < np"
  then show "publish_left (prods (ring (draining_turn again np ops entries t b)) i) = 0"
    using publish_left_turn [OF inv _ same, of i] published_publish_left [OF u, of i] by simp
qed

section \<open>Second stage: the drain thread catches up\<close>

definition unread :: "'a draining \<Rightarrow> nat" where
  "unread b = length (hist (ring b)) - length (got (ring b) 0)"

fun drain_phase :: "drain_pc \<Rightarrow> 'a cpc \<Rightarrow> hpc \<Rightarrow> nat" where
  "drain_phase D_pop pc h = (case pc of C_done None \<Rightarrow> 74 | C_done (Some x) \<Rightarrow> 6 | _ \<Rightarrow> pop_rank pc)"
| "drain_phase D_min pc h = 7 + recompute_left h"
| "drain_phase p pc h = 6"

definition drain_left :: "'a draining \<Rightarrow> nat" where
  "drain_left b = (if unread b = 0 then 0
     else 7 * unread b + drain_phase (drain b) (conss (ring b) 0) (helps (ring b) 0))"

lemma unread_bound:
  assumes inv: "draining_inv n d again np ops its entries b" and fit: "fits_budget n np ops its"
  shows "unread b \<le> n"
proof -
  note cs = draining_csys [OF inv fit] and lv = draining_invD(2) [OF inv]
  show ?thesis
    using shared_inv_live(2) [OF csys_invD(1) [OF cs(1)] lv] got_bound(2) [OF cs(1), of 0] cs(2)
    by (simp add: unread_def)
qed

lemma drain_left_bound:
  assumes "draining_inv n d again np ops its entries b" and "fits_budget n np ops its"
  shows "drain_left b \<le> 7 * n + 74"
proof -
  have "drain_phase p pc h \<le> 74" for p h and pc :: "'a cpc"
    using recompute_left_bound [of h] by (cases p; cases pc) (auto split: option.splits)
  from this [of "drain b" "conss (ring b) 0" "helps (ring b) 0"] show ?thesis
    using unread_bound [OF assms] by (simp add: drain_left_def)
qed

lemma drain_turn_left:
  assumes inv: "csys_inv s" and lv: "live (mem s) 0" and u: "unpublished (prods s) = {}"
    and ok: "drain_ok p (conss s 0) (helps s 0)" and p: "p \<noteq> D_final" "p \<noteq> D_end"
    and t: "drain_turn again False s p = (s', p')" and more: "length (got s 0) < length (hist s)"
  shows "length (got s 0) \<le> length (got s' 0)
    \<and> (length (hist s) - length (got s' 0) = 0
      \<or> 7 * (length (hist s) - length (got s' 0)) + drain_phase p' (conss s' 0) (helps s' 0)
        < 7 * (length (hist s) - length (got s 0)) + drain_phase p (conss s 0) (helps s 0))"
proof (cases p)
  case D_test
  then show ?thesis using t ok by (auto simp: cons_resting_def)
next
  case D_min
  have "recompute_left (helps (do_help 0 s) 0) < recompute_left (helps s 0)" if "helps s 0 \<noteq> H_idle"
    using csys_invD(6) [OF inv, of 0] that by (cases "helps s 0") (auto simp: do_help_def scan_inv_def)
  moreover have "got (do_help 0 s) = got s" by (simp add: do_help_def split_beta)
  ultimately show ?thesis using t D_min by (auto split: if_splits)
next
  case D_pop
  show ?thesis
  proof (cases "conss s 0")
    case (C_load_seq q)
    then show ?thesis
      using pop_finds_item [OF inv lv u C_load_seq more] t D_pop by (auto simp: do_cons_def received_item_def)
  next
    case C_load_active
    then show ?thesis using lv t D_pop by (auto simp: do_cons_def received_item_def live_def)
  next
    case (C_done r)
    then show ?thesis using ok t D_pop by (cases r) (auto simp: cons_resting_def)
  next
    case (C_advance q x)
    then show ?thesis using more t D_pop by (auto simp: do_cons_def received_item_def)
  qed (use ok t D_pop in \<open>auto simp: do_cons_def received_item_def\<close>)
qed (use p in simp_all)

lemma drain_turn_got: "drain_turn again st s p = (s', p') \<Longrightarrow> length (got s 0) \<le> length (got s' 0)"
  by (induction again st s p rule: drain_turn.induct)
    (auto simp: do_cons_def do_help_def split: cpc.splits option.splits if_splits prod.splits)

lemma drainer_turn:
  "drain_turn again (stop b) (ring b) (drain b)
    = (ring (draining_turn again np ops entries Drainer b), drain (draining_turn again np ops entries Drainer b))"
  by (simp split: prod.split)

lemma drain_left_turn:
  assumes inv: "draining_inv n d again np ops its entries b" and fit: "fits_budget n np ops its"
    and same: "progress its (draining_turn again np ops entries t b) = progress its b"
    and u: "unpublished (prods (ring b)) = {}" and run: "\<not> stop b"
  shows "drain_left (draining_turn again np ops entries t b) \<le> drain_left b - (if t = Drainer then 1 else 0)"
proof (cases "t = Drainer")
  case True
  note D = draining_invD [OF inv] and cs = draining_csys [OF inv fit]
  let ?b = "draining_turn again np ops entries Drainer b"
  have h: "length (hist (ring ?b)) = length (hist (ring b))" using progress_same(1) [OF inv same] True by simp
  note dt = drainer_turn [of again b np ops entries]
  have p: "drain b \<noteq> D_final" "drain b \<noteq> D_end" using D(11) run by blast+
  show ?thesis
  proof (cases "length (got (ring b) 0) < length (hist (ring b))")
    case True
    have "stop b = False" using run by simp
    note l = drain_turn_left [OF cs(1) D(2) u D(7) p dt [unfolded this] True]
    show ?thesis using l h True \<open>t = Drainer\<close> by (auto simp: drain_left_def unread_def)
  next
    case False
    then show ?thesis using drain_turn_got [OF dt] h \<open>t = Drainer\<close> by (simp add: drain_left_def unread_def)
  qed
next
  case False
  then show ?thesis
    using still_others(2) [OF inv same False] progress_same(1) [OF inv same] by (simp add: drain_left_def unread_def)
qed

section \<open>Third stage: every producer gets its item accepted or ends\<close>

text \<open>
  Once everything claimed has been published and received, a call of \<open>push\<close> that began afterwards
  claims its position: the head it loads is the current one, its scan sees no older tail.
\<close>

fun fresh_call :: "nat \<Rightarrow> 'a ppc \<Rightarrow> bool" where
  "fresh_call H (P_load_head x) = True"
| "fresh_call H (P_load_min x h) = (unat h = H)"
| "fresh_call H (P_scan_active x h mt k accs) = (unat h = H \<and> (\<forall>a \<in> set accs. H \<le> unat a))"
| "fresh_call H (P_scan_tail x h mt k accs) = (unat h = H \<and> (\<forall>a \<in> set accs. H \<le> unat a) \<and> k = 0)"
| "fresh_call H (P_store_min x h mt m) = (unat h = H \<and> H \<le> unat m)"
| "fresh_call H (P_cas x h) = (unat h = H)"
| "fresh_call H pc = False"

fun call_left :: "'a ppc \<Rightarrow> nat" where
  "call_left (P_load_head x) = 72"
| "call_left (P_load_min x h) = 71"
| "call_left (P_scan_active x h mt k accs) = 2 * (32 - k) + 4"
| "call_left (P_scan_tail x h mt k accs) = 2 * (32 - k) + 3"
| "call_left (P_store_min x h mt m) = 2"
| "call_left (P_cas x h) = 1"
| "call_left pc = 0"

fun pusher_left :: "nat \<Rightarrow> worker \<Rightarrow> 'a ppc \<Rightarrow> nat" where
  "pusher_left H W_end pc = 0"
| "pusher_left H (W_loop k) pc = (if k = 0 then 1 else 75)"
| "pusher_left H (W_push k) pc =
     (if pc = P_done True then 76 else if fresh_call H pc then call_left pc else 73 + call_left pc)"

lemma call_left_bound: "call_left pc \<le> 72"
  by (cases pc) auto

lemma pusher_left_bound: "pusher_left H w pc \<le> 145"
  using call_left_bound [of pc] by (cases w) auto

definition caught_up :: "'a csys \<Rightarrow> bool" where
  "caught_up s \<longleftrightarrow> unpublished (prods s) = {} \<and> live (mem s) 0 \<and> (\<forall>c. live (mem s) c \<longrightarrow> c = 0)
     \<and> length (got s 0) = length (hist s)"

lemma caught_up_tail:
  assumes "csys_inv s" and "caught_up s"
  shows "unat (queue_tail (mem s) 0) = length (hist s)" "unat (queue_head (mem s)) = length (hist s)"
    "length (hist s) < 2 ^ 64 - 1" "0 < length (slots (mem s))"
  using got_bound(2) [OF assms(1), of 0] assms(2) shared_invD(3,4,6) [OF csys_invD(1) [OF assms(1)]]
  by (simp_all add: caught_up_def)

lemma unread_zero: "unread b = 0 \<Longrightarrow> csys_inv (ring b) \<Longrightarrow> length (got (ring b) 0) = length (hist (ring b))"
  using got_bound(1) [of "ring b" 0] by (simp add: unread_def)

lemma fresh_step:
  assumes inv: "csys_inv s" and cu: "caught_up s" and H: "H = length (hist s)"
    and fr: "fresh_call H (prods s i)" and same: "length (hist (do_prod i False s)) = length (hist s)"
  shows "fresh_call H (prods (do_prod i False s) i) \<and> call_left (prods (do_prod i False s) i) < call_left (prods s i)"
proof -
  note cd = csys_invD [OF inv] and ct = caught_up_tail [OF inv cu]
  note P = cd(2) [of i]
  have only: "k = 0" if "k < 32" "active (consumers (mem s) ! k)" for k
  proof -
    have k: "unat (of_nat k :: u32) = k" using that(1) by (simp add: unat_of_nat take_bit_nat_eq_self)
    then have "live (mem s) (of_nat k)"
      using that shared_invD(2) [OF cd(1)] by (simp add: live_def is_active_def)
    then have "(of_nat k :: u32) = 0" using cu by (simp add: caught_up_def)
    then show ?thesis using k by simp
  qed
  show ?thesis
  proof (cases "prods s i")
    case (P_load_head x)
    then show ?thesis using ct(2) H by (simp add: do_prod_def)
  next
    case (P_load_min x h)
    then show ?thesis using fr ct(3) H by (auto simp: do_prod_def Let_def unat_INVALID_POS)
  next
    case (P_scan_active x h mt k accs)
    have sc: "scan_inv (mem s) (unpublished (prods s)) k accs" using P P_scan_active by simp
    then have len: "length accs = 4" and k: "k \<le> 32" by (simp_all add: scan_inv_def)
    consider "k < 32" "active (consumers (mem s) ! k)" | "k < 32" "\<not> active (consumers (mem s) ! k)" | "k = 32"
      using k by force
    then show ?thesis
    proof cases
      case 1
      then show ?thesis using fr only [OF 1] P_scan_active by (simp add: do_prod_def)
    next
      case 2
      then show ?thesis using fr P_scan_active by (simp add: do_prod_def)
    next
      case 3
      have "\<exists>a \<in> set accs. unat a \<le> unat (queue_tail (mem s) 0)"
        using sc cu 3 by (simp add: scan_inv_def caught_up_def)
      then have "\<not> all_unset accs" using ct(1,3) unat_INVALID_POS unfolding all_unset_def by fastforce
      then have "merge_accs accs \<in> set accs" using merge_accs_unset [OF len] by blast
      then show ?thesis using fr 3 P_scan_active by (simp add: do_prod_def)
    qed
  next
    case (P_scan_tail x h mt k accs)
    have k: "k = 0" and len: "length accs = 4" using fr P P_scan_tail by (simp_all add: scan_inv_def)
    have tl: "unat (tail (consumers (mem s) ! 0)) = H" using ct(1) H by (simp add: queue_tail_def)
    have "H \<le> unat (min (accs ! 0) (tail (consumers (mem s) ! 0)))"
      using fr P_scan_tail k len tl by (auto simp: min_def)
    then have "\<forall>a \<in> set (accs[0 := min (accs ! 0) (tail (consumers (mem s) ! 0))]). H \<le> unat a"
      using fr P_scan_tail set_update_subset_insert by fastforce
    then show ?thesis using fr P_scan_tail k by (simp add: do_prod_def)
  next
    case (P_store_min x h mt m)
    have m: "unat m = H" using fr P P_store_min below_marks_head ct(2) H by fastforce
    have "\<not> h \<ge> m + SIZE (mem s)"
      using unat_size_guard [OF cd(1), of m h] fr P_store_min m ct(2,4) H by simp
    then show ?thesis using fr P_store_min by (auto simp: do_prod_def Let_def)
  next
    case (P_cas x h)
    have "queue_head (mem s) = h" using fr P_cas ct(2) H by (simp add: word_unat_eq_iff)
    then show ?thesis using same P_cas by (simp add: do_prod_def claimed_item_def)
  qed (use fr in simp_all)
qed

lemma stale_step:
  assumes pc: "\<not> fresh_call H (prods s i)" "\<not> prod_resting (prods s i)" "claim_of (prods s i) = None"
    and inv: "csys_inv s" and H: "H = length (hist s)" and same: "length (hist (do_prod i False s)) = length (hist s)"
  shows "prods (do_prod i False s) i = P_done False \<or> fresh_call H (prods (do_prod i False s) i)
      \<or> call_left (prods (do_prod i False s) i) < call_left (prods s i)"
    "prods (do_prod i False s) i \<noteq> P_done True"
proof -
  note P = csys_invD(2) [OF inv, of i]
  have "(prods (do_prod i False s) i = P_done False \<or> fresh_call H (prods (do_prod i False s) i)
      \<or> call_left (prods (do_prod i False s) i) < call_left (prods s i)) \<and> prods (do_prod i False s) i \<noteq> P_done True"
  proof (cases "prods s i")
    case (P_scan_active x h mt k accs)
    then show ?thesis using P by (auto simp: do_prod_def scan_inv_def)
  next
    case (P_cas x h)
    then show ?thesis using same by (auto simp: do_prod_def claimed_item_def split: if_splits)
  qed (use pc P in \<open>auto simp: do_prod_def Let_def prod_resting_def scan_inv_def\<close>)
  then show "prods (do_prod i False s) i = P_done False \<or> fresh_call H (prods (do_prod i False s) i)
      \<or> call_left (prods (do_prod i False s) i) < call_left (prods s i)"
    "prods (do_prod i False s) i \<noteq> P_done True" by blast+
qed

lemma pusher_left_own:
  assumes inv: "csys_inv s" and cu: "caught_up s" and H: "H = length (hist s)"
    and ok: "worker_ok ops x w (prods s i)" and t: "worker_turn x i False s w = (s', w')"
    and same: "length (hist s') = length (hist s)"
  shows "pusher_left H w' (prods s' i) \<le> pusher_left H w (prods s i) - 1"
proof (cases w)
  case (W_loop k)
  then show ?thesis using ok t by (cases k) auto
next
  case (W_push k)
  have cl: "claim_of (prods s i) = None"
    using cu unpublishedI [of "prods s" i] by (cases "claim_of (prods s i)") (auto simp: caught_up_def)
  show ?thesis
  proof (cases "prod_resting (prods s i)")
    case True
    then obtain r where "prods s i = P_done r" using ok W_push by (cases "prods s i") (auto simp: prod_resting_def)
    then show ?thesis using t W_push by (cases r) (auto simp: prod_resting_def)
  next
    case False
    then have s': "s' = do_prod i False s" "w' = W_push k"
      using t W_push by (cases "prods s i"; auto simp: prod_resting_def split: bool.splits)+
    show ?thesis
    proof (cases "fresh_call H (prods s i)")
      case True
      then have "prods s i \<noteq> P_done True" by auto
      then show ?thesis
        using fresh_step [OF inv cu H True] same True W_push s' by auto
    next
      case stale: False
      have "prods s i \<noteq> P_done True" using False by (auto simp: prod_resting_def)
      moreover have "0 < call_left (prods s i)" using False cl by (cases "prods s i") (auto simp: prod_resting_def)
      ultimately show ?thesis
        using stale_step [OF stale False cl inv H] same stale W_push s' call_left_bound [of "prods s' i"] by auto
    qed
  qed
next
  case W_end
  then show ?thesis using t by simp
qed

definition producer_rank :: "nat \<Rightarrow> 'a draining \<Rightarrow> nat" where
  "producer_rank i b = pusher_left (length (hist (ring b))) (pushers b i) (prods (ring b) i)"

lemma caught_up_still:
  assumes inv: "draining_inv n d again np ops its entries b" and fit: "fits_budget n np ops its"
    and same: "progress its (draining_turn again np ops entries t b) = progress its b" and cu: "caught_up (ring b)"
  shows "caught_up (ring (draining_turn again np ops entries t b))"
proof -
  let ?b = "draining_turn again np ops entries t b"
  have inv': "draining_inv n d again np ops its entries ?b" by (rule draining_inv_turn [OF inv fit])
  note cs = draining_csys [OF inv' fit]
  have "length (got (ring b) 0) \<le> length (got (ring ?b) 0)"
  proof (cases "t = Drainer")
    case True
    show ?thesis using drain_turn_got [OF drainer_turn [of again b np ops entries]] unfolding True .
  next
    case False
    then show ?thesis using still_others(2) [OF inv same] by simp
  qed
  moreover have "length (got (ring ?b) 0) \<le> length (hist (ring ?b))" by (rule got_bound(1) [OF cs(1)]) simp
  moreover have "unpublished (prods (ring ?b)) = {}"
    by (rule published_still [OF inv fit same]) (use cu in \<open>simp add: caught_up_def\<close>)
  ultimately show ?thesis
    using cu progress_same(1) [OF inv same] draining_invD(2,13) [OF inv'] by (simp add: caught_up_def)
qed

lemma producer_rank_turn:
  assumes inv: "draining_inv n d again np ops its entries b" and fit: "fits_budget n np ops its" and i: "i < np"
    and same: "progress its (draining_turn again np ops entries t b) = progress its b"
    and cu: "caught_up (ring b)" and t: "t \<noteq> Pusher i True"
  shows "producer_rank i (draining_turn again np ops entries t b) \<le> producer_rank i b - (if t = Pusher i False then 1 else 0)"
proof (cases "t = Pusher i False")
  case True
  show ?thesis
    using pusher_left_own [OF draining_csys(1) [OF inv fit] cu refl draining_invD(3) [OF inv i]
        pusher_turn [OF i, of entries False b again ops]] progress_same(1) [OF inv same]
    unfolding True producer_rank_def by simp
next
  case False
  then have "\<forall>sp. t \<noteq> Pusher i sp" using t by (metis (full_types))
  then show ?thesis
    using still_others(1) [OF inv same] progress_same(1) [OF inv same] False by (simp add: producer_rank_def)
qed

section \<open>After the flag: the drain thread ends\<close>

fun ending_phase :: "drain_pc \<Rightarrow> 'a cpc \<Rightarrow> hpc \<Rightarrow> nat" where
  "ending_phase D_pop pc h = 75 + (case pc of C_done None \<Rightarrow> 0 | C_done (Some x) \<Rightarrow> 6 | _ \<Rightarrow> pop_rank pc)"
| "ending_phase D_min pc h = 8 + recompute_left h"
| "ending_phase D_test pc h = 7"
| "ending_phase D_final pc h = 1 + (case pc of C_done None \<Rightarrow> 0 | C_done (Some x) \<Rightarrow> 6 | _ \<Rightarrow> pop_rank pc)"
| "ending_phase D_end pc h = 0"

definition ending_left :: "'a draining \<Rightarrow> nat" where
  "ending_left b = (if drain b = D_end then 0
     else 7 * unread b + ending_phase (drain b) (conss (ring b) 0) (helps (ring b) 0))"

lemma ending_left_bound:
  assumes "draining_inv n d again np ops its entries b" and "fits_budget n np ops its"
  shows "ending_left b \<le> 7 * n + 81"
proof -
  have "ending_phase p pc h \<le> 81" for p h and pc :: "'a cpc"
    using recompute_left_bound [of h] by (cases p; cases pc) (auto split: option.splits)
  from this [of "drain b" "conss (ring b) 0" "helps (ring b) 0"] show ?thesis
    using unread_bound [OF assms] by (simp add: ending_left_def)
qed

lemma pop_step_left:
  assumes inv: "csys_inv s" and lv: "live (mem s) 0" and pc: "conss s 0 \<noteq> C_idle" "\<forall>r. conss s 0 \<noteq> C_done r"
  defines "rank \<equiv> \<lambda>pc. case pc of C_done None \<Rightarrow> 0 | C_done (Some x) \<Rightarrow> 6 | _ \<Rightarrow> pop_rank pc"
  shows "7 * (length (hist s) - length (got (do_cons 0 s) 0)) + rank (conss (do_cons 0 s) 0)
    < 7 * (length (hist s) - length (got s 0)) + rank (conss s 0)"
proof (cases "conss s 0")
  case (C_advance q x)
  have "queue_tail (mem s) 0 = q" "unat q < unat (queue_head (mem s))"
    using csys_invD(4) [OF inv, of 0] C_advance by (simp_all add: readable_def)
  then have "length (got s 0) < length (hist s)"
    using got_bound(2) [OF inv, of 0] shared_invD(3) [OF csys_invD(1) [OF inv]] by simp
  then show ?thesis using C_advance by (simp add: do_cons_def received_item_def rank_def)
qed (use pc lv in \<open>auto simp: do_cons_def received_item_def rank_def live_def\<close>)

lemma drain_turn_ending:
  assumes inv: "csys_inv s" and lv: "live (mem s) 0" and ok: "drain_ok p (conss s 0) (helps s 0)"
    and p: "p \<noteq> D_end" and t: "drain_turn again True s p = (s', p')"
  shows "p' = D_end
    \<or> 7 * (length (hist s) - length (got s' 0)) + ending_phase p' (conss s' 0) (helps s' 0)
      < 7 * (length (hist s) - length (got s 0)) + ending_phase p (conss s 0) (helps s 0)"
proof (cases p)
  case D_test
  then show ?thesis using t ok by (auto simp: cons_resting_def split: if_splits)
next
  case D_min
  have "recompute_left (helps (do_help 0 s) 0) < recompute_left (helps s 0)" if "helps s 0 \<noteq> H_idle"
    using csys_invD(6) [OF inv, of 0] that by (cases "helps s 0") (auto simp: do_help_def scan_inv_def)
  moreover have "got (do_help 0 s) = got s" by (simp add: do_help_def split_beta)
  ultimately show ?thesis using t D_min by (auto split: if_splits)
next
  case D_pop
  show ?thesis
  proof (cases "\<exists>r. conss s 0 = C_done r")
    case True
    then obtain r where "conss s 0 = C_done r" by blast
    then show ?thesis using ok t D_pop by (cases r) (auto simp: cons_resting_def)
  next
    case False
    then have "s' = do_cons 0 s" "p' = D_pop" using t ok D_pop by (auto split: cpc.splits)
    then show ?thesis using pop_step_left [OF inv lv] False ok D_pop by simp
  qed
next
  case D_final
  show ?thesis
  proof (cases "\<exists>r. conss s 0 = C_done r")
    case True
    then obtain r where "conss s 0 = C_done r" by blast
    then show ?thesis using ok t D_final by (cases r) (auto simp: cons_resting_def)
  next
    case False
    then have "s' = do_cons 0 s" "p' = D_final" using t ok D_final by (auto split: cpc.splits)
    then show ?thesis using pop_step_left [OF inv lv] False ok D_final by simp
  qed
qed (use p in simp)

lemma ending_left_turn:
  assumes inv: "draining_inv n d again np ops its entries b" and fit: "fits_budget n np ops its"
    and same: "progress its (draining_turn again np ops entries t b) = progress its b" and st: "stop b" "drain b \<noteq> D_end"
  shows "ending_left (draining_turn again np ops entries t b) \<le> ending_left b - (if t = Drainer then 1 else 0)"
proof (cases "t = Drainer")
  case True
  note D = draining_invD [OF inv] and cs = draining_csys [OF inv fit]
  let ?b = "draining_turn again np ops entries Drainer b"
  have "stop b = True" using st by simp
  note l = drain_turn_ending [OF cs(1) D(2,7) st(2) drainer_turn [of again b np ops entries, unfolded this]]
  have h: "length (hist (ring ?b)) = length (hist (ring b))" using progress_same(1) [OF inv same] True by simp
  show ?thesis using l h st(2) True by (auto simp: ending_left_def unread_def)
next
  case False
  then show ?thesis
    using still_others(2) [OF inv same False] progress_same(1) [OF inv same] by (simp add: ending_left_def unread_def)
qed

section \<open>Fair schedules make progress\<close>

text \<open>A sweep gives every thread at least \<open>k\<close> turns, in any order, without spurious failures.\<close>

definition steady :: "drain_event \<Rightarrow> bool" where
  "steady t \<longleftrightarrow> (case t of Pusher i spurious \<Rightarrow> \<not> spurious | _ \<Rightarrow> True)"

definition sweep :: "nat \<Rightarrow> nat \<Rightarrow> drain_event list \<Rightarrow> bool" where
  "sweep np k ts \<longleftrightarrow> (\<forall>i<np. k \<le> count_list ts (Pusher i False)) \<and> k \<le> count_list ts Drainer
     \<and> k \<le> count_list ts Controller \<and> (\<forall>t \<in> set ts. steady t)"

definition SWEEP :: "nat \<Rightarrow> nat" where
  "SWEEP n = 7 * n + 200"

lemma sweepD:
  assumes "sweep np k ts"
  shows "i < np \<Longrightarrow> k \<le> count_list ts (Pusher i False)" "k \<le> count_list ts Drainer"
    "k \<le> count_list ts Controller" "\<forall>t \<in> set ts. steady t"
  using assms by (simp_all add: sweep_def)

text \<open>\<open>stage\<close> for this system, with the quantity exhausted by one sweep.\<close>

lemma draining_stage:
  assumes fit: "fits_budget n np ops its" and inv: "draining_inv n d again np ops its entries b"
    and dec: "\<And>t b. draining_inv n d again np ops its entries b \<Longrightarrow> J b \<Longrightarrow> steady t
      \<Longrightarrow> progress its (draining_turn again np ops entries t b) = progress its b
      \<Longrightarrow> J (draining_turn again np ops entries t b)
        \<and> f (draining_turn again np ops entries t b) \<le> f b - (if t = u then 1 else 0)"
    and J: "J b" and ts: "\<forall>t \<in> set ts. steady t" and enough: "f b \<le> count_list ts u"
    and still: "progress its (fold (draining_turn again np ops entries) ts b) = progress its b"
  shows "J (fold (draining_turn again np ops entries) ts b) \<and> f (fold (draining_turn again np ops entries) ts b) = (0 :: nat)"
proof -
  have "draining_inv n d again np ops its entries (fold (draining_turn again np ops entries) ts b)
      \<and> J (fold (draining_turn again np ops entries) ts b)
      \<and> f (fold (draining_turn again np ops entries) ts b) \<le> f b - count_list ts u"
  proof (rule stage [where P = steady and V = "progress its"])
    fix t and s :: "'a draining"
    assume i: "draining_inv n d again np ops its entries s"
    show "draining_inv n d again np ops its entries (draining_turn again np ops entries t s)
        \<and> progress its s \<le> progress its (draining_turn again np ops entries t s)"
      using draining_inv_turn [OF i fit] progress_mono [OF i] by blast
  qed (rule dec inv J ts still; assumption?)+
  then show ?thesis using enough by simp
qed

lemma stopped_sweep:
  assumes fit: "fits_budget n np ops its" and inv: "draining_inv n d again np ops its entries b"
    and st: "stop b" "drain b \<noteq> D_end" and ts: "sweep np (SWEEP n) ts"
  shows "progress its (fold (draining_turn again np ops entries) ts b) \<noteq> progress its b"
proof
  assume still: "progress its (fold (draining_turn again np ops entries) ts b) = progress its b"
  let ?J = "\<lambda>b :: 'a draining. stop b \<and> drain b \<noteq> D_end"
  have "?J (fold (draining_turn again np ops entries) ts b)
      \<and> ending_left (fold (draining_turn again np ops entries) ts b) = 0"
  proof (rule draining_stage [where J = ?J and f = ending_left and u = Drainer, OF fit inv _ _ sweepD(4) [OF ts] _ still])
    fix t and s :: "'a draining"
    assume a: "draining_inv n d again np ops its entries s" "?J s"
      "progress its (draining_turn again np ops entries t s) = progress its s"
    show "?J (draining_turn again np ops entries t s)
        \<and> ending_left (draining_turn again np ops entries t s) \<le> ending_left s - (if t = Drainer then 1 else 0)"
      using ending_left_turn [OF a(1) fit a(3)] progress_same(2,4) [OF a(1,3)] a(2) by blast
  next
    show "?J b" using st by blast
    show "ending_left b \<le> count_list ts Drainer"
      using ending_left_bound [OF inv fit] sweepD(2) [OF ts] by (simp add: SWEEP_def)
  qed
  then show False
    by (cases "drain (fold (draining_turn again np ops entries) ts b)") (auto simp: ending_left_def)
qed

lemma still_running:
  assumes fit: "fits_budget n np ops its" and inv: "draining_inv n d again np ops its entries b"
    and run: "\<not> stop b" and ts: "sweep np (SWEEP n) ts"
    and still: "progress its (fold (draining_turn again np ops entries) ts b) = progress its b"
  shows "\<not> stop (fold (draining_turn again np ops entries) ts b)"
proof -
  have "\<not> stop (fold (draining_turn again np ops entries) ts b) \<and> (0 :: nat) = 0"
  proof (rule draining_stage [where J = "\<lambda>b. \<not> stop b" and f = "\<lambda>b. 0" and u = Drainer, OF fit inv _ run sweepD(4) [OF ts] _ still])
    fix t and s :: "'a draining"
    assume a: "draining_inv n d again np ops its entries s" "\<not> stop s"
      "progress its (draining_turn again np ops entries t s) = progress its s"
    show "\<not> stop (draining_turn again np ops entries t s) \<and> (0 :: nat) \<le> 0 - (if t = Drainer then 1 else 0)"
      using progress_same(2) [OF a(1,3)] a(2) by simp
  qed simp
  then show ?thesis by blast
qed

lemma publish_sweep:
  assumes fit: "fits_budget n np ops its" and inv: "draining_inv n d again np ops its entries b"
    and ts: "sweep np (SWEEP n) ts" and i: "i < np"
    and still: "progress its (fold (draining_turn again np ops entries) ts b) = progress its b"
  shows "publish_left (prods (ring (fold (draining_turn again np ops entries) ts b)) i) = 0"
proof -
  let ?f = "\<lambda>b :: 'a draining. publish_left (prods (ring b) i)"
  have "True \<and> ?f (fold (draining_turn again np ops entries) ts b) = 0"
  proof (rule draining_stage [where J = "\<lambda>b. True" and f = ?f and u = "Pusher i False", OF fit inv _ TrueI sweepD(4) [OF ts] _ still])
    fix t and s :: "'a draining"
    assume a: "draining_inv n d again np ops its entries s" "progress its (draining_turn again np ops entries t s) = progress its s"
    show "True \<and> ?f (draining_turn again np ops entries t s) \<le> ?f s - (if t = Pusher i False then 1 else 0)"
      using publish_left_turn [OF a(1) i a(2)] by blast
  next
    show "?f b \<le> count_list ts (Pusher i False)"
      using sweepD(1) [OF ts i] by (cases "prods (ring b) i") (auto simp: SWEEP_def)
  qed
  then show ?thesis by blast
qed

lemma catch_up_sweep:
  assumes fit: "fits_budget n np ops its" and inv: "draining_inv n d again np ops its entries b"
    and run: "\<not> stop b" "unpublished (prods (ring b)) = {}" and ts: "sweep np (SWEEP n) ts"
    and still: "progress its (fold (draining_turn again np ops entries) ts b) = progress its b"
  shows "caught_up (ring (fold (draining_turn again np ops entries) ts b))"
proof -
  let ?J = "\<lambda>b :: 'a draining. \<not> stop b \<and> unpublished (prods (ring b)) = {}"
  let ?b = "fold (draining_turn again np ops entries) ts b"
  have r: "?J ?b \<and> drain_left ?b = 0"
  proof (rule draining_stage [where J = ?J and f = drain_left and u = Drainer, OF fit inv _ _ sweepD(4) [OF ts] _ still])
    fix t and s :: "'a draining"
    assume a: "draining_inv n d again np ops its entries s" "?J s"
      "progress its (draining_turn again np ops entries t s) = progress its s"
    show "?J (draining_turn again np ops entries t s)
        \<and> drain_left (draining_turn again np ops entries t s) \<le> drain_left s - (if t = Drainer then 1 else 0)"
      using drain_left_turn [OF a(1) fit a(3)] published_still [OF a(1) fit a(3)] progress_same(2) [OF a(1,3)] a(2) by simp
  next
    show "?J b" using run by blast
    show "drain_left b \<le> count_list ts Drainer"
      using drain_left_bound [OF inv fit] sweepD(2) [OF ts] by (simp add: SWEEP_def)
  qed
  have inv': "draining_inv n d again np ops its entries ?b" by (rule draining_inv_turns [OF inv fit])
  have "unread ?b = 0" using r by (simp add: drain_left_def split: if_splits)
  then show ?thesis
    using unread_zero draining_csys(1) [OF inv' fit] draining_invD(2,13) [OF inv'] r by (simp add: caught_up_def)
qed

lemma producers_sweep:
  assumes fit: "fits_budget n np ops its" and inv: "draining_inv n d again np ops its entries b"
    and cu: "caught_up (ring b)" and ts: "sweep np (SWEEP n) ts" and i: "i < np"
    and still: "progress its (fold (draining_turn again np ops entries) ts b) = progress its b"
  shows "pushers (fold (draining_turn again np ops entries) ts b) i = W_end"
proof -
  let ?J = "\<lambda>b :: 'a draining. caught_up (ring b)" and ?b = "fold (draining_turn again np ops entries) ts b"
  have inv': "draining_inv n d again np ops its entries ?b" by (rule draining_inv_turns [OF inv fit])
  have r: "?J ?b \<and> producer_rank i ?b = 0"
  proof (rule draining_stage [where J = ?J and f = "producer_rank i" and u = "Pusher i False", OF fit inv _ cu sweepD(4) [OF ts] _ still])
    fix t and s :: "'a draining"
    assume a: "draining_inv n d again np ops its entries s" "?J s" "steady t"
      "progress its (draining_turn again np ops entries t s) = progress its s"
    have "t \<noteq> Pusher i True" using a(3) by (auto simp: steady_def)
    then show "?J (draining_turn again np ops entries t s)
        \<and> producer_rank i (draining_turn again np ops entries t s) \<le> producer_rank i s - (if t = Pusher i False then 1 else 0)"
      using producer_rank_turn [OF a(1) fit i a(4,2)] caught_up_still [OF a(1) fit a(4,2)] by blast
  next
    show "producer_rank i b \<le> count_list ts (Pusher i False)"
      using pusher_left_bound [of "length (hist (ring b))" "pushers b i" "prods (ring b) i"] sweepD(1) [OF ts i]
      by (simp add: producer_rank_def SWEEP_def)
  qed
  then have "unpublished (prods (ring ?b)) = {}" by (simp add: caught_up_def)
  then have "claim_of (prods (ring ?b) i) = None"
    using unpublishedI [of "prods (ring ?b)" i] by (cases "claim_of (prods (ring ?b) i)") auto
  then show ?thesis
    using r draining_invD(3) [OF inv' i]
    by (cases "pushers ?b i"; cases "prods (ring ?b) i") (auto simp: producer_rank_def split: if_splits)
qed

lemma controller_progress:
  assumes "draining_inv n d again np ops its entries b" and "\<not> stop b" and "\<forall>i<np. pushers b i = W_end"
  shows "progress its (draining_turn again np ops entries Controller b) \<noteq> progress its b"
  using assms(2,3) draining_invD(5) [OF assms(1)] by (auto simp: progress_def split: nat.splits)

lemma controller_sweep:
  assumes fit: "fits_budget n np ops its" and inv: "draining_inv n d again np ops its entries b"
    and run: "\<not> stop b" "\<forall>i<np. pushers b i = W_end" and ts: "sweep np (SWEEP n) ts"
  shows "progress its (fold (draining_turn again np ops entries) ts b) \<noteq> progress its b"
proof
  assume still: "progress its (fold (draining_turn again np ops entries) ts b) = progress its b"
  let ?J = "\<lambda>b :: 'a draining. \<not> stop b \<and> (\<forall>i<np. pushers b i = W_end)"
  have "?J (fold (draining_turn again np ops entries) ts b) \<and> (1 :: nat) = 0"
  proof (rule draining_stage [where J = ?J and f = "\<lambda>b. 1" and u = Controller, OF fit inv _ _ sweepD(4) [OF ts] _ still])
    fix t and s :: "'a draining"
    assume a: "draining_inv n d again np ops its entries s" "?J s"
      "progress its (draining_turn again np ops entries t s) = progress its s"
    have "t \<noteq> Controller" using controller_progress [OF a(1)] a(2,3) by auto
    moreover have "pushers (draining_turn again np ops entries t s) i = W_end" if "i < np" for i
    proof (cases "\<exists>sp. t = Pusher i sp")
      case True
      then show ?thesis using a(2) that by auto
    next
      case False
      then show ?thesis using still_others(1) [OF a(1,3), of i] a(2) that by simp
    qed
    ultimately show "?J (draining_turn again np ops entries t s) \<and> (1 :: nat) \<le> 1 - (if t = Controller then 1 else 0)"
      using progress_same(2) [OF a(1,3)] a(2) by simp
  next
    show "?J b" using run by blast
    show "1 \<le> count_list ts Controller" using sweepD(3) [OF ts] by (simp add: SWEEP_def)
  qed
  then show False by simp
qed

definition all_ended :: "'a draining \<Rightarrow> bool" where
  "all_ended b \<longleftrightarrow> stop b \<and> drain b = D_end"

lemma all_ended_stays:
  assumes "draining_inv n d again np ops its entries b" and "fits_budget n np ops its" and "all_ended b"
  shows "all_ended (fold (draining_turn again np ops entries) ts b)"
  using assms(1,3)
proof (induction ts arbitrary: b)
  case (Cons t ts)
  have "all_ended (draining_turn again np ops entries t b)"
    using turn_monotone [OF Cons.prems(1), of t] Cons.prems(2) unfolding all_ended_def by blast
  then show ?case using Cons.IH [OF draining_inv_turn [OF Cons.prems(1) assms(2)]] by simp
qed simp

lemma progress_turns:
  assumes "draining_inv n d again np ops its entries b" and "fits_budget n np ops its"
  shows "progress its b \<le> progress its (fold (draining_turn again np ops entries) ts b)"
  using assms(1)
proof (induction ts arbitrary: b)
  case (Cons t ts)
  show ?case
    using Cons.IH [OF draining_inv_turn [OF Cons.prems assms(2)]] progress_mono [OF Cons.prems, of t]
    by (auto intro: order_trans)
qed simp

text \<open>Four sweeps: publish, catch up, complete the pushes, move on.\<close>

lemma four_sweeps:
  assumes fit: "fits_budget n np ops its" and inv: "draining_inv n d again np ops its entries b"
    and ts: "sweep np (SWEEP n) ts1" "sweep np (SWEEP n) ts2" "sweep np (SWEEP n) ts3" "sweep np (SWEEP n) ts4"
    and going: "\<not> all_ended b"
  shows "progress its b < progress its (fold (draining_turn again np ops entries) (ts1 @ ts2 @ ts3 @ ts4) b)"
proof (rule ccontr)
  let ?run = "fold (draining_turn again np ops entries)"
  let ?b1 = "?run ts1 b"
  let ?b2 = "?run ts2 ?b1"
  let ?b3 = "?run ts3 ?b2"
  note i1 = draining_inv_turns [OF inv fit, of ts1]
  note i2 = draining_inv_turns [OF i1 fit, of ts2]
  note i3 = draining_inv_turns [OF i2 fit, of ts3]
  assume "\<not> progress its b < progress its (?run (ts1 @ ts2 @ ts3 @ ts4) b)"
  then have "progress its (?run ts4 ?b3) \<le> progress its b" by simp
  then have v: "progress its ?b1 = progress its b" "progress its ?b2 = progress its ?b1"
    "progress its ?b3 = progress its ?b2" "progress its (?run ts4 ?b3) = progress its ?b3"
    using progress_turns [OF inv fit, of ts1] progress_turns [OF i1 fit, of ts2]
      progress_turns [OF i2 fit, of ts3] progress_turns [OF i3 fit, of ts4] by linarith+
  show False
  proof (cases "stop b")
    case True
    then show False using stopped_sweep [OF fit inv True _ ts(1)] going v(1) by (simp add: all_ended_def)
  next
    case False
    note s1 = still_running [OF fit inv False ts(1) v(1)]
    note s2 = still_running [OF fit i1 s1 ts(2) v(2)]
    note s3 = still_running [OF fit i2 s2 ts(3) v(3)]
    have "unpublished (prods (ring ?b1)) = {}"
      using publish_sweep [OF fit inv ts(1) _ v(1)] by (intro all_published [OF i1]) blast
    then have cu: "caught_up (ring ?b2)" by (rule catch_up_sweep [OF fit i1 s1 _ ts(2) v(2)])
    have "\<forall>i<np. pushers ?b3 i = W_end" using producers_sweep [OF fit i2 cu ts(3) _ v(3)] by blast
    then show False using controller_sweep [OF fit i3 s3 _ ts(4)] v(4) by blast
  qed
qed

lemma sweeps_progress:
  assumes fit: "fits_budget n np ops its" and "draining_inv n d again np ops its entries b"
    and "\<forall>r \<in> set rs. sweep np (SWEEP n) r" and "4 * m \<le> length rs"
  shows "all_ended (fold (draining_turn again np ops entries) (concat rs) b)
    \<or> progress its b + m \<le> progress its (fold (draining_turn again np ops entries) (concat rs) b)"
  using assms(2-)
proof (induction m arbitrary: b rs)
  case 0
  then show ?case using progress_turns [OF 0(1) fit] by simp
next
  case (Suc m)
  obtain r1 r2 r3 r4 rest where rs: "rs = r1 # r2 # r3 # r4 # rest"
    using Suc.prems(3) by (cases rs; cases "tl rs"; cases "tl (tl rs)"; cases "tl (tl (tl rs))") auto
  let ?b = "fold (draining_turn again np ops entries) (r1 @ r2 @ r3 @ r4) b"
  have inv: "draining_inv n d again np ops its entries ?b" by (rule draining_inv_turns [OF Suc.prems(1) fit])
  have eq: "fold (draining_turn again np ops entries) (concat rs) b
      = fold (draining_turn again np ops entries) (concat rest) ?b" by (simp add: rs)
  show ?case
  proof (cases "all_ended b")
    case True
    then show ?thesis using all_ended_stays [OF Suc.prems(1) fit] by blast
  next
    case False
    have "progress its b < progress its ?b"
      by (rule four_sweeps [OF fit Suc.prems(1) _ _ _ _ False]) (use Suc.prems(2) in \<open>simp_all add: rs\<close>)
    moreover have "all_ended (fold (draining_turn again np ops entries) (concat rest) ?b)
        \<or> progress its ?b + m \<le> progress its (fold (draining_turn again np ops entries) (concat rest) ?b)"
      using Suc.IH [OF inv, of rest] Suc.prems(2,3) by (simp add: rs)
    ultimately show ?thesis unfolding eq by linarith
  qed
qed

lemma progress_bound:
  assumes "draining_inv n d again np ops its entries b"
  shows "progress its b \<le> (its + 1) * (np * ops) + its + 2"
proof -
  have "(its + 1 - iterations_left b) * (np * ops) \<le> (its + 1) * (np * ops)" by (rule mult_le_mono1) simp
  then have "length (hist (ring b)) \<le> (its + 1) * (np * ops)" using draining_hist(2) [OF assms] by (rule le_trans [rotated])
  moreover have "its - iterations_left b \<le> its" "(if stop b then 1 else 0 :: nat) \<le> 1"
    "(if drain b = D_end then 1 else 0 :: nat) \<le> 1" by simp_all
  ultimately show ?thesis unfolding progress_def by linarith
qed

text \<open>What the benchmark has done when the flag is set, and when the drain thread has ended.\<close>

lemma stopped_contents:
  assumes inv: "draining_inv n d again np ops its entries b" and fit: "fits_budget n np ops its" and st: "stop b"
  shows "mset (hist (ring b)) = repeat_mset (its + 1) (all_items np ops entries)" "total_pushed b = int (np * ops)"
    "again \<Longrightarrow> drain b = D_end \<Longrightarrow> got (ring b) 0 = hist (ring b)"
proof -
  note D = draining_invD [OF inv]
  have all: "\<forall>i<np. pushers b i = W_end" using D(9) [OF st] by blast
  show "mset (hist (ring b)) = repeat_mset (its + 1) (all_items np ops entries)"
    unfolding D(6) drained_items_def placed_items_end [OF all] D(10) [OF st] by (simp add: union_commute)
  show "total_pushed b = int (np * ops)" unfolding D(8) using all by simp
  show "got (ring b) 0 = hist (ring b)" if "again" "drain b = D_end"
    using got_bound(3) [OF draining_csys(1) [OF inv fit], of 0] D(12) that by simp
qed

text \<open>Enough sweeps end the benchmark.\<close>

lemma fair_schedule_ends:
  assumes "fits_budget n np ops its" and "\<forall>r \<in> set rs. sweep np (SWEEP n) r"
    and "4 * ((its + 1) * (np * ops) + its + 3) \<le> length rs"
  shows "let b = draining_turns again np ops entries (concat rs) (draining_start n d ops its) in
    stop b \<and> drain b = D_end \<and> (\<forall>i<np. pushers b i = W_end)
    \<and> mset (hist (ring b)) = repeat_mset (its + 1) (all_items np ops entries)
    \<and> total_pushed b = int (np * ops) \<and> (again \<longrightarrow> got (ring b) 0 = hist (ring b))"
proof -
  let ?b = "fold (draining_turn again np ops entries) (concat rs) (draining_start n d ops its)"
  note start = draining_inv_start [OF assms(1), of d again entries]
  have inv: "draining_inv n d again np ops its entries ?b" by (rule draining_inv_turns [OF start assms(1)])
  have "all_ended ?b"
    using sweeps_progress [OF assms(1) start assms(2,3)] progress_bound [OF inv] by linarith
  then have e: "stop ?b" "drain ?b = D_end" by (simp_all add: all_ended_def)
  show ?thesis
    unfolding draining_turns_def Let_def
    using e stopped_contents [OF inv assms(1) e(1)] draining_invD(9) [OF inv e(1)] by blast
qed

section \<open>Properties\<close>

text \<open>C27: The producer benchmark ends, however full its ring gets. Take any schedule of single
  memory accesses without spurious failures that is fair: it is a sequence of sweeps, each of
  which gives every thread \<open>7 n + 200\<close> turns in some order. After four sweeps for every
  item, iteration and phase, all producers are joined, the flag is set and the drain thread
  has ended; the items of all iterations were accepted, as often as they were pushed, the
  counter has the number of one iteration, and the drain thread of \<open>BM_ProducerScaling\<close>,
  which drains once more after the flag, has received all of them in claim order. So no push
  is refused for ever: a full ring is drained and the cached minimum catches up.\<close>

theorem producer_scaling_ends:
  assumes "fits_budget n np ops its" and "\<forall>r \<in> set rs. sweep np (SWEEP n) r"
    and "4 * ((its + 1) * (np * ops) + its + 3) \<le> length rs"
  shows "let b = draining_turns again np ops entries (concat rs) (draining_start n d ops its) in
    stop b \<and> drain b = D_end \<and> (\<forall>i<np. pushers b i = W_end)
    \<and> mset (hist (ring b)) = repeat_mset (its + 1) (all_items np ops entries)
    \<and> total_pushed b = int (np * ops) \<and> (again \<longrightarrow> got (ring b) 0 = hist (ring b))"
  using assms by (rule fair_schedule_ends)

lemma producer_scaling_ends_witness:
  "\<exists>ts. mset (got (ring (draining_turns True 2 20 (\<lambda>i. i + 7) ts (draining_start 16 (0 :: nat) 20 0))) 0)
    = replicate_mset 20 7 + replicate_mset 20 8"
proof -
  let ?r = "replicate (SWEEP 16) (Pusher 0 False) @ replicate (SWEEP 16) (Pusher 1 False)
    @ replicate (SWEEP 16) Drainer @ replicate (SWEEP 16) Controller"
  let ?rs = "replicate (4 * ((0 + 1) * (2 * 20) + 0 + 3)) ?r"
  have fit: "fits_budget 16 2 20 0" by (simp add: fits_budget_def valid_size_def)
  have sw: "\<forall>r \<in> set ?rs. sweep 2 (SWEEP 16) r"
    by (auto simp: sweep_def steady_def set_replicate_conv_if count_list_replicate_other less_2_cases_iff)
  have len: "4 * ((0 + 1) * (2 * 20) + 0 + 3) \<le> length ?rs" by simp
  note r = producer_scaling_ends [OF fit sw len, of True "\<lambda>i. i + 7" "0 :: nat"]
  have "mset (got (ring (draining_turns True 2 20 (\<lambda>i. i + 7) (concat ?rs) (draining_start 16 (0 :: nat) 20 0))) 0)
      = repeat_mset (0 + 1) (all_items 2 20 (\<lambda>i. i + 7))"
    using r unfolding Let_def by metis
  moreover have "all_items 2 20 (\<lambda>i. i + 7) = replicate_mset 20 7 + replicate_mset 20 (8 :: nat)"
    by (simp add: all_items_def lessThan_Suc numeral_2_eq_2 union_commute)
  ultimately show ?thesis by auto
qed

end
