(* ===== verification/Bench_Programs.thy ===== *)
theory Bench_Programs
  imports Bench_Drain Bench_Queue Bench_Io Memory_Layout
begin

text \<open>
  The benchmarks that are instances of \<open>Bench_Drain\<close>, with their own numbers and entries:
  \<open>BM_ProducerScaling\<close> (bench/bench_contention.cpp), \<open>BM_QueuePush_NP\<close>
  (bench/bench_queue_throughput.cpp) and the two benchmarks of bench/bench_huge_pages.cpp
  together with their allocator. The schedule, the number of iterations the benchmark library
  asks for, and what the stack holds where the entry is placed are arguments.
\<close>

section \<open>BM_ProducerScaling\<close>

definition SCALING_PUSHES :: nat where
  "SCALING_PUSHES = 500000"

definition scaling_entry :: "bytes \<Rightarrow> LogEntry" where
  "scaling_entry p =
     (LogEntry_new p)\<lparr>timestamp_ns := 0, thread_id := 1, level := LVL_INFO, payload_len := 8,
       payload := overwrite 0 ''scaling!'' p\<rparr>"

text \<open>\<open>its\<close> is the number of iterations after the first.\<close>

definition BM_ProducerScaling ::
  "nat \<Rightarrow> nat \<Rightarrow> LogEntry \<Rightarrow> (nat \<Rightarrow> bytes) \<Rightarrow> drain_event list \<Rightarrow> LogEntry draining" where
  "BM_ProducerScaling num_producers its d junk ts =
     draining_turns True num_producers SCALING_PUSHES (\<lambda>p. scaling_entry (junk p)) ts
       (draining_start SCALING_SLOTS d SCALING_PUSHES its)"

section \<open>BM_QueuePush_NP\<close>

text \<open>
  The number of threads is never set, so there is one producer whatever the argument; it
  pushes once per iteration, and the drain thread does not drain after the flag.
\<close>

definition BM_QueuePush_NP :: "nat \<Rightarrow> LogEntry \<Rightarrow> bytes \<Rightarrow> drain_event list \<Rightarrow> LogEntry draining" where
  "BM_QueuePush_NP iterations d p ts =
     draining_turns False 1 iterations (\<lambda>i. make_bench_entry p) ts
       (draining_start SCALING_SLOTS d iterations 0)"

section \<open>The huge-page benchmarks\<close>

definition HUGE_SLOTS :: nat where
  "HUGE_SLOTS = 2 ^ 16"

text \<open>\<open>sizeof(HugeQueue)\<close>, by the layout rules, for the cache-line size of the platform.\<close>

definition huge_queue_size :: "nat \<Rightarrow> u64" where
  "huge_queue_size cl = of_nat (size_of (log_queue_type cl log_entry_type HUGE_SLOTS))"

definition make_huge_bench_entry :: "bytes \<Rightarrow> LogEntry" where
  "make_huge_bench_entry p =
     (LogEntry_new p)\<lparr>timestamp_ns := 0, thread_id := 1, level := LVL_INFO, payload_len := 8,
       payload := overwrite 0 ''hugepage'' p\<rparr>"

text \<open>The part both have: register, start the drain thread, push, set the flag, join.\<close>

definition huge_loop :: "nat \<Rightarrow> LogEntry \<Rightarrow> bytes \<Rightarrow> drain_event list \<Rightarrow> LogEntry draining" where
  "huge_loop iterations d p ts =
     draining_turns False 1 iterations (\<lambda>i. make_huge_bench_entry p) ts
       (draining_start HUGE_SLOTS d iterations 0)"

definition BM_Queue_StandardHeap ::
  "'w page_os \<Rightarrow> nat \<Rightarrow> LogEntry \<Rightarrow> bytes \<Rightarrow> drain_event list \<Rightarrow> 'w \<Rightarrow> LogEntry draining \<times> 'w" where
  "BM_Queue_StandardHeap os iterations d p ts w =
     (let (ptr, w1) = heap_new os w; b = huge_loop iterations d p ts
      in (b, heap_delete os ptr w1))"

definition BM_Queue_HugePage ::
  "bool \<Rightarrow> nat \<Rightarrow> 'w page_os \<Rightarrow> nat \<Rightarrow> LogEntry \<Rightarrow> bytes \<Rightarrow> drain_event list \<Rightarrow> 'w \<Rightarrow> LogEntry draining \<times> 'w" where
  "BM_Queue_HugePage apple cl os iterations d p ts w =
     (let (ptr, w1) = allocate_huge_page apple os (huge_queue_size cl) w;
          b = huge_loop iterations d p ts
      in (b, deallocate_huge_page apple os (huge_queue_size cl) ptr w1))"

section \<open>They end\<close>

lemma copies_in_order:
  assumes "mset xs = replicate_mset n x"
  shows "xs = replicate n x"
proof -
  have "length xs = n" using arg_cong [OF assms, of size] by simp
  moreover have "set xs \<subseteq> {x}" using arg_cong [OF assms, of set_mset] by (simp split: if_splits)
  ultimately show ?thesis by (auto intro: replicate_eqI)
qed

lemma scaling_fits:
  assumes "num_producers \<le> 16" and "its < 2 ^ 40"
  shows "fits_budget SCALING_SLOTS num_producers SCALING_PUSHES its"
proof -
  have "(its + 1) * (num_producers * SCALING_PUSHES) \<le> 2 ^ 40 * (16 * SCALING_PUSHES)"
    using assms by (intro mult_le_mono) simp_all
  then show ?thesis by (simp add: fits_budget_def valid_size_def SCALING_SLOTS_def SCALING_PUSHES_def)
qed

lemma push_fits: "iterations < 2 ^ 63 \<Longrightarrow> fits_budget SCALING_SLOTS 1 iterations 0"
  by (simp add: fits_budget_def valid_size_def SCALING_SLOTS_def)

lemma huge_fits: "iterations < 2 ^ 63 \<Longrightarrow> fits_budget HUGE_SLOTS 1 iterations 0"
  by (simp add: fits_budget_def valid_size_def HUGE_SLOTS_def)

text \<open>What each leaves after the sweeps that \<open>fair_schedule_ends\<close> asks for.\<close>

lemma BM_ProducerScaling_ends:
  assumes "num_producers \<le> 16" and "its < 2 ^ 40"
    and "\<forall>r \<in> set rs. sweep num_producers (SWEEP SCALING_SLOTS) r"
    and "4 * ((its + 1) * (num_producers * SCALING_PUSHES) + its + 3) \<le> length rs"
  shows "let b = BM_ProducerScaling num_producers its d junk (concat rs) in
    stop b \<and> drain b = D_end \<and> total_pushed b = int (num_producers * SCALING_PUSHES)
    \<and> got (ring b) 0 = hist (ring b)
    \<and> mset (hist (ring b)) = repeat_mset (its + 1) (all_items num_producers SCALING_PUSHES (\<lambda>p. scaling_entry (junk p)))"
  using fair_schedule_ends [OF scaling_fits [OF assms(1,2)] assms(3,4), of True "\<lambda>p. scaling_entry (junk p)" d]
  unfolding BM_ProducerScaling_def Let_def by blast

lemma solo_items: "repeat_mset (0 + 1) (all_items 1 n (\<lambda>i. x)) = replicate_mset n x"
  by (simp add: all_items_def)

lemma BM_QueuePush_NP_ends:
  assumes "iterations < 2 ^ 63" and "\<forall>r \<in> set rs. sweep 1 (SWEEP SCALING_SLOTS) r"
    and "4 * (iterations + 3) \<le> length rs"
  shows "let b = BM_QueuePush_NP iterations d p (concat rs) in
    stop b \<and> drain b = D_end \<and> hist (ring b) = replicate iterations (make_bench_entry p)"
proof -
  have "4 * ((0 + 1) * (1 * iterations) + 0 + 3) \<le> length rs" using assms(3) by simp
  note e = fair_schedule_ends [OF push_fits [OF assms(1)] assms(2) this,
      of False "\<lambda>i. make_bench_entry p" d, unfolded solo_items]
  then show ?thesis
    unfolding BM_QueuePush_NP_def Let_def by (auto dest!: copies_in_order)
qed

lemma huge_loop_ends:
  assumes "iterations < 2 ^ 63" and "\<forall>r \<in> set rs. sweep 1 (SWEEP HUGE_SLOTS) r"
    and "4 * (iterations + 3) \<le> length rs"
  shows "let b = huge_loop iterations d p (concat rs) in
    stop b \<and> drain b = D_end \<and> hist (ring b) = replicate iterations (make_huge_bench_entry p)"
proof -
  have "4 * ((0 + 1) * (1 * iterations) + 0 + 3) \<le> length rs" using assms(3) by simp
  note e = fair_schedule_ends [OF huge_fits [OF assms(1)] assms(2) this,
      of False "\<lambda>i. make_huge_bench_entry p" d, unfolded solo_items]
  then show ?thesis
    unfolding huge_loop_def Let_def by (auto dest!: copies_in_order)
qed

text \<open>
  The queue of the comment's \<open>8MB\<close> takes a little over 16: a slot takes 256 bytes
  (\<open>struct_sizes\<close>).
\<close>

lemma huge_queue_bytes:
  "cl = 64 \<or> cl = 128 \<Longrightarrow> 256 * HUGE_SLOTS < size_of (log_queue_type cl log_entry_type HUGE_SLOTS)"
  by (elim disjE) (simp_all add: struct_defs log_queue_type_def ring_type_def round_up_def HUGE_SLOTS_def)

text \<open>After either benchmark the process holds what it held before, unless superpages ran out.\<close>

lemma huge_benchmarks_balance:
  assumes "page_laws os holds" and "holds w = (regions, heap)" 
  shows "holds (snd (BM_Queue_StandardHeap os iterations d p ts w)) = (regions, heap)"
    and "\<not> apple \<or> fst (vm_allocate os (superpage_size (huge_queue_size cl)) w) \<noteq> None
      \<Longrightarrow> holds (snd (BM_Queue_HugePage apple cl os iterations d p ts w)) = (regions, heap)"
proof -
  obtain ptr w1 where n: "heap_new os w = (ptr, w1)" by fastforce
  have h: "ptr \<notin> heap" "holds w1 = (regions, insert ptr heap)"
    using page_lawsD(4) [OF assms n] by simp_all
  have "holds (heap_delete os ptr w1) = (regions, insert ptr heap - {ptr})" by (rule page_lawsD(5) [OF assms(1) h(2)])
  then show "holds (snd (BM_Queue_StandardHeap os iterations d p ts w)) = (regions, heap)"
    using h(1) by (simp add: BM_Queue_StandardHeap_def n)
  obtain ptr' w2 where a: "allocate_huge_page apple os (huge_queue_size cl) w = (ptr', w2)" by fastforce
  show "holds (snd (BM_Queue_HugePage apple cl os iterations d p ts w)) = (regions, heap)"
    if "\<not> apple \<or> fst (vm_allocate os (superpage_size (huge_queue_size cl)) w) \<noteq> None"
    using huge_page_balance [OF assms a] that by (auto simp: BM_Queue_HugePage_def a)
qed

end
