(* ===== verification/Bench_Latency.thy ===== *)
theory Bench_Latency
  imports Bench_Queue
begin

text \<open>
  The benchmarks that push without retrying: \<open>BM_QueuePush_1P\<close>
  (bench/bench_queue_throughput.cpp) and \<open>BM_PushLatency\<close>, with its baseline
  \<open>BM_MutexPushLatency\<close> (bench/bench_queue_latency.cpp), call by call. The drain thread is a
  program of its own; how many of its calls come before each push is the schedule. Proved:
  one sample per push, the report is printed, everything accepted is received or still in
  the ring, and the drain thread ends after the flag.
\<close>

section \<open>The two threads\<close>

text \<open>One step of the drain thread is a test of the flag or a call.\<close>

datatype drain_point = L_test | L_pops | L_min | L_end

record 'a push_bench =
  bench_queue :: "'a MPMCQueue"
  drain_at :: drain_point
  taken :: "'a list"
  results :: "bool list"

definition push_bench_start :: "'a MPMCQueue \<Rightarrow> 'a push_bench" where
  "push_bench_start q = \<lparr>bench_queue = q, drain_at = L_test, taken = [], results = []\<rparr>"

definition drain_call :: "u32 \<Rightarrow> bool \<Rightarrow> 'a push_bench \<Rightarrow> 'a push_bench" where
  "drain_call c stopped b =
     (case drain_at b of
        L_test \<Rightarrow> b\<lparr>drain_at := if stopped then L_end else L_pops\<rparr>
      | L_pops \<Rightarrow>
          (case pop c (bench_queue b) of
             (Some x, q) \<Rightarrow> b\<lparr>bench_queue := q, taken := taken b @ [x]\<rparr>
           | (None, q) \<Rightarrow> b\<lparr>bench_queue := q, drain_at := L_min\<rparr>)
      | L_min \<Rightarrow> b\<lparr>bench_queue := recompute_and_store_min_tail (bench_queue b), drain_at := L_test\<rparr>
      | L_end \<Rightarrow> b)"

text \<open>Some steps of the drain thread, then one push, whose result is only looked at.\<close>

definition push_once :: "u32 \<Rightarrow> 'a \<Rightarrow> nat \<Rightarrow> 'a push_bench \<Rightarrow> 'a push_bench" where
  "push_once c x k b =
     (let b1 = (drain_call c False ^^ k) b; (ok, q) = push [] x (bench_queue b1)
      in b1\<lparr>bench_queue := q, results := results b1 @ [ok]\<rparr>)"

section \<open>The benchmarks\<close>

text \<open>The drain thread makes \<open>idle\<close> steps after the last push and \<open>late\<close> after the flag is set.\<close>

definition BM_QueuePush_1P ::
  "nat \<Rightarrow> LogEntry \<Rightarrow> bytes \<Rightarrow> nat list \<Rightarrow> nat \<Rightarrow> nat \<Rightarrow> queue_error + LogEntry push_bench" where
  "BM_QueuePush_1P slot_count d p turns idle late =
     (let (r, q) = register_consumer (MPMCQueue_new slot_count d) in
      case r of
        Inl e \<Rightarrow> Inl e
      | Inr cid \<Rightarrow> Inr ((drain_call cid True ^^ late) ((drain_call cid False ^^ idle)
          (fold (push_once cid (make_bench_entry p)) turns (push_bench_start q)))))"

definition latency_entry :: "bytes \<Rightarrow> bytes \<Rightarrow> LogEntry" where
  "latency_entry text p =
     (LogEntry_new p)\<lparr>timestamp_ns := 0, thread_id := 1, level := LVL_INFO, payload_len := 8,
       payload := overwrite 0 text p\<rparr>"

fun timed_push ::
  "u32 \<Rightarrow> 'a \<Rightarrow> nat \<times> u64 \<times> u64 \<Rightarrow> 'a push_bench \<times> LatencyHistogram \<Rightarrow> 'a push_bench \<times> LatencyHistogram" where
  "timed_push c x (k, t0, t1) (b, h) = (push_once c x k b, histogram_add (t1 - t0) h)"

text \<open>The text printed (\<open>None\<close>: a read outside the samples), and how the threads end.\<close>

definition BM_PushLatency ::
  "nat \<Rightarrow> LogEntry \<Rightarrow> bytes \<Rightarrow> (nat \<times> u64 \<times> u64) list \<Rightarrow> nat \<Rightarrow> nat
    \<Rightarrow> queue_error + bytes option \<times> LogEntry push_bench" where
  "BM_PushLatency slot_count d p turns idle late =
     (let (r, q) = register_consumer (MPMCQueue_new slot_count d) in
      case r of
        Inl e \<Rightarrow> Inl e
      | Inr cid \<Rightarrow>
          let (b, h) = fold (timed_push cid (latency_entry ''latency!'' p)) turns
                (push_bench_start q, \<lparr>samples = []\<rparr>)
          in Inr (map_option fst (histogram_report h), (drain_call cid True ^^ late) ((drain_call cid False ^^ idle) b)))"

definition BM_MutexPushLatency :: "bytes \<Rightarrow> (u64 \<times> u64) list \<Rightarrow> bytes option" where
  "BM_MutexPushLatency p ts =
     (let (h, mq) = mutex_latency_loop ts (latency_entry ''mutexlat'' p) [] \<lparr>samples = []\<rparr>
      in map_option (\<lambda>(out, h1). newline @ ''--- Mutex Baseline ---'' @ out) (histogram_report h))"

section \<open>Conservation\<close>

text \<open>What was received, then what is in the ring, is what was accepted.\<close>

definition pushed_once :: "nat \<Rightarrow> nat \<Rightarrow> u32 \<Rightarrow> 'a \<Rightarrow> 'a push_bench \<Rightarrow> bool" where
  "pushed_once n budget c x b \<longleftrightarrow>
     queue_inv budget (bench_queue b) \<and> live (bench_queue b) c \<and> ring_capacity (bench_queue b) = n
   \<and> taken b @ pending (bench_queue b) c = replicate (count_list (results b) True) x"

lemma drain_call_keeps:
  assumes "pushed_once n budget c x b"
  shows "pushed_once n budget c x (drain_call c stopped b)" "results (drain_call c stopped b) = results b"
proof -
  obtain r q where p: "pop c (bench_queue b) = (r, q)" by fastforce
  note t = mpmc.pop_live [of budget "bench_queue b" c r q]
  show "results (drain_call c stopped b) = results b"
    by (auto simp: drain_call_def split: drain_point.split option.split prod.split)
  show "pushed_once n budget c x (drain_call c stopped b)"
  proof (cases "drain_at b")
    case L_pops
    then show ?thesis
      using t p assms by (cases "pending (bench_queue b) c") (auto simp: pushed_once_def drain_call_def)
  qed (use assms in \<open>simp_all add: pushed_once_def drain_call_def recompute_inv\<close>)
qed

lemma drain_calls_keep:
  assumes "pushed_once n budget c x b"
  shows "pushed_once n budget c x ((drain_call c stopped ^^ k) b)"
    "results ((drain_call c stopped ^^ k) b) = results b"
proof (induction k)
  case (Suc k)
  note d = drain_call_keeps [OF Suc(1), where stopped = stopped]
  { case 1 show ?case using d(1) by simp }
  { case 2 show ?case using d(2) Suc(2) by simp }
qed (use assms in simp_all)

lemma push_once_keeps:
  assumes "pushed_once n (Suc budget) c x b"
  shows "pushed_once n budget c x (push_once c x k b)"
    "length (results (push_once c x k b)) = Suc (length (results b))"
proof -
  let ?b = "(drain_call c False ^^ k) b"
  note inv = drain_calls_keep [OF assms, where stopped = False and k = k]
  obtain ok q where p: "push [] x (bench_queue ?b) = (ok, q)" by fastforce
  note t = mpmc.push_any [of budget "bench_queue ?b" x ok q c]
  show "pushed_once n budget c x (push_once c x k b)"
    using inv(1) t p by (auto simp: pushed_once_def push_once_def Let_def replicate_append_same [symmetric] simp del: push.simps)
  show "length (results (push_once c x k b)) = Suc (length (results b))"
    using inv(2) p by (simp add: push_once_def Let_def del: push.simps)
qed

lemma pushes_once_keep:
  assumes "pushed_once n (length ks + budget) c x b"
  shows "pushed_once n budget c x (fold (push_once c x) ks b)
    \<and> length (results (fold (push_once c x) ks b)) = length (results b) + length ks"
  using assms by (induction ks arbitrary: b) (simp_all add: push_once_keeps)

lemma timed_pushes:
  "fold (timed_push c x) turns (b, h)
    = (fold (push_once c x) (map fst turns) b,
       h\<lparr>samples := samples h @ map (\<lambda>(k, t0, t1). t1 - t0) turns\<rparr>)"
  by (induction turns arbitrary: b h) (auto simp: histogram_add_def)

section \<open>After the flag\<close>

text \<open>The steps the drain thread still makes when nothing more is pushed.\<close>

definition drain_calls_left :: "u32 \<Rightarrow> 'a push_bench \<Rightarrow> nat" where
  "drain_calls_left c b =
     (case drain_at b of L_pops \<Rightarrow> length (pending (bench_queue b) c) + 3 | L_min \<Rightarrow> 2 | L_test \<Rightarrow> 1 | L_end \<Rightarrow> 0)"

lemma drain_call_progress:
  assumes "pushed_once n budget c x b"
  shows "drain_calls_left c (drain_call c True b) = drain_calls_left c b - 1"
proof -
  obtain r q where p: "pop c (bench_queue b) = (r, q)" by fastforce
  have "r = (case pending (bench_queue b) c of [] \<Rightarrow> None | x # _ \<Rightarrow> Some x)" "pending q c = tl (pending (bench_queue b) c)"
    using mpmc.pop_live [of budget "bench_queue b" c r q] p assms unfolding pushed_once_def by blast+
  then show ?thesis
    using p by (cases "pending (bench_queue b) c") (auto simp: drain_calls_left_def drain_call_def split: drain_point.split)
qed

lemma drain_calls_progress:
  assumes "pushed_once n budget c x b"
  shows "drain_calls_left c ((drain_call c True ^^ k) b) = drain_calls_left c b - k"
proof (induction k)
  case (Suc k)
  show ?case using drain_call_progress [OF drain_calls_keep(1) [OF assms, where stopped = True and k = k]] Suc by simp
qed simp

lemma pushed_once_ends:
  assumes "pushed_once n budget c x b" and "n + 3 \<le> late"
  shows "drain_at ((drain_call c True ^^ late) b) = L_end"
proof -
  have "length (pending (bench_queue b) c) \<le> n"
    using mpmc.backlog_bound [of budget "bench_queue b" c] assms(1) by (simp add: pushed_once_def)
  then have "drain_calls_left c b \<le> n + 3" by (simp add: drain_calls_left_def split: drain_point.split)
  then have "drain_calls_left c ((drain_call c True ^^ late) b) = 0"
    using drain_calls_progress [OF assms(1), of late] assms(2) by simp
  then show ?thesis by (simp add: drain_calls_left_def split: drain_point.splits)
qed

section \<open>What the benchmarks do\<close>

lemma push_bench_started:
  assumes "valid_size n" and "n + budget < 2 ^ 64 - 1"
  shows "\<exists>q. register_consumer (MPMCQueue_new n d) = (Inr 0, q) \<and> pushed_once n budget 0 x (push_bench_start q)"
  using solo_new [OF assms, of d] by (fastforce simp: pushed_once_def push_bench_start_def solo_queue_def)

lemma start_results: "results (push_bench_start q) = []"
  by (simp add: push_bench_start_def)

definition all_pushed :: "nat \<Rightarrow> 'a \<Rightarrow> 'a push_bench \<Rightarrow> bool" where
  "all_pushed iterations x b \<longleftrightarrow>
     drain_at b = L_end \<and> length (results b) = iterations
   \<and> taken b @ pending (bench_queue b) 0 = replicate (count_list (results b) True) x"

lemma pushed_once_all:
  assumes "pushed_once n (length ks) 0 x b" and "results b = []" and "n + 3 \<le> late"
  shows "all_pushed (length ks) x ((drain_call 0 True ^^ late) ((drain_call 0 False ^^ idle) (fold (push_once 0 x) ks b)))"
proof -
  have "pushed_once n (length ks + 0) 0 x b" using assms(1) by simp
  note p = pushes_once_keep [OF this]
  note i = drain_calls_keep [OF conjunct1 [OF p], where stopped = False and k = idle]
  note d = drain_calls_keep [OF i(1), where stopped = True and k = late]
  show ?thesis
    using d i(2) p pushed_once_ends [OF i(1) assms(3)] assms(2)
    by (simp add: all_pushed_def pushed_once_def)
qed

lemma BM_QueuePush_1P_ends:
  assumes "valid_size n" and "n + length turns < 2 ^ 64 - 1" and "n + 3 \<le> late"
  shows "\<exists>b. BM_QueuePush_1P n d p turns idle late = Inr b \<and> all_pushed (length turns) (make_bench_entry p) b"
proof -
  obtain q where q: "register_consumer (MPMCQueue_new n d) = (Inr 0, q)"
    "pushed_once n (length turns) 0 (make_bench_entry p) (push_bench_start q)"
    using push_bench_started [OF assms(1,2), of d "make_bench_entry p"] by (elim exE conjE) (rule that)
  show ?thesis
    unfolding BM_QueuePush_1P_def q(1) Let_def prod.case sum.case
    by (intro exI conjI, rule refl, rule pushed_once_all [OF q(2) start_results assms(3)])
qed

lemma report_printed: "length (samples h) < 2 ^ 50 \<Longrightarrow> \<exists>out h'. histogram_report h = Some (out, h')"
proof (cases "samples h = []")
  case False
  assume "length (samples h) < 2 ^ 50"
  then show ?thesis using histogram_report_quantiles [OF False] by blast
qed (simp add: histogram_report_def)

lemma BM_PushLatency_ends:
  assumes "valid_size n" and "n + length turns < 2 ^ 50" and "n + 3 \<le> late"
  shows "\<exists>out b. BM_PushLatency n d p turns idle late = Inr (Some out, b)
    \<and> all_pushed (length turns) (latency_entry ''latency!'' p) b"
proof -
  have big: "n + length (map fst turns) < 2 ^ 64 - 1" using assms(2) by simp
  obtain q where q: "register_consumer (MPMCQueue_new n d) = (Inr 0, q)"
    "pushed_once n (length (map fst turns)) 0 (latency_entry ''latency!'' p) (push_bench_start q)"
    using push_bench_started [OF assms(1) big, of d "latency_entry ''latency!'' p"] by (elim exE conjE) (rule that)
  note a = pushed_once_all [OF q(2) start_results assms(3), unfolded length_map]
  obtain out where shown: "map_option fst (histogram_report (\<lparr>samples = []\<rparr>\<lparr>samples := samples \<lparr>samples = []\<rparr>
      @ map (\<lambda>(k, t0, t1). t1 - t0) turns\<rparr>)) = Some out"
    using report_printed [of "\<lparr>samples = map (\<lambda>(k, t0, t1). t1 - t0) turns\<rparr>"] assms(2) by auto
  show ?thesis
    unfolding BM_PushLatency_def q(1) Let_def prod.case sum.case timed_pushes
    by (intro exI conjI, rule arg_cong [of _ _ Inr], rule arg_cong2 [of _ _ _ _ Pair], rule shown, rule refl, rule a)
qed

lemma BM_MutexPushLatency_prints:
  assumes "length ts < 2 ^ 50"
  shows "BM_MutexPushLatency p ts \<noteq> None"
proof -
  obtain h mq where m: "mutex_latency_loop ts (latency_entry ''mutexlat'' p) [] \<lparr>samples = []\<rparr> = (h, mq)" by fastforce
  have "samples h = map (\<lambda>(t0, t1). t1 - t0) ts"
    using mutex_latency_samples [of ts "latency_entry ''mutexlat'' p" "[]" "\<lparr>samples = []\<rparr>"] by (simp add: m)
  then show ?thesis using report_printed [of h] assms by (auto simp: BM_MutexPushLatency_def m)
qed

end
