(* ===== verification/Spec2Isabelle.thy ===== *)
theory Spec2Isabelle
  imports Mpmc_Correct Late_Registration Original_Queue Shm_Queue Tsc_Clock Log_Session Tool_Mains
    Bench_Rdtsc Bench_Io Bench_Logger Mpmc_Results Weak_Memory Shm_World Log_Rotation Bench_Programs Bench_Latency
begin

text \<open>
  A verification library for mpmc_logger, an asynchronous C++ logger: producer threads put
  128-byte entries into a lock-free multi-producer multi-consumer ring buffer, a drain thread
  takes them out, formats them and writes them to a memory-mapped file, and two tools read
  the binary log back. The repository also holds the earlier versions of the ring buffer,
  with a manager that places one in shared memory.

  THE PARTS AND THEIR THEORIES (file names under src/)

  \<^item> \<open>Logger_Prelude\<close>: words as machine integers, positions that do not wrap, masks, buffer
    stores and loads, byte images, decimal numerals.
  \<^item> \<open>Queue_Contract\<close>: the bounded broadcast queue the logger relies on, a locale: every
    consumer has its own backlog. Interpreted by all three ring buffers.
  \<^item> \<open>Mpmc_Queue\<close>, \<open>Mpmc_Calls\<close> (include/mpmc_logger/mpmc_queue.hpp): the class \<open>MPMCQueue\<close>
    one call at a time; the records are its structs, the template parameter \<open>SIZE\<close> is the
    length of the slot list, spurious failures of the compare-exchange are an argument of
    \<open>push\<close>. Proved: the ring invariant, the minimum scan, the refinement of the contract
    and of a map from consumers to backlogs, conservation over runs, registration.
  \<^item> \<open>Mpmc_Concurrent\<close>, \<open>Mpmc_Correct\<close> (the same file): \<open>push\<close>, \<open>pop\<close> and
    \<open>recompute_and_store_min_tail\<close> as single memory accesses of any number of threads in any interleaving, an inductive invariant, and from
    it ordered exactly-once delivery, no race on a slot, no overwriting of unread items,
    wait-freedom of \<open>pop\<close>, and agreement with the calls of \<open>Mpmc_Queue\<close>.
  \<^item> \<open>Mpmc_Results\<close> (the same file): what the return values of concurrent calls tell. Proved: a push
    returns true exactly when it has replaced the head, once, at a position between the heads at
    call and return that is no other producer's and whose slot holds its item; a refusal had a
    reason during the call, and a pop returns the next item or was not ready.
  \<^item> \<open>Weak_Memory\<close> (the same file): the same accesses with the memory orders the code asks for. A
    load returns any store to its location made so far, and one thread knows of the payload
    accesses of another only through an acquire load that read a release store. A copy of an item
    that races with another access of it reads, or leaves, anything at all. Proved: no such race
    happens in any execution, and delivery as before.
  \<^item> \<open>Late_Registration\<close>: \<open>register_consumer\<close> racing with producers, and what goes wrong: a
    consumer that never reads, and at most one more ring of pushes before all are refused.
  \<^item> \<open>Log_Entry\<close> (include/mpmc_logger/log_entry.hpp, \<open>fast_copy\<close> of mpmc_queue.hpp): entries,
    levels, the memory image, the vector copies.
  \<^item> \<open>Timestamp\<close>, \<open>Tsc_Clock\<close> (include/mpmc_logger/timestamp.hpp, src/timestamp.cpp): clocks, the
    cached date prefix, the calibration of the cycle counter.
  \<^item> \<open>Formatter\<close> (include/mpmc_logger/formatter.hpp, src/formatter.cpp): the binary and the text
    format, a locale for what the drain loop needs of a formatter, interpreted by both.
  \<^item> \<open>Mmap_Sink\<close> (include/mpmc_logger/mmap_sink.hpp, src/mmap_sink.cpp): the sink over a record of
    system calls. Proved: bounds and accounting of every write, the bytes that reach the
    file within and across regions, rotation of the file names, and the cases where the sink
    goes silent or writes outside its region.
  \<^item> \<open>Log_Rotation\<close> (src/mmap_sink.cpp): the sink over many files. Proved: it implements a rotating
    log, so that every file on the disk is known after any number of records.
  \<^item> \<open>Logger\<close> (include/mpmc_logger/logger.hpp, config.hpp, src/logger.cpp): \<open>init\<close>, \<open>shutdown\<close>,
    \<open>push\<close> with the level filter, the macro, and the drain loop.
  \<^item> \<open>Log_Tools\<close>, \<open>Tool_Mains\<close> (tools/log_reader.cpp, tools/log_stats.cpp): both tools with
    options, filters, counters, printed text and exit status. A number that is no \<open>int\<close>, for which
    \<open>std::atoi\<close> is undefined, is an error value.
  \<^item> \<open>Log_Session\<close> and this theory: a session from \<open>init\<close> over any schedule of pushes to
    \<open>shutdown\<close>, in both formats: the bytes it leaves, over any number of regions in binary
    format and within the first region in text format, what the reader shows of them, and
    that the two formats agree.
  \<^item> \<open>Legacy_Queue\<close> (mpmc.hpp; mpmc_2.hpp is the same text with the item type as a template
    parameter, which the record model has too; the copies under original/ differ in the syntax of an
    attribute), \<open>Original_Queue\<close> (mpmc_queue.hpp and its copy under original/) and \<open>Shm_Queue\<close> (the
    class \<open>ShmQueueManager\<close> of all of them).
  \<^item> \<open>Memory_Layout\<close> (the structs of mpmc_2.hpp and mpmc_queue.hpp, and those of mpmc_queue.hpp and
    log_entry.hpp under include/mpmc_logger): sizes, alignments and offsets by the ABI rules. Proved: fields are
    aligned and disjoint, where each member of the three rings lies, and no cache line is shared
    by parts different threads write.
  \<^item> \<open>Queue_Memory\<close> (mpmc_2.hpp): the class template on the bytes of its object, for any item type.
    Proved: the calls refine those of \<open>Legacy_Queue\<close> when a slot holds the 96 bytes copied, and
    what is overwritten when it does not.
  \<^item> \<open>Shm_World\<close>: the manager and the queue together, over named objects and their bytes. Proved: a
    process that attaches after construction works on the creator's queue, and what one that
    attaches too early sees.
  \<^item> \<open>Bench_Stats\<close>, \<open>Bench_Queue\<close>, \<open>Bench_Latency\<close>, \<open>Bench_Rdtsc\<close>, \<open>Bench_Io\<close>, \<open>Bench_Logger\<close> (bench/): the consumer
    threads, the timed loops and the percentile reports of the benchmarks. Proved: their busy
    waits end, nothing accepted is lost, the numbers printed are order statistics, the three ways
    of writing a file agree, and the binary logging benchmarks leave their messages.
  \<^item> \<open>Bench_Threads\<close> (bench/bench_contention.cpp): the threads of the consumer benchmark as programs
    over the single accesses of \<open>Mpmc_Concurrent\<close>. Proved: no push is refused, every consumer
    receives everything, and bounds on the turns after which all threads are joined.
  \<^item> \<open>Bench_Drain\<close>, \<open>Bench_Programs\<close> (bench/bench_contention.cpp, bench_queue_throughput.cpp,
    bench_huge_pages.cpp): producers that retry a refused push, one drain thread and the main
    thread, in the same way; then the benchmarks that are instances of it, with their numbers,
    entries and, for the huge pages, their allocator. Proved: every fair schedule ends, however
    full the ring gets, with everything accepted once.

  HOW STATE AND EFFECTS CORRESPOND

  A class is a record with the fields of the class, an operation a function from the state to
  the result and the next state. Errors and undefined behaviour are values: an exception is
  \<open>Inl\<close>, a store outside a buffer \<open>None\<close> or \<open>Region_overrun\<close>. The system calls, the in-place
  constructor of the shared-memory manager, \<open>localtime_r\<close> with \<open>strftime\<close>, the arithmetic on
  \<open>double\<close> and the \<open>printf\<close> text of doubles are arguments of the definitions; what a theorem needs
  of them is a named hypothesis (\<open>posix_file_ok\<close>, \<open>dir_laws\<close>, \<open>names_ok\<close>, \<open>regions_available\<close>,
  \<open>fresh_file_ok\<close>, \<open>shm_laws\<close>, \<open>store_laws\<close>, \<open>dates_ok\<close>, \<open>real_fp\<close>), and every such property
  is applied to a concrete instance, such as the simulated file system of \<open>Mmap_Sink\<close>.

  BOUNDS AND FUEL

  Positions of the ring are 64-bit and never wrap in practice; the invariant carries the
  number of pushes that may still be accepted before position \<open>2^64 - 1\<close>, and the theorems
  ask for that budget. \<open>drain_final\<close> has fuel \<open>QUEUE_SIZE + 1\<close>: the backlog never exceeds
  the capacity, so it always reaches the empty queue (\<open>drain_loop_ends\<close>). The schedule given
  to \<open>drain_loop\<close> is its number of turns; after a visible stop request, one turn more than the
  backlog is enough. The retries of \<open>push\<close> are the list of spurious failures; an
  interrupted exchange in \<open>Mpmc_Concurrent\<close> is retried by the step relation. The turns of
  \<open>Bench_Threads\<close> are a list, and how many of each thread are enough is proved. A schedule of
  \<open>Bench_Drain\<close> is fair when it is a sequence of sweeps, each with \<open>7 n + 200\<close> turns of every
  thread for a ring of \<open>n\<close> slots; four sweeps make progress, and the theorem asks for four per
  item, iteration and phase. The attach loop of
  \<open>Shm_Queue\<close> has the 50 attempts of the code. Busy waits of the benchmarks have no fuel: they
  are partial functions, and that they return is proved.

  NOT MODELLED

  Executions where a load returns a value stored only later in the execution (load buffering);
  weak orders for a registration that races with other threads, and for the rings of mpmc.hpp,
  mpmc_2.hpp and the top-level mpmc_queue.hpp; prefetch hints, which have no effect; the \<open>rdtsc\<close>
  instruction itself, an input; messages on the error stream; thread creation and the counters of
  the benchmark library in bench/; the umbrella header.
\<close>

section \<open>Properties that span components\<close>

text \<open>C5: From \<open>push\<close> to the file and back. A binary logger is started on an empty file, producers
  push along any schedule of the drain thread's iterations, then \<open>shutdown\<close> joins the thread.
  If the records fit the maximal file size, over any number of regions, the drain loop ends,
  the accepted entries are a subsequence of the pushed ones (all of them when they fit the
  queue and none is pushed after the stop request), and reading the file gives exactly the
  accepted entries in order, followed by zero entries up to the end of the last region.\<close>

theorem session_reads_back:
  assumes "session_started pf page view base cfg w lg w1" and "length buf = 256"
    and "\<forall>e \<in> set (arrivals_of pre). wf_entry e"
    and "128 * length (arrivals_of pre) \<le> unat (cfg_max_file_size cfg)"
    and "length (arrivals_of pre) < k"
  shows "\<exists>acc ce' st' n. drain_loop pf (Suc QUEUE_SIZE) (pre @ replicate k ([], True)) 0
        (lg\<lparr>initialized := False, running := False\<rparr>, buf, w1) = Some (Inr (acc, True, ce', st'))
    \<and> subseq acc (arrivals_of pre)
    \<and> ((\<forall>(as, stop) \<in> set pre. \<not> stop) \<and> length (arrivals_of pre) \<le> QUEUE_SIZE \<longrightarrow> acc = arrivals_of pre)
    \<and> read_entries (session_bytes pf view (pre @ replicate k ([], True)) buf lg w1)
      = acc @ replicate n zero_entry
    \<and> 128 * n \<le> unat (cfg_mmap_region_size cfg)
    \<and> unat (cfg_mmap_region_size cfg) dvd 128 * (length acc + n)"
proof -
  obtain acc ce' st' n where r: "drain_loop pf (Suc QUEUE_SIZE) (pre @ replicate k ([], True)) 0
        (lg\<lparr>initialized := False, running := False\<rparr>, buf, w1) = Some (Inr (acc, True, ce', st'))"
    "subseq acc (arrivals_of pre)"
    "(\<forall>(as, stop) \<in> set pre. \<not> stop) \<and> length (arrivals_of pre) \<le> QUEUE_SIZE \<longrightarrow> acc = arrivals_of pre"
    "session_bytes pf view (pre @ replicate k ([], True)) buf lg w1
      = concat (map entry_image acc) @ replicate (128 * n) (CHR 0x00)"
    "128 * n \<le> unat (cfg_mmap_region_size cfg)" "unat (cfg_mmap_region_size cfg) dvd 128 * (length acc + n)"
    using session_contents [OF assms] by blast
  have "\<forall>e \<in> set acc. wf_entry e" using assms(3) r(2) by (auto dest: list_emb_set)
  then have "read_entries (session_bytes pf view (pre @ replicate k ([], True)) buf lg w1)
      = acc @ replicate n zero_entry"
    unfolding r(4) by (simp add: read_entries_images read_zeros)
  then show ?thesis using r(1-3,5,6) by blast
qed

definition demo_cfg :: LoggerConfig where
  "demo_cfg = LoggerConfig_default\<lparr>cfg_log_file_path := ''a'', cfg_output_format := BINARY,
     cfg_mmap_region_size := 4096\<rparr>"

lemma demo_opened:
  "\<exists>lg w1. session_opened demo_platform 4096 sim_view sim_base (demo_cfg\<lparr>cfg_output_format := fmt\<rparr>) sim_empty lg w1"
proof -
  let ?cfg = "demo_cfg\<lparr>cfg_output_format := fmt\<rparr>"
  obtain q where q: "register_consumer (MPMCQueue_new QUEUE_SIZE (fresh_entry demo_platform)) = (Inr 0, q)"
    by (rule that) (rule register_fresh)
  have un: "\<not> initialized Logger_new" by (simp add: Logger_new_def)
  have "\<exists>s w1. MMapSink_new (posix demo_platform) (cfg_log_file_path ?cfg)
      (cfg_mmap_region_size ?cfg) (cfg_max_file_size ?cfg) (cfg_max_rotated_files ?cfg)
      sim_empty = Inr (s, w1) \<and> mmap_ptr s \<noteq> None"
    by (simp add: demo_platform_def demo_cfg_def sim_posix_def MMapSink_new_def rfind_slash_def
        open_file_def map_region_def sim_empty_def sim_view_def Let_def)
  then obtain s w1 where s: "MMapSink_new (posix demo_platform) (cfg_log_file_path ?cfg)
      (cfg_mmap_region_size ?cfg) (cfg_max_file_size ?cfg) (cfg_max_rotated_files ?cfg)
      sim_empty = Inr (s, w1)" "mmap_ptr s \<noteq> None" by blast
  have r: "rfind_slash (cfg_log_file_path ?cfg) = None"
    by (simp add: demo_cfg_def rfind_slash_def)
  have "posix_file_ok (posix demo_platform) 4096 sim_view sim_base"
    using sim_file_ok by (simp add: demo_platform_def)
  moreover have "fresh_file_ok (posix demo_platform) sim_view (cfg_log_file_path ?cfg) sim_empty"
    by (simp add: fresh_file_ok_def demo_platform_def sim_posix_def sim_empty_def sim_view_def)
  moreover have "regions_available (posix demo_platform) 4096"
    by (simp add: regions_available_def demo_platform_def sim_posix_def)
  moreover have "unat (cfg_mmap_region_size ?cfg) = 4096"
    "unat (cfg_max_file_size ?cfg) + 4096 < 2 ^ 64" "length (fresh_prefix demo_platform) = 20"
    by (simp_all add: demo_cfg_def LoggerConfig_default_def demo_platform_def)
  ultimately show ?thesis
    using logger_init_fresh [OF un q, of ?cfg sim_empty] s r
    by (simp add: session_opened_def)
qed

lemma demo_session:
  "\<exists>lg w1. session_started demo_platform 4096 sim_view sim_base demo_cfg sim_empty lg w1"
proof -
  have cfg: "demo_cfg\<lparr>cfg_output_format := BINARY\<rparr> = demo_cfg" by (simp add: demo_cfg_def)
  have "cfg_output_format demo_cfg = BINARY" "128 dvd unat (cfg_mmap_region_size demo_cfg)"
    by (simp_all add: demo_cfg_def)
  then show ?thesis using demo_opened [of BINARY, unfolded cfg] by (simp add: session_started_def)
qed

lemma session_reads_back_witness:
  "\<exists>lg w1. read_entries (session_bytes demo_platform sim_view
      ([(replicate 40 demo_entry, False)] @ replicate 41 ([], True)) (replicate 256 (CHR 0x00)) lg w1)
    = replicate 40 demo_entry @ replicate 24 zero_entry"
proof -
  let ?pre = "[(replicate 40 demo_entry, False)]" and ?buf = "replicate 256 (CHR 0x00)"
  obtain lg w1 where s: "session_started demo_platform 4096 sim_view sim_base demo_cfg sim_empty lg w1"
    using demo_session by blast
  have wf: "\<forall>e \<in> set (arrivals_of ?pre). wf_entry e" by (simp add: demo_entry_wf)
  have sz: "128 * length (arrivals_of ?pre) \<le> unat (cfg_max_file_size demo_cfg)"
    by (simp add: demo_cfg_def LoggerConfig_default_def)
  have buf: "length ?buf = 256" and k: "length (arrivals_of ?pre) < 41" by simp_all
  obtain acc ce' st' n where r: "(\<forall>(as, stop) \<in> set ?pre. \<not> stop)
      \<and> length (arrivals_of ?pre) \<le> QUEUE_SIZE \<longrightarrow> acc = arrivals_of ?pre"
    "read_entries (session_bytes demo_platform sim_view (?pre @ replicate 41 ([], True)) ?buf lg w1)
      = acc @ replicate n zero_entry"
    "128 * n \<le> unat (cfg_mmap_region_size demo_cfg)"
    "unat (cfg_mmap_region_size demo_cfg) dvd 128 * (length acc + n)"
    using session_reads_back [OF s buf wf sz k] by (elim exE conjE) (rule that; assumption)
  have quiet: "\<forall>(as, stop) \<in> set ?pre. \<not> stop" by simp
  have arr: "arrivals_of ?pre = replicate 40 demo_entry" by simp
  have short: "length (arrivals_of ?pre) \<le> QUEUE_SIZE" unfolding arr length_replicate QUEUE_SIZE_def by simp
  have acc: "acc = replicate 40 demo_entry" using mp [OF r(1) conjI [OF quiet short]] unfolding arr .
  have R: "unat (cfg_mmap_region_size demo_cfg) = 4096" by (simp add: demo_cfg_def)
  obtain m where m: "128 * (40 + n) = 4096 * m"
    using r(4) unfolding R acc length_replicate by (rule dvdE)
  have "128 * n \<le> 4096" using r(3) unfolding R .
  with m have n: "n = 24" by presburger
  show ?thesis using r(2) unfolding acc n by (intro exI)
qed

text \<open>What the reader prints of a file of records and padding.\<close>

lemma reader_shows_records:
  assumes wf: "\<forall>e \<in> set acc. wf_entry e" and count: "length acc + n < 2 ^ 64 - 1"
    and dates: "dates_ok dates" and junk: "length junk_prefix = 20" "length junk_buf = 256"
    and above: "opt_min_level opts > LVL_TRACE"
  shows "\<exists>ls seen. log_reader dates junk_prefix junk_buf opts
      (concat (map entry_image acc) @ replicate (128 * n) (CHR 0x00))
      = Some (concat ls, of_nat (length (displayed opts 0 acc)), seen)
    \<and> list_all2 (text_line_of dates) (displayed opts 0 acc) ls"
proof -
  let ?log = "concat (map entry_image acc) @ replicate (128 * n) (CHR 0x00)"
  have read: "read_entries ?log = acc @ replicate n zero_entry"
    by (simp add: read_entries_images [OF wf] read_zeros)
  then have len: "0 + length (read_entries ?log) < 2 ^ 64 - 1" using count by simp
  have shown: "displayed opts 0 (read_entries ?log) = displayed opts 0 acc"
    unfolding read using above
    by (intro displayed_append_hidden) (auto simp: entry_passes_def zero_entry_def)
  show ?thesis
    using reader_loop_text [OF dates date_inv_new [OF junk(1)] junk(2) _ len, of opts 0]
      read_entries_wf unfolding log_reader_def shown by auto
qed

text \<open>C31: What the reader shows of a session. With a level filter above \<open>TRACE\<close>, the reader prints,
  for the file a session left, the text lines of exactly the entries the drain loop accepted
  that pass its filters, in order and cut at its limit: the padding of the region does not
  show.\<close>

theorem session_shown_by_reader:
  assumes "session_started pf page view base cfg w lg w1" and "length buf = 256"
    and "\<forall>e \<in> set (arrivals_of pre). wf_entry e"
    and "128 * length (arrivals_of pre) \<le> unat (cfg_max_file_size cfg)"
    and "length (arrivals_of pre) < k"
    and "dates_ok dates" and "length junk_prefix = 20" and "length junk_buf = 256"
    and "opt_min_level opts > LVL_TRACE"
  shows "\<exists>acc ce' st' ls n. drain_loop pf (Suc QUEUE_SIZE) (pre @ replicate k ([], True)) 0
        (lg\<lparr>initialized := False, running := False\<rparr>, buf, w1) = Some (Inr (acc, True, ce', st'))
    \<and> subseq acc (arrivals_of pre)
    \<and> ((\<forall>(as, stop) \<in> set pre. \<not> stop) \<and> length (arrivals_of pre) \<le> QUEUE_SIZE \<longrightarrow> acc = arrivals_of pre)
    \<and> log_reader dates junk_prefix junk_buf opts
        (session_bytes pf view (pre @ replicate k ([], True)) buf lg w1)
      = Some (concat ls, of_nat (length (displayed opts 0 acc)), n)
    \<and> list_all2 (text_line_of dates) (displayed opts 0 acc) ls"
proof -
  let ?file = "session_bytes pf view (pre @ replicate k ([], True)) buf lg w1"
  obtain acc ce' st' n where d: "drain_loop pf (Suc QUEUE_SIZE) (pre @ replicate k ([], True)) 0
        (lg\<lparr>initialized := False, running := False\<rparr>, buf, w1) = Some (Inr (acc, True, ce', st'))"
    and r: "subseq acc (arrivals_of pre)"
    "(\<forall>(as, stop) \<in> set pre. \<not> stop) \<and> length (arrivals_of pre) \<le> QUEUE_SIZE \<longrightarrow> acc = arrivals_of pre"
    "?file = concat (map entry_image acc) @ replicate (128 * n) (CHR 0x00)"
    "128 * n \<le> unat (cfg_mmap_region_size cfg)"
    using session_contents [OF assms(1-5)] by blast
  have wf: "\<forall>e \<in> set acc. wf_entry e" using assms(3) r(1) by (auto dest: list_emb_set)
  have "unat (cfg_max_file_size cfg) + unat (cfg_mmap_region_size cfg) < 2 ^ 64"
    using assms(1) by (simp add: session_started_def session_opened_def)
  then have "length acc + n < 2 ^ 64 - 1"
    using list_emb_length [OF r(1)] assms(4) r(4) by simp
  then obtain ls seen where "log_reader dates junk_prefix junk_buf opts ?file
      = Some (concat ls, of_nat (length (displayed opts 0 acc)), seen)"
    "list_all2 (text_line_of dates) (displayed opts 0 acc) ls"
    using reader_shows_records [OF wf _ assms(6-9)] unfolding r(3) by blast
  then show ?thesis using d r(1,2) by blast
qed

lemma session_shown_by_reader_witness:
  "\<exists>lg w1 ls n. log_reader demo_dates (replicate 20 (CHR 0x00)) (replicate 256 (CHR 0x00))
      (ReaderOptions_default\<lparr>opt_min_level := LVL_INFO\<rparr>)
      (session_bytes demo_platform sim_view
        ([([demo_entry], False)] @ replicate 2 ([], True)) (replicate 256 (CHR 0x00)) lg w1)
    = Some (concat ls, 1, n)"
proof -
  let ?opts = "ReaderOptions_default\<lparr>opt_min_level := LVL_INFO\<rparr>"
  obtain lg w1 where "session_started demo_platform 4096 sim_view sim_base demo_cfg sim_empty lg w1"
    using demo_session by blast
  note s = session_shown_by_reader [OF this, of "replicate 256 (CHR 0x00)" "[([demo_entry], False)]" 2
      demo_dates "replicate 20 (CHR 0x00)" "replicate 256 (CHR 0x00)" ?opts]
  have "displayed ?opts 0 [demo_entry] = [demo_entry]"
    by (simp add: displayed_def entry_passes_def ReaderOptions_default_def demo_entry_def level_defs)
  then show ?thesis
    using s demo_dates_ok
    by (fastforce simp: demo_entry_wf demo_cfg_def LoggerConfig_default_def QUEUE_SIZE_def
        ReaderOptions_default_def level_defs)
qed

text \<open>C6: The two output formats agree. The same statements logged in text format and in
  binary format: what the reader prints of the binary file is, byte for byte, what the text file
  holds before its padding. The lines must fit the first region of the text file, the
  entries the queue, and the reader's options must let every entry pass.\<close>

theorem text_log_is_reader_output:
  assumes "text_session_started pf page view base cfg w lg w1"
    and "session_started pf' page' view' base' cfg' v lg' v1" and "length buf = 256"
    and "\<forall>(as, stop) \<in> set pre. \<not> stop" and "length (arrivals_of pre) \<le> QUEUE_SIZE"
    and "\<forall>e \<in> set (arrivals_of pre). wf_entry e \<and> ts_sec (timestamp_ns e) \<noteq> 0 \<and> entry_passes opts e"
    and "170 * length (arrivals_of pre) \<le> unat (cfg_mmap_region_size cfg)"
    and "128 * length (arrivals_of pre) \<le> unat (cfg_max_file_size cfg')"
    and "length (arrivals_of pre) < k" and "length junk_prefix = 20" and "length junk_buf = 256"
    and "opt_min_level opts > LVL_TRACE" and "limit opts = 0"
  shows "\<exists>out n seen. log_reader (date_string pf) junk_prefix junk_buf opts
        (session_bytes pf' view' (pre @ replicate k ([], True)) buf lg' v1)
      = Some (out, of_nat (length (arrivals_of pre)), seen)
    \<and> session_bytes pf view (pre @ replicate k ([], True)) buf lg w1 = out @ replicate n (CHR 0x00)"
proof -
  let ?es = "arrivals_of pre" and ?dates = "date_string pf"
  have es: "\<forall>e \<in> set ?es. wf_entry e" "\<forall>e \<in> set ?es. ts_sec (timestamp_ns e) \<noteq> 0"
    "displayed opts 0 ?es = ?es"
    using assms(6,13) by (simp_all add: displayed_def filter_id_conv)
  obtain n where t: "session_bytes pf view (pre @ replicate k ([], True)) buf lg w1
      = concat (map (log_line ?dates) ?es) @ replicate n (CHR 0x00)"
    using text_session_contents [OF assms(1,3) es(1,2) assms(7,9)] assms(4,5) by blast
  obtain m where b: "session_bytes pf' view' (pre @ replicate k ([], True)) buf lg' v1
      = concat (map entry_image ?es) @ replicate (128 * m) (CHR 0x00)"
    "128 * m \<le> unat (cfg_mmap_region_size cfg')"
    using session_contents [OF assms(2,3) es(1) assms(8,9)] assms(4,5) by blast
  have "unat (cfg_max_file_size cfg') + unat (cfg_mmap_region_size cfg') < 2 ^ 64"
    using assms(2) by (simp add: session_started_def session_opened_def)
  then have count: "length ?es + m < 2 ^ 64 - 1" using assms(8) b(2) by simp
  have dates: "dates_ok ?dates" using assms(1) by (simp add: text_session_started_def)
  obtain ls seen where r: "log_reader ?dates junk_prefix junk_buf opts
      (concat (map entry_image ?es) @ replicate (128 * m) (CHR 0x00)) = Some (concat ls, of_nat (length ?es), seen)"
    "list_all2 (text_line_of ?dates) ?es ls"
    using reader_shows_records [OF es(1) count dates assms(10-12)] unfolding es(3) by blast
  show ?thesis using r(1) t unfolding b(1) log_lines [OF r(2) es(2)] by blast
qed

definition demo_text_cfg :: LoggerConfig where
  "demo_text_cfg = demo_cfg\<lparr>cfg_output_format := TEXT\<rparr>"

lemma demo_text_session:
  "\<exists>lg w1. text_session_started demo_platform 4096 sim_view sim_base demo_text_cfg sim_empty lg w1"
  using demo_opened [of TEXT] demo_dates_ok
  by (simp add: text_session_started_def demo_text_cfg_def demo_platform_def)

lemma text_log_is_reader_output_witness:
  "\<exists>lg w1 lg' v1 out n seen. log_reader demo_dates (replicate 20 (CHR 0x00)) (replicate 256 (CHR 0x00))
      (ReaderOptions_default\<lparr>opt_min_level := LVL_INFO\<rparr>)
      (session_bytes demo_platform sim_view
        ([([demo_entry], False)] @ replicate 2 ([], True)) (replicate 256 (CHR 0x00)) lg' v1)
    = Some (out, 1, seen)
    \<and> session_bytes demo_platform sim_view
        ([([demo_entry], False)] @ replicate 2 ([], True)) (replicate 256 (CHR 0x00)) lg w1
      = out @ replicate n (CHR 0x00)"
proof -
  let ?opts = "ReaderOptions_default\<lparr>opt_min_level := LVL_INFO\<rparr>"
  let ?pre = "[([demo_entry], False)]" and ?buf = "replicate 256 (CHR 0x00)"
  obtain lg w1 where t: "text_session_started demo_platform 4096 sim_view sim_base demo_text_cfg sim_empty lg w1"
    using demo_text_session by blast
  obtain lg' v1 where b: "session_started demo_platform 4096 sim_view sim_base demo_cfg sim_empty lg' v1"
    using demo_session by blast
  have es: "arrivals_of ?pre = [demo_entry]" by simp
  have q: "\<forall>(as, stop) \<in> set ?pre. \<not> stop" "length (arrivals_of ?pre) \<le> QUEUE_SIZE"
    by (simp_all add: QUEUE_SIZE_def)
  have e: "\<forall>e \<in> set (arrivals_of ?pre). wf_entry e \<and> ts_sec (timestamp_ns e) \<noteq> 0 \<and> entry_passes ?opts e"
    unfolding es by (simp add: demo_entry_wf)
      (simp add: demo_entry_def ts_sec_def entry_passes_def ReaderOptions_default_def level_defs)
  have sz: "170 * length (arrivals_of ?pre) \<le> unat (cfg_mmap_region_size demo_text_cfg)"
    "128 * length (arrivals_of ?pre) \<le> unat (cfg_max_file_size demo_cfg)" "length (arrivals_of ?pre) < 2"
    unfolding es by (simp_all add: demo_text_cfg_def demo_cfg_def LoggerConfig_default_def)
  have ls: "length ?buf = 256" "length (replicate 20 (CHR 0x00)) = 20" "opt_min_level ?opts > LVL_TRACE"
    "limit ?opts = 0"
    by (simp_all add: ReaderOptions_default_def level_defs)
  have d: "date_string demo_platform = demo_dates" "of_nat (length (arrivals_of ?pre)) = (1 :: u64)"
    by (simp_all add: demo_platform_def)
  note r = text_log_is_reader_output [OF t b ls(1) q e sz ls(2,1,3,4), unfolded d]
  show ?thesis by (rule exI [of _ lg], rule exI [of _ w1], rule exI [of _ lg'], rule exI [of _ v1]) (rule r)
qed

end
